(* ===== verification/Wire_Prelude.thy ===== *)
theory Wire_Prelude
  imports Main "HOL-Library.Word"
begin

text \<open>
  Shared vocabulary of the development: machine integers as words, byte strings, big-endian
  conversions, the results of fallible code as sums, the asynchronous reader as a byte list
  that is consumed from the front, and the parts of Rust's \<^verbatim>\<open>std\<close> string library that the
  components use (UTF-8 validation, ASCII classes).

  Rust's \<^verbatim>\<open>usize\<close> is modelled by \<^typ>\<open>nat\<close>; where the source uses checked arithmetic the
  64-bit ceiling is written out. Rust strings are their UTF-8 bytes.
\<close>

named_theorems res_simps \<open>inversion of results built from \<open>and_then\<close> and \<open>require\<close>\<close>
named_theorems wire_defs \<open>definitions of wire encoders and decoders\<close>

section \<open>Machine integers and byte strings\<close>

type_synonym u8 = "8 word"
type_synonym u16 = "16 word"
type_synonym u32 = "32 word"
type_synonym u64 = "64 word"
type_synonym u128 = "128 word"
type_synonym bytes = "u8 list"

definition usize_max :: nat where
  "usize_max = 2 ^ 64 - 1"

definition checked_add :: "nat \<Rightarrow> nat \<Rightarrow> nat option" where
  "checked_add a b = (if a + b \<le> usize_max then Some (a + b) else None)"

text \<open>
  An \<^verbatim>\<open>Instant\<close> is a number of nanoseconds. The last one has the largest signed 64-bit number of
  seconds, as on the 64-bit Unix platforms.
\<close>

type_synonym instant = nat

definition INSTANT_MAX :: instant where
  "INSTANT_MAX = (2 ^ 63 - 1) * 1000000000 + 999999999"

text \<open>The bytes of a string literal.\<close>

definition str :: "string \<Rightarrow> bytes" where
  "str s = map of_char s"

lemma length_str [simp]: "length (str s) = length s"
  by (simp add: str_def)

section \<open>Big-endian integers\<close>

text \<open>
  \<open>to_be n v\<close> is the \<open>n\<close>-byte big-endian representation of \<open>v mod 256 ^ n\<close>
  (Rust's \<^verbatim>\<open>to_be_bytes\<close>, \<^verbatim>\<open>put_u16\<close>, ...); \<open>from_be\<close> reads one back
  (\<^verbatim>\<open>from_be_bytes\<close>, \<^verbatim>\<open>get_u16\<close>, ...).
\<close>

fun to_be :: "nat \<Rightarrow> nat \<Rightarrow> bytes" where
  "to_be 0 v = []"
| "to_be (Suc n) v = to_be n (v div 256) @ [of_nat (v mod 256)]"

definition from_be :: "bytes \<Rightarrow> nat" where
  "from_be bs = foldl (\<lambda>acc b. acc * 256 + unat b) 0 bs"

lemma from_be_Nil [simp]: "from_be [] = 0"
  by (simp add: from_be_def)

lemma from_be_snoc [simp]: "from_be (bs @ [b]) = from_be bs * 256 + unat b"
  by (simp add: from_be_def)

lemma length_to_be [simp]: "length (to_be n v) = n"
  by (induction n arbitrary: v) auto

lemma unat_u8_mod: "unat (of_nat (v mod 256) :: u8) = v mod 256"
  by (simp add: unat_of_nat)

lemma unat_u8_less [simp]: "unat (b :: u8) < 256"
  using unsigned_less [of b] by simp

lemma unat_u8_le [simp]: "unat (b :: u8) \<le> 255"
  using unat_u8_less [of b] by linarith

lemma unat_u8_not_gt [simp]: "\<not> 255 < unat (b :: u8)"
  by (simp add: not_less)

lemma unat_u16_le [simp]: "unat (w :: u16) \<le> 65535"
proof -
  have "unat w < 2 ^ LENGTH(16)"
    by (rule unsigned_less)
  then show ?thesis by simp
qed

lemma from_be_to_be: "from_be (to_be n v) = v mod 256 ^ n"
proof (induction n arbitrary: v)
  case 0
  then show ?case by simp
next
  case (Suc n)
  have "from_be (to_be (Suc n) v) = (v div 256) mod 256 ^ n * 256 + v mod 256"
    by (simp add: Suc.IH unat_u8_mod)
  also have "\<dots> = v mod (256 * 256 ^ n)"
    by (metis add.commute mod_mult2_eq mult.commute)
  finally show ?case by simp
qed

lemma to_be_from_be: "to_be (length bs) (from_be bs) = bs"
proof (induction bs rule: rev_induct)
  case Nil
  then show ?case by simp
next
  case (snoc b bs)
  have "(from_be bs * 256 + unat b) div 256 = from_be bs"
    by simp
  moreover have "of_nat ((from_be bs * 256 + unat b) mod 256) = b"
    by simp
  ultimately show ?case
    using snoc.IH by (simp del: of_nat_add of_nat_mult)
qed

lemma from_be_bound: "from_be bs < 256 ^ length bs"
proof -
  have "from_be bs = from_be bs mod 256 ^ length bs"
    by (metis from_be_to_be to_be_from_be)
  also have "\<dots> < 256 ^ length bs"
    by simp
  finally show ?thesis .
qed

lemma to_be_inj: "v < 256 ^ n \<Longrightarrow> w < 256 ^ n \<Longrightarrow> to_be n v = to_be n w \<Longrightarrow> v = w"
  by (metis from_be_to_be mod_less)

lemma to_be_2: "to_be 2 v = [of_nat (v div 256 mod 256), of_nat (v mod 256)]"
  by (simp add: numeral_2_eq_2)

lemma to_be_4: "to_be 4 v = to_be 2 (v div 256 div 256) @ to_be 2 v"
proof -
  have "(4::nat) = Suc (Suc 2)" by simp
  then show ?thesis by (simp only: to_be.simps) (simp add: to_be_2)
qed

definition be16 :: "u16 \<Rightarrow> bytes" where
  "be16 w = to_be 2 (unat w)"

definition be32 :: "u32 \<Rightarrow> bytes" where
  "be32 w = to_be 4 (unat w)"

definition be64 :: "u64 \<Rightarrow> bytes" where
  "be64 w = to_be 8 (unat w)"

definition be128 :: "u128 \<Rightarrow> bytes" where
  "be128 w = to_be 16 (unat w)"

definition u16_of :: "bytes \<Rightarrow> u16" where
  "u16_of bs = of_nat (from_be bs)"

definition u32_of :: "bytes \<Rightarrow> u32" where
  "u32_of bs = of_nat (from_be bs)"

definition u128_of :: "bytes \<Rightarrow> u128" where
  "u128_of bs = of_nat (from_be bs)"

lemma length_be [simp]:
  "length (be16 w) = 2" "length (be32 x) = 4" "length (be64 y) = 8" "length (be128 z) = 16"
  by (simp_all add: be16_def be32_def be64_def be128_def)

lemma u16_of_be16 [simp]: "u16_of (be16 w) = w"
  using unsigned_less [of w, where 'a = nat] by (simp add: u16_of_def be16_def from_be_to_be)

lemma u32_of_be32 [simp]: "u32_of (be32 w) = w"
  using unsigned_less [of w, where 'a = nat] by (simp add: u32_of_def be32_def from_be_to_be)

lemma u128_of_be128 [simp]: "u128_of (be128 w) = w"
  using unsigned_less [of w, where 'a = nat] by (simp add: u128_of_def be128_def from_be_to_be)

lemma be16_u16_of [simp]: "length bs = 2 \<Longrightarrow> be16 (u16_of bs) = bs"
  using from_be_bound [of bs] to_be_from_be [of bs]
  by (simp add: u16_of_def be16_def unat_of_nat)

lemma be32_u32_of [simp]: "length bs = 4 \<Longrightarrow> be32 (u32_of bs) = bs"
  using from_be_bound [of bs] to_be_from_be [of bs]
  by (simp add: u32_of_def be32_def unat_of_nat)

lemma be128_u128_of [simp]: "length bs = 16 \<Longrightarrow> be128 (u128_of bs) = bs"
  using from_be_bound [of bs] to_be_from_be [of bs]
  by (simp add: u128_of_def be128_def unat_of_nat)


section \<open>Results of fallible code\<close>

text \<open>
  Rust's \<^verbatim>\<open>Result<T, E>\<close> is the sum \<open>'e + 'a\<close> with \<open>Inl\<close> for \<^verbatim>\<open>Err\<close>.
  \<open>and_then\<close> is the \<^verbatim>\<open>?\<close> operator: it continues with the value or returns the error.
  Of \<^verbatim>\<open>io::Error\<close> the kind is kept; the message text is not.
\<close>

datatype io_error =
  InvalidInput | InvalidData | UnexpectedEof | ConnectionRefused | ConnectionReset
| ConnectionAborted | FileTooLarge | BrokenPipe | IoPermissionDenied | IoNetworkUnreachable
| IoHostUnreachable | IoTimedOut | NotConnected | WriteZero | WouldBlock | IoOther

fun and_then :: "'e + 'a \<Rightarrow> ('a \<Rightarrow> 'e + 'b) \<Rightarrow> 'e + 'b" where
  "and_then (Inl e) f = Inl e"
| "and_then (Inr x) f = f x"

fun map_err :: "('e \<Rightarrow> 'f) \<Rightarrow> 'e + 'a \<Rightarrow> 'f + 'a" where
  "map_err g (Inl e) = Inl (g e)"
| "map_err g (Inr x) = Inr x"

definition ok_or :: "'e \<Rightarrow> 'a option \<Rightarrow> 'e + 'a" where
  "ok_or e v = (case v of None \<Rightarrow> Inl e | Some x \<Rightarrow> Inr x)"

fun is_ok :: "'e + 'a \<Rightarrow> bool" where
  "is_ok (Inl e) = False"
| "is_ok (Inr x) = True"

lemma and_then_Inr_iff [res_simps]:
  "and_then r f = Inr y \<longleftrightarrow> (\<exists>x. r = Inr x \<and> f x = Inr y)"
  by (cases r) auto

lemma and_then_Inl_iff:
  "and_then r f = Inl e \<longleftrightarrow> r = Inl e \<or> (\<exists>x. r = Inr x \<and> f x = Inl e)"
  by (cases r) auto

lemma map_err_Inr_iff [res_simps]: "map_err g r = Inr y \<longleftrightarrow> r = Inr y"
  by (cases r) auto

lemma ok_or_simps [simp]: "ok_or e None = Inl e" "ok_or e (Some x) = Inr x"
  by (simp_all add: ok_or_def)

lemma ok_or_Inr_iff [res_simps]: "ok_or e v = Inr x \<longleftrightarrow> v = Some x"
  by (cases v) auto

lemma is_ok_iff: "is_ok r \<longleftrightarrow> (\<exists>x. r = Inr x)"
  by (cases r) auto

lemma if_Inl_Inr_iff [res_simps]:
  "(if b then Inl e else r) = Inr x \<longleftrightarrow> \<not> b \<and> r = Inr x"
  by simp

section \<open>Checked access to byte strings\<close>

text \<open>Rust's \<^verbatim>\<open>slice.get(a..b)\<close>: \<open>None\<close> when the range is not inside the slice.\<close>

definition get_range :: "'a list \<Rightarrow> nat \<Rightarrow> nat \<Rightarrow> 'a list option" where
  "get_range xs a b = (if a \<le> b \<and> b \<le> length xs then Some (take (b - a) (drop a xs)) else None)"

text \<open>Rust's \<^verbatim>\<open>slice.get(i)\<close>.\<close>

definition get_at :: "'a list \<Rightarrow> nat \<Rightarrow> 'a option" where
  "get_at xs i = (if i < length xs then Some (xs ! i) else None)"

text \<open>Rust's \<^verbatim>\<open>&xs[a..b]\<close> where the caller has checked the range.\<close>

definition subslice :: "'a list \<Rightarrow> nat \<Rightarrow> nat \<Rightarrow> 'a list" where
  "subslice xs a b = take (b - a) (drop a xs)"

lemma get_range_Some_iff [res_simps]:
  "get_range xs a b = Some ys \<longleftrightarrow> a \<le> b \<and> b \<le> length xs \<and> ys = subslice xs a b"
  by (auto simp: get_range_def subslice_def)

lemma get_at_Some_iff [res_simps]: "get_at xs i = Some x \<longleftrightarrow> i < length xs \<and> x = xs ! i"
  by (auto simp: get_at_def)

lemma length_slice [simp]: "b \<le> length xs \<Longrightarrow> length (subslice xs a b) = b - a"
  by (simp add: subslice_def)

lemma slice_append_mid:
  "subslice (xs @ ys @ zs) (length xs) (length xs + length ys) = ys"
  by (simp add: subslice_def)

lemma slice_append_slice: "a \<le> b \<Longrightarrow> b \<le> c \<Longrightarrow> subslice xs a b @ subslice xs b c = subslice xs a c"
proof -
  assume "a \<le> b" "b \<le> c"
  then have "subslice xs a c = take ((b - a) + (c - b)) (drop a xs)"
    by (simp add: subslice_def)
  also have "\<dots> = take (b - a) (drop a xs) @ take (c - b) (drop (b - a) (drop a xs))"
    by (rule take_add)
  finally show ?thesis
    using \<open>a \<le> b\<close> by (simp add: subslice_def)
qed

lemma slice_at:
  "a = length xs \<Longrightarrow> b = length xs + length ys \<Longrightarrow> subslice (xs @ ys @ zs) a b = ys"
  by (simp add: subslice_def)

lemma take_slice: "a \<le> b \<Longrightarrow> take b xs = take a xs @ subslice xs a b"
  using slice_append_slice [of 0 a b xs] by (simp add: subslice_def)

lemma take_one: "0 < length xs \<Longrightarrow> take (Suc 0) xs = [xs ! 0]"
  by (cases xs) auto

lemma take_two: "1 < length xs \<Longrightarrow> take 2 xs = [xs ! 0, xs ! 1]"
  by (cases xs; cases "tl xs") (auto simp: numeral_2_eq_2)

lemma slice_one: "i < length xs \<Longrightarrow> subslice xs i (Suc i) = [xs ! i]"
  by (simp add: subslice_def take_Suc_conv_app_nth)

section \<open>The reader\<close>

text \<open>
  An \<^verbatim>\<open>AsyncRead\<close> is the byte list it will still deliver: \<open>read_exact\<close> takes its prefix
  and fails with \<open>UnexpectedEof\<close> when the stream ends first.
\<close>

definition read_exact :: "nat \<Rightarrow> bytes \<Rightarrow> io_error + bytes \<times> bytes" where
  "read_exact n bs = (if length bs < n then Inl UnexpectedEof else Inr (take n bs, drop n bs))"

definition read_u8 :: "bytes \<Rightarrow> io_error + u8 \<times> bytes" where
  "read_u8 bs = (case bs of [] \<Rightarrow> Inl UnexpectedEof | b # rest \<Rightarrow> Inr (b, rest))"

definition read_u16 :: "bytes \<Rightarrow> io_error + u16 \<times> bytes" where
  "read_u16 bs = and_then (read_exact 2 bs) (\<lambda>(w, rest). Inr (u16_of w, rest))"

lemma read_u8_simps [simp]: "read_u8 [] = Inl UnexpectedEof" "read_u8 (b # bs) = Inr (b, bs)"
  by (simp_all add: read_u8_def)

lemma read_exact_append [simp]: "length w = n \<Longrightarrow> read_exact n (w @ rest) = Inr (w, rest)"
  by (simp add: read_exact_def)

lemma read_u16_be16 [simp]: "read_u16 (be16 w @ rest) = Inr (w, rest)"
  by (simp add: read_u16_def)

lemma read_exact_Inr_iff [res_simps]:
  "read_exact n bs = Inr (w, rest) \<longleftrightarrow> bs = w @ rest \<and> length w = n"
  by (auto simp: read_exact_def append_eq_conv_conj)

lemma read_u8_Inr_iff [res_simps]: "read_u8 bs = Inr (b, rest) \<longleftrightarrow> bs = b # rest"
  by (cases bs) auto

lemma read_u16_Inr_iff [res_simps]: "read_u16 bs = Inr (w, rest) \<longleftrightarrow> bs = be16 w @ rest"
  by (force simp: read_u16_def res_simps)

section \<open>Strings of the standard library\<close>

text \<open>
  \<^verbatim>\<open>str::from_utf8\<close> accepts exactly the well-formed sequences of the Unicode standard
  (table 3-7): no overlong forms, no surrogates, nothing above U+10FFFF.
\<close>

definition utf8_tail :: "u8 \<Rightarrow> bool" where
  "utf8_tail b \<longleftrightarrow> 0x80 \<le> b \<and> b \<le> 0xBF"

fun utf8_valid :: "bytes \<Rightarrow> bool" where
  "utf8_valid [] = True"
| "utf8_valid (b # bs) =
     (if b < 0x80 then utf8_valid bs
      else if 0xC2 \<le> b \<and> b \<le> 0xDF then
        (case bs of c # rest \<Rightarrow> utf8_tail c \<and> utf8_valid rest | _ \<Rightarrow> False)
      else if 0xE0 \<le> b \<and> b \<le> 0xEF then
        (case bs of c # d # rest \<Rightarrow>
           (if b = 0xE0 then 0xA0 \<le> c \<and> c \<le> 0xBF
            else if b = 0xED then 0x80 \<le> c \<and> c \<le> 0x9F else utf8_tail c) \<and>
           utf8_tail d \<and> utf8_valid rest
         | _ \<Rightarrow> False)
      else if 0xF0 \<le> b \<and> b \<le> 0xF4 then
        (case bs of c # d # e # rest \<Rightarrow>
           (if b = 0xF0 then 0x90 \<le> c \<and> c \<le> 0xBF
            else if b = 0xF4 then 0x80 \<le> c \<and> c \<le> 0x8F else utf8_tail c) \<and>
           utf8_tail d \<and> utf8_tail e \<and> utf8_valid rest
         | _ \<Rightarrow> False)
      else False)"

definition is_ascii :: "bytes \<Rightarrow> bool" where
  "is_ascii bs = list_all (\<lambda>b. b < 0x80) bs"

lemma ascii_utf8_valid: "is_ascii bs \<Longrightarrow> utf8_valid bs"
  by (induction bs) (auto simp: is_ascii_def)

definition is_ascii_control :: "u8 \<Rightarrow> bool" where
  "is_ascii_control b \<longleftrightarrow> b < 0x20 \<or> b = 0x7F"

definition is_ascii_digit :: "u8 \<Rightarrow> bool" where
  "is_ascii_digit b \<longleftrightarrow> 0x30 \<le> b \<and> b \<le> 0x39"

definition is_ascii_uppercase :: "u8 \<Rightarrow> bool" where
  "is_ascii_uppercase b \<longleftrightarrow> 0x41 \<le> b \<and> b \<le> 0x5A"

definition is_ascii_lowercase :: "u8 \<Rightarrow> bool" where
  "is_ascii_lowercase b \<longleftrightarrow> 0x61 \<le> b \<and> b \<le> 0x7A"

definition is_ascii_alphanumeric :: "u8 \<Rightarrow> bool" where
  "is_ascii_alphanumeric b \<longleftrightarrow>
     is_ascii_digit b \<or> is_ascii_uppercase b \<or> is_ascii_lowercase b"

definition to_ascii_lowercase :: "u8 \<Rightarrow> u8" where
  "to_ascii_lowercase b = (if is_ascii_uppercase b then b + 32 else b)"

definition ascii_lowercase :: "bytes \<Rightarrow> bytes" where
  "ascii_lowercase bs = map to_ascii_lowercase bs"

lemma to_ascii_lowercase_not_upper [simp]: "\<not> is_ascii_uppercase (to_ascii_lowercase b)"
  by (auto simp: to_ascii_lowercase_def is_ascii_uppercase_def word_le_nat_alt unat_word_ariths)

lemma to_ascii_lowercase_idem [simp]:
  "to_ascii_lowercase (to_ascii_lowercase b) = to_ascii_lowercase b"
  by (subst (1) to_ascii_lowercase_def) simp

lemma ascii_lowercase_idem [simp]: "ascii_lowercase (ascii_lowercase bs) = ascii_lowercase bs"
  by (simp add: ascii_lowercase_def)

lemma length_ascii_lowercase [simp]: "length (ascii_lowercase bs) = length bs"
  by (simp add: ascii_lowercase_def)

end
