(* ===== verification/Wire_Codec.thy ===== *)
theory Wire_Codec
  imports Wire_Prelude
begin

text \<open>
  The contract of a self-delimiting wire codec, as the address codecs of the proxy protocols
  have it: the decoder reads a value from the front of a buffer and says how many bytes it
  used. What a client of such a codec relies on is proved once here.
\<close>

locale prefix_codec =
  fixes enc :: "'a \<Rightarrow> 'e + bytes"
    and dec :: "bytes \<Rightarrow> 'f + 'a \<times> nat"
    and valid :: "'a \<Rightarrow> bool"
  assumes enc_ok: "valid x \<Longrightarrow> \<exists>w. enc x = Inr w"
    and dec_enc: "valid x \<Longrightarrow> enc x = Inr w \<Longrightarrow> dec (w @ rest) = Inr (x, length w)"
    and enc_dec: "dec bs = Inr (x, n) \<Longrightarrow> valid x \<and> n \<le> length bs \<and> enc x = Inr (take n bs)"
begin

lemma dec_append: "dec bs = Inr (x, n) \<Longrightarrow> dec (bs @ rest) = Inr (x, n)"
  using enc_dec [of bs x n] dec_enc [of x "take n bs" "drop n bs @ rest"]
  by (metis append_assoc append_take_drop_id length_take min_absorb2)

lemma dec_iff: "dec bs = Inr (x, n) \<longleftrightarrow> valid x \<and> n \<le> length bs \<and> enc x = Inr (take n bs)"
proof
  assume "valid x \<and> n \<le> length bs \<and> enc x = Inr (take n bs)"
  then show "dec bs = Inr (x, n)"
    using dec_enc [of x "take n bs" "drop n bs"] by (simp add: min_absorb2)
qed (rule enc_dec)

lemma dec_stream:
  "(\<exists>n. dec bs = Inr (x, n) \<and> rest = drop n bs) \<longleftrightarrow>
     (\<exists>w. valid x \<and> enc x = Inr w \<and> bs = w @ rest)"
proof
  assume "\<exists>n. dec bs = Inr (x, n) \<and> rest = drop n bs"
  then obtain n where n: "dec bs = Inr (x, n)" "rest = drop n bs"
    by blast
  then have "bs = take n bs @ rest" by simp
  with n show "\<exists>w. valid x \<and> enc x = Inr w \<and> bs = w @ rest"
    using enc_dec [OF n(1)] by blast
next
  assume "\<exists>w. valid x \<and> enc x = Inr w \<and> bs = w @ rest"
  then obtain w where w: "valid x" "enc x = Inr w" "bs = w @ rest"
    by blast
  then have "dec bs = Inr (x, length w)" "rest = drop (length w) bs"
    by (simp_all add: dec_enc)
  then show "\<exists>n. dec bs = Inr (x, n) \<and> rest = drop n bs" by blast
qed

lemma prefix_free:
  assumes "valid x" "valid y" "enc x = Inr w" "enc y = Inr (w @ v)"
  shows "x = y" and "v = []"
proof -
  have "dec (w @ v) = Inr (x, length w)"
    using assms dec_enc by blast
  moreover have "dec (w @ v) = Inr (y, length (w @ v))"
    using assms dec_enc [of y "w @ v" "[]"] by simp
  ultimately show "x = y" and "v = []" by auto
qed

lemma enc_inj: "valid x \<Longrightarrow> valid y \<Longrightarrow> enc x = Inr w \<Longrightarrow> enc y = Inr w \<Longrightarrow> x = y"
  using prefix_free [of x y w "[]"] by simp

lemma dec_truncated: "dec bs = Inr (x, n) \<Longrightarrow> m < n \<Longrightarrow> \<not> is_ok (dec (take m bs))"
proof
  assume ok: "dec bs = Inr (x, n)" "m < n" and "is_ok (dec (take m bs))"
  then obtain y k where y: "dec (take m bs) = Inr (y, k)"
    by (auto simp: is_ok_iff)
  then have "k \<le> m" using enc_dec by fastforce
  moreover have "dec bs = Inr (y, k)"
    using dec_append [OF y, of "drop m bs"] by simp
  ultimately show False using ok by simp
qed

end

end
