(* ===== verification/Session_Model.thy ===== *)
theory Session_Model
  imports Wire_Codec
begin

text \<open>
  The vocabulary of \<^verbatim>\<open>src/session.rs\<close>: socket addresses and destinations, inbound kinds, the
  datagram sessions with their response budgets, and datagrams. An address is the integer of
  its octets; an IPv6 socket address keeps the flow label and scope of \<^verbatim>\<open>SocketAddrV6\<close>,
  which no wire format of the program carries.
\<close>

datatype ip_addr = IpV4 u32 | IpV6 u128

datatype socket_addr =
  SocketV4 u32 u16
| SocketV6 u128 u16 u32 u32

datatype destination =
  DestIp socket_addr
| DestDomain bytes u16

fun socket_port :: "socket_addr \<Rightarrow> u16" where
  "socket_port (SocketV4 ip port) = port"
| "socket_port (SocketV6 ip port flow scope) = port"

fun socket_ip :: "socket_addr \<Rightarrow> ip_addr" where
  "socket_ip (SocketV4 ip port) = IpV4 ip"
| "socket_ip (SocketV6 ip port flow scope) = IpV6 ip"

text \<open>\<^verbatim>\<open>SocketAddr::new(ip, port)\<close> and \<^verbatim>\<open>SocketAddr::from((octets, port))\<close>.\<close>

fun socket_new :: "ip_addr \<Rightarrow> u16 \<Rightarrow> socket_addr" where
  "socket_new (IpV4 ip) port = SocketV4 ip port"
| "socket_new (IpV6 ip) port = SocketV6 ip port 0 0"

definition destination_domain :: "bytes \<Rightarrow> u16 \<Rightarrow> io_error + destination" where
  "destination_domain host port =
     (if host = [] \<or> 255 < length host \<or> port = 0 \<or> list_ex is_ascii_control host
      then Inl InvalidInput
      else Inr (DestDomain host port))"

fun destination_port :: "destination \<Rightarrow> u16" where
  "destination_port (DestIp address) = socket_port address"
| "destination_port (DestDomain host port) = port"

text \<open>
  What a wire format can carry: a name is a non-empty UTF-8 string of at most 255 bytes with
  no control characters, the port is not zero, and an IPv6 address has no flow label or scope.
\<close>

fun plain_socket :: "socket_addr \<Rightarrow> bool" where
  "plain_socket (SocketV4 ip port) = True"
| "plain_socket (SocketV6 ip port flow scope) = (flow = 0 \<and> scope = 0)"

fun wire_destination :: "destination \<Rightarrow> bool" where
  "wire_destination (DestIp address) = (socket_port address \<noteq> 0 \<and> plain_socket address)"
| "wire_destination (DestDomain host port) =
     (utf8_valid host \<and> destination_domain host port = Inr (DestDomain host port))"

section \<open>Datagram sessions\<close>

datatype inbound_kind = Tun | Http | Socks5 | InternalDns | InternalGeoData | InternalMeasure

record datagram_session =
  ds_inbound :: inbound_kind
  ds_source :: socket_addr
  ds_max_response_payload_size :: u16

record datagram =
  dg_remote :: destination
  dg_payload :: bytes
  dg_sniffed_domain :: "bytes option"

definition DEFAULT_TUN_MTU :: nat where "DEFAULT_TUN_MTU = 1500"
definition IPV6_UDP_OVERHEAD :: nat where "IPV6_UDP_OVERHEAD = 48"
definition SOCKS5_UDP_PACKET_LIMIT :: nat where "SOCKS5_UDP_PACKET_LIMIT = 65507"

definition datagram_session_new :: "inbound_kind \<Rightarrow> socket_addr \<Rightarrow> datagram_session" where
  "datagram_session_new inbound source =
     \<lparr>ds_inbound = inbound, ds_source = source,
      ds_max_response_payload_size =
        (case inbound of
           Tun \<Rightarrow> of_nat (DEFAULT_TUN_MTU - IPV6_UDP_OVERHEAD)
         | InternalDns \<Rightarrow> 4096
         | InternalGeoData \<Rightarrow> 65535
         | InternalMeasure \<Rightarrow> 65535
         | Http \<Rightarrow> 65535
         | Socks5 \<Rightarrow> of_nat (SOCKS5_UDP_PACKET_LIMIT - 262))\<rparr>"

definition datagram_session_for_tun :: "socket_addr \<Rightarrow> nat \<Rightarrow> datagram_session" where
  "datagram_session_for_tun source mtu =
     (let payload_size = mtu - IPV6_UDP_OVERHEAD in
      \<lparr>ds_inbound = Tun, ds_source = source,
       ds_max_response_payload_size =
         (if 65535 < payload_size then 65535 else of_nat payload_size)\<rparr>)"

text \<open>The response budget of a TUN session never makes an IPv6 UDP packet exceed its MTU.\<close>

lemma for_tun_budget:
  "IPV6_UDP_OVERHEAD \<le> mtu \<Longrightarrow>
   unat (ds_max_response_payload_size (datagram_session_for_tun source mtu)) + IPV6_UDP_OVERHEAD \<le> mtu"
  by (auto simp: datagram_session_for_tun_def Let_def unat_of_nat simp del: of_nat_diff)

lemma for_tun_default:
  "datagram_session_for_tun source DEFAULT_TUN_MTU = datagram_session_new Tun source"
  by (simp add: datagram_session_for_tun_def datagram_session_new_def DEFAULT_TUN_MTU_def
      IPV6_UDP_OVERHEAD_def)

section \<open>Facts the address codecs share\<close>

lemma destination_domain_Inr_iff [res_simps]:
  "destination_domain host port = Inr d \<longleftrightarrow>
     d = DestDomain host port \<and> host \<noteq> [] \<and> length host \<le> 255 \<and> port \<noteq> 0 \<and>
     \<not> list_ex is_ascii_control host"
  by (auto simp: destination_domain_def)

lemma wire_destination_domain [simp]:
  "wire_destination (DestDomain host port) \<longleftrightarrow>
     utf8_valid host \<and> host \<noteq> [] \<and> length host \<le> 255 \<and> port \<noteq> 0 \<and>
     \<not> list_ex is_ascii_control host"
  by (auto simp: destination_domain_def)

declare wire_destination.simps(2) [simp del]

lemma wire_destination_port: "wire_destination d \<Longrightarrow> destination_port d \<noteq> 0"
  by (cases d) auto

lemma unat_of_nat_u8 [simp]: "n \<le> 255 \<Longrightarrow> unat (of_nat n :: u8) = n"
  by (simp add: unat_of_nat)

lemma unat_of_nat_u16 [simp]: "n \<le> 65535 \<Longrightarrow> unat (of_nat n :: u16) = n"
  by (simp add: unat_of_nat)

lemma of_nat_u8_eq_0 [simp]: "n \<le> 255 \<Longrightarrow> (of_nat n :: u8) = 0 \<longleftrightarrow> n = 0"
  by (simp only: unat_of_nat_u8 flip: unat_eq_zero)

end
