(* ===== verification/Socks5_Codec.thy ===== *)
theory Socks5_Codec
  imports Session_Model
begin

text \<open>
  \<^verbatim>\<open>src/socks5.rs\<close>: the SOCKS5 address and UDP datagram codec shared by the inbound and the
  outbound, and the streaming reader of a destination.
\<close>

definition ADDRESS_IPV4 :: u8 where "ADDRESS_IPV4 = 1"
definition ADDRESS_DOMAIN :: u8 where "ADDRESS_DOMAIN = 3"
definition ADDRESS_IPV6 :: u8 where "ADDRESS_IPV6 = 4"

lemmas address_types = ADDRESS_IPV4_def ADDRESS_DOMAIN_def ADDRESS_IPV6_def

definition MAX_UDP_HEADER_SIZE :: nat where
  "MAX_UDP_HEADER_SIZE = 2 + 1 + 1 + 1 + 255 + 2"

datatype socks5_codec_error =
  Truncated | NonZeroReserved | Fragmented | UnsupportedAddress | InvalidDomain | ZeroPort | Oversize

definition read_destination :: "bytes \<Rightarrow> bool \<Rightarrow> io_error + destination \<times> bytes" where
  "read_destination reader allow_zero_port =
     and_then (read_u8 reader) (\<lambda>(address_type, reader).
     and_then
       (if address_type = ADDRESS_IPV4 then
          and_then (read_exact 4 reader) (\<lambda>(octets, reader).
          and_then (read_u16 reader) (\<lambda>(port, reader).
          Inr (DestIp (SocketV4 (u32_of octets) port), reader)))
        else if address_type = ADDRESS_IPV6 then
          and_then (read_exact 16 reader) (\<lambda>(octets, reader).
          and_then (read_u16 reader) (\<lambda>(port, reader).
          Inr (DestIp (SocketV6 (u128_of octets) port 0 0), reader)))
        else if address_type = ADDRESS_DOMAIN then
          and_then (read_u8 reader) (\<lambda>(len, reader).
          if len = 0 then Inl InvalidInput else
          and_then (read_exact (unat len) reader) (\<lambda>(domain, reader).
          if \<not> utf8_valid domain then Inl InvalidInput else
          and_then (read_u16 reader) (\<lambda>(port, reader).
          if port = 0 \<and> allow_zero_port then Inr (DestDomain domain port, reader)
          else and_then (destination_domain domain port) (\<lambda>d. Inr (d, reader)))))
        else Inl InvalidInput) (\<lambda>(destination, reader).
     if destination_port destination = 0 \<and> \<not> allow_zero_port then Inl InvalidInput
     else Inr (destination, reader)))"

definition decode_address :: "bytes \<Rightarrow> socks5_codec_error + destination \<times> nat" where
  "decode_address packet =
     and_then (ok_or Truncated (get_at packet 0)) (\<lambda>address_type.
     if address_type = ADDRESS_IPV4 then
       (if length packet < 7 then Inl Truncated else
        let port = u16_of (subslice packet 5 7) in
        if port = 0 then Inl ZeroPort
        else Inr (DestIp (SocketV4 (u32_of (subslice packet 1 5)) port), 7))
     else if address_type = ADDRESS_IPV6 then
       (if length packet < 19 then Inl Truncated else
        let port = u16_of (subslice packet 17 19) in
        if port = 0 then Inl ZeroPort
        else Inr (DestIp (SocketV6 (u128_of (subslice packet 1 17)) port 0 0), 19))
     else if address_type = ADDRESS_DOMAIN then
       and_then (ok_or Truncated (get_at packet 1)) (\<lambda>len.
       let len = unat len in
       if len = 0 \<or> length packet < len + 4
       then Inl (if len = 0 then InvalidDomain else Truncated)
       else
         let domain = subslice packet 2 (2 + len) in
         if \<not> utf8_valid domain then Inl InvalidDomain else
         let port = u16_of (subslice packet (2 + len) (4 + len)) in
         if port = 0 then Inl ZeroPort
         else and_then (map_err (\<lambda>_. InvalidDomain) (destination_domain domain port))
                (\<lambda>d. Inr (d, len + 4)))
     else Inl UnsupportedAddress)"

definition decode_udp_packet :: "bytes \<Rightarrow> nat \<Rightarrow> socks5_codec_error + destination \<times> bytes" where
  "decode_udp_packet packet max_size =
     (if max_size < length packet then Inl Oversize
      else if length packet < 4 then Inl Truncated
      else if subslice packet 0 2 \<noteq> [0, 0] then Inl NonZeroReserved
      else if packet ! 2 \<noteq> 0 then Inl Fragmented
      else and_then (decode_address (drop 3 packet)) (\<lambda>(destination, consumed).
           Inr (destination, drop (3 + consumed) packet)))"

fun encoded_address_size :: "destination \<Rightarrow> socks5_codec_error + nat" where
  "encoded_address_size (DestIp (SocketV4 ip port)) = Inr (1 + 4 + 2)"
| "encoded_address_size (DestIp (SocketV6 ip port flow scope)) = Inr (1 + 16 + 2)"
| "encoded_address_size (DestDomain host port) =
     (if 1 \<le> length host \<and> length host \<le> 255 then Inr (1 + 1 + length host + 2)
      else Inl UnsupportedAddress)"

fun encode_address :: "destination \<Rightarrow> bytes \<Rightarrow> io_error + bytes" where
  "encode_address (DestIp (SocketV4 ip port)) output =
     Inr (output @ [ADDRESS_IPV4] @ be32 ip @ be16 port)"
| "encode_address (DestIp (SocketV6 ip port flow scope)) output =
     Inr (output @ [ADDRESS_IPV6] @ be128 ip @ be16 port)"
| "encode_address (DestDomain host port) output =
     (if 255 < length host then Inl InvalidInput
      else if host = [] then Inl InvalidInput
      else Inr (output @ [ADDRESS_DOMAIN, of_nat (length host)] @ host @ be16 port))"

definition encode_udp_packet :: "destination \<Rightarrow> bytes \<Rightarrow> nat \<Rightarrow> socks5_codec_error + bytes" where
  "encode_udp_packet remote payload max_size =
     and_then (encoded_address_size remote) (\<lambda>address_size.
     and_then (ok_or Oversize (Option.bind (checked_add 3 address_size)
                                 (\<lambda>size. checked_add size (length payload)))) (\<lambda>packet_size.
     if max_size < packet_size then Inl Oversize
     else and_then (map_err (\<lambda>_. UnsupportedAddress) (encode_address remote [0, 0, 0])) (\<lambda>packet.
          Inr (packet @ payload))))"

section \<open>The address codec\<close>

lemma encode_address_output:
  "encode_address d output = and_then (encode_address d []) (\<lambda>w. Inr (output @ w))"
  by (cases "(d, output)" rule: encode_address.cases) auto

lemma encode_address_length:
  "encode_address d output = Inr w \<Longrightarrow> encoded_address_size d = Inr (length w - length output)"
  by (cases "(d, output)" rule: encode_address.cases) (auto split: if_splits simp: Suc_le_eq)

lemma encode_address_ok: "wire_destination d \<Longrightarrow> \<exists>w. encode_address d output = Inr w"
  by (cases "(d, output)" rule: encode_address.cases) auto

lemma decode_encode_address:
  assumes "wire_destination d" "encode_address d [] = Inr w"
  shows "decode_address (w @ rest) = Inr (d, length w)"
proof (cases d)
  case (DestIp a)
  show ?thesis
  proof (cases a)
    case (SocketV4 ip port)
    then have w: "w = [ADDRESS_IPV4] @ be32 ip @ be16 port" and "port \<noteq> 0"
      using assms DestIp by auto
    moreover have "subslice (w @ rest) 1 5 = be32 ip" "subslice (w @ rest) 5 7 = be16 port"
      unfolding w using slice_at [of 1 "[ADDRESS_IPV4]" 5 "be32 ip" "be16 port @ rest"]
        slice_at [of 5 "[ADDRESS_IPV4] @ be32 ip" 7 "be16 port" rest] by simp_all
    ultimately show ?thesis
      by (simp add: DestIp SocketV4 decode_address_def get_at_def)
  next
    case (SocketV6 ip port flow scope)
    then have w: "w = [ADDRESS_IPV6] @ be128 ip @ be16 port" and "port \<noteq> 0" "flow = 0" "scope = 0"
      using assms DestIp by auto
    moreover have "subslice (w @ rest) 1 17 = be128 ip" "subslice (w @ rest) 17 19 = be16 port"
      unfolding w using slice_at [of 1 "[ADDRESS_IPV6]" 17 "be128 ip" "be16 port @ rest"]
        slice_at [of 17 "[ADDRESS_IPV6] @ be128 ip" 19 "be16 port" rest] by simp_all
    ultimately show ?thesis
      by (simp add: DestIp SocketV6 decode_address_def get_at_def address_types)
  qed
next
  case (DestDomain host port)
  let ?h = "[ADDRESS_DOMAIN, of_nat (length host)]"
  have h: "host \<noteq> []" "length host \<le> 255" "port \<noteq> 0" "utf8_valid host"
      "\<not> list_ex is_ascii_control host" and w: "w = ?h @ host @ be16 port"
    using assms DestDomain by (auto split: if_splits)
  moreover have "subslice (w @ rest) 2 (2 + length host) = host"
      "subslice (w @ rest) (2 + length host) (4 + length host) = be16 port"
    unfolding w using slice_at [of 2 ?h "2 + length host" host "be16 port @ rest"]
      slice_at [of "2 + length host" "?h @ host" "4 + length host" "be16 port" rest] by simp_all
  ultimately show ?thesis
    by (simp add: DestDomain decode_address_def get_at_def address_types Let_def
        destination_domain_def)
qed

lemma encode_decode_address:
  assumes "decode_address bs = Inr (d, n)"
  shows "wire_destination d \<and> n \<le> length bs \<and> encode_address d [] = Inr (take n bs)"
proof -
  have ne: "0 < length bs"
    using assms by (auto simp: decode_address_def get_at_def res_simps split: if_splits)
  consider (v4) "bs ! 0 = ADDRESS_IPV4" | (v6) "bs ! 0 = ADDRESS_IPV6"
    | (domain) "bs ! 0 = ADDRESS_DOMAIN"
    using assms by (auto simp: decode_address_def get_at_def split: if_splits)
  then show ?thesis
  proof cases
    case v4
    then have "7 \<le> length bs" "n = 7" "u16_of (subslice bs 5 7) \<noteq> 0"
        "d = DestIp (SocketV4 (u32_of (subslice bs 1 5)) (u16_of (subslice bs 5 7)))"
      using assms ne by (auto simp: decode_address_def get_at_def Let_def split: if_splits)
    then show ?thesis
      using v4 ne by (simp add: take_slice [of 5 7] take_slice [of 1 5] take_one)
  next
    case v6
    then have "19 \<le> length bs" "n = 19" "u16_of (subslice bs 17 19) \<noteq> 0"
        "d = DestIp (SocketV6 (u128_of (subslice bs 1 17)) (u16_of (subslice bs 17 19)) 0 0)"
      using assms ne
      by (auto simp: decode_address_def get_at_def Let_def address_types split: if_splits)
    then show ?thesis
      using v6 ne by (simp add: take_slice [of 17 19] take_slice [of 1 17] take_one)
  next
    case domain
    define len where "len = unat (bs ! 1)"
    define host where "host = subslice bs 2 (2 + len)"
    define port where "port = u16_of (subslice bs (2 + len) (4 + len))"
    have h: "1 < length bs" "len \<noteq> 0" "len + 4 \<le> length bs" "n = len + 4" "utf8_valid host"
        "\<not> list_ex is_ascii_control host" "port \<noteq> 0" "d = DestDomain host port"
      using assms ne domain unfolding len_def host_def port_def
      by (auto simp: decode_address_def get_at_def Let_def address_types res_simps
          split: if_splits)
    then have lh: "length host = len" and "be16 port = subslice bs (2 + len) (4 + len)"
      by (simp_all add: host_def port_def)
    then have "take n bs = [bs ! 0, bs ! 1] @ host @ be16 port"
      using h take_slice [of "2 + len" "4 + len" bs] take_slice [of 2 "2 + len" bs] take_two [of bs]
      by (simp add: host_def add.commute)
    moreover have "len \<le> 255" "of_nat len = bs ! 1"
      by (simp_all add: len_def)
    ultimately show ?thesis
      using h lh domain by auto
  qed
qed

interpretation socks5: prefix_codec "\<lambda>d. encode_address d []" decode_address wire_destination
  by unfold_locales (use encode_address_ok decode_encode_address encode_decode_address in blast)+

section \<open>The UDP datagram codec\<close>

lemma encoded_address_size_wire:
  "encode_address d [] = Inr w \<Longrightarrow> encoded_address_size d = Inr (length w)"
  using encode_address_length [of d "[]" w] by simp

lemma encode_udp_packet_Inr_iff:
  assumes "max_size \<le> usize_max"
  shows "encode_udp_packet d payload max_size = Inr pkt \<longleftrightarrow>
    (\<exists>w. encode_address d [] = Inr w \<and> pkt = [0, 0, 0] @ w @ payload \<and> length pkt \<le> max_size)"
    (is "?lhs \<longleftrightarrow> ?rhs")
proof
  assume ?lhs
  then obtain w where "encode_address d [] = Inr w" "pkt = [0, 0, 0] @ w @ payload"
      "3 + length w + length payload \<le> max_size"
    by (auto simp: encode_udp_packet_def res_simps encode_address_output [of d "[0, 0, 0]"]
        bind_eq_Some_conv checked_add_def encoded_address_size_wire not_less split: if_splits)
  then show ?rhs by simp
next
  assume ?rhs
  then show ?lhs
    using assms
    by (auto simp: encode_udp_packet_def encoded_address_size_wire checked_add_def
        encode_address_output [of d "[0, 0, 0]"])
qed

lemma decode_udp_packet_Inr_iff:
  "decode_udp_packet pkt max_size = Inr (d, payload) \<longleftrightarrow>
    length pkt \<le> max_size \<and>
    (\<exists>w. wire_destination d \<and> encode_address d [] = Inr w \<and> pkt = [0, 0, 0] @ w @ payload)"
    (is "?lhs \<longleftrightarrow> ?rhs")
proof
  assume ?lhs
  then obtain n where dec: "decode_address (drop 3 pkt) = Inr (d, n)" "payload = drop (3 + n) pkt"
    and hd: "length pkt \<le> max_size" "4 \<le> length pkt" "subslice pkt 0 2 = [0, 0]" "pkt ! 2 = 0"
    by (auto simp: decode_udp_packet_def res_simps split: if_splits prod.splits)
  have "pkt = take 3 pkt @ take n (drop 3 pkt) @ drop (3 + n) pkt"
    by (metis add.commute append_take_drop_id drop_drop)
  moreover have "take 3 pkt = [0, 0, 0]"
    using hd take_slice [of 2 3 pkt] slice_one [of 2 pkt] by (simp add: subslice_def)
  ultimately show ?rhs
    using dec hd socks5.enc_dec [OF dec(1)] by auto
next
  assume ?rhs
  then obtain w where w: "length pkt \<le> max_size" "wire_destination d" "encode_address d [] = Inr w"
      "pkt = [0, 0, 0] @ w @ payload"
    by blast
  then have "decode_address (w @ payload) = Inr (d, length w)"
    by (simp add: socks5.dec_enc)
  moreover have "w \<noteq> []"
    using encode_address_length [OF w(3)]
    by (cases d rule: encoded_address_size.cases) (auto split: if_splits)
  ultimately show ?lhs
    using w by (simp add: decode_udp_packet_def subslice_def numeral_2_eq_2 numeral_3_eq_3 Suc_le_eq)
qed

text \<open>
  Claim C10. The UDP datagram codec is exact: a packet decodes to a destination and payload if and
  only if encoding that destination and payload under the same size limit gives that packet and
  the destination is one the wire can carry. No two packets mean the same datagram, and nothing
  that was encoded decodes to something else.
\<close>
theorem socks5_udp_codec_exact:
  assumes "max_size \<le> usize_max"
  shows "decode_udp_packet pkt max_size = Inr (d, payload) \<longleftrightarrow>
    wire_destination d \<and> encode_udp_packet d payload max_size = Inr pkt"
  using assms by (auto simp: decode_udp_packet_Inr_iff encode_udp_packet_Inr_iff)

theorem socks5_udp_codec_exact_witness:
  "decode_udp_packet [0, 0, 0, 1, 127, 0, 0, 1, 0, 53, 42] 65535
     = Inr (DestIp (SocketV4 0x7F000001 53), [42]) \<longleftrightarrow>
   wire_destination (DestIp (SocketV4 0x7F000001 53)) \<and>
   encode_udp_packet (DestIp (SocketV4 0x7F000001 53)) [42] 65535
     = Inr [0, 0, 0, 1, 127, 0, 0, 1, 0, 53, 42]"
  by (rule socks5_udp_codec_exact) (simp add: usize_max_def)

text \<open>
  The streaming reader of the TCP handshake and the buffer decoder of UDP datagrams agree:
  \<^verbatim>\<open>read_destination\<close> without zero ports accepts exactly the inputs \<^verbatim>\<open>decode_address\<close> accepts, with
  the same destination, and leaves exactly the bytes after it unread.
\<close>
theorem read_destination_agrees:
  "read_destination bs False = Inr (d, rest) \<longleftrightarrow>
     (\<exists>n. decode_address bs = Inr (d, n) \<and> rest = drop n bs)"
proof -
  have "read_destination bs False = Inr (d, rest) \<longleftrightarrow>
     (\<exists>w. wire_destination d \<and> encode_address d [] = Inr w \<and> bs = w @ rest)" (is "?lhs \<longleftrightarrow> ?rhs")
  proof
    assume ?lhs
    then show ?rhs
      by (auto simp: read_destination_def res_simps address_types split: if_splits prod.splits)
  next
    assume ?rhs
    then show ?lhs
      by (cases "(d, [] :: bytes)" rule: encode_address.cases)
        (auto simp: read_destination_def address_types destination_domain_def split: if_splits)
  qed
  then show ?thesis
    by (simp only: socks5.dec_stream)
qed

text \<open>
  A SOCKS5 association's response budget is safe: every payload within the budget that
  \<^verbatim>\<open>DatagramSession::new\<close> gives a SOCKS5 inbound is encoded, whatever its destination, in one
  packet of at most the UDP wire limit.
\<close>
theorem socks5_budget_fits:
  assumes "wire_destination d"
    and "length payload \<le> unat (ds_max_response_payload_size (datagram_session_new Socks5 source))"
  shows "\<exists>pkt. encode_udp_packet d payload SOCKS5_UDP_PACKET_LIMIT = Inr pkt \<and>
     length pkt \<le> SOCKS5_UDP_PACKET_LIMIT"
proof -
  obtain w where w: "encode_address d [] = Inr w"
    using assms(1) encode_address_ok by blast
  have "length w \<le> MAX_UDP_HEADER_SIZE - 3"
    using encoded_address_size_wire [OF w]
    by (cases d rule: encoded_address_size.cases) (auto simp: MAX_UDP_HEADER_SIZE_def split: if_splits)
  then have "length ([0, 0, 0] @ w @ payload) \<le> SOCKS5_UDP_PACKET_LIMIT"
    using assms(2)
    by (simp add: datagram_session_new_def SOCKS5_UDP_PACKET_LIMIT_def MAX_UDP_HEADER_SIZE_def)
  then show ?thesis
    using w encode_udp_packet_Inr_iff [of SOCKS5_UDP_PACKET_LIMIT d payload]
    by (auto simp: usize_max_def SOCKS5_UDP_PACKET_LIMIT_def)
qed

theorem socks5_budget_fits_witness:
  "\<exists>pkt. encode_udp_packet (DestDomain (str ''a'') 53) [1, 2] SOCKS5_UDP_PACKET_LIMIT = Inr pkt \<and>
     length pkt \<le> SOCKS5_UDP_PACKET_LIMIT"
  by (rule socks5_budget_fits [where source = "SocketV4 0 0"])
    (simp_all add: str_def is_ascii_control_def datagram_session_new_def SOCKS5_UDP_PACKET_LIMIT_def)

end
