(* ===== verification/Address_Codec.thy ===== *)
theory Address_Codec
  imports Session_Model
begin

text \<open>
  \<^verbatim>\<open>src/outbound/address.rs\<close>: the port-first addresses of VLESS, VMess and XUDP, and the
  packetaddr format, which carries no names. The output buffer is passed and returned; where
  the source has already written to it before it fails, the caller drops it.
\<close>

section \<open>Packetaddr\<close>

fun encode_packet_addr :: "destination \<Rightarrow> bytes \<Rightarrow> io_error + bytes" where
  "encode_packet_addr (DestDomain host port) output = Inl InvalidInput"
| "encode_packet_addr (DestIp address) output =
     (if socket_port address = 0 then Inl InvalidInput
      else Inr ((case socket_ip address of
                   IpV4 ip \<Rightarrow> output @ [1] @ be32 ip
                 | IpV6 ip \<Rightarrow> output @ [2] @ be128 ip) @ be16 (socket_port address)))"

definition decode_packet_addr :: "bytes \<Rightarrow> io_error + destination \<times> nat" where
  "decode_packet_addr input =
     and_then
       (case get_at input 0 of
          Some kind \<Rightarrow>
            if kind = 1 then
              and_then (ok_or InvalidData (get_range input 1 5)) (\<lambda>octets. Inr (IpV4 (u32_of octets), 5))
            else if kind = 2 then
              and_then (ok_or InvalidData (get_range input 1 17)) (\<lambda>octets. Inr (IpV6 (u128_of octets), 17))
            else Inl InvalidData
        | None \<Rightarrow> Inl InvalidData) (\<lambda>(ip, len).
     and_then (ok_or InvalidData (get_range input len (len + 2))) (\<lambda>port.
     let port = u16_of port in
     if port = 0 then Inl InvalidData
     else Inr (DestIp (socket_new ip port), len + 2)))"

section \<open>Port-first addresses\<close>

fun encode_port_first :: "destination \<Rightarrow> bytes \<Rightarrow> io_error + bytes" where
  "encode_port_first (DestIp (SocketV4 ip port)) output =
     Inr (output @ be16 port @ [1] @ be32 ip)"
| "encode_port_first (DestDomain host port) output =
     (if 255 < length host then Inl InvalidInput
      else Inr (output @ be16 port @ [2, of_nat (length host)] @ host))"
| "encode_port_first (DestIp (SocketV6 ip port flow scope)) output =
     Inr (output @ be16 port @ [3] @ be128 ip)"

definition decode_port_first :: "bytes \<Rightarrow> io_error + destination \<times> nat" where
  "decode_port_first input =
     (if length input < 3 then Inl InvalidData else
      let port = u16_of (subslice input 0 2) in
      if port = 0 then Inl InvalidData
      else if input ! 2 = 1 then
        and_then (ok_or InvalidData (get_range input 3 7)) (\<lambda>octets.
        Inr (DestIp (socket_new (IpV4 (u32_of octets)) port), 7))
      else if input ! 2 = 2 then
        and_then (ok_or InvalidData (get_at input 3)) (\<lambda>len.
        and_then (ok_or InvalidData (get_range input 4 (4 + unat len))) (\<lambda>host.
        if \<not> utf8_valid host then Inl InvalidData
        else and_then (destination_domain host port) (\<lambda>d. Inr (d, 4 + unat len))))
      else if input ! 2 = 3 then
        and_then (ok_or InvalidData (get_range input 3 19)) (\<lambda>octets.
        Inr (DestIp (socket_new (IpV6 (u128_of octets)) port), 19))
      else Inl InvalidData)"

section \<open>Both formats are prefix codecs\<close>

fun ip_destination :: "destination \<Rightarrow> bool" where
  "ip_destination (DestIp address) = True"
| "ip_destination (DestDomain host port) = False"

definition packet_addr_valid :: "destination \<Rightarrow> bool" where
  "packet_addr_valid d \<longleftrightarrow> wire_destination d \<and> ip_destination d"

lemma encode_packet_addr_output:
  "encode_packet_addr d output = and_then (encode_packet_addr d []) (\<lambda>w. Inr (output @ w))"
  by (cases d) (auto split: ip_addr.splits)

lemma encode_port_first_output:
  "encode_port_first d output = and_then (encode_port_first d []) (\<lambda>w. Inr (output @ w))"
  by (cases "(d, output)" rule: encode_port_first.cases) auto

lemma plain_socket_new [simp]: "plain_socket (socket_new ip port)"
  by (cases ip) auto

lemma socket_port_new [simp]: "socket_port (socket_new ip port) = port"
  by (cases ip) auto

lemma decode_encode_packet_addr:
  assumes "packet_addr_valid d" "encode_packet_addr d [] = Inr w"
  shows "decode_packet_addr (w @ rest) = Inr (d, length w)"
proof -
  obtain a where d: "d = DestIp a" and p: "socket_port a \<noteq> 0" "plain_socket a"
    using assms(1) by (cases d) (auto simp: packet_addr_valid_def)
  show ?thesis
  proof (cases a)
    case (SocketV4 ip port)
    then have w: "w = [1] @ be32 ip @ be16 port"
      using assms(2) d p by auto
    have "get_range (w @ rest) 1 5 = Some (be32 ip)" "get_range (w @ rest) 5 7 = Some (be16 port)"
      unfolding w using slice_at [of 1 "[1]" 5 "be32 ip" "be16 port @ rest"]
        slice_at [of 5 "[1] @ be32 ip" 7 "be16 port" rest] by (simp_all add: res_simps)
    then show ?thesis
      using w d p SocketV4 by (simp add: decode_packet_addr_def get_at_def)
  next
    case (SocketV6 ip port flow scope)
    then have w: "w = [2] @ be128 ip @ be16 port"
      using assms(2) d p by auto
    have "get_range (w @ rest) 1 17 = Some (be128 ip)" "get_range (w @ rest) 17 19 = Some (be16 port)"
      unfolding w using slice_at [of 1 "[2]" 17 "be128 ip" "be16 port @ rest"]
        slice_at [of 17 "[2] @ be128 ip" 19 "be16 port" rest] by (simp_all add: res_simps)
    then show ?thesis
      using w d p SocketV6 by (simp add: decode_packet_addr_def get_at_def)
  qed
qed

lemma encode_decode_packet_addr:
  assumes "decode_packet_addr bs = Inr (d, n)"
  shows "packet_addr_valid d \<and> n \<le> length bs \<and> encode_packet_addr d [] = Inr (take n bs)"
proof -
  obtain ip len where ip: "(bs ! 0 = 1 \<and> ip = IpV4 (u32_of (subslice bs 1 5)) \<and> len = 5) \<or>
      (bs ! 0 = 2 \<and> ip = IpV6 (u128_of (subslice bs 1 17)) \<and> len = 17)"
    and n: "n = len + 2" "n \<le> length bs" "0 < length bs"
      "d = DestIp (socket_new ip (u16_of (subslice bs len (len + 2))))"
      "u16_of (subslice bs len (len + 2)) \<noteq> 0"
    using assms
    by (auto simp: decode_packet_addr_def res_simps Let_def split: option.splits if_splits prod.splits)
  from ip show ?thesis
    using n by (elim disjE) (simp_all add: packet_addr_valid_def take_slice [of 5 7]
        take_slice [of 1 5] take_slice [of 17 19] take_slice [of 1 17] take_one)
qed

interpretation packet_addr: prefix_codec
  "\<lambda>d. encode_packet_addr d []" decode_packet_addr packet_addr_valid
proof unfold_locales
  show "packet_addr_valid x \<Longrightarrow> \<exists>w. encode_packet_addr x [] = Inr w" for x
    by (cases x) (auto simp: packet_addr_valid_def)
qed (use decode_encode_packet_addr encode_decode_packet_addr in blast)+

lemma decode_encode_port_first:
  assumes "wire_destination d" "encode_port_first d [] = Inr w"
  shows "decode_port_first (w @ rest) = Inr (d, length w)"
proof (cases "(d, [] :: bytes)" rule: encode_port_first.cases)
  case (1 ip port out)
  then have w: "w = be16 port @ [1] @ be32 ip" and d: "d = DestIp (SocketV4 ip port)" "port \<noteq> 0"
    using assms by auto
  have "subslice (w @ rest) 0 2 = be16 port" "get_range (w @ rest) 3 7 = Some (be32 ip)"
      "(w @ rest) ! 2 = 1"
    unfolding w using slice_at [of 0 "[]" 2 "be16 port" "[1] @ be32 ip @ rest"]
      slice_at [of 3 "be16 port @ [1]" 7 "be32 ip" rest]
    by (simp_all add: res_simps nth_append)
  then show ?thesis
    using w d by (simp add: decode_port_first_def)
next
  case (2 host port out)
  then have w: "w = be16 port @ [2, of_nat (length host)] @ host" and d: "d = DestDomain host port"
    and h: "port \<noteq> 0" "utf8_valid host" "length host \<le> 255" "destination_domain host port = Inr d"
    using assms by (auto split: if_splits simp: destination_domain_def)
  have "subslice (w @ rest) 0 2 = be16 port" "get_range (w @ rest) 4 (4 + length host) = Some host"
      "(w @ rest) ! 2 = 2" "get_at (w @ rest) 3 = Some (of_nat (length host))"
    unfolding w using slice_at [of 0 "[]" 2 "be16 port" "[2, of_nat (length host)] @ host @ rest"]
      slice_at [of 4 "be16 port @ [2, of_nat (length host)]" "4 + length host" host rest]
    by (simp_all add: res_simps nth_append)
  then show ?thesis
    using w h by (simp add: decode_port_first_def)
next
  case (3 ip port flow scope out)
  then have w: "w = be16 port @ [3] @ be128 ip" and d: "d = DestIp (SocketV6 ip port 0 0)" "port \<noteq> 0"
    using assms by auto
  have "subslice (w @ rest) 0 2 = be16 port" "get_range (w @ rest) 3 19 = Some (be128 ip)"
      "(w @ rest) ! 2 = 3"
    unfolding w using slice_at [of 0 "[]" 2 "be16 port" "[3] @ be128 ip @ rest"]
      slice_at [of 3 "be16 port @ [3]" 19 "be128 ip" rest]
    by (simp_all add: res_simps nth_append)
  then show ?thesis
    using w d by (simp add: decode_port_first_def)
qed

lemma encode_decode_port_first:
  assumes "decode_port_first bs = Inr (d, n)"
  shows "wire_destination d \<and> n \<le> length bs \<and> encode_port_first d [] = Inr (take n bs)"
proof -
  define port where "port = u16_of (subslice bs 0 2)"
  have len: "3 \<le> length bs" and port: "port \<noteq> 0"
    using assms by (auto simp: decode_port_first_def Let_def port_def split: if_splits)
  have take3: "take 3 bs = be16 port @ [bs ! 2]"
    using len take_slice [of 2 3 bs] slice_one [of 2 bs] take_slice [of 0 2 bs]
    by (simp add: port_def)
  consider (v4) "bs ! 2 = 1" "7 \<le> length bs" "n = 7" "d = DestIp (SocketV4 (u32_of (subslice bs 3 7)) port)"
    | (domain) "bs ! 2 = 2" "4 \<le> length bs" "n = 4 + unat (bs ! 3)" "n \<le> length bs"
        "utf8_valid (subslice bs 4 n)" "destination_domain (subslice bs 4 n) port = Inr d"
    | (v6) "bs ! 2 = 3" "19 \<le> length bs" "n = 19" "d = DestIp (SocketV6 (u128_of (subslice bs 3 19)) port 0 0)"
    using assms by (auto simp: decode_port_first_def Let_def res_simps port_def split: if_splits)
  then show ?thesis
  proof cases
    case v4
    then show ?thesis
      using port take3 by (simp add: take_slice [of 3 7])
  next
    case domain
    then have d: "d = DestDomain (subslice bs 4 n) port" and l: "length (subslice bs 4 n) = unat (bs ! 3)"
      by (simp_all add: res_simps)
    have "take n bs = take 3 bs @ [bs ! 3] @ subslice bs 4 n"
      using domain take_slice [of 3 4 bs] take_slice [of 4 n bs] slice_one [of 3 bs] by simp
    then show ?thesis
      using domain d l take3 by (simp add: res_simps)
  next
    case v6
    then show ?thesis
      using port take3 by (simp add: take_slice [of 3 19])
  qed
qed

interpretation port_first: prefix_codec
  "\<lambda>d. encode_port_first d []" decode_port_first wire_destination
proof unfold_locales
  show "wire_destination x \<Longrightarrow> \<exists>w. encode_port_first x [] = Inr w" for x
    by (cases "(x, [] :: bytes)" rule: encode_port_first.cases) auto
qed (use decode_encode_port_first encode_decode_port_first in blast)+

text \<open>
  The port-first address codec of VLESS, VMess and XUDP is exact: decoding a buffer gives
  a destination and a length if and only if the destination is one the wire can carry and its
  encoding is precisely that prefix of the buffer, so every decodable input is canonical.
\<close>
theorem port_first_codec_exact:
  "decode_port_first bs = Inr (d, n) \<longleftrightarrow>
     wire_destination d \<and> n \<le> length bs \<and> encode_port_first d [] = Inr (take n bs)"
  by (rule port_first.dec_iff)

text \<open>
  Claim C24. Every proper prefix of a valid packetaddr header is rejected, and so is every proper
  prefix of a valid port-first header: a truncated address is never taken for a shorter one.
\<close>
theorem address_truncation_rejected:
  "(decode_port_first bs = Inr (d, n) \<longrightarrow> m < n \<longrightarrow> \<not> is_ok (decode_port_first (take m bs))) \<and>
   (decode_packet_addr bs = Inr (d, n) \<longrightarrow> m < n \<longrightarrow> \<not> is_ok (decode_packet_addr (take m bs)))"
  using port_first.dec_truncated packet_addr.dec_truncated by blast

theorem address_truncation_rejected_witness:
  "\<not> is_ok (decode_port_first (take 6 [0, 53, 1, 127, 0, 0, 1])) \<and>
   \<not> is_ok (decode_packet_addr (take 6 [1, 127, 0, 0, 1, 0, 53]))"
proof -
  have "decode_port_first [0, 53, 1, 127, 0, 0, 1] = Inr (DestIp (SocketV4 0x7F000001 53), 7)"
    by (simp add: decode_port_first_def get_range_def subslice_def u16_of_def u32_of_def from_be_def)
  moreover have "decode_packet_addr [1, 127, 0, 0, 1, 0, 53] = Inr (DestIp (SocketV4 0x7F000001 53), 7)"
    by (simp add: decode_packet_addr_def get_at_def get_range_def u16_of_def u32_of_def from_be_def)
  ultimately show ?thesis
    using address_truncation_rejected [of _ _ 7 6] by fastforce
qed

end
