(* ===== verification/AnyTLS_Frame.thy ===== *)
theory AnyTLS_Frame
  imports Session_Model
begin

text \<open>
  \<^verbatim>\<open>src/outbound/anytls/frame.rs\<close>: the frames of an AnyTLS session (a command byte, a stream id,
  a 16-bit length and the payload), their batches, and the frame reader.
\<close>

definition HEADER_LENGTH :: nat where "HEADER_LENGTH = 1 + 4 + 2"
definition MAX_FRAME_PAYLOAD :: nat where "MAX_FRAME_PAYLOAD = 65535"

datatype command =
  Waste | Syn | Push | Fin | Settings | Alert | UpdatePaddingScheme | SynAck
| HeartRequest | HeartResponse | ServerSettings

record frame =
  fr_command :: command
  fr_stream_id :: u32
  fr_payload :: bytes

definition command_from_wire :: "u8 \<Rightarrow> io_error + command" where
  "command_from_wire value =
     (if value = 0 then Inr Waste
      else if value = 1 then Inr Syn
      else if value = 2 then Inr Push
      else if value = 3 then Inr Fin
      else if value = 4 then Inr Settings
      else if value = 5 then Inr Alert
      else if value = 6 then Inr UpdatePaddingScheme
      else if value = 7 then Inr SynAck
      else if value = 8 then Inr HeartRequest
      else if value = 9 then Inr HeartResponse
      else if value = 10 then Inr ServerSettings
      else Inl InvalidData)"

fun wire_value :: "command \<Rightarrow> u8" where
  "wire_value Waste = 0"
| "wire_value Syn = 1"
| "wire_value Push = 2"
| "wire_value Fin = 3"
| "wire_value Settings = 4"
| "wire_value Alert = 5"
| "wire_value UpdatePaddingScheme = 6"
| "wire_value SynAck = 7"
| "wire_value HeartRequest = 8"
| "wire_value HeartResponse = 9"
| "wire_value ServerSettings = 10"

definition frame_empty :: "command \<Rightarrow> u32 \<Rightarrow> frame" where
  "frame_empty cmd stream_id = \<lparr>fr_command = cmd, fr_stream_id = stream_id, fr_payload = []\<rparr>"

definition frame_with_payload :: "command \<Rightarrow> u32 \<Rightarrow> bytes \<Rightarrow> io_error + frame" where
  "frame_with_payload cmd stream_id payload =
     (if MAX_FRAME_PAYLOAD < length payload then Inl InvalidInput
      else Inr \<lparr>fr_command = cmd, fr_stream_id = stream_id, fr_payload = payload\<rparr>)"

definition encoded_len :: "frame \<Rightarrow> nat" where
  "encoded_len f = HEADER_LENGTH + length (fr_payload f)"

definition encode_into :: "frame \<Rightarrow> bytes \<Rightarrow> io_error + bytes" where
  "encode_into f output =
     (if 65535 < length (fr_payload f) then Inl InvalidInput
      else Inr (output @ [wire_value (fr_command f)] @ be32 (fr_stream_id f)
                @ be16 (of_nat (length (fr_payload f))) @ fr_payload f))"

fun batch_capacity :: "nat \<Rightarrow> frame list \<Rightarrow> io_error + nat" where
  "batch_capacity sum_len [] = Inr sum_len"
| "batch_capacity sum_len (f # fs) =
     and_then (ok_or InvalidInput (checked_add sum_len (encoded_len f))) (\<lambda>sum_len. batch_capacity sum_len fs)"

fun encode_all :: "frame list \<Rightarrow> bytes \<Rightarrow> io_error + bytes" where
  "encode_all [] output = Inr output"
| "encode_all (f # fs) output = and_then (encode_into f output) (encode_all fs)"

definition encode_batch :: "frame list \<Rightarrow> io_error + bytes" where
  "encode_batch frames = and_then (batch_capacity 0 frames) (\<lambda>_. encode_all frames [])"

definition read_frame :: "bytes \<Rightarrow> io_error + frame \<times> bytes" where
  "read_frame reader =
     and_then (read_exact HEADER_LENGTH reader) (\<lambda>(header, reader).
     and_then (command_from_wire (header ! 0)) (\<lambda>cmd.
     let stream_id = u32_of (subslice header 1 5);
         payload_length = unat (u16_of (subslice header 5 7)) in
     and_then (if payload_length = 0 then Inr ([], reader) else read_exact payload_length reader)
       (\<lambda>(payload, reader).
     Inr (\<lparr>fr_command = cmd, fr_stream_id = stream_id, fr_payload = payload\<rparr>, reader))))"

text \<open>Reading a number of frames, as the session's reader loop does.\<close>

fun read_frames :: "nat \<Rightarrow> bytes \<Rightarrow> io_error + frame list \<times> bytes" where
  "read_frames 0 reader = Inr ([], reader)"
| "read_frames (Suc n) reader =
     and_then (read_frame reader) (\<lambda>(f, reader).
     and_then (read_frames n reader) (\<lambda>(fs, reader). Inr (f # fs, reader)))"

section \<open>Frames and batches\<close>

lemma command_from_wire_value [simp]: "command_from_wire (wire_value c) = Inr c"
  by (cases c) (simp_all add: command_from_wire_def)

lemma command_from_wire_Inr [res_simps]: "command_from_wire b = Inr c \<longleftrightarrow> b = wire_value c"
proof
  show "command_from_wire b = Inr c \<Longrightarrow> b = wire_value c"
    by (auto simp: command_from_wire_def split: if_splits)
qed simp

definition frame_wire :: "frame \<Rightarrow> bytes" where
  "frame_wire f = [wire_value (fr_command f)] @ be32 (fr_stream_id f)
     @ be16 (of_nat (length (fr_payload f))) @ fr_payload f"

lemma encode_into_eq:
  "encode_into f output =
     (if length (fr_payload f) \<le> 65535 then Inr (output @ frame_wire f) else Inl InvalidInput)"
  by (simp add: encode_into_def frame_wire_def not_le)

lemma length_frame_wire [simp]: "length (frame_wire f) = encoded_len f"
  by (simp add: frame_wire_def encoded_len_def HEADER_LENGTH_def)

lemma read_frame_wire [simp]:
  assumes "length (fr_payload f) \<le> 65535"
  shows "read_frame (frame_wire f @ rest) = Inr (f, rest)"
proof -
  let ?header = "[wire_value (fr_command f)] @ be32 (fr_stream_id f) @ be16 (of_nat (length (fr_payload f)))"
  have "read_exact HEADER_LENGTH (frame_wire f @ rest) = Inr (?header, fr_payload f @ rest)"
    by (simp add: frame_wire_def res_simps HEADER_LENGTH_def)
  moreover have "subslice ?header 1 5 = be32 (fr_stream_id f)"
    using slice_at [of 1 "[wire_value (fr_command f)]" 5] by simp
  moreover have "subslice ?header 5 7 = be16 (of_nat (length (fr_payload f)))"
    using slice_at [of 5 "[wire_value (fr_command f)] @ be32 (fr_stream_id f)" 7 _ "[]"] by simp
  ultimately show ?thesis
    using assms by (simp add: read_frame_def)
qed

lemma read_frame_Inr:
  assumes "read_frame bs = Inr (f, rest)"
  shows "bs = frame_wire f @ rest \<and> length (fr_payload f) \<le> 65535"
proof -
  obtain header c pl where h: "bs = header @ pl" "length header = 7" "header ! 0 = wire_value c"
    and f: "fr_command f = c" "fr_stream_id f = u32_of (subslice header 1 5)"
      "length (fr_payload f) = unat (u16_of (subslice header 5 7))" "pl = fr_payload f @ rest"
    using assms
    by (auto simp: read_frame_def res_simps HEADER_LENGTH_def Let_def split: if_splits prod.splits)
  have "header = [header ! 0] @ subslice header 1 5 @ subslice header 5 7"
    using h take_slice [of 5 7 header] take_slice [of 1 5 header] take_one [of header] by simp
  also have "\<dots> = [wire_value c] @ be32 (fr_stream_id f) @ be16 (of_nat (length (fr_payload f)))"
    using h f by simp
  finally show ?thesis
    using h f by (simp add: frame_wire_def)
qed

lemma encode_all_Inr_iff [res_simps]:
  "encode_all fs out = Inr w \<longleftrightarrow>
     (\<forall>f \<in> set fs. length (fr_payload f) \<le> 65535) \<and> w = out @ concat (map frame_wire fs)"
  by (induction fs arbitrary: out) (auto simp: encode_into_eq)

lemma read_frames_wire:
  "\<forall>f \<in> set fs. length (fr_payload f) \<le> 65535 \<Longrightarrow>
   read_frames (length fs) (concat (map frame_wire fs) @ rest) = Inr (fs, rest)"
  by (induction fs) simp_all

lemma encode_batch_Inr:
  "encode_batch fs = Inr w \<Longrightarrow>
     (\<forall>f \<in> set fs. length (fr_payload f) \<le> 65535) \<and> w = concat (map frame_wire fs)"
  by (auto simp: encode_batch_def res_simps)

text \<open>
  A batch of frames survives the wire: reading as many frames from an encoded batch as were
  put in gives the same frames in the same order and leaves exactly the bytes after the batch.
\<close>
theorem anytls_batch_roundtrip:
  assumes "encode_batch frames = Inr w"
  shows "read_frames (length frames) (w @ rest) = Inr (frames, rest)"
  using encode_batch_Inr [OF assms] read_frames_wire by simp

theorem anytls_batch_roundtrip_witness:
  "read_frames 2 (concat (map frame_wire [frame_empty Syn 1,
       \<lparr>fr_command = Push, fr_stream_id = 1, fr_payload = [7]\<rparr>]) @ [9])
   = Inr ([frame_empty Syn 1, \<lparr>fr_command = Push, fr_stream_id = 1, fr_payload = [7]\<rparr>], [9])"
  using anytls_batch_roundtrip [of "[frame_empty Syn 1, \<lparr>fr_command = Push, fr_stream_id = 1, fr_payload = [7]\<rparr>]"
      "concat (map frame_wire [frame_empty Syn 1, \<lparr>fr_command = Push, fr_stream_id = 1, fr_payload = [7]\<rparr>])" "[9]"]
  by (simp add: encode_batch_def res_simps checked_add_def usize_max_def encoded_len_def
      HEADER_LENGTH_def frame_empty_def numeral_2_eq_2)

text \<open>
  The frame reader accepts exactly the encodings of frames: it returns a frame and the rest
  of the stream if and only if the stream starts with that frame's encoding.
\<close>
theorem anytls_read_frame_exact:
  "read_frame bs = Inr (f, rest) \<longleftrightarrow> (\<exists>w. encode_into f [] = Inr w \<and> bs = w @ rest)"
  using read_frame_Inr [of bs f rest] by (auto simp: encode_into_eq)

end
