(* ===== verification/Rust_Str.thy ===== *)
theory Rust_Str
  imports Wire_Prelude
begin

text \<open>
  The string functions of Rust's standard library that the text parsers use: \<^verbatim>\<open>split\<close>,
  \<^verbatim>\<open>split_once\<close>, \<^verbatim>\<open>lines\<close>, \<^verbatim>\<open>strip_suffix\<close>, \<^verbatim>\<open>trim_matches\<close>, \<^verbatim>\<open>eq_ignore_ascii_case\<close> and the integer
  parsers, on the bytes of a string with an ASCII separator.
\<close>

fun split_on :: "u8 \<Rightarrow> bytes \<Rightarrow> bytes list" where
  "split_on c [] = [[]]"
| "split_on c (b # bs) =
     (if b = c then [] # split_on c bs
      else (case split_on c bs of w # ws \<Rightarrow> (b # w) # ws | [] \<Rightarrow> [[b]]))"

definition split_once :: "u8 \<Rightarrow> bytes \<Rightarrow> (bytes \<times> bytes) option" where
  "split_once c bs =
     (case dropWhile (\<lambda>b. b \<noteq> c) bs of
        [] \<Rightarrow> None
      | _ # rest \<Rightarrow> Some (takeWhile (\<lambda>b. b \<noteq> c) bs, rest))"

definition strip_suffix1 :: "u8 \<Rightarrow> bytes \<Rightarrow> bytes option" where
  "strip_suffix1 c bs = (if bs \<noteq> [] \<and> last bs = c then Some (butlast bs) else None)"

definition unwrap_or :: "'a option \<Rightarrow> 'a \<Rightarrow> 'a" where
  "unwrap_or v d = (case v of None \<Rightarrow> d | Some x \<Rightarrow> x)"

definition str_lines :: "bytes \<Rightarrow> bytes list" where
  "str_lines bs =
     (let parts = split_on 10 bs in
      map (\<lambda>line. unwrap_or (strip_suffix1 13 line) line) (butlast parts) @
      (if last parts = [] then [] else [last parts]))"

definition decimal_value :: "bytes \<Rightarrow> nat" where
  "decimal_value ds = foldl (\<lambda>v d. v * 10 + (unat d - 48)) 0 ds"

text \<open>\<^verbatim>\<open>str::parse::<uN>()\<close>: an optional plus sign, then at least one decimal digit, at most the type's
  maximum.\<close>

definition parse_uint :: "nat \<Rightarrow> bytes \<Rightarrow> nat option" where
  "parse_uint max_value bs =
     (let ds = (case bs of b # rest \<Rightarrow> if b = 43 then rest else bs | [] \<Rightarrow> []) in
      if ds = [] \<or> \<not> list_all is_ascii_digit ds then None
      else if decimal_value ds \<le> max_value then Some (decimal_value ds) else None)"

definition eq_ignore_ascii_case :: "bytes \<Rightarrow> bytes \<Rightarrow> bool" where
  "eq_ignore_ascii_case a b \<longleftrightarrow> ascii_lowercase a = ascii_lowercase b"

text \<open>\<^verbatim>\<open>trim_matches([' ', '\t'])\<close>.\<close>

definition is_ows :: "u8 \<Rightarrow> bool" where
  "is_ows b \<longleftrightarrow> b = 32 \<or> b = 9"

definition trim_ows :: "bytes \<Rightarrow> bytes" where
  "trim_ows bs = rev (dropWhile is_ows (rev (dropWhile is_ows bs)))"

text \<open>\<^verbatim>\<open>collect::<Result<Vec<_>>>\<close>: the first error, or all values.\<close>

fun collect_results :: "('a \<Rightarrow> 'e + 'b) \<Rightarrow> 'a list \<Rightarrow> 'e + 'b list" where
  "collect_results f [] = Inr []"
| "collect_results f (x # xs) = and_then (f x) (\<lambda>y. and_then (collect_results f xs) (\<lambda>ys. Inr (y # ys)))"

text \<open>\<^verbatim>\<open>iter().position(p)\<close>.\<close>

fun position :: "('a \<Rightarrow> bool) \<Rightarrow> 'a list \<Rightarrow> nat option" where
  "position p [] = None"
| "position p (x # xs) = (if p x then Some 0 else map_option Suc (position p xs))"

text \<open>\<^verbatim>\<open>windows(n).position(|w| w == needle)\<close> for a needle of \<open>n\<close> bytes, and \<^verbatim>\<open>split_once\<close> with a string.\<close>

fun starts_with :: "bytes \<Rightarrow> bytes \<Rightarrow> bool" where
  "starts_with [] bs = True"
| "starts_with (c # cs) [] = False"
| "starts_with (c # cs) (b # bs) = (c = b \<and> starts_with cs bs)"

fun windows_position :: "bytes \<Rightarrow> bytes \<Rightarrow> nat option" where
  "windows_position needle [] = None"
| "windows_position needle (b # bs) =
     (if starts_with needle (b # bs) then Some 0 else map_option Suc (windows_position needle bs))"

definition split_once_str :: "bytes \<Rightarrow> bytes \<Rightarrow> (bytes \<times> bytes) option" where
  "split_once_str needle bs =
     map_option (\<lambda>i. (take i bs, drop (i + length needle) bs)) (windows_position needle bs)"

text \<open>\<^verbatim>\<open>split("\r\n")\<close>.\<close>

fun split_crlf :: "bytes \<Rightarrow> bytes list" where
  "split_crlf [] = [[]]"
| "split_crlf [b] = [[b]]"
| "split_crlf (b # c # bs) =
     (if b = 13 \<and> c = 10 then [] # split_crlf bs
      else (case split_crlf (c # bs) of w # ws \<Rightarrow> (b # w) # ws | [] \<Rightarrow> [[b]]))"

section \<open>Facts\<close>

lemma split_on_not_Nil [simp]: "split_on c bs \<noteq> []"
  by (cases bs) (auto split: list.splits)

lemma split_on_Cons_other:
  "b \<noteq> c \<Longrightarrow> split_on c (b # bs) = (b # hd (split_on c bs)) # tl (split_on c bs)"
  by (cases "split_on c bs") auto

text \<open>The parts joined by the separator are the string again, and no part holds the separator.\<close>

fun join :: "u8 \<Rightarrow> bytes list \<Rightarrow> bytes" where
  "join c [] = []"
| "join c [w] = w"
| "join c (w # v # ws) = w @ c # join c (v # ws)"

lemma join_Cons: "ws \<noteq> [] \<Longrightarrow> join c (w # ws) = w @ c # join c ws"
  by (cases ws) auto

lemma join_split_on [simp]: "join c (split_on c bs) = bs"
proof (induction bs)
  case (Cons b bs)
  show ?case
  proof (cases "b = c")
    case False
    then show ?thesis
      using Cons by (cases "split_on c bs"; cases "tl (split_on c bs)") auto
  qed (use Cons in \<open>simp add: join_Cons\<close>)
qed simp

lemma split_on_no_sep: "w \<in> set (split_on c bs) \<Longrightarrow> c \<notin> set w"
proof (induction bs arbitrary: w)
  case (Cons b bs)
  show ?case
  proof (cases "b = c")
    case False
    then have "split_on c (b # bs) = (b # hd (split_on c bs)) # tl (split_on c bs)"
      by (rule split_on_Cons_other)
    then consider "w = b # hd (split_on c bs)" | "w \<in> set (tl (split_on c bs))"
      using Cons.prems by auto
    then show ?thesis
      using False Cons.IH by cases (auto dest: list.set_sel(2) [OF split_on_not_Nil])
  qed (use Cons in auto)
qed simp

lemma split_on_single: "c \<notin> set w \<Longrightarrow> split_on c w = [w]"
  by (induction w) auto

lemma split_on_append: "c \<notin> set w \<Longrightarrow> split_on c (w @ c # bs) = w # split_on c bs"
  by (induction w) auto

lemma split_on_join:
  "ws \<noteq> [] \<Longrightarrow> \<forall>w \<in> set ws. c \<notin> set w \<Longrightarrow> split_on c (join c ws) = ws"
  by (induction c ws rule: join.induct) (auto simp: split_on_single split_on_append)

lemma split_once_Some:
  "split_once c bs = Some (a, rest) \<longleftrightarrow> bs = a @ c # rest \<and> c \<notin> set a"
proof
  assume "split_once c bs = Some (a, rest)"
  then have d: "dropWhile (\<lambda>b. b \<noteq> c) bs = c # rest" and a: "a = takeWhile (\<lambda>b. b \<noteq> c) bs"
    by (auto simp: split_once_def split: list.splits dest: dropWhile_eq_Cons_conv [THEN iffD1])
  then show "bs = a @ c # rest \<and> c \<notin> set a"
    using takeWhile_dropWhile_id [of "\<lambda>b. b \<noteq> c" bs] by (metis set_takeWhileD)
next
  assume "bs = a @ c # rest \<and> c \<notin> set a"
  then have "dropWhile (\<lambda>b. b \<noteq> c) bs = c # rest" "takeWhile (\<lambda>b. b \<noteq> c) bs = a"
    by (auto simp: dropWhile_append takeWhile_append)
  then show "split_once c bs = Some (a, rest)"
    by (simp add: split_once_def)
qed

lemma parse_uint_le: "parse_uint m bs = Some v \<Longrightarrow> v \<le> m"
  by (auto simp: parse_uint_def Let_def split: if_splits)

lemma eq_ignore_ascii_case_refl [simp]: "eq_ignore_ascii_case a a"
  by (simp add: eq_ignore_ascii_case_def)

lemma unwrap_or_simps [simp]: "unwrap_or None d = d" "unwrap_or (Some x) d = x"
  by (simp_all add: unwrap_or_def)

lemma position_Some: "position p xs = Some i \<Longrightarrow> i < length xs \<and> p (xs ! i) \<and> (\<forall>j < i. \<not> p (xs ! j))"
  by (induction xs arbitrary: i) (auto simp: less_Suc_eq_0_disj split: if_splits)

lemma position_None: "position p xs = None \<longleftrightarrow> (\<forall>x \<in> set xs. \<not> p x)"
  by (induction xs) auto

lemma starts_with_iff: "starts_with needle bs \<longleftrightarrow> (\<exists>rest. bs = needle @ rest)"
  by (induction needle bs rule: starts_with.induct) auto

lemma starts_with_append [simp]: "starts_with needle (needle @ rest)"
  by (auto simp: starts_with_iff)

lemma windows_position_Some:
  "windows_position needle bs = Some i \<Longrightarrow> i \<le> length bs \<and> starts_with needle (drop i bs)"
  by (induction bs arbitrary: i) (auto split: if_splits)

lemma windows_position_first:
  "windows_position needle bs = Some i \<Longrightarrow> j < i \<Longrightarrow> \<not> starts_with needle (drop j bs)"
proof (induction bs arbitrary: i j)
  case (Cons b bs)
  then show ?case
    by (cases j) (auto split: if_splits)
qed simp

lemma windows_position_None:
  "needle \<noteq> [] \<Longrightarrow> windows_position needle bs = None \<longleftrightarrow> (\<forall>j. \<not> starts_with needle (drop j bs))"
proof (induction bs)
  case Nil
  then show ?case by (cases needle) auto
next
  case (Cons b bs)
  have "(\<forall>j. \<not> starts_with needle (drop j (b # bs))) \<longleftrightarrow>
      \<not> starts_with needle (b # bs) \<and> (\<forall>j. \<not> starts_with needle (drop j bs))"
    by (metis drop0 drop_Suc_Cons old.nat.exhaust)
  then show ?case
    using Cons by simp
qed

lemma split_crlf_not_Nil [simp]: "split_crlf bs \<noteq> []"
  by (induction bs rule: split_crlf.induct) (auto split: list.splits)

lemma split_crlf_plain: "13 \<notin> set w \<Longrightarrow> split_crlf w = [w]"
  by (induction w rule: split_crlf.induct) auto

lemma split_crlf_line: "13 \<notin> set w \<Longrightarrow> split_crlf (w @ 13 # 10 # bs) = w # split_crlf bs"
proof (induction w)
  case (Cons b w)
  then show ?case
    by (cases w) (auto split: list.splits)
qed simp

text \<open>Lines with their terminators.\<close>

definition crlf_lines :: "bytes list \<Rightarrow> bytes" where
  "crlf_lines ls = concat (map (\<lambda>l. l @ [13, 10]) ls)"

lemma crlf_lines_simps [simp]:
  "crlf_lines [] = []" "crlf_lines (l # ls) = l @ 13 # 10 # crlf_lines ls"
  "crlf_lines (ls @ ks) = crlf_lines ls @ crlf_lines ks"
  by (simp_all add: crlf_lines_def)

lemma split_crlf_lines:
  "\<forall>l \<in> set ls. 13 \<notin> set l \<Longrightarrow> 13 \<notin> set w \<Longrightarrow> split_crlf (crlf_lines ls @ w) = ls @ [w]"
  by (induction ls) (auto simp: split_crlf_line split_crlf_plain)

section \<open>Pieces of UTF-8 strings\<close>

text \<open>The classes of first bytes, and what a second byte may be.\<close>

definition utf8_lead :: "nat \<Rightarrow> u8 \<Rightarrow> bool" where
  "utf8_lead n b \<longleftrightarrow>
     (n = 1 \<and> b < 0x80) \<or>
     (n = 2 \<and> \<not> b < 0x80 \<and> 0xC2 \<le> b \<and> b \<le> 0xDF) \<or>
     (n = 3 \<and> \<not> b < 0x80 \<and> \<not> (0xC2 \<le> b \<and> b \<le> 0xDF) \<and> 0xE0 \<le> b \<and> b \<le> 0xEF) \<or>
     (n = 4 \<and> \<not> b < 0x80 \<and> \<not> (0xC2 \<le> b \<and> b \<le> 0xDF) \<and> \<not> (0xE0 \<le> b \<and> b \<le> 0xEF) \<and> 0xF0 \<le> b \<and> b \<le> 0xF4)"

definition utf8_second3 :: "u8 \<Rightarrow> u8 \<Rightarrow> bool" where
  "utf8_second3 b c \<longleftrightarrow>
     (if b = 0xE0 then 0xA0 \<le> c \<and> c \<le> 0xBF else if b = 0xED then 0x80 \<le> c \<and> c \<le> 0x9F else utf8_tail c)"

definition utf8_second4 :: "u8 \<Rightarrow> u8 \<Rightarrow> bool" where
  "utf8_second4 b c \<longleftrightarrow>
     (if b = 0xF0 then 0x90 \<le> c \<and> c \<le> 0xBF else if b = 0xF4 then 0x80 \<le> c \<and> c \<le> 0x8F else utf8_tail c)"

lemma utf8_valid_lead:
  "utf8_lead 1 b \<Longrightarrow> utf8_valid (b # bs) = utf8_valid bs"
  "utf8_lead 2 b \<Longrightarrow> utf8_valid (b # bs) =
     (case bs of c # r \<Rightarrow> utf8_tail c \<and> utf8_valid r | _ \<Rightarrow> False)"
  "utf8_lead 3 b \<Longrightarrow> utf8_valid (b # bs) =
     (case bs of c # d # r \<Rightarrow> utf8_second3 b c \<and> utf8_tail d \<and> utf8_valid r | _ \<Rightarrow> False)"
  "utf8_lead 4 b \<Longrightarrow> utf8_valid (b # bs) =
     (case bs of c # d # e # r \<Rightarrow> utf8_second4 b c \<and> utf8_tail d \<and> utf8_tail e \<and> utf8_valid r | _ \<Rightarrow> False)"
  by (simp_all only: utf8_lead_def utf8_second3_def utf8_second4_def utf8_valid.simps) auto

lemma utf8_valid_leads: "utf8_valid (b # bs) \<Longrightarrow> \<exists>n \<in> {1, 2, 3, 4}. utf8_lead n b"
  unfolding utf8_lead_def by (simp only: utf8_valid.simps split: if_split_asm) auto

definition utf8_char_ok :: "u8 \<Rightarrow> bytes \<Rightarrow> bool" where
  "utf8_char_ok b t \<longleftrightarrow>
     (utf8_lead 1 b \<and> t = []) \<or>
     (utf8_lead 2 b \<and> (\<exists>c. t = [c] \<and> utf8_tail c)) \<or>
     (utf8_lead 3 b \<and> (\<exists>c d. t = [c, d] \<and> utf8_second3 b c \<and> utf8_tail d)) \<or>
     (utf8_lead 4 b \<and> (\<exists>c d e. t = [c, d, e] \<and> utf8_second4 b c \<and> utf8_tail d \<and> utf8_tail e))"

lemma utf8_char_append: "utf8_char_ok b t \<Longrightarrow> utf8_valid (b # t @ r) = utf8_valid r"
  unfolding utf8_char_ok_def by (elim disjE conjE exE) (simp_all only: utf8_valid_lead append.simps list.case simp_thms)

lemma utf8_valid_Cons:
  assumes "utf8_valid (b # bs)"
  shows "\<exists>t r. bs = t @ r \<and> utf8_char_ok b t \<and> utf8_valid r"
proof -
  consider "utf8_lead 1 b" | "utf8_lead 2 b" | "utf8_lead 3 b" | "utf8_lead 4 b"
    using utf8_valid_leads [OF assms] by blast
  then show ?thesis
  proof cases
    case 1
    then show ?thesis
      using assms by (intro exI [of "\<lambda>t. \<exists>r. bs = t @ r \<and> utf8_char_ok b t \<and> utf8_valid r" "[]"] exI [of _ bs]) (simp add: utf8_char_ok_def utf8_valid_lead del: utf8_valid.simps)
  next
    case 2
    from assms [unfolded utf8_valid_lead(2) [OF 2]] obtain c r where "bs = c # r" "utf8_tail c" "utf8_valid r"
      by (auto split: list.splits)
    with 2 show ?thesis
      by (intro exI [of "\<lambda>t. \<exists>r. bs = t @ r \<and> utf8_char_ok b t \<and> utf8_valid r" "[c]"] exI [of _ r]) (simp add: utf8_char_ok_def utf8_valid_lead del: utf8_valid.simps)
  next
    case 3
    from assms [unfolded utf8_valid_lead(3) [OF 3]] obtain c d r
      where "bs = c # d # r" "utf8_second3 b c" "utf8_tail d" "utf8_valid r"
      by (auto split: list.splits)
    with 3 show ?thesis
      by (intro exI [of "\<lambda>t. \<exists>r. bs = t @ r \<and> utf8_char_ok b t \<and> utf8_valid r" "[c, d]"] exI [of _ r]) (simp add: utf8_char_ok_def utf8_valid_lead del: utf8_valid.simps)
  next
    case 4
    from assms [unfolded utf8_valid_lead(4) [OF 4]] obtain c d e r
      where "bs = c # d # e # r" "utf8_second4 b c" "utf8_tail d" "utf8_tail e" "utf8_valid r"
      by (auto split: list.splits)
    with 4 show ?thesis
      by (intro exI [of "\<lambda>t. \<exists>r. bs = t @ r \<and> utf8_char_ok b t \<and> utf8_valid r" "[c, d, e]"] exI [of _ r]) (simp add: utf8_char_ok_def utf8_valid_lead del: utf8_valid.simps)
  qed
qed

lemma utf8_valid_append: "utf8_valid a \<Longrightarrow> utf8_valid (a @ b) = utf8_valid b"
proof (induction a rule: length_induct)
  case (1 a)
  show ?case
  proof (cases a)
    case (Cons x xs)
    obtain t r where "xs = t @ r" "utf8_char_ok x t" "utf8_valid r"
      using utf8_valid_Cons 1(2) Cons by blast
    then show ?thesis
      using 1(1) Cons utf8_char_append [of x t "r @ b"] by simp
  qed simp
qed

lemma utf8_char_no_ascii: "utf8_char_ok b t \<Longrightarrow> c \<in> set t \<Longrightarrow> \<not> c < 0x80"
proof -
  have tail: "\<not> x < 0x80" if "utf8_tail x \<or> 0x80 \<le> x \<or> 0x90 \<le> x \<or> 0xA0 \<le> x" for x :: u8
    using that by (auto simp: utf8_tail_def word_le_nat_alt word_less_nat_alt)
  then have "\<not> x < 0x80" if "utf8_second3 b x \<or> utf8_second4 b x" for x
    using that by (auto simp only: utf8_second3_def utf8_second4_def split: if_split_asm)
  with tail show "utf8_char_ok b t \<Longrightarrow> c \<in> set t \<Longrightarrow> ?thesis"
    unfolding utf8_char_ok_def by (elim disjE conjE exE) (auto simp only: list.set insert_iff empty_iff)
qed

lemma utf8_valid_ascii_split:
  assumes "c < 0x80"
  shows "utf8_valid (a @ c # b) \<longleftrightarrow> utf8_valid a \<and> utf8_valid b"
proof (rule iffI)
  show "utf8_valid (a @ c # b) \<Longrightarrow> utf8_valid a \<and> utf8_valid b"
  proof (induction a rule: length_induct)
    case (1 a)
    show ?case
    proof (cases a)
      case (Cons x xs)
      then obtain t r where tr: "xs @ c # b = t @ r" "utf8_char_ok x t" "utf8_valid r"
        using utf8_valid_Cons [of x "xs @ c # b"] 1(2) by auto
      have "length t \<le> length xs"
      proof (rule ccontr)
        assume "\<not> ?thesis"
        then have "c \<in> set t"
          using arg_cong [OF tr(1), of "\<lambda>l. l ! length xs"] by (auto simp: nth_append)
        then show False
          using utf8_char_no_ascii tr(2) assms by blast
      qed
      then obtain r' where r': "xs = t @ r'" "r = r' @ c # b"
        using tr(1) by (auto simp: append_eq_append_conv2)
      then show ?thesis
        using 1(1) [rule_format, of r'] Cons tr utf8_char_append [of x t r'] by simp
    qed (use 1 assms in auto)
  qed
qed (use assms utf8_valid_append [of a "c # b"] in auto)
lemma utf8_valid_crlf: "utf8_valid (l @ 13 # 10 # bs) \<longleftrightarrow> utf8_valid l \<and> utf8_valid bs"
  using utf8_valid_ascii_split [of 13 l "10 # bs"] utf8_valid_ascii_split [of 10 "[]" bs] by simp

lemma crlf_join: "crlf_lines (butlast (split_crlf bs)) @ last (split_crlf bs) = bs"
proof (induction bs rule: split_crlf.induct)
  case (3 b c bs)
  show ?case
  proof (cases "b = 13 \<and> c = 10")
    case False
    then show ?thesis
      using 3(2) by (cases "split_crlf (c # bs)"; cases "tl (split_crlf (c # bs))") (auto split: list.splits)
  qed (use 3 in simp)
qed simp_all

lemma utf8_valid_crlf_lines:
  "utf8_valid (crlf_lines ls @ w) \<longleftrightarrow> list_all utf8_valid ls \<and> utf8_valid w"
  by (induction ls) (auto simp: utf8_valid_crlf)

lemma list_all_butlast_last: "xs \<noteq> [] \<Longrightarrow> list_all P xs \<longleftrightarrow> list_all P (butlast xs) \<and> P (last xs)"
  by (induction xs) auto

lemma utf8_valid_split_crlf: "utf8_valid bs \<Longrightarrow> list_all utf8_valid (split_crlf bs)"
proof -
  assume "utf8_valid bs"
  then have "list_all utf8_valid (butlast (split_crlf bs))" "utf8_valid (last (split_crlf bs))"
    by (metis crlf_join utf8_valid_crlf_lines)+
  then show ?thesis
    by (simp add: list_all_butlast_last)
qed

lemma utf8_valid_strip_ascii:
  "list_all (\<lambda>c. c < 0x80) ws \<Longrightarrow> utf8_valid (t @ ws) \<longleftrightarrow> utf8_valid t"
  by (cases ws) (simp_all add: utf8_valid_ascii_split ascii_utf8_valid is_ascii_def)

lemma utf8_valid_trim_ows: "utf8_valid v \<Longrightarrow> utf8_valid (trim_ows v)"
proof -
  have ows: "list_all (\<lambda>c. c < 0x80) (takeWhile is_ows bs)" for bs
    by (induction bs) (auto simp: is_ows_def)
  assume "utf8_valid v"
  then have 1: "utf8_valid (dropWhile is_ows v)"
    using utf8_valid_append [of "takeWhile is_ows v" "dropWhile is_ows v"] ows [of v]
    by (simp add: ascii_utf8_valid is_ascii_def)
  have "dropWhile is_ows v = trim_ows v @ rev (takeWhile is_ows (rev (dropWhile is_ows v)))"
    by (simp add: trim_ows_def flip: rev_append)
  with 1 show ?thesis
    by (metis list_all_rev ows utf8_valid_strip_ascii)
qed

end
