(* ===== verification/AnyTLS_Padding.thy ===== *)
theory AnyTLS_Padding
  imports AnyTLS_Frame Rust_Str
begin

text \<open>
  \<^verbatim>\<open>src/outbound/anytls/padding.rs\<close>: the padding scheme, its text format, and the packet writer that
  cuts a batch of frames into records and fills them up with waste frames. The digest of the
  scheme text (MD5) and the random draws are parameters.
\<close>

definition MAX_STOP :: nat where "MAX_STOP = 256"
definition MAX_ITEMS_PER_PACKET :: nat where "MAX_ITEMS_PER_PACKET = 32"
definition MAX_LOGICAL_PADDING_BYTES :: nat where "MAX_LOGICAL_PADDING_BYTES = MAX_FRAME_PAYLOAD"

datatype padding_item =
  PadRange nat nat
| PadCheck

record padding_scheme =
  ps_md5 :: bytes
  ps_stop :: nat
  ps_packets :: "(nat \<times> padding_item list) list"

definition parse_padding_token :: "bytes \<Rightarrow> io_error + padding_item" where
  "parse_padding_token token =
     (if token = str ''c'' then Inr PadCheck else
      and_then (ok_or InvalidData (split_once 45 token)) (\<lambda>(minimum, maximum).
      and_then (ok_or InvalidData (parse_uint 65535 minimum)) (\<lambda>minimum.
      and_then (ok_or InvalidData (parse_uint 65535 maximum)) (\<lambda>maximum.
      if minimum = 0 \<or> maximum = 0 then Inl InvalidData
      else if maximum < minimum then Inr (PadRange maximum minimum)
      else Inr (PadRange minimum maximum)))))"

fun parse_padding_items :: "bytes list \<Rightarrow> padding_item list \<Rightarrow> io_error + padding_item list" where
  "parse_padding_items [] items = Inr items"
| "parse_padding_items (token # tokens) items =
     (if length items = MAX_ITEMS_PER_PACKET then Inl InvalidData
      else and_then (parse_padding_token token) (\<lambda>item. parse_padding_items tokens (items @ [item])))"

fun parse_padding_lines ::
  "bytes list \<Rightarrow> nat option \<Rightarrow> (nat \<times> padding_item list) list
    \<Rightarrow> io_error + nat option \<times> (nat \<times> padding_item list) list" where
  "parse_padding_lines [] stop packets = Inr (stop, packets)"
| "parse_padding_lines (line # lines) stop packets =
     (if line = [] then Inl InvalidData else
      and_then (ok_or InvalidData (split_once 61 line)) (\<lambda>(key, value).
      if key = str ''stop'' then
        (if stop \<noteq> None then Inl InvalidData else
         and_then (ok_or InvalidData (parse_uint (2 ^ 32 - 1) value)) (\<lambda>parsed.
         if parsed = 0 \<or> MAX_STOP < parsed then Inl InvalidData
         else parse_padding_lines lines (Some parsed) packets))
      else
        and_then (ok_or InvalidData (parse_uint (2 ^ 32 - 1) key)) (\<lambda>packet.
        if packet \<in> fst ` set packets then Inl InvalidData else
        and_then (parse_padding_items (split_on 44 value) []) (\<lambda>items.
        if items = [] then Inl InvalidData
        else parse_padding_lines lines stop (packets @ [(packet, items)])))))"

fun item_maximum :: "padding_item \<Rightarrow> nat" where
  "item_maximum PadCheck = 0"
| "item_maximum (PadRange minimum maximum) = maximum"

definition padding_parse :: "(bytes \<Rightarrow> bytes) \<Rightarrow> bytes \<Rightarrow> io_error + padding_scheme" where
  "padding_parse md5 raw =
     (if raw = [] \<or> MAX_FRAME_PAYLOAD < length raw then Inl InvalidData
      else if \<not> utf8_valid raw then Inl InvalidData
      else and_then (parse_padding_lines (str_lines raw) None []) (\<lambda>(stop, packets).
      and_then (ok_or InvalidData stop) (\<lambda>stop.
      if \<exists>(packet, items) \<in> set packets. stop \<le> packet then Inl InvalidData else
      and_then (ok_or InvalidData (map_of packets 0)) (\<lambda>packet_zero.
      if \<not> (case packet_zero of [PadRange a b] \<Rightarrow> True | _ \<Rightarrow> False) then Inl InvalidData
      else if \<exists>(packet, items) \<in> set packets.
          MAX_LOGICAL_PADDING_BYTES < sum_list (map item_maximum items) then Inl InvalidData
      else Inr \<lparr>ps_md5 = md5 raw, ps_stop = stop, ps_packets = packets\<rparr>))))"

section \<open>Writing a packet\<close>

datatype generated_item = GenSize nat | GenCheck

text \<open>
  \<open>rand i lo hi\<close> is the draw for the packet's \<open>i\<close>-th item; the library documents
  \<open>lo \<le> rand i lo hi < hi\<close> when \<open>lo < hi\<close>.
\<close>

definition random_in_half_open_range :: "(nat \<Rightarrow> nat \<Rightarrow> nat) \<Rightarrow> nat \<Rightarrow> nat \<Rightarrow> nat" where
  "random_in_half_open_range draw minimum maximum =
     (if minimum = maximum then minimum else draw minimum maximum)"

fun generate_item :: "(nat \<Rightarrow> nat \<Rightarrow> nat) \<Rightarrow> padding_item \<Rightarrow> generated_item" where
  "generate_item draw PadCheck = GenCheck"
| "generate_item draw (PadRange minimum maximum) =
     GenSize (random_in_half_open_range draw minimum maximum)"

definition generated_items ::
  "(nat \<Rightarrow> nat \<Rightarrow> nat \<Rightarrow> nat) \<Rightarrow> padding_scheme \<Rightarrow> nat \<Rightarrow> generated_item list option" where
  "generated_items rand scheme packet =
     (if ps_stop scheme \<le> packet then None
      else map_option (\<lambda>items. map (\<lambda>(i, item). generate_item (rand i) item) (enumerate 0 items))
             (map_of (ps_packets scheme) packet))"

definition authentication_padding_length :: "(nat \<Rightarrow> nat \<Rightarrow> nat) \<Rightarrow> padding_scheme \<Rightarrow> nat option" where
  "authentication_padding_length draw scheme =
     (case map_of (ps_packets scheme) 0 of
        Some (PadRange minimum maximum # _) \<Rightarrow> Some (random_in_half_open_range draw minimum maximum)
      | _ \<Rightarrow> None)"

text \<open>
  The writer's state is the offset into the payload and the records written so far, each followed
  by a flush.
\<close>

definition append_waste :: "nat \<Rightarrow> bytes \<Rightarrow> io_error + bytes" where
  "append_waste count record =
     and_then (frame_with_payload Waste 0 (replicate count 0)) (\<lambda>waste. encode_into waste record)"

fun write_items :: "generated_item list \<Rightarrow> bytes \<Rightarrow> nat \<Rightarrow> bytes list \<Rightarrow> io_error + nat \<times> bytes list" where
  "write_items [] payload offset records = Inr (offset, records)"
| "write_items (GenCheck # items) payload offset records =
     (if offset = length payload then Inr (offset, records)
      else write_items items payload offset records)"
| "write_items (GenSize target # items) payload offset records =
     (let remaining = drop offset payload in
      if target < length remaining then
        write_items items payload (offset + target) (records @ [take target remaining])
      else if remaining = [] then
        and_then (append_waste target []) (\<lambda>record.
        write_items items payload offset (records @ [record]))
      else
        let record = remaining; offset = length payload;
            available = target - length record in
        and_then
          (if HEADER_LENGTH \<le> available then append_waste (available - HEADER_LENGTH) record
           else Inr record) (\<lambda>record.
        write_items items payload offset (records @ [record])))"

definition write_packet ::
  "(nat \<Rightarrow> nat \<Rightarrow> nat \<Rightarrow> nat) \<Rightarrow> padding_scheme \<Rightarrow> nat \<Rightarrow> bytes \<Rightarrow> io_error + bytes list" where
  "write_packet rand scheme packet payload =
     (case generated_items rand scheme packet of
        None \<Rightarrow> Inr [payload]
      | Some items \<Rightarrow>
          and_then (write_items items payload 0 []) (\<lambda>(offset, records).
          if offset < length payload then Inr (records @ [drop offset payload]) else Inr records))"

section \<open>What the writer puts on the wire\<close>

definition waste_frame :: "nat \<Rightarrow> frame" where
  "waste_frame k = \<lparr>fr_command = Waste, fr_stream_id = 0, fr_payload = replicate k 0\<rparr>"

definition padded :: "bytes \<Rightarrow> nat \<Rightarrow> bytes list \<Rightarrow> bool" where
  "padded payload offset records \<longleftrightarrow> offset \<le> length payload \<and>
     (\<exists>ks. (\<forall>k \<in> set ks. k \<le> MAX_FRAME_PAYLOAD) \<and>
        concat records = take offset payload @ concat (map (frame_wire \<circ> waste_frame) ks) \<and>
        (ks = [] \<or> offset = length payload))"

lemma append_waste_Inr [res_simps]:
  "append_waste k out = Inr w \<longleftrightarrow> k \<le> MAX_FRAME_PAYLOAD \<and> w = out @ frame_wire (waste_frame k)"
  by (auto simp: append_waste_def frame_with_payload_def encode_into_eq waste_frame_def MAX_FRAME_PAYLOAD_def)

lemma paddedI:
  "concat records = take offset payload @ concat (map (frame_wire \<circ> waste_frame) ks) \<Longrightarrow>
   \<forall>k \<in> set ks. k \<le> MAX_FRAME_PAYLOAD \<Longrightarrow> offset \<le> length payload \<Longrightarrow>
   ks = [] \<or> offset = length payload \<Longrightarrow> padded payload offset records"
  by (auto simp: padded_def)

lemma padded_waste:
  assumes "padded payload (length payload) records" "k \<le> MAX_FRAME_PAYLOAD"
  shows "padded payload (length payload) (records @ [frame_wire (waste_frame k)])"
proof -
  obtain ks where "\<forall>k \<in> set ks. k \<le> MAX_FRAME_PAYLOAD"
      "concat records = take (length payload) payload @ concat (map (frame_wire \<circ> waste_frame) ks)"
    using assms(1) by (auto simp: padded_def)
  then show ?thesis
    using assms(2) by (intro paddedI [where ks = "ks @ [k]"]) auto
qed

lemma padded_chunk:
  assumes "padded payload offset records" "target < length (drop offset payload)"
  shows "padded payload (offset + target) (records @ [take target (drop offset payload)])"
  using assms by (intro paddedI [where ks = "[]"]) (auto simp: padded_def take_add)

lemma padded_last:
  assumes "padded payload offset records" "drop offset payload \<noteq> []"
  shows "padded payload (length payload) (records @ [drop offset payload])"
  using assms by (intro paddedI [where ks = "[]"]) (auto simp: padded_def)

lemma padded_last_waste:
  assumes "padded payload offset records" "drop offset payload \<noteq> []" "k \<le> MAX_FRAME_PAYLOAD"
  shows "padded payload (length payload) (records @ [drop offset payload @ frame_wire (waste_frame k)])"
  using assms by (intro paddedI [where ks = "[k]"]) (auto simp: padded_def)

lemma write_items_padded:
  "padded payload offset records \<Longrightarrow> write_items items payload offset records = Inr (offset', records')
    \<Longrightarrow> padded payload offset' records'"
proof (induction items arbitrary: offset records)
  case Nil
  then show ?case by simp
next
  case (Cons item items)
  note p = Cons.prems(1)
  show ?case
  proof (cases item)
    case (GenSize target)
    let ?remaining = "drop offset payload" and ?k = "target - length (drop offset payload) - HEADER_LENGTH"
    consider (chunk) "target < length ?remaining"
      | (waste) "\<not> target < length ?remaining" "?remaining = []"
      | (filled) "\<not> target < length ?remaining" "?remaining \<noteq> []" "HEADER_LENGTH \<le> target - length ?remaining"
      | (short) "\<not> target < length ?remaining" "?remaining \<noteq> []" "\<not> HEADER_LENGTH \<le> target - length ?remaining"
      by blast
    then show ?thesis
    proof cases
      case chunk
      then have "write_items items payload (offset + target) (records @ [take target ?remaining]) = Inr (offset', records')"
        using Cons.prems(2) GenSize by simp
      then show ?thesis
        by (rule Cons.IH [OF padded_chunk [OF p chunk]])
    next
      case waste
      then have off: "offset = length payload"
        using p by (simp add: padded_def)
      have "target \<le> MAX_FRAME_PAYLOAD"
        "write_items items payload offset (records @ [frame_wire (waste_frame target)]) = Inr (offset', records')"
        using Cons.prems(2) GenSize waste by (auto simp: Let_def res_simps)
      then show ?thesis
        using off p by (auto intro: Cons.IH padded_waste)
    next
      case filled
      then have "?k \<le> MAX_FRAME_PAYLOAD" "write_items items payload (length payload)
          (records @ [?remaining @ frame_wire (waste_frame ?k)]) = Inr (offset', records')"
        using Cons.prems(2) GenSize by (auto simp: Let_def res_simps simp del: length_drop)
      then show ?thesis
        using Cons.IH [OF padded_last_waste [OF p filled(2)]] by blast
    next
      case short
      then have "write_items items payload (length payload) (records @ [?remaining]) = Inr (offset', records')"
        using Cons.prems(2) GenSize by (simp add: Let_def del: length_drop)
      then show ?thesis
        by (rule Cons.IH [OF padded_last [OF p short(2)]])
    qed
  next
    case GenCheck
    then show ?thesis
      using Cons by (simp split: if_splits)
  qed
qed

lemma write_packet_wire:
  assumes "write_packet rand scheme packet payload = Inr records"
  shows "\<exists>ks. (\<forall>k \<in> set ks. k \<le> MAX_FRAME_PAYLOAD) \<and>
    concat records = payload @ concat (map (frame_wire \<circ> waste_frame) ks)"
proof (cases "generated_items rand scheme packet")
  case None
  then show ?thesis
    using assms by (intro exI [of _ "[]"]) (auto simp: write_packet_def)
next
  case (Some items)
  then obtain offset recs where w: "write_items items payload 0 [] = Inr (offset, recs)"
    and r: "records = (if offset < length payload then recs @ [drop offset payload] else recs)"
    using assms by (auto simp: write_packet_def res_simps split: if_splits)
  have "padded payload offset recs"
    by (rule write_items_padded [OF _ w], rule paddedI [where ks = "[]"]) simp_all
  then show ?thesis
    using r by (cases "offset < length payload") (auto simp: padded_def intro: exI [of _ "[]"])
qed

text \<open>
  Claim C6. Padding is transparent: whatever the scheme, packet number and random draws, if the writer
  succeeds on a batch of frames then a peer reading the records sees exactly those frames, in order,
  followed only by waste frames on stream 0, and then whatever comes next on the connection.
\<close>
theorem anytls_padding_transparent:
  assumes "encode_batch frames = Inr payload"
    and "write_packet rand scheme packet payload = Inr records"
  shows "\<exists>ws. read_frames (length frames + length ws) (concat records @ rest) = Inr (frames @ ws, rest) \<and>
    (\<forall>w \<in> set ws. fr_command w = Waste \<and> fr_stream_id w = 0)"
proof -
  obtain ks where ks: "\<forall>k \<in> set ks. k \<le> MAX_FRAME_PAYLOAD"
      "concat records = payload @ concat (map (frame_wire \<circ> waste_frame) ks)"
    using write_packet_wire [OF assms(2)] by blast
  let ?ws = "map waste_frame ks"
  have "\<forall>f \<in> set (frames @ ?ws). length (fr_payload f) \<le> 65535"
    using encode_batch_Inr [OF assms(1)] ks(1)
    by (auto simp: waste_frame_def MAX_FRAME_PAYLOAD_def)
  then have "read_frames (length (frames @ ?ws)) (concat (map frame_wire (frames @ ?ws)) @ rest) =
      Inr (frames @ ?ws, rest)"
    by (rule read_frames_wire)
  then show ?thesis
    using encode_batch_Inr [OF assms(1)] ks(2)
    by (intro exI [of _ ?ws]) (auto simp: waste_frame_def comp_def)
qed

section \<open>Parsed schemes are well formed\<close>

fun item_ok :: "padding_item \<Rightarrow> bool" where
  "item_ok PadCheck = True"
| "item_ok (PadRange minimum maximum) = (0 < minimum \<and> minimum \<le> maximum \<and> maximum \<le> 65535)"

definition items_ok :: "padding_item list \<Rightarrow> bool" where
  "items_ok items \<longleftrightarrow> items \<noteq> [] \<and> length items \<le> MAX_ITEMS_PER_PACKET \<and> list_all item_ok items"

definition padding_wf :: "padding_scheme \<Rightarrow> bool" where
  "padding_wf scheme \<longleftrightarrow>
     0 < ps_stop scheme \<and> ps_stop scheme \<le> MAX_STOP \<and> distinct (map fst (ps_packets scheme)) \<and>
     (\<forall>(packet, items) \<in> set (ps_packets scheme). packet < ps_stop scheme \<and> items_ok items \<and>
        sum_list (map item_maximum items) \<le> MAX_LOGICAL_PADDING_BYTES) \<and>
     (\<exists>minimum maximum. map_of (ps_packets scheme) 0 = Some [PadRange minimum maximum])"

lemma parse_padding_token_ok: "parse_padding_token token = Inr item \<Longrightarrow> item_ok item"
  by (auto simp: parse_padding_token_def res_simps dest: parse_uint_le split: if_splits prod.splits)

lemma parse_padding_items_ok:
  "parse_padding_items tokens items = Inr items' \<Longrightarrow> list_all item_ok items \<Longrightarrow>
   length items \<le> MAX_ITEMS_PER_PACKET \<Longrightarrow>
   list_all item_ok items' \<and> length items' \<le> MAX_ITEMS_PER_PACKET"
proof (induction tokens arbitrary: items)
  case (Cons token tokens)
  then obtain item where "length items \<noteq> MAX_ITEMS_PER_PACKET" "parse_padding_token token = Inr item"
      "parse_padding_items tokens (items @ [item]) = Inr items'"
    by (auto simp: res_simps split: if_splits)
  then show ?case
    using Cons.prems parse_padding_token_ok Cons.IH by simp
qed simp

definition packets_ok :: "(nat \<times> padding_item list) list \<Rightarrow> bool" where
  "packets_ok packets \<longleftrightarrow> distinct (map fst packets) \<and> (\<forall>(packet, items) \<in> set packets. items_ok items)"

lemma parse_padding_lines_ok:
  "parse_padding_lines lines stop packets = Inr (stop', packets') \<Longrightarrow> packets_ok packets \<Longrightarrow>
   (\<forall>s. stop = Some s \<longrightarrow> 0 < s \<and> s \<le> MAX_STOP) \<Longrightarrow>
   packets_ok packets' \<and> (\<forall>s. stop' = Some s \<longrightarrow> 0 < s \<and> s \<le> MAX_STOP)"
proof (induction lines arbitrary: stop packets)
  case (Cons line lines)
  from Cons.prems(1) consider
      (stop) parsed where "parse_padding_lines lines (Some parsed) packets = Inr (stop', packets')"
        "0 < parsed" "parsed \<le> MAX_STOP"
    | (packet) packet items tokens where
        "parse_padding_lines lines stop (packets @ [(packet, items)]) = Inr (stop', packets')"
        "packet \<notin> fst ` set packets" "parse_padding_items tokens [] = Inr items" "items \<noteq> []"
    by (auto simp: res_simps split: if_splits)
  then show ?case
  proof cases
    case stop
    then show ?thesis
      using Cons.prems(2) by (intro Cons.IH) auto
  next
    case packet
    then have "packets_ok (packets @ [(packet, items)])"
      using Cons.prems(2) parse_padding_items_ok [of tokens "[]" items]
      by (auto simp: packets_ok_def items_ok_def)
    then show ?thesis
      using packet(1) Cons.prems(3) by (intro Cons.IH) auto
  qed
qed simp

lemma padding_parse_wf:
  assumes "padding_parse md5 raw = Inr scheme"
  shows "padding_wf scheme"
proof -
  obtain stop packets zero where lines: "parse_padding_lines (str_lines raw) None [] = Inr (Some stop, packets)"
    and s: "scheme = \<lparr>ps_md5 = md5 raw, ps_stop = stop, ps_packets = packets\<rparr>"
    and below: "\<forall>(packet, items) \<in> set packets. packet < stop"
    and small: "\<forall>(packet, items) \<in> set packets. sum_list (map item_maximum items) \<le> MAX_LOGICAL_PADDING_BYTES"
    and zero: "map_of packets 0 = Some zero" "case zero of [PadRange a b] \<Rightarrow> True | _ \<Rightarrow> False"
    using assms
    by (force simp: padding_parse_def res_simps not_le not_less split: if_splits prod.splits)
  have "packets_ok packets \<and> 0 < stop \<and> stop \<le> MAX_STOP"
    using parse_padding_lines_ok [OF lines] by (simp add: packets_ok_def)
  moreover obtain a b where "zero = [PadRange a b]"
    using zero(2) by (auto split: list.splits padding_item.splits)
  ultimately show ?thesis
    using below small zero(1) by (fastforce simp: padding_wf_def s packets_ok_def)
qed

text \<open>
  Claim C25. A scheme the parser accepts is well formed: its stop value is between 1 and 256, packet
  keys are distinct and below it, every packet has between 1 and 32 items with positive, ordered
  ranges, no packet can ask for more than 65535 bytes, and packet zero is exactly one range (which is
  what the authentication padding takes without checking).
\<close>
theorem padding_parse_well_formed:
  assumes "padding_parse md5 raw = Inr scheme"
  shows "padding_wf scheme"
  using assms by (rule padding_parse_wf)

lemma write_items_ok:
  "\<forall>target. GenSize target \<in> set items \<longrightarrow> target \<le> MAX_FRAME_PAYLOAD \<Longrightarrow>
   \<exists>r. write_items items payload offset records = Inr r"
proof (induction items arbitrary: offset records)
  case (Cons item items)
  have waste: "\<exists>w. append_waste k out = Inr w" if "k \<le> MAX_FRAME_PAYLOAD" for k out
    using that by (simp add: append_waste_Inr)
  show ?case
  proof (cases item)
    case (GenSize target)
    then have "target \<le> MAX_FRAME_PAYLOAD" "target - length (drop offset payload) - HEADER_LENGTH \<le> MAX_FRAME_PAYLOAD"
      using Cons.prems by auto
    then obtain w1 w2 where "append_waste target [] = Inr w1"
      "append_waste (target - length (drop offset payload) - HEADER_LENGTH) (drop offset payload) = Inr w2"
      using waste by metis
    then show ?thesis
      using GenSize Cons by (simp add: Let_def del: length_drop)
  qed (use Cons in simp)
qed simp

text \<open>
  Claim C26. With a parsed scheme the packet writer never fails: for every packet number, payload and
  random draws that respect the documented half-open range it produces its records.
\<close>
theorem anytls_write_packet_total:
  assumes "padding_parse md5 raw = Inr scheme"
    and "\<And>i lo hi. lo < hi \<Longrightarrow> lo \<le> rand i lo hi \<and> rand i lo hi < hi"
  shows "\<exists>records. write_packet rand scheme packet payload = Inr records"
proof (cases "generated_items rand scheme packet")
  case None
  then show ?thesis by (simp add: write_packet_def)
next
  case (Some gen)
  then obtain items where items: "(packet, items) \<in> set (ps_packets scheme)"
    and gen: "gen = map (\<lambda>(i, item). generate_item (rand i) item) (enumerate 0 items)"
    by (auto simp: generated_items_def dest: map_of_SomeD split: if_splits)
  have "list_all item_ok items"
    using padding_parse_wf [OF assms(1)] items by (auto simp: padding_wf_def items_ok_def)
  have "target \<le> MAX_FRAME_PAYLOAD" if target: "GenSize target \<in> set gen" for target
  proof -
    obtain i item where "item \<in> set items" "generate_item (rand i) item = GenSize target"
      using target by (auto simp: gen enumerate_eq_zip dest: set_zip_rightD)
    then obtain a b where "PadRange a b \<in> set items" "target = random_in_half_open_range (rand i) a b"
      by (cases item rule: padding_item.exhaust) auto
    then show ?thesis
      using \<open>list_all item_ok items\<close> assms(2) [of a b i]
      by (fastforce simp: list_all_iff random_in_half_open_range_def MAX_FRAME_PAYLOAD_def)
  qed
  then obtain offset records where "write_items gen payload 0 [] = Inr (offset, records)"
    using write_items_ok [of gen payload 0 "[]"] by (metis surj_pair)
  then show ?thesis
    using Some by (simp add: write_packet_def)
qed

text \<open>A small scheme, used to exhibit the two properties.\<close>

definition small_scheme :: bytes where
  "small_scheme = str ''stop=2'' @ [10] @ str ''0=30-30'' @ [10] @ str ''1=9-12,c''"

lemma small_scheme_parses:
  "padding_parse md5 small_scheme =
     Inr \<lparr>ps_md5 = md5 small_scheme, ps_stop = 2,
          ps_packets = [(0, [PadRange 30 30]), (1, [PadRange 9 12, PadCheck])]\<rparr>"
  by (simp add: padding_parse_def small_scheme_def str_def str_lines_def split_once_def parse_uint_def
      is_ascii_digit_def decimal_value_def strip_suffix1_def parse_padding_token_def
      MAX_FRAME_PAYLOAD_def MAX_STOP_def MAX_ITEMS_PER_PACKET_def MAX_LOGICAL_PADDING_BYTES_def)

abbreviation demo_scheme :: padding_scheme where
  "demo_scheme \<equiv> \<lparr>ps_md5 = [], ps_stop = 2,
     ps_packets = [(0, [PadRange 30 30]), (1, [PadRange 9 12, PadCheck])]\<rparr>"

theorem padding_parse_well_formed_witness: "padding_wf demo_scheme"
  using padding_parse_well_formed [OF small_scheme_parses, of "\<lambda>_. []"] by simp

theorem anytls_write_packet_total_witness:
  "\<exists>records. write_packet (\<lambda>i lo hi. lo) demo_scheme 1 [1, 2, 3] = Inr records"
  using anytls_write_packet_total [OF small_scheme_parses [of "\<lambda>_. []"], of "\<lambda>i lo hi. lo" 1 "[1, 2, 3]"]
  by simp

theorem anytls_padding_transparent_witness:
  "\<exists>ws. read_frames (1 + length ws)
      (concat [frame_wire (frame_empty Syn 1), frame_wire (waste_frame 3)] @ [9])
      = Inr (frame_empty Syn 1 # ws, [9]) \<and>
    (\<forall>w \<in> set ws. fr_command w = Waste \<and> fr_stream_id w = 0)"
proof -
  have batch: "encode_batch [frame_empty Syn 1] = Inr (frame_wire (frame_empty Syn 1))"
    by (simp add: encode_batch_def res_simps checked_add_def usize_max_def encoded_len_def
        HEADER_LENGTH_def frame_empty_def encode_into_eq)
  have "length (frame_wire (frame_empty Syn 1)) = 7" "frame_wire (frame_empty Syn 1) \<noteq> []"
    by (simp_all add: encoded_len_def HEADER_LENGTH_def frame_empty_def frame_wire_def)
  then have "write_items [GenSize 7, GenSize 3] (frame_wire (frame_empty Syn 1)) 0 [] =
      Inr (7, [frame_wire (frame_empty Syn 1), frame_wire (waste_frame 3)])"
    by (simp add: append_waste_def frame_with_payload_def encode_into_eq waste_frame_def Let_def
        MAX_FRAME_PAYLOAD_def HEADER_LENGTH_def)
  then have "write_packet (\<lambda>i lo hi. lo)
      \<lparr>ps_md5 = [], ps_stop = 2, ps_packets = [(1, [PadRange 7 9, PadRange 3 3])]\<rparr> 1
      (frame_wire (frame_empty Syn 1)) = Inr [frame_wire (frame_empty Syn 1), frame_wire (waste_frame 3)]"
    using \<open>length (frame_wire (frame_empty Syn 1)) = 7\<close>
    by (simp add: write_packet_def generated_items_def random_in_half_open_range_def)
  from anytls_padding_transparent [OF batch this, of "[9]"] show ?thesis by simp
qed

end
