(* ===== verification/Packet_Window.thy ===== *)
theory Packet_Window
  imports Wire_Prelude
begin

text \<open>
  \<^verbatim>\<open>src/outbound/shadowsocks/packet_window.rs\<close>: the sliding-window replay filter of the Shadowsocks
  2022 datagram sessions, a ring of 128 blocks of 64 bits indexed by packet id. It is shown to
  implement the set of ids it has accepted.
\<close>

unbundle bit_operations_syntax

section \<open>The contract of a replay filter\<close>

text \<open>The queries a filter accepts when it is run on a sequence of them.\<close>

fun accepted :: "('s \<Rightarrow> 'q \<Rightarrow> 's \<times> bool) \<Rightarrow> 's \<Rightarrow> 'q list \<Rightarrow> 'q list" where
  "accepted check s [] = []"
| "accepted check s (q # qs) =
     (let (s', ok) = check s q in (if ok then [q] else []) @ accepted check s' qs)"

locale replay_filter =
  fixes fresh :: 's
    and check :: "'s \<Rightarrow> 'q \<Rightarrow> 's \<times> bool"
    and key :: "'q \<Rightarrow> 'k"
    and seen :: "'s \<Rightarrow> 'k set \<Rightarrow> bool"
  assumes seen_fresh: "seen fresh {}"
    and seen_check: "seen s S \<Longrightarrow> check s q = (s', ok) \<Longrightarrow> seen s' (if ok then insert (key q) S else S)"
    and check_replay: "seen s S \<Longrightarrow> key q \<in> S \<Longrightarrow> \<not> snd (check s q)"
begin

lemma accepted_distinct_from:
  "seen s S \<Longrightarrow> distinct (map key (accepted check s qs)) \<and> key ` set (accepted check s qs) \<inter> S = {}"
proof (induction qs arbitrary: s S)
  case Nil
  then show ?case by simp
next
  case (Cons q qs)
  obtain s' ok where c: "check s q = (s', ok)"
    by (cases "check s q")
  have "seen s' (if ok then insert (key q) S else S)"
    using seen_check [OF Cons.prems c] .
  from Cons.IH [OF this] show ?case
    using c check_replay [OF Cons.prems, of q] by (auto split: if_splits)
qed

lemma accepted_distinct: "distinct (map key (accepted check fresh qs))"
  using accepted_distinct_from [OF seen_fresh] by blast

end

section \<open>The filter\<close>

definition BLOCK_BIT_LOG :: nat where "BLOCK_BIT_LOG = 6"
definition RING_BLOCKS :: u64 where "RING_BLOCKS = 128"
definition WINDOW_SIZE :: u64 where "WINDOW_SIZE = (RING_BLOCKS - 1) * 64"
definition BLOCK_MASK :: u64 where "BLOCK_MASK = RING_BLOCKS - 1"
definition BIT_MASK :: u64 where "BIT_MASK = 63"

lemmas window_consts = BLOCK_BIT_LOG_def RING_BLOCKS_def WINDOW_SIZE_def BLOCK_MASK_def BIT_MASK_def

record packet_window =
  last_packet_id :: u64
  packet_ring :: "u64 list"

definition window_new :: packet_window where
  "window_new = \<lparr>last_packet_id = 0, packet_ring = replicate (unat RING_BLOCKS) 0\<rparr>"

text \<open>The loop over \<^verbatim>\<open>1..=diff\<close> that clears the blocks the window moves into.\<close>

fun clear_blocks :: "u64 \<Rightarrow> nat list \<Rightarrow> u64 list \<Rightarrow> u64 list" where
  "clear_blocks current [] ring = ring"
| "clear_blocks current (d # ds) ring =
     clear_blocks current ds (ring[unat ((current + of_nat d) AND BLOCK_MASK) := 0])"

definition check_and_set :: "packet_window \<Rightarrow> u64 \<Rightarrow> packet_window \<times> bool" where
  "check_and_set f packet_id =
     (let index_block = drop_bit BLOCK_BIT_LOG packet_id AND BLOCK_MASK;
          index_bit = packet_id AND BIT_MASK;
          old = packet_ring f ! unat index_block;
          new = old OR push_bit (unat index_bit) 1 in
      (f\<lparr>packet_ring := (packet_ring f)[unat index_block := new]\<rparr>, old \<noteq> new))"

definition validate_packet_id :: "packet_window \<Rightarrow> u64 \<Rightarrow> u64 \<Rightarrow> packet_window \<times> bool" where
  "validate_packet_id f packet_id limit =
     (if limit \<le> packet_id then (f, False)
      else
        let index_block = drop_bit BLOCK_BIT_LOG packet_id in
        if last_packet_id f < packet_id then
          let current = drop_bit BLOCK_BIT_LOG (last_packet_id f);
              diff = index_block - current;
              diff = (if RING_BLOCKS < diff then RING_BLOCKS else diff);
              ring = clear_blocks current [1..<Suc (unat diff)] (packet_ring f) in
          check_and_set (f\<lparr>packet_ring := ring, last_packet_id := packet_id\<rparr>) packet_id
        else if WINDOW_SIZE < last_packet_id f - packet_id then (f, False)
        else check_and_set f packet_id)"

section \<open>The ring as a set of ids\<close>

text \<open>Block and bit of an id, and the bit the ring holds for it.\<close>

definition ring_bit :: "u64 list \<Rightarrow> nat \<Rightarrow> bool" where
  "ring_bit ring n = bit (ring ! (n div 64 mod 128)) (n mod 64)"

definition in_ring :: "nat \<Rightarrow> nat \<Rightarrow> bool" where
  "in_ring newest n \<longleftrightarrow> newest div 64 \<le> n div 64 + 127 \<and> n div 64 \<le> newest div 64"

definition window_seen :: "packet_window \<Rightarrow> nat set \<Rightarrow> bool" where
  "window_seen f S \<longleftrightarrow> length (packet_ring f) = 128 \<and>
     (\<forall>n \<in> S. n \<le> unat (last_packet_id f)) \<and>
     (\<forall>n. in_ring (unat (last_packet_id f)) n \<longrightarrow> ring_bit (packet_ring f) n = (n \<in> S))"

lemma unat_block [simp]: "unat ((w :: u64) div 64) = unat w div 64"
  by (simp add: unat_div)

lemma unat_block_shift [simp]: "unat (drop_bit 6 (w :: u64)) = unat w div 64"
  by (simp add: drop_bit_eq_div)

lemma unat_and_127 [simp]: "unat ((w :: u64) AND 127) = unat w mod 128"
proof -
  have "w AND 127 = take_bit 7 w"
    by (simp add: take_bit_eq_mask mask_eq_exp_minus_1)
  then show ?thesis
    by (simp add: take_bit_eq_mod unat_mod)
qed

lemma unat_and_63 [simp]: "unat ((w :: u64) AND 63) = unat w mod 64"
proof -
  have "w AND 63 = take_bit 6 w"
    by (simp add: take_bit_eq_mask mask_eq_exp_minus_1)
  then show ?thesis
    by (simp add: take_bit_eq_mod unat_mod)
qed

lemma ring_bit_set:
  assumes "length ring = 128"
  shows "ring_bit (ring[n div 64 mod 128 := ring ! (n div 64 mod 128) OR 2 ^ (n mod 64)]) m \<longleftrightarrow>
           ring_bit ring m \<or> (m div 64 mod 128 = n div 64 mod 128 \<and> m mod 64 = n mod 64)"
proof -
  have "n div 64 mod 128 < length ring" "n mod 64 < 64" "m mod 64 < 64"
    using assms by simp_all
  then show ?thesis
    by (auto simp: ring_bit_def nth_list_update bit_or_iff bit_exp_iff)
qed

lemma set_bit_new:
  fixes w :: u64
  assumes "k < 64"
  shows "w = w OR 2 ^ k \<longleftrightarrow> bit w k"
proof
  assume "w = w OR 2 ^ k"
  then have "bit w k = bit (w OR 2 ^ k) k"
    by simp
  then show "bit w k"
    using assms by (simp add: bit_or_iff bit_exp_iff)
next
  assume "bit w k"
  then show "w = w OR 2 ^ k"
    by (intro bit_word_eqI) (auto simp: bit_or_iff bit_exp_iff)
qed

lemma same_slot_in_ring:
  assumes "in_ring newest m" "in_ring newest n"
    and "m div 64 mod 128 = n div 64 mod 128" "m mod 64 = n mod 64"
  shows "m = n"
proof -
  have "m div 64 = n div 64"
  proof (rule ccontr)
    assume "m div 64 \<noteq> n div 64"
    then consider "m div 64 < n div 64" | "n div 64 < m div 64" by linarith
    then show False
    proof cases
      case 1
      then have "128 dvd n div 64 - m div 64"
        using assms(3) by (simp add: mod_eq_dvd_iff_nat [symmetric])
      then show False
        using 1 assms(1,2) by (auto simp: in_ring_def dest: dvd_imp_le)
    next
      case 2
      then have "128 dvd m div 64 - n div 64"
        using assms(3) by (simp add: mod_eq_dvd_iff_nat [symmetric])
      then show False
        using 2 assms(1,2) by (auto simp: in_ring_def dest: dvd_imp_le)
    qed
  qed
  with assms(4) show ?thesis
    by (metis div_mod_decomp)
qed

lemma length_clear_blocks [simp]: "length (clear_blocks current ds ring) = length ring"
  by (induction ds arbitrary: ring) simp_all

lemma clear_blocks_nth:
  assumes "length ring = 128" "\<And>d. d \<in> set ds \<Longrightarrow> unat current + d < 2 ^ 64" "i < 128"
  shows "clear_blocks current ds ring ! i =
           (if \<exists>d \<in> set ds. (unat current + d) mod 128 = i then 0 else ring ! i)"
  using assms
proof (induction ds arbitrary: ring)
  case Nil
  then show ?case by simp
next
  case (Cons d ds)
  have "unat (current + of_nat d) = unat current + d"
    using Cons.prems(2) [of d] by (simp add: unat_word_ariths unat_of_nat)
  then show ?case
    using Cons by (auto simp: window_consts nth_list_update)
qed

lemma check_and_set_seen:
  assumes "window_seen f S" "in_ring (unat (last_packet_id f)) (unat packet_id)"
    and "unat packet_id \<le> unat (last_packet_id f)" "check_and_set f packet_id = (f', ok)"
  shows "ok = (unat packet_id \<notin> S)" "window_seen f' (insert (unat packet_id) S)"
    "last_packet_id f' = last_packet_id f"
proof -
  let ?n = "unat packet_id" and ?ring = "packet_ring f"
  have "f' = f\<lparr>packet_ring := ?ring[?n div 64 mod 128 := ?ring ! (?n div 64 mod 128) OR 2 ^ (?n mod 64)]\<rparr>"
    and ok: "ok = (?ring ! (?n div 64 mod 128) \<noteq> ?ring ! (?n div 64 mod 128) OR 2 ^ (?n mod 64))"
    using assms(4) by (auto simp: check_and_set_def window_consts Let_def)
  with assms(1-3) show "window_seen f' (insert ?n S)" "last_packet_id f' = last_packet_id f"
    using same_slot_in_ring [OF _ assms(2)] by (auto simp: window_seen_def ring_bit_set)
  show "ok = (?n \<notin> S)"
    using ok assms(1,2) by (simp add: set_bit_new window_seen_def ring_bit_def)
qed

lemma diff_in_range: "\<not> b \<le> a \<Longrightarrow> b \<le> c \<Longrightarrow> b - a \<in> {1..c - a}" for a b c :: nat
  by auto

lemma advance_seen:
  assumes "window_seen f S" "last_packet_id f < packet_id"
  defines "current \<equiv> last_packet_id f div 64"
  defines "diff \<equiv> (if 128 < packet_id div 64 - current then 128 else packet_id div 64 - current)"
  shows "window_seen (f\<lparr>packet_ring := clear_blocks current [1..<Suc (unat diff)] (packet_ring f),
           last_packet_id := packet_id\<rparr>) S"
proof -
  let ?l = "unat (last_packet_id f)" and ?p = "unat packet_id" and ?D = "unat diff"
  define ring' where "ring' = clear_blocks current [1..<Suc ?D] (packet_ring f)"
  have lt: "?l < ?p" and p64: "?p < 2 ^ 64"
    using assms(2) unsigned_less [of packet_id] by (simp_all add: word_less_nat_alt)
  have "current \<le> packet_id div 64"
    using lt by (simp add: current_def word_le_nat_alt div_le_mono)
  then have D: "?D = min 128 (?p div 64 - ?l div 64)"
    by (simp add: diff_def current_def word_less_nat_alt unat_sub word_le_nat_alt min_def)
  have "unat current + d < 2 ^ 64" if "d \<in> {1..?D}" for d
  proof -
    have "unat current + d \<le> ?p div 64"
      using that D lt by (auto simp: current_def)
    also have "\<dots> \<le> ?p"
      by simp
    finally show ?thesis
      using p64 by linarith
  qed
  then have ring: "ring' ! i =
      (if \<exists>d \<in> {1..?D}. (?l div 64 + d) mod 128 = i then 0 else packet_ring f ! i)" if "i < 128" for i
    using that assms(1) clear_blocks_nth [of "packet_ring f" "[1..<Suc ?D]" current i]
    by (simp only: set_upt atLeastLessThanSuc_atLeastAtMost window_seen_def current_def unat_block ring'_def)
  have "ring_bit ring' n = (n \<in> S)" if n: "in_ring ?p n" for n
  proof (cases "n div 64 \<le> ?l div 64")
    case True
    have "(?l div 64 + d) mod 128 \<noteq> n div 64 mod 128" if "d \<in> {1..?D}" for d
    proof
      assume "(?l div 64 + d) mod 128 = n div 64 mod 128"
      then have "128 dvd ?l div 64 + d - n div 64"
        using True by (simp add: mod_eq_dvd_iff_nat [symmetric])
      then have "128 \<le> ?l div 64 + d - n div 64"
        using True that by (intro dvd_imp_le) auto
      moreover have "?l div 64 + d \<le> ?p div 64"
        using that D lt by auto
      ultimately show False
        using n unfolding in_ring_def by linarith
    qed
    moreover have "in_ring ?l n"
      using True n lt by (auto simp: in_ring_def intro: le_trans [OF div_le_mono])
    ultimately show ?thesis
      using assms(1) by (auto simp: ring_bit_def ring window_seen_def)
  next
    case False
    have "\<exists>d \<in> {1..?D}. (?l div 64 + d) mod 128 = n div 64 mod 128"
    proof (cases "?D = 128")
      case True
      define k where "k = n div 64 - Suc (?l div 64)"
      have "n div 64 = Suc (?l div 64) + k"
        using False unfolding k_def by simp
      then show ?thesis
        using True mod_add_right_eq [of "Suc (?l div 64)" k 128]
        by (intro bexI [of _ "Suc (k mod 128)"]) (simp_all add: Suc_le_eq)
    next
      case notfull: False
      with D have "?D = ?p div 64 - ?l div 64"
        by linarith
      then have "n div 64 - ?l div 64 \<in> {1..?D}"
        using diff_in_range [OF False] n by (simp only: in_ring_def)
      then show ?thesis
        using False by (intro bexI [of _ "n div 64 - ?l div 64"]) simp_all
    qed
    moreover have "n \<notin> S"
      using False assms(1) by (auto simp: window_seen_def dest!: bspec intro: div_le_mono)
    ultimately show ?thesis
      by (simp add: ring_bit_def ring)
  qed
  moreover have "length ring' = 128"
    using assms(1) by (simp only: ring'_def length_clear_blocks window_seen_def)
  ultimately have "window_seen (f\<lparr>packet_ring := ring', last_packet_id := packet_id\<rparr>) S"
    using assms(1) lt by (auto simp: window_seen_def)
  then show ?thesis
    by (simp only: ring'_def)
qed

lemma validate_rejects:
  assumes "limit \<le> packet_id \<or> unat WINDOW_SIZE < unat (last_packet_id f) - unat packet_id"
  shows "validate_packet_id f packet_id limit = (f, False)"
proof (cases "limit \<le> packet_id")
  case False
  with assms have "unat packet_id \<le> unat (last_packet_id f)"
    and far: "unat WINDOW_SIZE < unat (last_packet_id f) - unat packet_id"
    by simp_all
  then have le: "packet_id \<le> last_packet_id f"
    by (simp add: word_le_nat_alt)
  with far have "WINDOW_SIZE < last_packet_id f - packet_id"
    by (simp add: word_less_nat_alt unat_sub)
  then show ?thesis
    using False le by (simp add: validate_packet_id_def Let_def leD)
qed (simp add: validate_packet_id_def)

lemma validate_in_window:
  assumes "packet_id < limit" "packet_id \<le> last_packet_id f"
    and "unat (last_packet_id f) - unat packet_id \<le> unat WINDOW_SIZE"
  shows "validate_packet_id f packet_id limit = check_and_set f packet_id"
    and "in_ring (unat (last_packet_id f)) (unat packet_id)"
proof -
  have "\<not> WINDOW_SIZE < last_packet_id f - packet_id"
    using assms(2,3) by (simp add: not_less word_le_nat_alt [of _ WINDOW_SIZE] unat_sub)
  with assms show "validate_packet_id f packet_id limit = check_and_set f packet_id"
    by (simp add: validate_packet_id_def Let_def leD not_le [symmetric])
  show "in_ring (unat (last_packet_id f)) (unat packet_id)"
    using assms(2,3) by (auto simp: in_ring_def word_le_nat_alt window_consts intro: div_le_mono)
qed

lemma validate_advances:
  assumes "window_seen f S" "packet_id < limit" "last_packet_id f < packet_id"
  obtains g where "validate_packet_id f packet_id limit = check_and_set g packet_id"
    "window_seen g S" "last_packet_id g = packet_id"
proof -
  define current where "current = last_packet_id f div 64"
  define diff where "diff = (if 128 < packet_id div 64 - current then 128 else packet_id div 64 - current)"
  let ?g = "f\<lparr>packet_ring := clear_blocks current [1..<Suc (unat diff)] (packet_ring f),
               last_packet_id := packet_id\<rparr>"
  have "validate_packet_id f packet_id limit = check_and_set ?g packet_id"
    using assms(2,3) unfolding validate_packet_id_def window_consts current_def diff_def Let_def drop_bit_eq_div
    by (simp add: linorder_not_less [symmetric] del: upt_Suc)
  moreover have "window_seen ?g S"
    using advance_seen [OF assms(1,3)] unfolding current_def diff_def .
  ultimately show ?thesis
    by (intro that [of ?g]) simp_all
qed

definition window_fresh :: "packet_window \<Rightarrow> nat set \<Rightarrow> u64 \<Rightarrow> u64 \<Rightarrow> bool" where
  "window_fresh f S packet_id limit \<longleftrightarrow> packet_id < limit \<and> unat packet_id \<notin> S \<and>
     unat (last_packet_id f) - unat packet_id \<le> unat WINDOW_SIZE"

lemma validate_packet_id_seen:
  assumes seen: "window_seen f S" and v: "validate_packet_id f packet_id limit = (f', ok)"
  shows "(ok \<longleftrightarrow> window_fresh f S packet_id limit) \<and>
         window_seen f' (if ok then insert (unat packet_id) S else S) \<and>
         last_packet_id f' = (if ok then max (last_packet_id f) packet_id else last_packet_id f)"
proof (cases "limit \<le> packet_id \<or> unat WINDOW_SIZE < unat (last_packet_id f) - unat packet_id")
  case True
  then show ?thesis
    using validate_rejects [OF True] v seen by (auto simp: window_fresh_def)
next
  case False
  show ?thesis
  proof (cases "last_packet_id f < packet_id")
    case True
    then obtain g where g: "check_and_set g packet_id = (f', ok)" "window_seen g S" "last_packet_id g = packet_id"
      using validate_advances [OF seen, of packet_id limit] False v by (metis not_le)
    moreover have "unat packet_id \<notin> S"
      using seen True by (auto simp: window_seen_def word_less_nat_alt)
    ultimately show ?thesis
      using check_and_set_seen [OF g(2) _ _ g(1)] True False
      by (simp add: in_ring_def window_fresh_def max.absorb2 not_le)
  next
    case inside: False
    then have le: "packet_id \<le> last_packet_id f" "unat packet_id \<le> unat (last_packet_id f)"
      by (simp_all add: not_less word_le_nat_alt [symmetric])
    have cond: "packet_id < limit" "unat (last_packet_id f) - unat packet_id \<le> unat WINDOW_SIZE"
      using False by (simp_all only: de_Morgan_disj not_le not_less)
    note w = validate_in_window [OF cond(1) le(1) cond(2)]
    have "ok = (unat packet_id \<notin> S)" "window_seen f' (insert (unat packet_id) S)"
      "last_packet_id f' = last_packet_id f"
      using check_and_set_seen [OF seen w(2) le(2) trans [OF w(1) [symmetric] v]] .
    then show ?thesis
      using cond le(1) by (cases ok) (simp_all add: window_fresh_def max.absorb1 insert_absorb)
  qed
qed

lemma window_new_seen: "window_seen window_new {}"
  by (auto simp: window_seen_def window_new_def ring_bit_def window_consts)

interpretation window: replay_filter window_new "\<lambda>f (packet_id, limit). validate_packet_id f packet_id limit"
  "\<lambda>(packet_id, limit). unat packet_id" window_seen
proof (unfold_locales, goal_cases)
  case 1
  show ?case by (rule window_new_seen)
next
  case (2 s S q s' ok)
  then show ?case
    by (cases q) (auto dest: validate_packet_id_seen split: if_splits)
next
  case (3 s S q)
  then show ?case
    by (cases q; cases "validate_packet_id s (fst q) (snd q)") (auto simp: window_fresh_def dest: validate_packet_id_seen)
qed

section \<open>Claims\<close>

text \<open>
  Claim C2. The ring implements the set of accepted packet ids. In a state that has accepted
  exactly the ids \<^term>\<open>S\<close>, an id is accepted if and only if it is below the limit, has not been
  accepted before and is at most \<^verbatim>\<open>WINDOW_SIZE\<close> behind the newest accepted id; the new state has
  accepted that id as well, and its newest id is the larger of the two.
\<close>

theorem packet_window_refines:
  assumes "window_seen f S" "validate_packet_id f packet_id limit = (f', ok)"
  shows "(ok \<longleftrightarrow> packet_id < limit \<and> unat packet_id \<notin> S \<and>
            unat (last_packet_id f) - unat packet_id \<le> unat WINDOW_SIZE) \<and>
         window_seen f' (if ok then insert (unat packet_id) S else S) \<and>
         last_packet_id f' = (if ok then max (last_packet_id f) packet_id else last_packet_id f)"
  using validate_packet_id_seen [OF assms] unfolding window_fresh_def .

theorem packet_window_refines_witness:
  "window_seen (fst (validate_packet_id window_new 5 100)) {5}"
proof -
  obtain f ok where v: "validate_packet_id window_new 5 100 = (f, ok)"
    by (cases "validate_packet_id window_new 5 100")
  show ?thesis
    using packet_window_refines [OF window_new_seen v] v by (simp add: window_consts window_new_def split: if_splits)
qed

text \<open>
  No replay: over any sequence of ids and limits presented to a new filter, the ids it
  accepts are pairwise different.
\<close>

theorem packet_window_no_replay:
  "distinct (map (\<lambda>(packet_id, limit). packet_id)
     (accepted (\<lambda>f (packet_id, limit). validate_packet_id f packet_id limit) window_new qs))"
proof -
  have "map (\<lambda>(packet_id, limit). unat packet_id) qs' = map unat (map (\<lambda>(packet_id, limit). packet_id) qs')"
    for qs' :: "(u64 \<times> u64) list"
    by (induction qs') auto
  then show ?thesis
    using window.accepted_distinct [of qs] by (simp only: distinct_map)
qed

end
