(* ===== verification/Geo_Selectors.thy ===== *)
theory Geo_Selectors
  imports Rust_Str "HOL-Library.List_Lexorder"
begin

text \<open>
  \<^verbatim>\<open>src/geodata/selectors.rs\<close> and \<^verbatim>\<open>Code::parse\<close> of \<^verbatim>\<open>src/geodata/mod.rs\<close>: the canonical form of a
  GeoData selector \<^verbatim>\<open>!code@attribute@attribute\<close>. The Unicode tables are parameters: \<^verbatim>\<open>lower\<close> is the
  first scalar of \<^verbatim>\<open>char::to_lowercase\<close>, \<^verbatim>\<open>fold_start\<close> the first scalar of the simple case-folding
  class that \<^verbatim>\<open>regex_syntax\<close> computes.
\<close>

section \<open>Characters of a string\<close>

definition utf8_low :: "bytes \<Rightarrow> nat \<Rightarrow> nat" where
  "utf8_low bs i = (if i < length bs then unat (bs ! i) mod 64 else 0)"

fun utf8_chars :: "bytes \<Rightarrow> nat list" where
  "utf8_chars [] = []"
| "utf8_chars (b # bs) =
     (if b < 0x80 then unat b # utf8_chars bs
      else if b < 0xE0 then (unat b mod 32 * 64 + utf8_low bs 0) # utf8_chars (drop 1 bs)
      else if b < 0xF0 then
        (unat b mod 16 * 4096 + utf8_low bs 0 * 64 + utf8_low bs 1) # utf8_chars (drop 2 bs)
      else (unat b mod 8 * 262144 + utf8_low bs 0 * 4096 + utf8_low bs 1 * 64 + utf8_low bs 2)
             # utf8_chars (drop 3 bs))"

definition utf8_char :: "nat \<Rightarrow> bytes" where
  "utf8_char c =
     (if c < 0x80 then [of_nat c]
      else if c < 0x800 then [of_nat (0xC0 + c div 64), of_nat (0x80 + c mod 64)]
      else if c < 0x10000 then
        [of_nat (0xE0 + c div 4096), of_nat (0x80 + c div 64 mod 64), of_nat (0x80 + c mod 64)]
      else [of_nat (0xF0 + c div 262144), of_nat (0x80 + c div 4096 mod 64),
            of_nat (0x80 + c div 64 mod 64), of_nat (0x80 + c mod 64)])"

definition char_is_whitespace :: "nat \<Rightarrow> bool" where
  "char_is_whitespace c \<longleftrightarrow> (9 \<le> c \<and> c \<le> 13) \<or> c = 0x20 \<or> c = 0x85 \<or> c = 0xA0 \<or> c = 0x1680 \<or>
     (0x2000 \<le> c \<and> c \<le> 0x200A) \<or> c = 0x2028 \<or> c = 0x2029 \<or> c = 0x202F \<or> c = 0x205F \<or> c = 0x3000"

definition char_is_control :: "nat \<Rightarrow> bool" where
  "char_is_control c \<longleftrightarrow> c < 0x20 \<or> (0x7F \<le> c \<and> c \<le> 0x9F)"

definition char_to_ascii_lowercase :: "nat \<Rightarrow> nat" where
  "char_to_ascii_lowercase c = (if 65 \<le> c \<and> c \<le> 90 then c + 32 else c)"

definition trim_chars :: "nat list \<Rightarrow> nat list" where
  "trim_chars cs = rev (dropWhile char_is_whitespace (rev (dropWhile char_is_whitespace cs)))"

section \<open>Codes and selectors\<close>

datatype geo_data_kind = GeoSiteKind | GeoIpKind

text \<open>Of the errors the kind and the category are kept, not the text of the detail.\<close>

datatype geo_data_error =
  InvalidCode geo_data_kind bytes
| DuplicateCode geo_data_kind bytes
| MissingCode geo_data_kind bytes
| GeoMalformed geo_data_kind
| GeoInvalidDomain bytes
| GeoInvalidRegex bytes
| GeoInvalidCidr bytes
| GeoResourceLimit
| GeoIo geo_data_kind io_error

definition MAX_CODE_BYTES :: nat where "MAX_CODE_BYTES = 64"

text \<open>\<^verbatim>\<open>Code::parse\<close>; the result is \<^verbatim>\<open>Code::as_str\<close>.\<close>

definition code_parse :: "geo_data_kind \<Rightarrow> bytes \<Rightarrow> geo_data_error + bytes" where
  "code_parse kind raw =
     (if raw = [] \<or> MAX_CODE_BYTES < length raw \<or> \<not> is_ascii_alphanumeric (hd raw) \<or>
         \<not> list_all (\<lambda>b. is_ascii_alphanumeric b \<or> b \<in> set (str ''._+!-'')) (tl raw)
      then Inl (InvalidCode kind raw)
      else Inr (ascii_lowercase raw))"

definition fold_attribute :: "(nat \<Rightarrow> nat) \<Rightarrow> nat list \<Rightarrow> nat list" where
  "fold_attribute fold_start raw =
     map (\<lambda>ch. if ch < 0x80 \<and> ch \<notin> {0x6B, 0x4B, 0x73, 0x53} then char_to_ascii_lowercase ch
               else char_to_ascii_lowercase (fold_start ch)) raw"

fun normalize_attributes ::
  "(nat \<Rightarrow> nat) \<Rightarrow> (nat \<Rightarrow> nat) \<Rightarrow> geo_data_kind \<Rightarrow> bytes \<Rightarrow> bytes list \<Rightarrow> geo_data_error + bytes list" where
  "normalize_attributes lower fold_start kind raw [] = Inr []"
| "normalize_attributes lower fold_start kind raw (attribute # parts) =
     (if kind = GeoIpKind then Inl (InvalidCode kind raw)
      else let attribute = trim_chars (utf8_chars attribute) in
        if attribute = [] then normalize_attributes lower fold_start kind raw parts
        else if list_ex (\<lambda>ch. char_is_control ch \<or> char_is_whitespace ch \<or> ch = 0x40 \<or> ch = 0x2C) attribute
          then Inl (InvalidCode kind raw)
        else and_then (normalize_attributes lower fold_start kind raw parts) (\<lambda>attributes.
          Inr (concat (map utf8_char (fold_attribute fold_start (map lower attribute))) # attributes)))"

definition normalize_selector ::
  "(nat \<Rightarrow> nat) \<Rightarrow> (nat \<Rightarrow> nat) \<Rightarrow> geo_data_kind \<Rightarrow> bytes \<Rightarrow> geo_data_error + bytes" where
  "normalize_selector lower fold_start kind raw =
     (let (reversed, positive) =
            (case raw of b # rest \<Rightarrow> if b = 0x21 then (True, rest) else (False, raw) | [] \<Rightarrow> (False, raw));
          parts = split_on 0x40 positive in
      and_then (code_parse kind (hd parts)) (\<lambda>code.
      and_then (normalize_attributes lower fold_start kind raw (tl parts)) (\<lambda>attributes.
        Inr ((if reversed then [0x21] else []) @ code @
             concat (map (\<lambda>attribute. 0x40 # attribute) (remdups_adj (sort attributes)))))))"

definition positive_selector :: "bytes \<Rightarrow> bytes" where
  "positive_selector raw = (case raw of b # rest \<Rightarrow> if b = 0x21 then rest else raw | [] \<Rightarrow> raw)"

definition selector_code :: "bytes \<Rightarrow> bytes" where
  "selector_code raw = hd (split_on 0x40 (positive_selector raw))"

definition selector_attributes :: "bytes \<Rightarrow> bytes" where
  "selector_attributes raw =
     (case split_once 0x40 (positive_selector raw) of None \<Rightarrow> [] | Some (code, attributes) \<Rightarrow> attributes)"

section \<open>Facts\<close>

text \<open>An attribute is skipped, refused or folded, independently of the others.\<close>

definition attribute_form :: "(nat \<Rightarrow> nat) \<Rightarrow> (nat \<Rightarrow> nat) \<Rightarrow> bytes \<Rightarrow> bytes" where
  "attribute_form lower fold_start attribute =
     concat (map utf8_char (fold_attribute fold_start (map lower (trim_chars (utf8_chars attribute)))))"

definition attribute_blank :: "bytes \<Rightarrow> bool" where
  "attribute_blank attribute \<longleftrightarrow> trim_chars (utf8_chars attribute) = []"

definition attribute_valid :: "bytes \<Rightarrow> bool" where
  "attribute_valid attribute \<longleftrightarrow>
     list_all (\<lambda>ch. \<not> (char_is_control ch \<or> char_is_whitespace ch \<or> ch = 0x40 \<or> ch = 0x2C))
       (trim_chars (utf8_chars attribute))"

lemma normalize_attributes_Inr_iff [res_simps]:
  "normalize_attributes lower fold_start kind raw parts = Inr v \<longleftrightarrow>
     (kind = GeoSiteKind \<or> parts = []) \<and> list_all attribute_valid parts \<and>
     v = map (attribute_form lower fold_start) (filter (\<lambda>a. \<not> attribute_blank a) parts)"
proof (induction parts arbitrary: v)
  case (Cons a parts)
  then show ?case
    by (cases kind) (auto simp: Let_def res_simps attribute_form_def attribute_blank_def attribute_valid_def
        list_ex_iff list_all_iff)
qed auto

lemma remdups_adj_strict: "sorted xs \<Longrightarrow> sorted_wrt (<) (remdups_adj xs)" for xs :: "'a :: linorder list"
proof (induction xs rule: remdups_adj.induct)
  case (3 x y xs)
  then have "x \<noteq> y \<Longrightarrow> z \<in> set (y # xs) \<Longrightarrow> x < z" for z
    by (auto simp: less_le)
  with 3 show ?case by simp
qed simp_all

lemma remdups_adj_sort: "remdups_adj (sort xs) = sorted_list_of_set (set xs)"
  for xs :: "'a :: linorder list"
  using remdups_adj_strict [of "sort xs"]
  by (metis List.finite_set remdups_adj_set set_sort sorted_list_of_set.sorted_key_list_of_set_unique
      sorted_list_of_set.idem_if_sorted_distinct sorted_sort strict_sorted_iff)

lemma set_attribute_forms:
  "set (map (attribute_form lower fold_start) (filter (\<lambda>a. \<not> attribute_blank a) parts)) =
     attribute_form lower fold_start ` {a \<in> set parts. \<not> attribute_blank a}"
  by auto

text \<open>The text of a selector with a given code and attributes, and how it splits.\<close>

definition selector_text :: "bytes \<Rightarrow> bytes list \<Rightarrow> bytes" where
  "selector_text code attributes = join 0x40 (code # attributes)"

lemma positive_selector_text:
  "positive_selector (selector_text code attributes) = selector_text (positive_selector code) attributes"
  by (cases code; cases attributes) (auto simp: selector_text_def positive_selector_def)

lemma normalize_selector_alt:
  "normalize_selector lower fold_start kind raw =
     (let parts = split_on 0x40 (positive_selector raw) in
      and_then (code_parse kind (hd parts)) (\<lambda>code.
      and_then (normalize_attributes lower fold_start kind raw (tl parts)) (\<lambda>attributes.
        Inr ((if positive_selector raw = raw then [] else [0x21]) @ code @
             concat (map (\<lambda>attribute. 0x40 # attribute) (remdups_adj (sort attributes)))))))"
  by (auto simp: normalize_selector_def positive_selector_def Let_def split: list.splits)

lemma positive_selector_fixed:
  "positive_selector (selector_text code attributes) = selector_text code attributes \<longleftrightarrow>
     positive_selector code = code"
  by (cases code; cases attributes) (auto simp: selector_text_def positive_selector_def)

lemma split_selector_text:
  "0x40 \<notin> set code \<Longrightarrow> \<forall>a \<in> set attributes. 0x40 \<notin> set a \<Longrightarrow>
   split_on 0x40 (positive_selector (selector_text code attributes)) = positive_selector code # attributes"
  unfolding positive_selector_text unfolding selector_text_def
  by (rule split_on_join) (auto simp: positive_selector_def split: list.splits if_splits)

text \<open>
  Attribute order and duplicates do not change a GeoSite selector: two selectors with the
  same code (or the same reversed code) and the same set of attributes have the same canonical form,
  and one is refused if and only if the other is.
\<close>

theorem selector_attribute_set:
  assumes "0x40 \<notin> set code" "\<forall>a \<in> set as. 0x40 \<notin> set a" "set bs = set as"
  shows "normalize_selector lower fold_start GeoSiteKind (selector_text code as) = Inr v \<longleftrightarrow>
         normalize_selector lower fold_start GeoSiteKind (selector_text code bs) = Inr v"
proof -
  have "list_all attribute_valid as = list_all attribute_valid bs"
    using assms(3) by (simp add: list_all_iff)
  moreover have "split_on 0x40 (positive_selector (selector_text code as)) = positive_selector code # as"
    "split_on 0x40 (positive_selector (selector_text code bs)) = positive_selector code # bs"
    using assms by (auto intro: split_selector_text)
  ultimately show ?thesis
    unfolding normalize_selector_alt
    by (simp only: Let_def list.sel res_simps positive_selector_fixed remdups_adj_sort
        set_attribute_forms) (auto simp: assms(3))
qed

theorem selector_attribute_set_witness:
  "normalize_selector id id GeoSiteKind (str ''!GOOGLE@cn@Ads@ads'') = Inr (str ''!google@ads@cn'') \<longleftrightarrow>
   normalize_selector id id GeoSiteKind (str ''!GOOGLE@ads@Ads@cn@cn'') = Inr (str ''!google@ads@cn'')"
proof -
  have *: "str ''!GOOGLE@cn@Ads@ads'' = selector_text (str ''!GOOGLE'') [str ''cn'', str ''Ads'', str ''ads'']"
    "str ''!GOOGLE@ads@Ads@cn@cn'' = selector_text (str ''!GOOGLE'') [str ''ads'', str ''Ads'', str ''cn'', str ''cn'']"
    by (simp_all add: selector_text_def str_def)
  show ?thesis
    unfolding * by (rule selector_attribute_set) (auto simp: str_def)
qed

end
