(* ===== verification/Routing_Rules.thy ===== *)
theory Routing_Rules
  imports Session_Model Geo_Selectors "HOL-Library.Sublist"
begin

text \<open>
  \<^verbatim>\<open>src/routing/mod.rs\<close> with the rule types of \<^verbatim>\<open>src/config/mod.rs\<close>: the routing context, the
  normalisation of domain names, the compilation of a rule list and the two evaluators. The IDNA
  crate is the parameter \<^verbatim>\<open>idna\<close> (\<^verbatim>\<open>domain_to_ascii_strict\<close>, None for an error), the \<^verbatim>\<open>GeoMatcher\<close>
  trait object a record of its four functions.
\<close>

unbundle bit_operations_syntax

section \<open>Rules\<close>

datatype network = Tcp | Udp

datatype route_target_id = ProxyTarget nat | GroupTarget nat

datatype rule_action = RuleRoute route_target_id | RuleDirect | RuleReject

record ip_cidr =
  cidr_network :: ip_addr
  cidr_prefix_len :: u8

record port_range =
  range_start :: u16
  range_end :: u16

datatype rule_kind =
  Domain bytes
| DomainSuffix bytes
| DomainKeyword bytes
| GeoSite bytes
| GeoIp bytes
| IpCidr ip_cidr
| DstPorts "port_range list"
| NetworkRule network
| MatchRule

record rule_spec =
  rule_kind :: rule_kind
  rule_action :: rule_action
  no_resolve :: bool

definition MAX_ROUTING_RULES :: nat where "MAX_ROUTING_RULES = 1024"
definition MAX_RULE_TEXT_BYTES :: nat where "MAX_RULE_TEXT_BYTES = 128 * 1024"

section \<open>Domain names\<close>

datatype domain_name_error = EmptyName | InvalidIdna

definition valid_opaque_label :: "bytes \<Rightarrow> bool" where
  "valid_opaque_label label \<longleftrightarrow>
     label \<noteq> [] \<and> length label \<le> 63 \<and> hd label \<noteq> 0x2D \<and> last label \<noteq> 0x2D \<and>
     list_all (\<lambda>b. is_ascii_alphanumeric b \<or> b = 0x2D) label"

definition valid_opaque_ascii_dns_name :: "bytes \<Rightarrow> bool" where
  "valid_opaque_ascii_dns_name value \<longleftrightarrow>
     is_ascii value \<and> length value \<le> 253 \<and> list_all valid_opaque_label (split_on 0x2E value)"

definition normalize_domain_name :: "(bytes \<Rightarrow> bytes option) \<Rightarrow> bytes \<Rightarrow> domain_name_error + bytes" where
  "normalize_domain_name idna value =
     (if value = [] then Inl EmptyName
      else let value = unwrap_or (strip_suffix1 0x2E value) value in
        if value = [] then Inl EmptyName
        else case idna value of
               Some ascii \<Rightarrow> Inr (ascii_lowercase ascii)
             | None \<Rightarrow> if valid_opaque_ascii_dns_name value then Inr (ascii_lowercase value)
                       else Inl InvalidIdna)"

section \<open>The context\<close>

record routing_context =
  ctx_network :: network
  ctx_port :: u16
  normalized_domain :: "bytes option"
  destination_ip :: "ip_addr option"
  pinned_ip :: "ip_addr option"
  ip_resolution_unavailable :: bool

definition with_domain_hint ::
  "(bytes \<Rightarrow> bytes option) \<Rightarrow> network \<Rightarrow> destination \<Rightarrow> bytes option \<Rightarrow> domain_name_error + routing_context" where
  "with_domain_hint idna network destination domain_hint =
     and_then
       (case destination of
          DestDomain host port \<Rightarrow>
            and_then (normalize_domain_name idna host) (\<lambda>domain. Inr (Some domain, None))
        | DestIp address \<Rightarrow>
            Inr (case domain_hint of
                   None \<Rightarrow> None
                 | Some hint \<Rightarrow> (case normalize_domain_name idna hint of Inr domain \<Rightarrow> Some domain | Inl e \<Rightarrow> None),
                 Some (socket_ip address)))
       (\<lambda>(domain, ip).
          Inr \<lparr>ctx_network = network, ctx_port = destination_port destination, normalized_domain = domain,
               destination_ip = ip, pinned_ip = None, ip_resolution_unavailable = False\<rparr>)"

definition context_new ::
  "(bytes \<Rightarrow> bytes option) \<Rightarrow> network \<Rightarrow> destination \<Rightarrow> domain_name_error + routing_context" where
  "context_new idna network destination = with_domain_hint idna network destination None"

definition effective_ip :: "routing_context \<Rightarrow> ip_addr option" where
  "effective_ip ctx = (case pinned_ip ctx of Some ip \<Rightarrow> Some ip | None \<Rightarrow> destination_ip ctx)"

definition pin_ip :: "ip_addr \<Rightarrow> routing_context \<Rightarrow> routing_context" where
  "pin_ip address ctx = ctx\<lparr>pinned_ip := Some address, ip_resolution_unavailable := False\<rparr>"

definition mark_ip_resolution_unavailable :: "routing_context \<Rightarrow> routing_context" where
  "mark_ip_resolution_unavailable ctx = ctx\<lparr>ip_resolution_unavailable := True\<rparr>"

definition should_request_ip_resolution :: "routing_context \<Rightarrow> bool" where
  "should_request_ip_resolution ctx \<longleftrightarrow>
     destination_ip ctx = None \<and> pinned_ip ctx = None \<and> \<not> ip_resolution_unavailable ctx"

section \<open>Matching one value\<close>

record geo_matcher =
  geosite_available :: "bytes \<Rightarrow> bool"
  geoip_available :: "bytes \<Rightarrow> bool"
  matches_geosite :: "bytes \<Rightarrow> bytes \<Rightarrow> bool"
  matches_geoip :: "bytes \<Rightarrow> ip_addr \<Rightarrow> bool"

definition empty_geo_matcher :: geo_matcher where
  "empty_geo_matcher =
     \<lparr>geosite_available = \<lambda>code. False, geoip_available = \<lambda>code. False,
      matches_geosite = \<lambda>code domain. False, matches_geoip = \<lambda>code address. False\<rparr>"

text \<open>\<^verbatim>\<open>str::contains\<close>.\<close>

fun str_contains :: "bytes \<Rightarrow> bytes \<Rightarrow> bool" where
  "str_contains needle [] = (needle = [])"
| "str_contains needle (b # bs) = (prefix needle (b # bs) \<or> str_contains needle bs)"

definition domain_suffix_matches :: "bytes \<Rightarrow> bytes \<Rightarrow> bool" where
  "domain_suffix_matches domain tail \<longleftrightarrow>
     domain = tail \<or>
     (length tail < length domain \<and> suffix tail domain \<and>
      domain ! (length domain - length tail - 1) = 0x2E)"

fun is_ipv4 :: "ip_addr \<Rightarrow> bool" where
  "is_ipv4 (IpV4 ip) = True"
| "is_ipv4 (IpV6 ip) = False"

definition valid_cidr :: "ip_cidr \<Rightarrow> bool" where
  "valid_cidr cidr =
     (case cidr_network cidr of IpV4 ip \<Rightarrow> cidr_prefix_len cidr \<le> 32 | IpV6 ip \<Rightarrow> cidr_prefix_len cidr \<le> 128)"

text \<open>The shift amounts assume \<^const>\<open>valid_cidr\<close>, which compilation checks.\<close>

definition cidr_contains :: "ip_cidr \<Rightarrow> ip_addr \<Rightarrow> bool" where
  "cidr_contains cidr address =
     (let prefix = unat (cidr_prefix_len cidr) in
      case (cidr_network cidr, address) of
        (IpV4 net, IpV4 addr) \<Rightarrow>
          (let mask = (if prefix = 0 then 0 else push_bit (32 - prefix) (-1)) in net AND mask = addr AND mask)
      | (IpV6 net, IpV6 addr) \<Rightarrow>
          (let mask = (if prefix = 0 then 0 else push_bit (128 - prefix) (-1)) in net AND mask = addr AND mask)
      | _ \<Rightarrow> False)"

definition preferred_addresses :: "ip_addr list \<Rightarrow> ip_addr list" where
  "preferred_addresses addresses =
     filter is_ipv4 addresses @ filter (\<lambda>a. \<not> is_ipv4 a) addresses"

definition port_matches :: "port_range list \<Rightarrow> u16 \<Rightarrow> bool" where
  "port_matches ranges port = list_ex (\<lambda>range. range_start range \<le> port \<and> port \<le> range_end range) ranges"

section \<open>Compilation\<close>

datatype rule_set_error =
  EmptyRules
| TooManyRules nat nat
| TooMuchText nat nat
| InvalidDomain nat domain_name_error
| InvalidKeyword nat
| InvalidGeoCode nat
| InvalidCidr nat
| InvalidPortRange nat
| MatchNotFinal nat
| MissingFinalMatch

record rule_set =
  rules :: "rule_spec list"
  uses_domain_routing :: bool

text \<open>The text functions of other crates and of the Unicode tables.\<close>

record text_env =
  env_idna :: "bytes \<Rightarrow> bytes option"
  env_lower :: "nat \<Rightarrow> nat"
  env_fold_start :: "nat \<Rightarrow> nat"

definition checked_text_bytes :: "nat \<Rightarrow> nat \<Rightarrow> rule_set_error + nat" where
  "checked_text_bytes current additional =
     and_then (ok_or (TooMuchText usize_max MAX_RULE_TEXT_BYTES) (checked_add current additional)) (\<lambda>n.
       if MAX_RULE_TEXT_BYTES < n then Inl (TooMuchText n MAX_RULE_TEXT_BYTES) else Inr n)"

fun is_domain_rule :: "rule_kind \<Rightarrow> bool" where
  "is_domain_rule (Domain value) = True"
| "is_domain_rule (DomainSuffix value) = True"
| "is_domain_rule (DomainKeyword value) = True"
| "is_domain_rule (GeoSite value) = True"
| "is_domain_rule kind = False"

text \<open>The body of the compilation loop: the normalised rule and the new text size.\<close>

fun compile_kind ::
  "text_env \<Rightarrow> nat \<Rightarrow> nat \<Rightarrow> nat \<Rightarrow> rule_kind \<Rightarrow> rule_set_error + rule_kind \<times> nat" where
  "compile_kind env final_index index text_bytes (Domain value) =
     and_then (map_err (InvalidDomain index) (normalize_domain_name (env_idna env) value)) (\<lambda>value.
     and_then (checked_text_bytes text_bytes (length value)) (\<lambda>n. Inr (Domain value, n)))"
| "compile_kind env final_index index text_bytes (DomainSuffix value) =
     and_then (map_err (InvalidDomain index) (normalize_domain_name (env_idna env) value)) (\<lambda>value.
     and_then (checked_text_bytes text_bytes (length value)) (\<lambda>n. Inr (DomainSuffix value, n)))"
| "compile_kind env final_index index text_bytes (DomainKeyword value) =
     (if value = [] \<or> \<not> is_ascii value then Inl (InvalidKeyword index)
      else and_then (checked_text_bytes text_bytes (length (ascii_lowercase value))) (\<lambda>n.
        Inr (DomainKeyword (ascii_lowercase value), n)))"
| "compile_kind env final_index index text_bytes (GeoSite selector) =
     and_then (map_err (\<lambda>e. InvalidGeoCode index)
         (normalize_selector (env_lower env) (env_fold_start env) GeoSiteKind selector)) (\<lambda>selector.
     and_then (checked_text_bytes text_bytes (length selector)) (\<lambda>n. Inr (GeoSite selector, n)))"
| "compile_kind env final_index index text_bytes (GeoIp selector) =
     and_then (map_err (\<lambda>e. InvalidGeoCode index)
         (normalize_selector (env_lower env) (env_fold_start env) GeoIpKind selector)) (\<lambda>selector.
     and_then (checked_text_bytes text_bytes (length selector)) (\<lambda>n. Inr (GeoIp selector, n)))"
| "compile_kind env final_index index text_bytes (IpCidr cidr) =
     (if \<not> valid_cidr cidr then Inl (InvalidCidr index) else Inr (IpCidr cidr, text_bytes))"
| "compile_kind env final_index index text_bytes (DstPorts ranges) =
     (if ranges = [] \<or> list_ex (\<lambda>range. range_start range = 0 \<or> range_end range < range_start range) ranges
      then Inl (InvalidPortRange index) else Inr (DstPorts ranges, text_bytes))"
| "compile_kind env final_index index text_bytes (NetworkRule network) = Inr (NetworkRule network, text_bytes)"
| "compile_kind env final_index index text_bytes MatchRule =
     (if index \<noteq> final_index then Inl (MatchNotFinal index) else Inr (MatchRule, text_bytes))"

fun compile_rules ::
  "text_env \<Rightarrow> nat \<Rightarrow> nat \<Rightarrow> nat \<Rightarrow> rule_spec list \<Rightarrow> rule_set_error + rule_spec list" where
  "compile_rules env final_index index text_bytes [] = Inr []"
| "compile_rules env final_index index text_bytes (rule # rest) =
     and_then (compile_kind env final_index index text_bytes (rule_kind rule)) (\<lambda>(kind, n).
     and_then (compile_rules env final_index (Suc index) n rest) (\<lambda>rest.
       Inr (rule\<lparr>rule_kind := kind\<rparr> # rest)))"

definition rule_set_compile :: "text_env \<Rightarrow> rule_spec list \<Rightarrow> rule_set_error + rule_set" where
  "rule_set_compile env specs =
     (if specs = [] then Inl EmptyRules
      else if MAX_ROUTING_RULES < length specs then Inl (TooManyRules (length specs) MAX_ROUTING_RULES)
      else
        and_then (compile_rules env (length specs - 1) 0 0 specs) (\<lambda>compiled.
          if rule_kind (last compiled) \<noteq> MatchRule then Inl MissingFinalMatch
          else Inr \<lparr>rules = compiled, uses_domain_routing = list_ex (\<lambda>r. is_domain_rule (rule_kind r)) specs\<rparr>))"

section \<open>Evaluation\<close>

record rule_match =
  match_action :: rule_action
  match_index :: nat

datatype rule_evaluation =
  Matched rule_match
| NeedsIpResolution nat
| NoMatch

text \<open>The rules that do not look at an IP address, as both evaluators decide them.\<close>

fun text_rule_matches :: "geo_matcher \<Rightarrow> routing_context \<Rightarrow> rule_kind \<Rightarrow> bool" where
  "text_rule_matches geo ctx (Domain expected) = (normalized_domain ctx = Some expected)"
| "text_rule_matches geo ctx (DomainSuffix tail) =
     (case normalized_domain ctx of None \<Rightarrow> False | Some domain \<Rightarrow> domain_suffix_matches domain tail)"
| "text_rule_matches geo ctx (DomainKeyword keyword) =
     (case normalized_domain ctx of None \<Rightarrow> False | Some domain \<Rightarrow> str_contains keyword domain)"
| "text_rule_matches geo ctx (GeoSite code) =
     (geosite_available geo code \<and>
      (case normalized_domain ctx of None \<Rightarrow> False | Some domain \<Rightarrow> matches_geosite geo code domain))"
| "text_rule_matches geo ctx (DstPorts ranges) = port_matches ranges (ctx_port ctx)"
| "text_rule_matches geo ctx (NetworkRule network) = (network = ctx_network ctx)"
| "text_rule_matches geo ctx MatchRule = True"
| "text_rule_matches geo ctx (GeoIp code) = False"
| "text_rule_matches geo ctx (IpCidr cidr) = False"

text \<open>One rule of \<^verbatim>\<open>evaluate_with_geo\<close>: None asks for a resolution.\<close>

definition rule_step :: "geo_matcher \<Rightarrow> routing_context \<Rightarrow> rule_spec \<Rightarrow> bool option" where
  "rule_step geo ctx rule =
     (case rule_kind rule of
        GeoIp code \<Rightarrow>
          (if \<not> geoip_available geo code then Some False
           else case effective_ip ctx of
             Some address \<Rightarrow> Some (matches_geoip geo code address)
           | None \<Rightarrow> if \<not> no_resolve rule \<and> should_request_ip_resolution ctx then None else Some False)
      | IpCidr cidr \<Rightarrow>
          (case effective_ip ctx of
             Some address \<Rightarrow> Some (cidr_contains cidr address)
           | None \<Rightarrow> if \<not> no_resolve rule \<and> should_request_ip_resolution ctx then None else Some False)
      | kind \<Rightarrow> Some (text_rule_matches geo ctx kind))"

fun evaluate_from :: "geo_matcher \<Rightarrow> routing_context \<Rightarrow> nat \<Rightarrow> rule_spec list \<Rightarrow> rule_evaluation" where
  "evaluate_from geo ctx index [] = NoMatch"
| "evaluate_from geo ctx index (rule # rest) =
     (case rule_step geo ctx rule of
        None \<Rightarrow> NeedsIpResolution index
      | Some True \<Rightarrow> Matched \<lparr>match_action = rule_action rule, match_index = index\<rparr>
      | Some False \<Rightarrow> evaluate_from geo ctx (Suc index) rest)"

definition evaluate_with_geo :: "rule_set \<Rightarrow> routing_context \<Rightarrow> geo_matcher \<Rightarrow> rule_evaluation" where
  "evaluate_with_geo rs ctx geo = evaluate_from geo ctx 0 (rules rs)"

definition evaluate :: "rule_set \<Rightarrow> routing_context \<Rightarrow> rule_evaluation" where
  "evaluate rs ctx = evaluate_with_geo rs ctx empty_geo_matcher"

text \<open>One rule of \<^verbatim>\<open>evaluate_with_resolved_ips\<close>: whether it matches, and the address selected.\<close>

definition resolved_step ::
  "geo_matcher \<Rightarrow> routing_context \<Rightarrow> ip_addr list \<Rightarrow> rule_spec \<Rightarrow> bool \<times> ip_addr option" where
  "resolved_step geo ctx addresses rule =
     (case rule_kind rule of
        GeoIp code \<Rightarrow>
          (if \<not> geoip_available geo code then (False, None)
           else case effective_ip ctx of
             Some address \<Rightarrow> (matches_geoip geo code address, None)
           | None \<Rightarrow> let selected = find (matches_geoip geo code) (preferred_addresses addresses) in
               (selected \<noteq> None, selected))
      | IpCidr cidr \<Rightarrow>
          (case effective_ip ctx of
             Some address \<Rightarrow> (cidr_contains cidr address, None)
           | None \<Rightarrow> let selected = find (cidr_contains cidr) (preferred_addresses addresses) in
               (selected \<noteq> None, selected))
      | kind \<Rightarrow> (text_rule_matches geo ctx kind, None))"

fun resolved_from ::
  "geo_matcher \<Rightarrow> routing_context \<Rightarrow> ip_addr list \<Rightarrow> nat \<Rightarrow> rule_spec list \<Rightarrow>
   routing_context \<times> rule_evaluation" where
  "resolved_from geo ctx addresses index [] = (ctx, NoMatch)"
| "resolved_from geo ctx addresses index (rule # rest) =
     (case resolved_step geo ctx addresses rule of
        (True, selected) \<Rightarrow>
          (case selected of None \<Rightarrow> ctx | Some address \<Rightarrow> pin_ip address ctx,
           Matched \<lparr>match_action = rule_action rule, match_index = index\<rparr>)
      | (False, _) \<Rightarrow> resolved_from geo ctx addresses (Suc index) rest)"

definition evaluate_with_resolved_ips ::
  "rule_set \<Rightarrow> routing_context \<Rightarrow> geo_matcher \<Rightarrow> nat \<Rightarrow> ip_addr list \<Rightarrow> routing_context \<times> rule_evaluation" where
  "evaluate_with_resolved_ips rs ctx geo resolution_rule_index addresses =
     resolved_from geo ctx addresses resolution_rule_index (drop resolution_rule_index (rules rs))"

section \<open>Facts about compilation\<close>

fun kind_wf :: "rule_kind \<Rightarrow> bool" where
  "kind_wf (IpCidr cidr) = valid_cidr cidr"
| "kind_wf (DstPorts ranges) =
     (ranges \<noteq> [] \<and> (\<forall>range \<in> set ranges. range_start range \<noteq> 0 \<and> range_start range \<le> range_end range))"
| "kind_wf (DomainKeyword value) = (value \<noteq> [] \<and> list_all (\<lambda>b. \<not> is_ascii_uppercase b) value)"
| "kind_wf kind = True"

lemma compile_kind_wf:
  "compile_kind env final_index index n kind = Inr (kind', n') \<Longrightarrow>
     kind_wf kind' \<and> (kind' = MatchRule \<longrightarrow> index = final_index)"
  by (cases kind) (auto simp: res_simps list_ex_iff not_less list_all_iff ascii_lowercase_def split: if_splits)

lemma compile_kind_text:
  "compile_kind env final_index index n kind = Inr (kind', n') \<Longrightarrow> n \<le> MAX_RULE_TEXT_BYTES \<Longrightarrow>
     n \<le> n' \<and> n' \<le> MAX_RULE_TEXT_BYTES"
  by (cases kind) (auto simp: res_simps checked_text_bytes_def ok_or_def checked_add_def
      split: if_splits option.splits)

lemma compile_rules_wf:
  assumes "compile_rules env final_index index n specs = Inr out"
  shows "length out = length specs \<and> map rule_action out = map rule_action specs \<and>
         (\<forall>i < length out. kind_wf (rule_kind (out ! i)) \<and>
            (rule_kind (out ! i) = MatchRule \<longrightarrow> index + i = final_index))"
  using assms
proof (induction specs arbitrary: index n out)
  case (Cons rule rest)
  then obtain kind n' out' where
    k: "compile_kind env final_index index n (rule_kind rule) = Inr (kind, n')" and
    r: "compile_rules env final_index (Suc index) n' rest = Inr out'" and
    out: "out = rule\<lparr>rule_kind := kind\<rparr> # out'"
    by (auto simp: res_simps)
  show ?case
    using Cons.IH [OF r] compile_kind_wf [OF k] by (auto simp: out nth_Cons split: nat.splits)
qed simp

definition rule_set_wf :: "rule_set \<Rightarrow> bool" where
  "rule_set_wf rs \<longleftrightarrow>
     rules rs \<noteq> [] \<and> length (rules rs) \<le> MAX_ROUTING_RULES \<and>
     (\<forall>rule \<in> set (rules rs). kind_wf (rule_kind rule)) \<and>
     (\<forall>i < length (rules rs). rule_kind (rules rs ! i) = MatchRule \<longleftrightarrow> i = length (rules rs) - 1)"

lemma rule_set_compile_wf:
  assumes "rule_set_compile env specs = Inr rs"
  shows "rule_set_wf rs" "map rule_action (rules rs) = map rule_action specs"
proof -
  have c: "compile_rules env (length specs - 1) 0 0 specs = Inr (rules rs)"
    and l: "rule_kind (last (rules rs)) = MatchRule" "specs \<noteq> []" "length specs \<le> MAX_ROUTING_RULES"
    using assms by (auto simp: rule_set_compile_def res_simps split: if_splits)
  note wf = compile_rules_wf [OF c]
  then have "rules rs \<noteq> []" using l by auto
  with wf l show "rule_set_wf rs" "map rule_action (rules rs) = map rule_action specs"
    by (auto simp: rule_set_wf_def in_set_conv_nth last_conv_nth)
qed

section \<open>Facts about evaluation\<close>

lemma rule_step_match [simp]: "rule_kind rule = MatchRule \<Longrightarrow> rule_step geo ctx rule = Some True"
  by (simp add: rule_step_def)

lemma resolved_step_match [simp]:
  "rule_kind rule = MatchRule \<Longrightarrow> resolved_step geo ctx addresses rule = (True, None)"
  by (simp add: resolved_step_def)

text \<open>A context that asks for nothing.\<close>

lemma rule_step_settled: "\<not> should_request_ip_resolution ctx \<Longrightarrow> rule_step geo ctx rule \<noteq> None"
  by (cases "rule_kind rule") (auto simp: rule_step_def split: option.splits)

lemma evaluate_from_Matched_iff:
  "evaluate_from geo ctx index rs = Matched m \<longleftrightarrow>
     (\<exists>i < length rs. m = \<lparr>match_action = rule_action (rs ! i), match_index = index + i\<rparr> \<and>
        rule_step geo ctx (rs ! i) = Some True \<and> (\<forall>j < i. rule_step geo ctx (rs ! j) = Some False))"
proof (induction rs arbitrary: index)
  case (Cons rule rest)
  show ?case
    by (auto simp: Cons.IH All_less_Suc2 Ex_less_Suc2 split: option.splits bool.splits)
qed simp

lemma evaluate_from_Needs_iff:
  "evaluate_from geo ctx index rs = NeedsIpResolution k \<longleftrightarrow>
     (\<exists>i < length rs. k = index + i \<and>
        rule_step geo ctx (rs ! i) = None \<and> (\<forall>j < i. rule_step geo ctx (rs ! j) = Some False))"
proof (induction rs arbitrary: index)
  case (Cons rule rest)
  show ?case
    by (auto simp: Cons.IH All_less_Suc2 Ex_less_Suc2 split: option.splits bool.splits)
qed simp

lemma evaluate_from_NoMatch_iff:
  "evaluate_from geo ctx index rs = NoMatch \<longleftrightarrow> (\<forall>rule \<in> set rs. rule_step geo ctx rule = Some False)"
  by (induction rs arbitrary: index) (auto split: option.splits bool.splits)

lemma resolved_from_Matched_iff:
  "resolved_from geo ctx addresses index rs = (ctx', Matched m) \<longleftrightarrow>
     (\<exists>i < length rs. m = \<lparr>match_action = rule_action (rs ! i), match_index = index + i\<rparr> \<and>
        (\<exists>selected. resolved_step geo ctx addresses (rs ! i) = (True, selected) \<and>
           ctx' = (case selected of None \<Rightarrow> ctx | Some address \<Rightarrow> pin_ip address ctx)) \<and>
        (\<forall>j < i. \<not> fst (resolved_step geo ctx addresses (rs ! j))))"
proof (induction rs arbitrary: index)
  case (Cons rule rest)
  show ?case
    by (auto simp: Cons.IH All_less_Suc2 Ex_less_Suc2 split: prod.splits bool.splits)
qed simp

lemma resolved_from_total:
  "\<exists>rule \<in> set rs. rule_kind rule = MatchRule \<Longrightarrow>
   \<exists>ctx' m. resolved_from geo ctx addresses index rs = (ctx', Matched m)"
  by (induction rs arbitrary: index) (auto split: prod.splits bool.splits)

lemma pin_ip_simps [simp]:
  "normalized_domain (pin_ip a ctx) = normalized_domain ctx" "ctx_port (pin_ip a ctx) = ctx_port ctx"
  "ctx_network (pin_ip a ctx) = ctx_network ctx" "pinned_ip (pin_ip a ctx) = Some a"
  "effective_ip (pin_ip a ctx) = Some a" "\<not> should_request_ip_resolution (pin_ip a ctx)"
  by (simp_all add: pin_ip_def effective_ip_def should_request_ip_resolution_def)

lemma mark_simps [simp]:
  "normalized_domain (mark_ip_resolution_unavailable ctx) = normalized_domain ctx"
  "ctx_port (mark_ip_resolution_unavailable ctx) = ctx_port ctx"
  "ctx_network (mark_ip_resolution_unavailable ctx) = ctx_network ctx"
  "effective_ip (mark_ip_resolution_unavailable ctx) = effective_ip ctx"
  "\<not> should_request_ip_resolution (mark_ip_resolution_unavailable ctx)"
  by (simp_all add: mark_ip_resolution_unavailable_def effective_ip_def should_request_ip_resolution_def
      split: option.split)

lemma requests_no_ip: "should_request_ip_resolution ctx \<Longrightarrow> effective_ip ctx = None"
  by (simp add: should_request_ip_resolution_def effective_ip_def)

lemma set_preferred_addresses [simp]: "set (preferred_addresses addresses) = set addresses"
  by (auto simp: preferred_addresses_def)

lemma find_Some_D: "find P xs = Some x \<Longrightarrow> x \<in> set xs \<and> P x"
  by (auto simp: find_Some_iff)

text \<open>A rule decided over all resolved addresses, and the same rule decided for one of them.\<close>

lemma resolved_step_missed:
  assumes "effective_ip ctx = None" "\<not> fst (resolved_step geo ctx addresses rule)"
  shows "a \<in> set addresses \<Longrightarrow> rule_step geo (pin_ip a ctx) rule = Some False"
    and "rule_step geo (mark_ip_resolution_unavailable ctx) rule = Some False"
  using assms by (cases "rule_kind rule"; simp add: rule_step_def resolved_step_def Let_def find_None_iff split: if_splits)+

lemma resolved_step_hit:
  assumes "effective_ip ctx = None" "resolved_step geo ctx addresses rule = (True, selected)"
  shows "case selected of
           Some a \<Rightarrow> a \<in> set addresses \<and> rule_step geo (pin_ip a ctx) rule = Some True
         | None \<Rightarrow> rule_step geo (mark_ip_resolution_unavailable ctx) rule = Some True"
  using assms by (cases selected; cases "rule_kind rule")
    (auto simp: rule_step_def resolved_step_def Let_def dest: find_Some_D split: if_splits)

text \<open>What the router does after a resolution: keep the pinned address, or give up on resolving.\<close>

definition settle :: "routing_context \<Rightarrow> routing_context" where
  "settle ctx = (if pinned_ip ctx = None then mark_ip_resolution_unavailable ctx else ctx)"

lemma settle_pin [simp]: "settle (pin_ip a ctx) = pin_ip a ctx"
  by (simp add: settle_def)

lemma resolved_from_agrees:
  assumes none: "effective_ip ctx = None"
    and r: "resolved_from geo ctx addresses index rs = (ctx', Matched m)"
  shows "evaluate_from geo (settle ctx') index rs = Matched m"
proof -
  obtain i selected where i: "i < length rs"
    "m = \<lparr>match_action = rule_action (rs ! i), match_index = index + i\<rparr>"
    "resolved_step geo ctx addresses (rs ! i) = (True, selected)"
    "ctx' = (case selected of None \<Rightarrow> ctx | Some address \<Rightarrow> pin_ip address ctx)"
    "\<forall>j < i. \<not> fst (resolved_step geo ctx addresses (rs ! j))"
    using r unfolding resolved_from_Matched_iff by blast
  have "pinned_ip ctx = None"
    using none by (auto simp: effective_ip_def split: option.splits)
  then have "rule_step geo (settle ctx') (rs ! i) = Some True \<and>
      (\<forall>j < i. rule_step geo (settle ctx') (rs ! j) = Some False)"
    using resolved_step_hit [OF none i(3)] resolved_step_missed [OF none] i(4,5)
    by (cases selected) (auto simp: settle_def)
  with i(1,2) show ?thesis
    unfolding evaluate_from_Matched_iff by blast
qed

lemma domain_suffix_iff: "domain_suffix_matches domain tail \<longleftrightarrow> domain = tail \<or> (\<exists>front. domain = front @ 0x2E # tail)"
proof
  assume "domain_suffix_matches domain tail"
  then consider "domain = tail" | front where "domain = front @ tail" "front \<noteq> []" "(front @ tail) ! (length front - 1) = 0x2E"
    by (auto simp: domain_suffix_matches_def suffix_def)
  then show "domain = tail \<or> (\<exists>front. domain = front @ 0x2E # tail)"
  proof cases
    case (2 front)
    then have "front = butlast front @ [0x2E]"
      by (metis append_butlast_last_id last_conv_nth nth_append diff_less length_greater_0_conv zero_less_one)
    with 2 show ?thesis by (metis append_Cons append_Nil append_assoc)
  qed simp
next
  assume "domain = tail \<or> (\<exists>front. domain = front @ 0x2E # tail)"
  then show "domain_suffix_matches domain tail"
    by (auto simp: domain_suffix_matches_def suffix_def nth_append)
qed

lemma split_on_append_sep: "split_on c (a @ c # b) = split_on c a @ split_on c b"
proof (induction a)
  case (Cons x a)
  then show ?case
    by (cases "x = c"; cases "split_on c a") auto
qed simp

lemma join_append: "us \<noteq> [] \<Longrightarrow> vs \<noteq> [] \<Longrightarrow> join c (us @ vs) = join c us @ c # join c vs"
proof (induction us)
  case (Cons u us)
  then show ?case
    by (cases "us = []") (simp_all add: join_Cons)
qed simp

lemma and_high_mask_eq:
  fixes n x :: "'a :: len word"
  shows "n AND NOT (mask k) = x AND NOT (mask k) \<longleftrightarrow> drop_bit k n = drop_bit k x"
proof
  assume eq: "n AND NOT (mask k) = x AND NOT (mask k)"
  show "drop_bit k n = drop_bit k x"
  proof (rule bit_word_eqI)
    fix i assume "i < LENGTH('a)"
    show "bit (drop_bit k n) i = bit (drop_bit k x) i"
      using arg_cong [OF eq, of "\<lambda>w. bit w (k + i)"]
      by (auto simp: bit_simps dest: bit_imp_le_length)
  qed
next
  assume eq: "drop_bit k n = drop_bit k x"
  show "n AND NOT (mask k) = x AND NOT (mask k)"
  proof (rule bit_word_eqI)
    fix i assume "i < LENGTH('a)"
    then show "bit (n AND NOT (mask k)) i = bit (x AND NOT (mask k)) i"
      using arg_cong [OF eq, of "\<lambda>w. bit w (i - k)"] by (auto simp: bit_simps)
  qed
qed

lemma drop_bit_eq_iff_div:
  "drop_bit k n = drop_bit k x \<longleftrightarrow> unat n div 2 ^ k = unat x div 2 ^ k" for n x :: "'a :: len word"
proof -
  have "unat (drop_bit k w) = unat w div 2 ^ k" for w :: "'a word"
    by (subst unat_drop_bit_eq) (simp add: drop_bit_eq_div)
  then show ?thesis
    by (metis unsigned_word_eqI)
qed

lemma unat_small: "unat n < 2 ^ LENGTH('a)" for n :: "'a :: len word"
  by (rule unsigned_less)

lemma rule_set_wf_decides:
  assumes wf: "rule_set_wf rs"
  shows "evaluate_with_geo rs ctx geo \<noteq> NoMatch \<and>
         (\<not> should_request_ip_resolution ctx \<longrightarrow> (\<exists>m. evaluate_with_geo rs ctx geo = Matched m)) \<and>
         (i < length (rules rs) \<longrightarrow>
            (\<exists>ctx' m. evaluate_with_resolved_ips rs ctx geo i addresses = (ctx', Matched m) \<and> i \<le> match_index m))"
proof -
  have fin: "rules rs \<noteq> []" "rule_kind (last (rules rs)) = MatchRule"
    using wf by (auto simp: rule_set_wf_def last_conv_nth)
  then have "last (rules rs) \<in> set (rules rs)" "rule_step geo ctx (last (rules rs)) = Some True"
    by simp_all
  then have some: "evaluate_with_geo rs ctx geo \<noteq> NoMatch"
    unfolding evaluate_with_geo_def evaluate_from_NoMatch_iff by fastforce
  moreover have "\<exists>m. evaluate_with_geo rs ctx geo = Matched m" if "\<not> should_request_ip_resolution ctx"
    using some that by (cases "evaluate_with_geo rs ctx geo")
      (auto simp: evaluate_with_geo_def evaluate_from_Needs_iff rule_step_settled)
  moreover have "\<exists>ctx' m. evaluate_with_resolved_ips rs ctx geo i addresses = (ctx', Matched m) \<and> i \<le> match_index m"
    if "i < length (rules rs)"
  proof -
    have "last (rules rs) \<in> set (drop i (rules rs))"
      using that by (metis drop_eq_Nil last_drop last_in_set not_le)
    then obtain ctx' m where m: "resolved_from geo ctx addresses i (drop i (rules rs)) = (ctx', Matched m)"
      using resolved_from_total fin(2) by blast
    then have "i \<le> match_index m"
      by (auto simp: resolved_from_Matched_iff)
    with m show ?thesis
      unfolding evaluate_with_resolved_ips_def by blast
  qed
  ultimately show ?thesis by blast
qed

lemma resolved_from_context:
  assumes "effective_ip ctx = None" "resolved_from geo ctx addresses index rs = (ctx', evaluation)"
  shows "pinned_ip ctx' = Some a \<Longrightarrow> a \<in> set addresses" "normalized_domain ctx' = normalized_domain ctx"
proof -
  have none: "pinned_ip ctx = None"
    using assms(1) by (auto simp: effective_ip_def split: option.splits)
  have hit: "case selected of Some a \<Rightarrow> a \<in> set addresses | None \<Rightarrow> True"
    if "resolved_step geo ctx addresses rule = (True, selected)" for rule selected
    using resolved_step_hit [OF assms(1) that] by (auto split: option.splits)
  have "(\<forall>a. pinned_ip ctx' = Some a \<longrightarrow> a \<in> set addresses) \<and> normalized_domain ctx' = normalized_domain ctx"
    using assms(2)
  proof (induction rs arbitrary: index)
    case (Cons rule rest)
    then show ?case
      using hit [of rule] none by (auto split: prod.splits bool.splits option.splits)
  qed (use none in auto)
  then show "pinned_ip ctx' = Some a \<Longrightarrow> a \<in> set addresses" "normalized_domain ctx' = normalized_domain ctx"
    by auto
qed

lemma needs_resolution_no_ip:
  "evaluate_with_geo rs ctx geo = NeedsIpResolution i \<Longrightarrow> effective_ip ctx = None \<and> i < length (rules rs)"
  by (auto simp: evaluate_with_geo_def evaluate_from_Needs_iff rule_step_def should_request_ip_resolution_def
      effective_ip_def split: rule_kind.splits if_splits option.splits)

text \<open>A small rule list the witnesses compile and evaluate.\<close>

definition sample_env :: text_env where
  "sample_env = \<lparr>env_idna = Some, env_lower = id, env_fold_start = id\<rparr>"

definition sample_specs :: "rule_spec list" where
  "sample_specs =
     [\<lparr>rule_kind = DomainSuffix (str ''Lan.''), rule_action = RuleDirect, no_resolve = False\<rparr>,
      \<lparr>rule_kind = IpCidr \<lparr>cidr_network = IpV4 0x0A000000, cidr_prefix_len = 8\<rparr>,
       rule_action = RuleReject, no_resolve = False\<rparr>,
      \<lparr>rule_kind = MatchRule, rule_action = RuleRoute (ProxyTarget 0), no_resolve = False\<rparr>]"

definition sample_set :: rule_set where
  "sample_set = \<lparr>rules = sample_specs[0 := \<lparr>rule_kind = DomainSuffix (str ''lan''), rule_action = RuleDirect,
     no_resolve = False\<rparr>], uses_domain_routing = True\<rparr>"

definition sample_context :: routing_context where
  "sample_context = \<lparr>ctx_network = Tcp, ctx_port = 443, normalized_domain = Some (str ''a.b''),
     destination_ip = None, pinned_ip = None, ip_resolution_unavailable = False\<rparr>"

lemma sample_set_compiled: "rule_set_compile sample_env sample_specs = Inr sample_set"
  by (simp add: rule_set_compile_def sample_env_def sample_specs_def sample_set_def normalize_domain_name_def
      strip_suffix1_def checked_text_bytes_def checked_add_def ok_or_def usize_max_def MAX_RULE_TEXT_BYTES_def
      MAX_ROUTING_RULES_def valid_cidr_def str_def ascii_lowercase_def to_ascii_lowercase_def
      is_ascii_uppercase_def)

lemma sample_set_pauses: "evaluate_with_geo sample_set sample_context empty_geo_matcher = NeedsIpResolution 1"
  by code_simp

lemma sample_set_resolved:
  "evaluate_with_resolved_ips sample_set sample_context empty_geo_matcher 1 [IpV6 1, IpV4 0x0A000001] =
     (pin_ip (IpV4 0x0A000001) sample_context, Matched \<lparr>match_action = RuleReject, match_index = 1\<rparr>)"
  by code_simp

section \<open>Claims\<close>

text \<open>
  A compiled rule set always decides. It has between one and 1024 rules, its only MATCH rule is
  the last, and every CIDR and port range in it is valid. Evaluation never falls off the end, asks for
  an address only while the context still may, and after the resolution the second evaluator always
  returns a match at or after the rule that asked.
\<close>

theorem compiled_rules_decide:
  assumes "rule_set_compile env specs = Inr rs"
  shows "rule_set_wf rs \<and> evaluate_with_geo rs ctx geo \<noteq> NoMatch \<and>
         (\<not> should_request_ip_resolution ctx \<longrightarrow> (\<exists>m. evaluate_with_geo rs ctx geo = Matched m)) \<and>
         (i < length (rules rs) \<longrightarrow>
            (\<exists>ctx' m. evaluate_with_resolved_ips rs ctx geo i addresses = (ctx', Matched m) \<and> i \<le> match_index m))"
  using rule_set_compile_wf(1) [OF assms] rule_set_wf_decides by blast

theorem compiled_rules_decide_witness:
  "rule_set_wf sample_set \<and> evaluate_with_geo sample_set sample_context empty_geo_matcher \<noteq> NoMatch"
  using compiled_rules_decide [OF sample_set_compiled] by blast



text \<open>
  Rule order beats address order: when the resolved addresses decide for rule
  \<^term>\<open>match_index m\<close>, no earlier rule from the paused one on matches any of the addresses.
\<close>

theorem resolved_rule_order:
  assumes "effective_ip ctx = None"
    and "evaluate_with_resolved_ips rs ctx geo i addresses = (ctx', Matched m)"
    and "i \<le> j" "j < match_index m" "a \<in> set addresses"
  shows "rule_step geo (pin_ip a ctx) (rules rs ! j) = Some False"
proof -
  obtain k where k: "k < length (drop i (rules rs))" "match_index m = i + k"
    "\<forall>j < k. \<not> fst (resolved_step geo ctx addresses (drop i (rules rs) ! j))"
    using assms(2) by (auto simp: evaluate_with_resolved_ips_def resolved_from_Matched_iff)
  then have "\<not> fst (resolved_step geo ctx addresses (rules rs ! j))"
    using assms(3,4) by (auto dest!: spec [of _ "j - i"])
  then show ?thesis
    using assms(1,5) by (intro resolved_step_missed(1))
qed

theorem resolved_rule_order_witness:
  "rule_step empty_geo_matcher (pin_ip (IpV4 0x01010101) sample_context) (rules sample_set ! 1) = Some False"
proof -
  have "evaluate_with_resolved_ips sample_set sample_context empty_geo_matcher 1 [IpV4 0x01010101] =
      (sample_context, Matched \<lparr>match_action = RuleRoute (ProxyTarget 0), match_index = 2\<rparr>)"
    by code_simp
  then show ?thesis
    by (rule resolved_rule_order [rotated]) (simp_all add: sample_context_def effective_ip_def)
qed

text \<open>
  A literal destination is always routable and never causes a lookup: its context is built
  whatever the domain hint is, and a compiled rule set decides it at once.
\<close>

theorem literal_destination_decided:
  assumes "rule_set_compile env specs = Inr rs"
  shows "\<exists>ctx m. with_domain_hint idna network (DestIp address) hint = Inr ctx \<and>
           effective_ip ctx = Some (socket_ip address) \<and> evaluate_with_geo rs ctx geo = Matched m"
proof -
  obtain ctx where ctx: "with_domain_hint idna network (DestIp address) hint = Inr ctx"
    "effective_ip ctx = Some (socket_ip address)" "\<not> should_request_ip_resolution ctx"
    by (simp add: with_domain_hint_def effective_ip_def should_request_ip_resolution_def)
  have "rules rs \<noteq> []" "rule_kind (last (rules rs)) = MatchRule"
    using rule_set_compile_wf(1) [OF assms] by (auto simp: rule_set_wf_def last_conv_nth)
  then have "\<exists>rule \<in> set (rules rs). rule_step geo ctx rule = Some True"
    by (intro bexI [of _ "last (rules rs)"]) simp_all
  then have "\<exists>m. evaluate_with_geo rs ctx geo = Matched m"
    using ctx(3) by (cases "evaluate_with_geo rs ctx geo")
      (auto simp: evaluate_with_geo_def evaluate_from_Needs_iff rule_step_settled evaluate_from_NoMatch_iff)
  with ctx show ?thesis by blast
qed

theorem literal_destination_decided_witness:
  "\<exists>ctx m. with_domain_hint Some Udp (DestIp (SocketV4 0x0A000001 53)) (Some (str ''..'')) = Inr ctx \<and>
     effective_ip ctx = Some (IpV4 0x0A000001) \<and> evaluate_with_geo sample_set ctx empty_geo_matcher = Matched m"
  using literal_destination_decided [OF sample_set_compiled] by (metis socket_ip.simps(1))

text \<open>
  A domain suffix rule matches whole labels: exactly the names whose label list ends in the
  label list of the suffix.
\<close>

theorem domain_suffix_labels:
  "domain_suffix_matches domain tail \<longleftrightarrow> suffix (split_on 0x2E tail) (split_on 0x2E domain)"
proof
  assume "domain_suffix_matches domain tail"
  then show "suffix (split_on 0x2E tail) (split_on 0x2E domain)"
    by (auto simp: domain_suffix_iff split_on_append_sep suffix_def)
next
  assume "suffix (split_on 0x2E tail) (split_on 0x2E domain)"
  then obtain front where f: "split_on 0x2E domain = front @ split_on 0x2E tail"
    by (auto simp: suffix_def)
  then have "domain = join 0x2E (front @ split_on 0x2E tail)"
    by (metis join_split_on)
  then show "domain_suffix_matches domain tail"
    by (cases "front = []") (auto simp: domain_suffix_iff join_append)
qed

text \<open>
  A valid CIDR block contains exactly the addresses of its family that agree with the network
  on the first \<^verbatim>\<open>prefix_len\<close> bits.
\<close>

theorem cidr_contains_prefix:
  assumes "valid_cidr cidr"
  shows "cidr_contains cidr address \<longleftrightarrow>
     (case (cidr_network cidr, address) of
        (IpV4 net, IpV4 addr) \<Rightarrow>
          unat net div 2 ^ (32 - unat (cidr_prefix_len cidr)) = unat addr div 2 ^ (32 - unat (cidr_prefix_len cidr))
      | (IpV6 net, IpV6 addr) \<Rightarrow>
          unat net div 2 ^ (128 - unat (cidr_prefix_len cidr)) = unat addr div 2 ^ (128 - unat (cidr_prefix_len cidr))
      | _ \<Rightarrow> False)"
proof (cases "cidr_network cidr"; cases address)
  fix net addr
  assume "cidr_network cidr = IpV4 net" "address = IpV4 addr"
  then show ?thesis
    using unat_small [of net] unat_small [of addr]
    by (simp add: cidr_contains_def Let_def and_high_mask_eq drop_bit_eq_iff_div)
next
  fix net addr
  assume "cidr_network cidr = IpV6 net" "address = IpV6 addr"
  then show ?thesis
    using unat_small [of net] unat_small [of addr]
    by (simp add: cidr_contains_def Let_def and_high_mask_eq drop_bit_eq_iff_div)
qed (simp_all add: cidr_contains_def)

theorem cidr_contains_prefix_witness:
  "cidr_contains \<lparr>cidr_network = IpV4 0x0A010000, cidr_prefix_len = 16\<rparr> (IpV4 0x0A01FFFF)"
  by (subst cidr_contains_prefix) (simp_all add: valid_cidr_def)

end
