(* ===== verification/Proxy_Graph.thy ===== *)
theory Proxy_Graph
  imports Routing_Rules
begin

text \<open>
  The proxy and group graph of \<^verbatim>\<open>src/config/mod.rs\<close>: route target names, the declaration and
  normalisation of select groups, and the dependency-first order of \<^verbatim>\<open>proxy_graph_order\<close>. A
  \<^verbatim>\<open>HashMap\<close> is a map; error texts are one constructor each.
\<close>

section \<open>Configuration types\<close>

datatype member_target = MemberRoute route_target_id | MemberDirect | MemberReject

record group_member =
  member_name :: bytes
  member_target :: member_target

record select_group_config =
  sg_name :: bytes
  sg_members :: "group_member list"
  sg_initial_member :: nat

text \<open>The fields of \<^verbatim>\<open>ProxyConfig\<close> the graph reads.\<close>

record proxy_config =
  proxy_tag :: bytes
  dialer_proxy :: "route_target_id option"

record raw_proxy_group =
  raw_name :: bytes
  raw_kind :: bytes
  raw_proxies :: "bytes list"
  raw_default_selected :: "bytes option"

datatype config_error =
  BadName bytes
| ReservedName bytes
| BadGroupKind bytes
| EmptyGroup bytes
| DuplicateGroupName bytes
| RulesMember bytes
| UnknownMemberName bytes bytes
| BadDefaultSelected bytes bytes
| UnknownGraphTarget
| CircularGraph
| GraphPanic

section \<open>Names\<close>

definition validate_route_target_name :: "bytes \<Rightarrow> config_error + unit" where
  "validate_route_target_name name =
     (let chars = utf8_chars name in
      if name = [] \<or> 64 < length name \<or> char_is_whitespace (hd chars) \<or> char_is_whitespace (last chars) \<or>
         list_ex (\<lambda>c. char_is_control c \<or> c \<in> {0x2C, 0x23, 0x2F, 0x3F, 0x26, 0x3D, 0x25, 0x5C}) chars \<or>
         name = str ''.'' \<or> name = str ''..''
      then Inl (BadName name) else Inr ())"

definition validate_route_target_definition_name :: "bytes \<Rightarrow> config_error + unit" where
  "validate_route_target_definition_name name =
     and_then (validate_route_target_name name) (\<lambda>_.
       if name \<in> {str ''DIRECT'', str ''REJECT'', str ''RULES''} then Inl (ReservedName name) else Inr ())"

section \<open>Groups\<close>

fun declare_groups ::
  "nat \<Rightarrow> (bytes \<rightharpoonup> nat) \<Rightarrow> raw_proxy_group list \<Rightarrow> config_error + (bytes \<rightharpoonup> nat)" where
  "declare_groups index group_ids [] = Inr group_ids"
| "declare_groups index group_ids (grp # rest) =
     (if raw_kind grp \<noteq> str ''select'' then Inl (BadGroupKind (raw_name grp))
      else and_then (validate_route_target_definition_name (raw_name grp)) (\<lambda>_.
        if raw_proxies grp = [] then Inl (EmptyGroup (raw_name grp))
        else if group_ids (raw_name grp) \<noteq> None then Inl (DuplicateGroupName (raw_name grp))
        else declare_groups (Suc index) (group_ids(raw_name grp \<mapsto> index)) rest))"

definition normalize_proxy_group_declarations ::
  "raw_proxy_group list \<Rightarrow> config_error + raw_proxy_group list \<times> (bytes \<rightharpoonup> nat)" where
  "normalize_proxy_group_declarations raw_groups =
     and_then (declare_groups 0 Map.empty raw_groups) (\<lambda>group_ids. Inr (raw_groups, group_ids))"

text \<open>The later \<^verbatim>\<open>extend\<close> overwrites: a group hides a node of the same name.\<close>

definition collect_route_targets ::
  "(bytes \<rightharpoonup> nat) \<Rightarrow> (bytes \<rightharpoonup> nat) \<Rightarrow> (bytes \<rightharpoonup> route_target_id)" where
  "collect_route_targets proxy_ids proxy_group_ids =
     (\<lambda>name. map_option ProxyTarget (proxy_ids name)) ++
     (\<lambda>name. map_option GroupTarget (proxy_group_ids name))"

definition normalize_member ::
  "bytes \<Rightarrow> (bytes \<rightharpoonup> route_target_id) \<Rightarrow> bytes \<Rightarrow> config_error + group_member" where
  "normalize_member group_name route_targets name =
     and_then (validate_route_target_name name) (\<lambda>_.
     and_then
       (if name = str ''DIRECT'' then Inr MemberDirect
        else if name = str ''REJECT'' then Inr MemberReject
        else if name = str ''RULES'' then Inl (RulesMember group_name)
        else ok_or (UnknownMemberName group_name name) (map_option MemberRoute (route_targets name)))
       (\<lambda>target. Inr \<lparr>member_name = name, member_target = target\<rparr>))"

definition normalize_proxy_group ::
  "(bytes \<rightharpoonup> route_target_id) \<Rightarrow> raw_proxy_group \<Rightarrow> config_error + select_group_config" where
  "normalize_proxy_group route_targets grp =
     and_then (collect_results (normalize_member (raw_name grp) route_targets) (raw_proxies grp)) (\<lambda>members.
     and_then
       (case raw_default_selected grp of
          Some wanted \<Rightarrow>
            ok_or (BadDefaultSelected (raw_name grp) wanted) (position (\<lambda>m. member_name m = wanted) members)
        | None \<Rightarrow> Inr 0)
       (\<lambda>initial_member.
          Inr \<lparr>sg_name = raw_name grp, sg_members = members, sg_initial_member = initial_member\<rparr>))"

definition normalize_proxy_groups ::
  "raw_proxy_group list \<Rightarrow> (bytes \<rightharpoonup> route_target_id) \<Rightarrow> config_error + select_group_config list" where
  "normalize_proxy_groups raw_groups route_targets =
     collect_results (normalize_proxy_group route_targets) raw_groups"

section \<open>The dependency order\<close>

definition graph_index :: "nat \<Rightarrow> nat \<Rightarrow> route_target_id \<Rightarrow> config_error + nat" where
  "graph_index proxy_count group_count target =
     (case target of
        ProxyTarget k \<Rightarrow> if k < proxy_count then Inr k else Inl UnknownGraphTarget
      | GroupTarget k \<Rightarrow> if k < group_count then Inr (proxy_count + k) else Inl UnknownGraphTarget)"

text \<open>The dependencies in the order the two loops add them: the dependent and its target.\<close>

definition graph_dependencies ::
  "proxy_config list \<Rightarrow> select_group_config list \<Rightarrow> (nat \<times> route_target_id) list" where
  "graph_dependencies proxies groups =
     concat (map (\<lambda>(index, proxy). case dialer_proxy proxy of None \<Rightarrow> [] | Some parent \<Rightarrow> [(index, parent)])
       (enumerate 0 proxies)) @
     concat (map (\<lambda>(group_index, grp).
         concat (map (\<lambda>m. case member_target m of MemberRoute target \<Rightarrow> [(length proxies + group_index, target)] | _ \<Rightarrow> [])
           (sg_members grp)))
       (enumerate 0 groups))"

fun add_dependencies ::
  "nat \<Rightarrow> nat \<Rightarrow> (nat \<times> route_target_id) list \<Rightarrow> nat list \<Rightarrow> nat list list \<Rightarrow>
   config_error + nat list \<times> nat list list" where
  "add_dependencies proxy_count group_count [] counts dependents = Inr (counts, dependents)"
| "add_dependencies proxy_count group_count ((dependent, target) # deps) counts dependents =
     and_then (graph_index proxy_count group_count target) (\<lambda>index.
       add_dependencies proxy_count group_count deps
         (counts[dependent := Suc (counts ! dependent)])
         (dependents[index := dependents ! index @ [dependent]]))"

text \<open>The inner loop; an index out of range or the underflow of a count would panic.\<close>

fun release_dependents :: "nat list \<Rightarrow> nat list \<Rightarrow> nat list \<Rightarrow> (nat list \<times> nat list) option" where
  "release_dependents [] counts ready = Some (counts, ready)"
| "release_dependents (d # ds) counts ready =
     (if length counts \<le> d \<or> counts ! d = 0 then None
      else let counts = counts[d := counts ! d - 1] in
        release_dependents ds counts (if counts ! d = 0 then ready @ [d] else ready))"

lemma release_dependents_measure:
  "release_dependents ds counts ready = Some (counts', ready') \<Longrightarrow>
   sum_list counts' + length ready' \<le> sum_list counts + length ready"
proof (induction ds arbitrary: counts ready)
  case (Cons d ds)
  let ?c = "counts[d := counts ! d - 1]"
  have d: "d < length counts" "counts ! d \<noteq> 0"
    using Cons.prems by (auto split: if_splits)
  then have "sum_list ?c + 1 = sum_list counts"
    by (simp add: sum_list_update) (metis Suc_pred add_Suc_right add_diff_inverse_nat elem_le_sum_list
        gr0I less_imp_diff_less not_less)
  moreover have "sum_list counts' + length ready' \<le>
      sum_list ?c + length (if ?c ! d = 0 then ready @ [d] else ready)"
    using Cons.IH [of ?c] Cons.prems d by (auto simp: Let_def)
  ultimately show ?case
    by (auto split: if_splits)
qed simp

function kahn_loop ::
  "nat list list \<Rightarrow> nat list \<Rightarrow> nat list \<Rightarrow> nat list \<Rightarrow> nat list option" where
  "kahn_loop dependents counts [] order = Some order"
| "kahn_loop dependents counts (index # ready) order =
     (if length dependents \<le> index then None
      else case release_dependents (dependents ! index) counts ready of
             None \<Rightarrow> None
           | Some (counts', ready') \<Rightarrow> kahn_loop dependents counts' ready' (order @ [index]))"
  by pat_completeness auto
termination
  by (relation "measure (\<lambda>(dependents, counts, ready, order). sum_list counts + length ready)")
    (auto simp: less_Suc_eq_le intro: release_dependents_measure)

definition graph_target :: "nat \<Rightarrow> nat \<Rightarrow> route_target_id" where
  "graph_target proxy_count index =
     (if index < proxy_count then ProxyTarget index else GroupTarget (index - proxy_count))"

definition proxy_graph_order ::
  "proxy_config list \<Rightarrow> select_group_config list \<Rightarrow> config_error + route_target_id list" where
  "proxy_graph_order proxies groups =
     (let count = length proxies + length groups in
      and_then (add_dependencies (length proxies) (length groups) (graph_dependencies proxies groups)
          (replicate count 0) (replicate count [])) (\<lambda>(counts, dependents).
        case kahn_loop dependents counts (filter (\<lambda>i. counts ! i = 0) [0..<count]) [] of
          None \<Rightarrow> Inl GraphPanic
        | Some order \<Rightarrow>
            if length order \<noteq> count then Inl CircularGraph
            else Inr (map (graph_target (length proxies)) order)))"

section \<open>The order is correct\<close>

text \<open>The edges over node positions: a dependent and what it depends on.\<close>

fun graph_slot :: "nat \<Rightarrow> route_target_id \<Rightarrow> nat" where
  "graph_slot proxy_count (ProxyTarget k) = k"
| "graph_slot proxy_count (GroupTarget k) = proxy_count + k"

definition graph_edges :: "nat \<Rightarrow> (nat \<times> route_target_id) list \<Rightarrow> (nat \<times> nat) list" where
  "graph_edges proxy_count deps = map (\<lambda>(d, t). (d, graph_slot proxy_count t)) deps"

lemma graph_index_Inr_iff:
  "graph_index p g t = Inr i \<longleftrightarrow> i = graph_slot p t \<and>
     (case t of ProxyTarget k \<Rightarrow> k < p | GroupTarget k \<Rightarrow> k < g)"
  by (auto simp: graph_index_def split: route_target_id.splits if_splits)

lemma graph_index_bound: "graph_index p g t = Inr i \<Longrightarrow> i < p + g"
  by (auto simp: graph_index_def split: route_target_id.splits if_splits)

lemma add_dependencies_Inr:
  assumes "add_dependencies p g deps counts dependents = Inr (counts', dependents')"
    and "length counts = p + g" "length dependents = p + g" "\<forall>(d, t) \<in> set deps. d < p + g"
  shows "length counts' = p + g \<and> length dependents' = p + g \<and>
    (\<forall>(d, t) \<in> set deps. \<exists>i. graph_index p g t = Inr i) \<and>
    (\<forall>v < p + g. counts' ! v = counts ! v + count_list (map fst (graph_edges p deps)) v \<and>
       dependents' ! v = dependents ! v @ map fst (filter (\<lambda>e. snd e = v) (graph_edges p deps)))"
  using assms
proof (induction deps arbitrary: counts dependents)
  case (Cons dep deps)
  obtain d t where dep: "dep = (d, t)" by (cases dep)
  with Cons.prems obtain i where i: "graph_index p g t = Inr i"
    and rest: "add_dependencies p g deps (counts[d := Suc (counts ! d)])
      (dependents[i := dependents ! i @ [d]]) = Inr (counts', dependents')"
    by (auto simp: res_simps)
  have "i = graph_slot p t" "i < p + g"
    using i graph_index_bound by (auto simp: graph_index_Inr_iff)
  then show ?case
    using Cons.IH [OF rest] Cons.prems(2-) i dep by (auto simp: graph_edges_def nth_list_update)
qed (simp add: graph_edges_def)

lemma release_dependents_spec:
  assumes "\<forall>d \<in> set ds. d < length counts" "\<forall>v. count_list ds v \<le> (if v < length counts then counts ! v else 0)"
  shows "\<exists>counts' new. release_dependents ds counts ready = Some (counts', ready @ new) \<and>
    length counts' = length counts \<and> distinct new \<and>
    (\<forall>v < length counts. counts' ! v = counts ! v - count_list ds v) \<and>
    set new = {v \<in> set ds. counts' ! v = 0}"
  using assms
proof (induction ds arbitrary: counts ready)
  case (Cons d ds)
  let ?c = "counts[d := counts ! d - 1]"
  have d: "d < length counts" "Suc (count_list ds d) \<le> counts ! d"
    using Cons.prems by (auto dest: spec [of _ d])
  have "\<forall>v. count_list ds v \<le> (if v < length ?c then ?c ! v else 0)"
    using Cons.prems d by (auto simp: nth_list_update split: if_splits)
  then obtain counts' new where r:
    "release_dependents ds ?c (if ?c ! d = 0 then ready @ [d] else ready) =
       Some (counts', (if ?c ! d = 0 then ready @ [d] else ready) @ new)"
    "length counts' = length counts" "distinct new"
    "\<forall>v < length counts. counts' ! v = ?c ! v - count_list ds v"
    "set new = {v \<in> set ds. counts' ! v = 0}"
    using Cons.IH [of ?c "if ?c ! d = 0 then ready @ [d] else ready"] Cons.prems by auto
  have "release_dependents (d # ds) counts ready = Some (counts', ready @ (if ?c ! d = 0 then [d] else []) @ new)"
    using r(1) d by (simp add: Let_def)
  moreover have "?c ! d = 0 \<Longrightarrow> d \<notin> set ds"
    using d by (auto simp: count_list_0_iff [symmetric])
  moreover have "?c ! d \<noteq> 0 \<Longrightarrow> d \<notin> set ds \<Longrightarrow> counts' ! d \<noteq> 0"
    using r(4) d by (simp add: count_list_0_iff)
  moreover have "\<forall>v < length counts. counts' ! v = counts ! v - count_list (d # ds) v"
    using r(4) d by (auto simp: nth_list_update)
  ultimately show ?case
    using r(2,3,5) d
    by (intro exI [of _ counts'] exI [of _ "(if ?c ! d = 0 then [d] else []) @ new"]) auto
qed simp

definition kahn_inv :: "nat \<Rightarrow> (nat \<times> nat) list \<Rightarrow> nat list \<Rightarrow> nat list \<Rightarrow> nat list \<Rightarrow> bool" where
  "kahn_inv n edges counts ready order \<longleftrightarrow>
     length counts = n \<and> distinct (order @ ready) \<and>
     (\<forall>v < n. counts ! v = length (filter (\<lambda>(d, t). d = v \<and> t \<notin> set order) edges)) \<and>
     (\<forall>v. v \<in> set (order @ ready) \<longleftrightarrow> v < n \<and> counts ! v = 0) \<and>
     (\<forall>i < length order. \<forall>(d, t) \<in> set edges. d = order ! i \<longrightarrow> t \<in> set (take i order))"

lemma length_filter_disjoint:
  assumes "\<And>x. R x \<longleftrightarrow> P x \<or> Q x" "\<And>x. \<not> (P x \<and> Q x)"
  shows "length (filter R xs) = length (filter P xs) + length (filter Q xs)"
  by (induction xs) (use assms in auto)

lemma count_list_dependents:
  "count_list (map fst (filter (\<lambda>e. snd e = x) edges)) v = length (filter (\<lambda>(d, t). d = v \<and> t = x) edges)"
  by (induction edges) auto

lemma kahn_step:
  assumes inv: "kahn_inv n edges counts (x # ready) order"
    and edges: "\<forall>(d, t) \<in> set edges. d < n"
  defines "ds \<equiv> map fst (filter (\<lambda>e. snd e = x) edges)"
  obtains counts' ready' where "release_dependents ds counts ready = Some (counts', ready')"
    "kahn_inv n edges counts' ready' (order @ [x])"
proof -
  note inv' = inv [unfolded kahn_inv_def]
  have len: "length counts = n"
    using inv' by blast
  let ?rest = "\<lambda>v. length (filter (\<lambda>(d, t). d = v \<and> t \<notin> set (order @ [x])) edges)"
  have x: "x \<notin> set order" "x < n" "counts ! x = 0"
    using inv' by auto
  have split: "counts ! v = ?rest v + count_list ds v" if "v < n" for v
    using inv' that x(1) unfolding ds_def count_list_dependents
    by (simp only:) (rule length_filter_disjoint, auto)
  have ds: "\<forall>d \<in> set ds. d < length counts"
    using edges inv' by (auto simp: ds_def)
  have "count_list ds v \<le> (if v < length counts then counts ! v else 0)" for v
  proof (cases "v < n")
    case False
    then have "v \<notin> set ds" using ds len by blast
    then show ?thesis by (simp add: count_list_0_iff)
  qed (simp add: len split)
  then obtain counts' new where r: "release_dependents ds counts ready = Some (counts', ready @ new)"
    "length counts' = n" "distinct new" "\<forall>v < n. counts' ! v = counts ! v - count_list ds v"
    "set new = {v \<in> set ds. counts' ! v = 0}"
    using release_dependents_spec [OF ds, of ready] len by auto
  have c': "\<forall>v < n. counts' ! v = ?rest v"
    using r(4) split by simp
  have pos: "counts ! v \<noteq> 0" if "v \<in> set ds" for v
  proof -
    have "v < n" "count_list ds v \<noteq> 0"
      using that ds len by (auto simp: count_list_0_iff)
    then show ?thesis using split by simp
  qed
  have mem: "v \<in> set ((order @ [x]) @ ready @ new) \<longleftrightarrow> v < n \<and> counts' ! v = 0" for v
  proof -
    have "v \<in> set ((order @ [x]) @ ready) \<longleftrightarrow> v < n \<and> counts ! v = 0"
      using inv' by auto
    moreover have "v < n \<Longrightarrow> v \<notin> set ds \<Longrightarrow> counts' ! v = counts ! v"
      using r(4) by (simp add: count_list_0_iff)
    moreover have "v \<in> set ds \<Longrightarrow> v < n"
      using ds len by blast
    ultimately show ?thesis
      using r(4,5) pos [of v] by auto
  qed
  have "v \<notin> set new" if "v \<in> set (order @ x # ready)" for v
  proof -
    have "counts ! v = 0" using that inv' by blast
    with pos [of v] show ?thesis using r(5) by auto
  qed
  then have dist: "distinct ((order @ [x]) @ ready @ new)"
    using inv' r(3) by auto
  have "filter (\<lambda>(d, t). d = x \<and> t \<notin> set order) edges = []"
    using inv' x(2,3) by simp
  then have topo: "t \<in> set order" if "(x, t) \<in> set edges" for t
    using that by (auto simp: filter_empty_conv)
  have "\<forall>(d, t) \<in> set edges. d = (order @ [x]) ! i \<longrightarrow> t \<in> set (take i (order @ [x]))"
    if "i < length (order @ [x])" for i
    using that inv' topo by (cases "i = length order") (auto simp: nth_append)
  then have "kahn_inv n edges counts' (ready @ new) (order @ [x])"
    unfolding kahn_inv_def using r(2) dist mem c' by blast
  with r(1) show ?thesis using that by blast
qed

lemma kahn_loop_inv:
  assumes "kahn_inv n edges counts ready order" "\<forall>(d, t) \<in> set edges. d < n"
    and "length dependents = n" "\<forall>v < n. dependents ! v = map fst (filter (\<lambda>e. snd e = v) edges)"
  shows "\<exists>counts' order'. kahn_loop dependents counts ready order = Some order' \<and>
           kahn_inv n edges counts' [] order'"
  using assms
proof (induction dependents counts ready order rule: kahn_loop.induct)
  case (2 dependents counts x ready order)
  obtain counts' ready' where s:
    "release_dependents (map fst (filter (\<lambda>e. snd e = x) edges)) counts ready = Some (counts', ready')"
    "kahn_inv n edges counts' ready' (order @ [x])"
    using kahn_step [OF 2(2,3)] .
  have x: "x < n"
    using 2(2) by (auto simp: kahn_inv_def)
  show ?case
    using 2(1) [of "(counts', ready')" counts' ready'] 2(3-) s x by auto
qed auto

text \<open>What a node depends on, read off the configuration.\<close>

definition target_exists :: "proxy_config list \<Rightarrow> select_group_config list \<Rightarrow> route_target_id \<Rightarrow> bool" where
  "target_exists proxies groups target =
     (case target of ProxyTarget k \<Rightarrow> k < length proxies | GroupTarget k \<Rightarrow> k < length groups)"

definition target_dependencies ::
  "proxy_config list \<Rightarrow> select_group_config list \<Rightarrow> route_target_id \<Rightarrow> route_target_id set" where
  "target_dependencies proxies groups target =
     (case target of
        ProxyTarget k \<Rightarrow> set_option (dialer_proxy (proxies ! k))
      | GroupTarget k \<Rightarrow> {t. \<exists>m \<in> set (sg_members (groups ! k)). member_target m = MemberRoute t})"

definition graph_closed :: "proxy_config list \<Rightarrow> select_group_config list \<Rightarrow> bool" where
  "graph_closed proxies groups \<longleftrightarrow>
     (\<forall>t. target_exists proxies groups t \<longrightarrow> (\<forall>u \<in> target_dependencies proxies groups t. target_exists proxies groups u))"

lemma graph_slot_inverse [simp]:
  "target_exists proxies groups t \<Longrightarrow> graph_target (length proxies) (graph_slot (length proxies) t) = t"
  by (auto simp: target_exists_def graph_target_def split: route_target_id.splits)

lemma graph_target_slot [simp]: "graph_slot p (graph_target p i) = i"
  by (simp add: graph_target_def)

lemma graph_target_exists:
  "target_exists proxies groups (graph_target (length proxies) i) \<longleftrightarrow> i < length proxies + length groups"
  by (auto simp: target_exists_def graph_target_def)

lemma graph_closed_dependency:
  "graph_closed proxies groups \<Longrightarrow> d < length proxies + length groups \<Longrightarrow>
   u \<in> target_dependencies proxies groups (graph_target (length proxies) d) \<Longrightarrow> target_exists proxies groups u"
  using graph_target_exists unfolding graph_closed_def by blast

lemma graph_slot_bound: "target_exists proxies groups t \<Longrightarrow> graph_slot (length proxies) t < length proxies + length groups"
  by (auto simp: target_exists_def split: route_target_id.splits)

lemma in_enumerate_concat:
  "x \<in> set (concat (map (\<lambda>(i, y). f i y) (enumerate 0 ys))) \<longleftrightarrow> (\<exists>i < length ys. x \<in> set (f i (ys ! i)))"
  by (force simp: in_set_enumerate_eq)

lemma in_member_routes:
  "(d, t) \<in> set (concat (map (\<lambda>m. case member_target m of MemberRoute target \<Rightarrow> [(k, target)] | _ \<Rightarrow> []) ms)) \<longleftrightarrow>
     d = k \<and> (\<exists>m \<in> set ms. member_target m = MemberRoute t)"
  by (induction ms) (auto split: member_target.splits)

lemma graph_dependencies_iff:
  "(d, t) \<in> set (graph_dependencies proxies groups) \<longleftrightarrow>
     d < length proxies + length groups \<and>
     t \<in> target_dependencies proxies groups (graph_target (length proxies) d)"
proof -
  have "(d, t) \<in> set (graph_dependencies proxies groups) \<longleftrightarrow>
      (\<exists>i < length proxies. d = i \<and> dialer_proxy (proxies ! i) = Some t) \<or>
      (\<exists>j < length groups. d = length proxies + j \<and>
         (\<exists>m \<in> set (sg_members (groups ! j)). member_target m = MemberRoute t))"
    unfolding graph_dependencies_def set_append Un_iff in_enumerate_concat in_member_routes
    by (auto split: option.splits)
  also have "\<dots> \<longleftrightarrow> d < length proxies + length groups \<and>
     t \<in> target_dependencies proxies groups (graph_target (length proxies) d)"
  proof (cases "d < length proxies")
    case False
    then have "(\<exists>j < length groups. d = length proxies + j \<and> P j) \<longleftrightarrow>
        d < length proxies + length groups \<and> P (d - length proxies)" for P
      by (auto intro: exI [of _ "d - length proxies"])
    with False show ?thesis
      by (simp add: target_dependencies_def graph_target_def)
  qed (auto simp: target_dependencies_def graph_target_def elem_set)
  finally show ?thesis .
qed

lemma kahn_inv_start:
  assumes "length counts = n" "\<forall>v < n. counts ! v = count_list (map fst edges) v"
  shows "kahn_inv n edges counts (filter (\<lambda>i. counts ! i = 0) [0..<n]) []"
proof -
  have "count_list (map fst edges) v = length (filter (\<lambda>(d, t). d = v) edges)" for v
    by (induction edges) auto
  with assms show ?thesis
    by (auto simp: kahn_inv_def)
qed

lemma graph_index_exists:
  "(\<exists>i. graph_index (length proxies) (length groups) t = Inr i) \<longleftrightarrow> target_exists proxies groups t"
  by (auto simp: graph_index_def target_exists_def split: route_target_id.splits)

lemma add_dependencies_Inl:
  "add_dependencies p g deps counts dependents = Inl e \<Longrightarrow>
     e = UnknownGraphTarget \<and> (\<exists>(d, t) \<in> set deps. \<nexists>i. graph_index p g t = Inr i)"
proof (induction deps arbitrary: counts dependents)
  case (Cons dep deps)
  obtain d t where dep: "dep = (d, t)" by (cases dep)
  show ?case
  proof (cases "graph_index p g t")
    case (Inl a)
    then have "a = UnknownGraphTarget"
      by (auto simp: graph_index_def split: route_target_id.splits if_splits)
    with Inl Cons.prems show ?thesis by (auto simp: dep)
  next
    case (Inr i)
    with Cons show ?thesis by (fastforce simp: dep)
  qed
qed simp

text \<open>The computation of the order, with the invariant at its end.\<close>

lemma proxy_graph_order_cases:
  obtains (unknown) "proxy_graph_order proxies groups = Inl UnknownGraphTarget"
    "\<not> graph_closed proxies groups"
  | (known) order counts where
    "graph_closed proxies groups"
    "kahn_inv (length proxies + length groups)
       (graph_edges (length proxies) (graph_dependencies proxies groups)) counts [] order"
    "proxy_graph_order proxies groups =
       (if length order \<noteq> length proxies + length groups then Inl CircularGraph
        else Inr (map (graph_target (length proxies)) order))"
proof -
  let ?p = "length proxies" and ?g = "length groups" and ?deps = "graph_dependencies proxies groups"
  let ?edges = "graph_edges (length proxies) ?deps"
  have bound: "\<forall>(d, t) \<in> set ?deps. d < ?p + ?g"
    by (auto simp: graph_dependencies_iff)
  show ?thesis
  proof (cases "add_dependencies ?p ?g ?deps (replicate (?p + ?g) 0) (replicate (?p + ?g) [])")
    case (Inl e)
    then obtain d t where "e = UnknownGraphTarget" "(d, t) \<in> set ?deps" "\<not> target_exists proxies groups t"
      using add_dependencies_Inl [OF Inl] graph_index_exists by fastforce
    then show ?thesis
      using Inl by (intro unknown)
        (auto simp: proxy_graph_order_def graph_dependencies_iff graph_closed_def graph_target_exists [symmetric])
  next
    case (Inr r)
    obtain counts dependents where r: "r = (counts, dependents)" by (cases r)
    note built = add_dependencies_Inr [OF Inr [unfolded r] _ _ bound, simplified]
    have start: "kahn_inv (?p + ?g) ?edges counts (filter (\<lambda>i. counts ! i = 0) [0..<?p + ?g]) []"
      using built by (intro kahn_inv_start) auto
    have edges: "\<forall>(d, t) \<in> set ?edges. d < ?p + ?g"
      using bound by (auto simp: graph_edges_def)
    obtain counts' order where loop:
      "kahn_loop dependents counts (filter (\<lambda>i. counts ! i = 0) [0..<?p + ?g]) [] = Some order"
      "kahn_inv (?p + ?g) ?edges counts' [] order"
      using kahn_loop_inv [OF start edges, of dependents] built by auto
    have "target_exists proxies groups u"
      if "target_exists proxies groups t" "u \<in> target_dependencies proxies groups t" for t u
    proof -
      have "(graph_slot ?p t, u) \<in> set ?deps"
        using that by (simp add: graph_dependencies_iff graph_slot_bound)
      then show ?thesis
        using built by (auto simp: graph_index_exists [symmetric])
    qed
    then have "graph_closed proxies groups"
      by (auto simp: graph_closed_def)
    then show ?thesis
      by (rule known [OF _ loop(2)]) (simp_all add: proxy_graph_order_def Let_def Inr r loop(1))
  qed
qed

lemma kahn_order_targets:
  assumes inv: "kahn_inv (length proxies + length groups)
      (graph_edges (length proxies) (graph_dependencies proxies groups)) counts [] order"
    and full: "length order = length proxies + length groups"
    and closed: "graph_closed proxies groups"
  defines "targets \<equiv> map (graph_target (length proxies)) order"
  shows "distinct targets" "set targets = {t. target_exists proxies groups t}"
    "\<And>i. i < length targets \<Longrightarrow> target_dependencies proxies groups (targets ! i) \<subseteq> set (take i targets)"
proof -
  let ?n = "length proxies + length groups"
  note inv' = inv [unfolded kahn_inv_def, simplified]
  have "inj (graph_target (length proxies))"
    by (metis graph_target_slot injI)
  then show "distinct targets"
    using inv' by (simp add: targets_def distinct_map inj_on_subset [of _ UNIV])
  have sub: "set order \<subseteq> {0..<?n}" and "card (set order) = ?n"
    using inv' full distinct_card [of order] by auto
  then have all: "set order = {0..<?n}"
    by (intro card_subset_eq) auto
  show "set targets = {t. target_exists proxies groups t}"
  proof
    show "set targets \<subseteq> {t. target_exists proxies groups t}"
      unfolding targets_def set_map all by (auto simp: graph_target_exists)
    show "{t. target_exists proxies groups t} \<subseteq> set targets"
    proof
      fix t assume "t \<in> {t. target_exists proxies groups t}"
      then have "t = graph_target (length proxies) (graph_slot (length proxies) t)"
        "graph_slot (length proxies) t \<in> {0..<?n}"
        using graph_slot_bound by auto
      then show "t \<in> set targets"
        unfolding targets_def set_map all by blast
    qed
  qed
  fix i assume i: "i < length targets"
  show "target_dependencies proxies groups (targets ! i) \<subseteq> set (take i targets)"
  proof
    fix t assume t: "t \<in> target_dependencies proxies groups (targets ! i)"
    have d2: "i < length order"
      using i by (simp add: targets_def)
    then have "order ! i \<in> {0..<?n}"
      using sub nth_mem by blast
    with d2 have d: "order ! i < ?n" "i < length order"
      by simp_all
    then have ex: "target_exists proxies groups t"
      using graph_closed_dependency [OF closed d(1)] t by (simp add: targets_def)
    have "(order ! i, graph_slot (length proxies) t) \<in>
        set (graph_edges (length proxies) (graph_dependencies proxies groups))"
      using t d by (force simp: graph_edges_def graph_dependencies_iff targets_def)
    then have "graph_slot (length proxies) t \<in> set (take i order)"
      using inv' d(2) by blast
    then have "graph_target (length proxies) (graph_slot (length proxies) t) \<in> set (take i targets)"
      by (auto simp: targets_def take_map)
    then show "t \<in> set (take i targets)"
      using ex by simp
  qed
qed

lemma kahn_invD:
  assumes "kahn_inv n edges counts [] order"
  shows "distinct order" "w < n \<Longrightarrow> counts ! w = length (filter (\<lambda>(d, t). d = w \<and> t \<notin> set order) edges)"
    "w \<in> set order \<longleftrightarrow> w < n \<and> counts ! w = 0"
proof -
  note c = assms [unfolded kahn_inv_def append_Nil2]
  show "distinct order"
    using c [THEN conjunct2, THEN conjunct1] .
  show "w < n \<Longrightarrow> counts ! w = length (filter (\<lambda>(d, t). d = w \<and> t \<notin> set order) edges)"
    using c [THEN conjunct2, THEN conjunct2, THEN conjunct1, rule_format] .
  show "w \<in> set order \<longleftrightarrow> w < n \<and> counts ! w = 0"
    using c [THEN conjunct2, THEN conjunct2, THEN conjunct2, THEN conjunct1, rule_format] .
qed

lemma kahn_order_full:
  assumes inv: "kahn_inv (length proxies + length groups)
      (graph_edges (length proxies) (graph_dependencies proxies groups)) counts [] order"
    and closed: "graph_closed proxies groups"
    and rank: "\<And>t u. target_exists proxies groups t \<Longrightarrow> u \<in> target_dependencies proxies groups t \<Longrightarrow>
       (rank u :: nat) < rank t"
  shows "length order = length proxies + length groups"
proof (rule ccontr)
  let ?n = "length proxies + length groups" and ?t = "graph_target (length proxies)"
  assume "length order \<noteq> ?n"
  then have "set order \<noteq> {0..<?n}"
    using distinct_card [OF kahn_invD(1) [OF inv]] by auto
  moreover have "set order \<subseteq> {0..<?n}"
    using kahn_invD(3) [OF inv] by (intro subsetI) simp
  ultimately obtain v0 where "v0 < ?n \<and> v0 \<notin> set order"
    by (meson atLeastLessThan_iff subsetI subset_antisym)
  then have "\<exists>v. (v < ?n \<and> v \<notin> set order) \<and> (\<forall>w. w < ?n \<and> w \<notin> set order \<longrightarrow> rank (?t v) \<le> rank (?t w))"
    by (rule ex_has_least_nat)
  then obtain v where v: "v < ?n" "v \<notin> set order"
    and least: "\<And>w. w < ?n \<Longrightarrow> w \<notin> set order \<Longrightarrow> rank (?t v) \<le> rank (?t w)"
    by auto
  have "counts ! v \<noteq> 0"
    using kahn_invD(3) [OF inv, of v] v by simp
  moreover have "counts ! v = length (filter (\<lambda>(d, t). d = v \<and> t \<notin> set order)
      (graph_edges (length proxies) (graph_dependencies proxies groups)))"
    using kahn_invD(2) [OF inv v(1)] .
  ultimately have "filter (\<lambda>(d, t). d = v \<and> t \<notin> set order)
      (graph_edges (length proxies) (graph_dependencies proxies groups)) \<noteq> []"
    by auto
  then obtain w where "(v, w) \<in> set (graph_edges (length proxies) (graph_dependencies proxies groups))"
    "w \<notin> set order"
    unfolding filter_empty_conv by blast
  then obtain u where u: "u \<in> target_dependencies proxies groups (?t v)" "w = graph_slot (length proxies) u"
    by (auto simp: graph_edges_def graph_dependencies_iff)
  then have ex: "target_exists proxies groups u"
    using graph_closed_dependency [OF closed v(1)] by blast
  then have "rank (?t v) \<le> rank u"
    using least [of w] u(2) \<open>w \<notin> set order\<close> by (simp add: graph_slot_bound)
  moreover have "rank u < rank (?t v)"
    using rank u(1) v(1) by (simp add: graph_target_exists)
  ultimately show False by simp
qed

lemma position_rank:
  assumes "distinct order" "i < length order"
  shows "length (takeWhile (\<lambda>u. u \<noteq> order ! i) order) = i"
proof -
  have "takeWhile (\<lambda>u. u \<noteq> order ! i) order = take i order"
    by (rule takeWhile_eq_take_P_nth) (use assms in \<open>auto simp: nth_eq_iff_index_eq\<close>)
  then show ?thesis using assms by simp
qed

definition ranks :: "proxy_config list \<Rightarrow> select_group_config list \<Rightarrow> (route_target_id \<Rightarrow> nat) \<Rightarrow> bool" where
  "ranks proxies groups rank \<longleftrightarrow>
     (\<forall>t. target_exists proxies groups t \<longrightarrow> (\<forall>u \<in> target_dependencies proxies groups t. rank u < rank t))"

lemma kahn_order_ranked:
  assumes "kahn_inv (length proxies + length groups)
      (graph_edges (length proxies) (graph_dependencies proxies groups)) counts [] order"
    and "length order = length proxies + length groups" "graph_closed proxies groups"
  shows "\<exists>rank. ranks proxies groups rank"
proof -
  let ?targets = "map (graph_target (length proxies)) order"
  note targets = kahn_order_targets [OF assms]
  have "ranks proxies groups (\<lambda>t. length (takeWhile (\<lambda>x. x \<noteq> t) ?targets))"
    unfolding ranks_def
  proof (intro allI impI ballI)
    fix t u assume t: "target_exists proxies groups t" and u: "u \<in> target_dependencies proxies groups t"
    obtain i where i: "i < length ?targets" "t = ?targets ! i"
      using t targets(2) by (metis in_set_conv_nth mem_Collect_eq)
    then have "u \<in> set (take i ?targets)"
      using targets(3) [OF i(1)] u by blast
    then obtain j where j: "j < i" "u = ?targets ! j"
      by (auto simp: in_set_conv_nth)
    show "length (takeWhile (\<lambda>x. x \<noteq> u) ?targets) < length (takeWhile (\<lambda>x. x \<noteq> t) ?targets)"
      using position_rank [OF targets(1)] i j by auto
  qed
  then show ?thesis by blast
qed

lemma proxy_graph_order_ranked:
  assumes "proxy_graph_order proxies groups = Inr order"
  obtains rank where "ranks proxies groups rank" "graph_closed proxies groups"
proof (cases rule: proxy_graph_order_cases [of proxies groups])
  case (known order' counts)
  then have "length order' = length proxies + length groups"
    using assms by (auto split: if_splits)
  then show ?thesis
    using kahn_order_ranked [OF known(2) _ known(1)] known(1) that by blast
qed (use assms in simp)

text \<open>
  Claim C4. \<^verbatim>\<open>proxy_graph_order\<close> returns a dependency-first order: every configured node and group occurs
  exactly once, and whatever one depends on (its dialer proxy, or any member of the group, selected or
  not) occurs before it.
\<close>

theorem proxy_graph_order_sound:
  assumes "proxy_graph_order proxies groups = Inr order"
  shows "distinct order \<and> set order = {t. target_exists proxies groups t} \<and>
         (\<forall>i < length order. target_dependencies proxies groups (order ! i) \<subseteq> set (take i order))"
proof (cases rule: proxy_graph_order_cases [of proxies groups])
  case (known order' counts)
  then have "length order' = length proxies + length groups"
    and "order = map (graph_target (length proxies)) order'"
    using assms by (auto split: if_splits)
  then show ?thesis
    using kahn_order_targets [OF known(2) _ known(1)] by blast
qed (use assms in simp)

theorem proxy_graph_order_sound_witness:
  "distinct [ProxyTarget 0, GroupTarget 0, ProxyTarget 1]"
proof -
  let ?proxies = "[\<lparr>proxy_tag = str ''a'', dialer_proxy = None\<rparr>,
                   \<lparr>proxy_tag = str ''b'', dialer_proxy = Some (GroupTarget 0)\<rparr>]"
  let ?groups = "[\<lparr>sg_name = str ''g'', sg_members =
      [\<lparr>member_name = str ''a'', member_target = MemberRoute (ProxyTarget 0)\<rparr>,
       \<lparr>member_name = str ''DIRECT'', member_target = MemberDirect\<rparr>], sg_initial_member = 0\<rparr>]"
  have "proxy_graph_order ?proxies ?groups = Inr [ProxyTarget 0, GroupTarget 0, ProxyTarget 1]"
    by code_simp
  then show ?thesis
    using proxy_graph_order_sound by blast
qed

text \<open>
  Claim C27. \<^verbatim>\<open>proxy_graph_order\<close> accepts exactly the graphs that have such an order: it succeeds if and only
  if every reference names a configured node or group and the dependencies decrease some rank, that is,
  are free of cycles; otherwise it reports one of the two configuration errors, and never panics.
\<close>

theorem proxy_graph_order_complete:
  "((\<exists>order. proxy_graph_order proxies groups = Inr order) \<longleftrightarrow>
      graph_closed proxies groups \<and> (\<exists>rank. ranks proxies groups rank)) \<and>
   proxy_graph_order proxies groups \<in> range Inr \<union> {Inl UnknownGraphTarget, Inl CircularGraph}"
proof (cases rule: proxy_graph_order_cases [of proxies groups])
  case unknown
  then show ?thesis by simp
next
  case (known order counts)
  have "length order = length proxies + length groups" if "ranks proxies groups rank" for rank
    using kahn_order_full [OF known(2,1)] that unfolding ranks_def by blast
  then have "length order = length proxies + length groups \<longleftrightarrow> (\<exists>rank. ranks proxies groups rank)"
    using kahn_order_ranked [OF known(2) _ known(1)] by blast
  then show ?thesis
    using known(1,3) by simp
qed

end
