(* ===== verification/Datagram_Transport.thy ===== *)
theory Datagram_Transport
  imports Session_Model
begin

text \<open>
  \<^verbatim>\<open>src/dispatch.rs\<close> and \<^verbatim>\<open>src/dispatch/datagram.rs\<close>: the errors of a dispatcher, the
  payload budgets of a datagram path, the contract of the trait \<^verbatim>\<open>DatagramTransport\<close> as a
  locale, and the wrapper \<^verbatim>\<open>Bounded\<close>. A future that is dropped before it completes is
  the value \<open>Pending\<close> together with the state it leaves behind; what the network delivers in
  the meantime is an event applied to that state.
\<close>

section \<open>Errors\<close>

text \<open>The texts of \<^verbatim>\<open>DispatchError::Other\<close> that the model distinguishes.\<close>

datatype dispatch_message =
  SelectionLengthMismatch
| InvalidGroupMembers nat
| DuplicateGroup nat
| GroupUnknownProxy nat nat
| GroupUnknownGroup nat nat
| UnknownGroupId nat
| InvalidSelected nat nat
| UnknownProxyId nat
| HopCeiling
| EmptyRegistry
| NoFinalAction
| AssociationClosed
| IoText io_error

datatype dispatch_error =
  NotAllowed | NetworkUnreachable | HostUnreachable | DispatchRefused | TimedOut
| DispatchOther dispatch_message

fun diagnostic_code :: "dispatch_error \<Rightarrow> bytes" where
  "diagnostic_code NotAllowed = str ''not_allowed''"
| "diagnostic_code NetworkUnreachable = str ''network_unreachable''"
| "diagnostic_code HostUnreachable = str ''host_unreachable''"
| "diagnostic_code DispatchRefused = str ''connection_refused''"
| "diagnostic_code TimedOut = str ''timed_out''"
| "diagnostic_code (DispatchOther m) = str ''other''"

fun http_status :: "dispatch_error \<Rightarrow> u16" where
  "http_status TimedOut = 504"
| "http_status e = 502"

fun dispatch_from_io :: "io_error \<Rightarrow> dispatch_error" where
  "dispatch_from_io IoPermissionDenied = NotAllowed"
| "dispatch_from_io IoNetworkUnreachable = NetworkUnreachable"
| "dispatch_from_io IoHostUnreachable = HostUnreachable"
| "dispatch_from_io ConnectionRefused = DispatchRefused"
| "dispatch_from_io IoTimedOut = TimedOut"
| "dispatch_from_io e = DispatchOther (IoText e)"

section \<open>Budgets\<close>

datatype ip_version = V4 | V6

record datagram_budget =
  db_transmit :: u16
  db_receive :: u16

definition QUIC_MIN_PAYLOAD_BYTES :: u16 where "QUIC_MIN_PAYLOAD_BYTES = 1200"

definition budget_new :: "u16 \<Rightarrow> u16 \<Rightarrow> datagram_budget" where
  "budget_new transmit receive = \<lparr>db_transmit = transmit, db_receive = receive\<rparr>"

definition from_path_mtu :: "u16 \<Rightarrow> ip_version \<Rightarrow> io_error + datagram_budget" where
  "from_path_mtu mtu version =
     (let overhead = (case version of V4 \<Rightarrow> 28 | V6 \<Rightarrow> 48) in
      and_then (ok_or InvalidInput
                 (if overhead \<le> mtu \<and> 0 < mtu - overhead then Some (mtu - overhead) else None))
        (\<lambda>payload. Inr (budget_new payload payload)))"

definition budget_intersect :: "datagram_budget \<Rightarrow> datagram_budget \<Rightarrow> datagram_budget" where
  "budget_intersect a b =
     budget_new (min (db_transmit a) (db_transmit b)) (min (db_receive a) (db_receive b))"

definition subtract_overhead :: "nat \<Rightarrow> nat \<Rightarrow> datagram_budget \<Rightarrow> datagram_budget" where
  "subtract_overhead transmit receive a =
     budget_new (of_nat (unat (db_transmit a) - transmit)) (of_nat (unat (db_receive a) - receive))"

definition quic_payload_limit :: "datagram_budget \<Rightarrow> io_error + u16" where
  "quic_payload_limit a =
     (let payload = min (db_transmit a) (db_receive a) in
      if payload < QUIC_MIN_PAYLOAD_BYTES then Inl InvalidInput else Inr payload)"

lemma budget_new_simps [simp]:
  "db_transmit (budget_new t r) = t" "db_receive (budget_new t r) = r"
  by (simp_all add: budget_new_def)

lemma unat_min: "unat (min a b) = min (unat a) (unat b)"
  by (simp add: min_def word_le_nat_alt)

lemma unat_budget_intersect [simp]:
  "unat (db_transmit (budget_intersect a b)) = min (unat (db_transmit a)) (unat (db_transmit b))"
  "unat (db_receive (budget_intersect a b)) = min (unat (db_receive a)) (unat (db_receive b))"
  by (simp_all add: budget_intersect_def unat_min)

lemma unat_subtract_overhead:
  "unat (db_transmit (subtract_overhead t r a)) = unat (db_transmit a) - t"
  "unat (db_receive (subtract_overhead t r a)) = unat (db_receive a) - r"
  using unsigned_less [of "db_transmit a"] unsigned_less [of "db_receive a"]
  by (auto simp: subtract_overhead_def unat_of_nat intro!: mod_less less_imp_diff_less)

lemma from_path_mtu_fits:
  assumes "from_path_mtu mtu version = Inr a"
  shows "db_transmit a = db_receive a \<and> 0 < unat (db_transmit a) \<and>
    unat (db_transmit a) + (case version of V4 \<Rightarrow> 28 | V6 \<Rightarrow> 48) = unat mtu"
  using assms
  by (cases version)
    (auto simp: from_path_mtu_def Let_def res_simps word_le_nat_alt word_less_nat_alt unat_sub
      split: if_splits)

lemma quic_payload_limit_fits:
  "quic_payload_limit a = Inr n \<Longrightarrow>
   1200 \<le> unat n \<and> unat n \<le> unat (db_transmit a) \<and> unat n \<le> unat (db_receive a)"
  by (auto simp: quic_payload_limit_def Let_def QUIC_MIN_PAYLOAD_BYTES_def word_less_nat_alt unat_min
      split: if_splits)

section \<open>The contract of a transport\<close>

datatype 'a poll = Pending | Ready 'a

type_synonym 's receiver = "'s \<Rightarrow> ((dispatch_error + datagram) poll \<times> 's) option"
type_synonym ('w, 's) sender = "'w \<Rightarrow> datagram \<Rightarrow> 's \<Rightarrow> ((dispatch_error + unit) poll \<times> 's) option"

text \<open>
  \<open>budget\<close> is \<^verbatim>\<open>payload_budget\<close>. \<open>send\<close> takes what the writes below it return as its first
  argument. The value \<open>None\<close> is a panic or a call that neither returns nor waits; \<open>arrive\<close> adds
  input from the network, of which \<open>backlog\<close> bounds the datagrams not yet taken. \<open>good\<close> is the
  invariant of the state.
\<close>

locale datagram_transport =
  fixes budget :: "'s \<Rightarrow> destination \<Rightarrow> datagram_budget"
    and send :: "('w, 's) sender"
    and receive :: "'s receiver"
    and arrive :: "'e \<Rightarrow> 's \<Rightarrow> 's"
    and good :: "'s \<Rightarrow> bool"
    and backlog :: "'s \<Rightarrow> nat"
  assumes oversize_refused:
      "good s \<Longrightarrow> unat (db_transmit (budget s (dg_remote dg))) < length (dg_payload dg) \<Longrightarrow>
       \<exists>e. send w dg s = Some (Ready (Inl e), s)"
    and send_returns: "good s \<Longrightarrow> send w dg s \<noteq> None"
    and received_within:
      "good s \<Longrightarrow> receive s = Some (Ready (Inr dg), s') \<Longrightarrow>
       length (dg_payload dg) \<le> unat (db_receive (budget s' (dg_remote dg)))"
    and receive_returns: "good s \<Longrightarrow> receive s \<noteq> None"
    and receive_progress:
      "good s \<Longrightarrow> receive s = Some (Ready (Inr dg), s') \<Longrightarrow> backlog s' < backlog s"
    and good_send: "good s \<Longrightarrow> send w dg s = Some (r, s') \<Longrightarrow> good s'"
    and good_receive: "good s \<Longrightarrow> receive s = Some (p, s') \<Longrightarrow> good s'"
    and good_arrive: "good s \<Longrightarrow> good (arrive e s)"

text \<open>
  The trait asks of \<^verbatim>\<open>receive\<close> that it may be dropped while it waits and called again: the second
  call then gives what the first would have given. This is stated for transports whose input is a
  stream, where later input does not change what earlier input gives.
\<close>

locale resumable_transport = datagram_transport +
  assumes receive_resumes:
      "good s \<Longrightarrow> receive s = Some (Pending, s') \<Longrightarrow> receive (arrive e s') = receive (arrive e s)"
    and receive_stable:
      "good s \<Longrightarrow> receive s = Some (Ready r, s') \<Longrightarrow> receive (arrive e s) = Some (Ready r, arrive e s')"
    and budget_arrive: "good s \<Longrightarrow> budget (arrive e s) peer = budget s peer"

section \<open>The bounding wrapper\<close>

record 's bounded =
  bd_inner :: 's
  bd_budget :: datagram_budget
  bd_closing :: bool
  bd_closed :: bool

definition bounded_new :: "'s \<Rightarrow> datagram_budget \<Rightarrow> 's bounded" where
  "bounded_new inner limit =
     \<lparr>bd_inner = inner, bd_budget = limit, bd_closing = False, bd_closed = False\<rparr>"

definition bounded_budget ::
  "('s \<Rightarrow> destination \<Rightarrow> datagram_budget) \<Rightarrow> 's bounded \<Rightarrow> destination \<Rightarrow> datagram_budget" where
  "bounded_budget inner_budget b peer = budget_intersect (bd_budget b) (inner_budget (bd_inner b) peer)"

definition bounded_send ::
  "('s \<Rightarrow> destination \<Rightarrow> datagram_budget) \<Rightarrow> ('w, 's) sender \<Rightarrow> ('w, 's bounded) sender" where
  "bounded_send inner_budget inner_send w dg b =
     (if bd_closing b then Some (Ready (Inl NotAllowed), b)
      else if unat (db_transmit (bounded_budget inner_budget b (dg_remote dg))) < length (dg_payload dg)
      then Some (Ready (Inl (dispatch_from_io InvalidInput)), b)
      else map_option (\<lambda>(r, inner). (r, b\<lparr>bd_inner := inner\<rparr>)) (inner_send w dg (bd_inner b)))"

partial_function (option) bounded_receive_loop ::
  "('s \<Rightarrow> destination \<Rightarrow> datagram_budget) \<Rightarrow> 's receiver \<Rightarrow> 's bounded receiver" where
  "bounded_receive_loop inner_budget inner_receive b =
     Option.bind (inner_receive (bd_inner b)) (\<lambda>(r, inner).
       let b' = b\<lparr>bd_inner := inner\<rparr> in
       case r of
         Pending \<Rightarrow> Some (Pending, b')
       | Ready (Inl e) \<Rightarrow> Some (Ready (Inl e), b')
       | Ready (Inr dg) \<Rightarrow>
           if length (dg_payload dg) \<le> unat (db_receive (bounded_budget inner_budget b' (dg_remote dg)))
           then Some (Ready (Inr dg), b')
           else bounded_receive_loop inner_budget inner_receive b')"

definition bounded_receive ::
  "('s \<Rightarrow> destination \<Rightarrow> datagram_budget) \<Rightarrow> 's receiver \<Rightarrow> 's bounded receiver" where
  "bounded_receive inner_budget inner_receive b =
     (if bd_closing b then Some (Ready (Inl NotAllowed), b)
      else bounded_receive_loop inner_budget inner_receive b)"

definition bounded_close ::
  "('s \<Rightarrow> (dispatch_error + unit) \<times> 's) \<Rightarrow> 's bounded \<Rightarrow> (dispatch_error + unit) \<times> 's bounded" where
  "bounded_close inner_close b =
     (if bd_closed b then (Inr (), b)
      else
        (let (r, inner) = inner_close (bd_inner b);
             b' = b\<lparr>bd_closing := True, bd_inner := inner\<rparr> in
         (r, b'\<lparr>bd_closed := (is_ok r \<or> bd_closed b')\<rparr>)))"

definition bounded_arrive :: "('e \<Rightarrow> 's \<Rightarrow> 's) \<Rightarrow> 'e \<Rightarrow> 's bounded \<Rightarrow> 's bounded" where
  "bounded_arrive arrive e b = b\<lparr>bd_inner := arrive e (bd_inner b)\<rparr>"

section \<open>The wrapper keeps the contract\<close>

text \<open>
  The laws of a transport as facts of the loop: one step that delivers, fails, waits or drops an
  oversize datagram.
\<close>

lemmas bounded_loop_step = bounded_receive_loop.simps

context datagram_transport
begin

lemma loop_cases:
  assumes "good (bd_inner b)"
  obtains (dropped) dg s where "receive (bd_inner b) = Some (Ready (Inr dg), s)" "good s"
      "backlog s < backlog (bd_inner b)"
      "\<not> length (dg_payload dg) \<le>
        unat (db_receive (bounded_budget budget (b\<lparr>bd_inner := s\<rparr>) (dg_remote dg)))"
  | (stopped) p s where "receive (bd_inner b) = Some (p, s)"
      "bounded_receive_loop budget receive b = Some (p, b\<lparr>bd_inner := s\<rparr>)"
      "\<And>dg. p = Ready (Inr dg) \<Longrightarrow> length (dg_payload dg) \<le>
        unat (db_receive (bounded_budget budget (b\<lparr>bd_inner := s\<rparr>) (dg_remote dg)))"
proof -
  obtain p s where p: "receive (bd_inner b) = Some (p, s)"
    using receive_returns [OF assms] by auto
  let ?fits = "\<lambda>dg. length (dg_payload dg) \<le>
      unat (db_receive (bounded_budget budget (b\<lparr>bd_inner := s\<rparr>) (dg_remote dg)))"
  show thesis
  proof (cases "\<exists>dg. p = Ready (Inr dg) \<and> \<not> ?fits dg")
    case True
    then show ?thesis
      using that(1) p good_receive [OF assms p] receive_progress [OF assms] by blast
  next
    case False
    then have "bounded_receive_loop budget receive b = Some (p, b\<lparr>bd_inner := s\<rparr>)"
      by (subst bounded_loop_step) (auto simp: p Let_def split: poll.splits sum.splits)
    then show ?thesis using that(2) p False by blast
  qed
qed

lemma loop_step:
  assumes "receive (bd_inner b) = Some (Ready (Inr dg), s)"
    and "\<not> length (dg_payload dg) \<le>
      unat (db_receive (bounded_budget budget (b\<lparr>bd_inner := s\<rparr>) (dg_remote dg)))"
  shows "bounded_receive_loop budget receive b = bounded_receive_loop budget receive (b\<lparr>bd_inner := s\<rparr>)"
  by (subst bounded_loop_step) (use assms in \<open>simp add: Let_def\<close>)

lemma loop_outcome:
  "good (bd_inner b) \<Longrightarrow> \<exists>r b'. bounded_receive_loop budget receive b = Some (r, b') \<and>
   good (bd_inner b') \<and> bd_budget b' = bd_budget b \<and> bd_closing b' = bd_closing b \<and>
   (\<forall>dg. r = Ready (Inr dg) \<longrightarrow> backlog (bd_inner b') < backlog (bd_inner b) \<and>
      length (dg_payload dg) \<le> unat (db_receive (bounded_budget budget b' (dg_remote dg))))"
proof (induction "backlog (bd_inner b)" arbitrary: b rule: less_induct)
  case less
  from less.prems show ?case
  proof (cases b rule: loop_cases)
    case (dropped dg s)
    then show ?thesis
      using less.hyps [of "b\<lparr>bd_inner := s\<rparr>"] loop_step [OF dropped(1,4)] by fastforce
  next
    case (stopped p s)
    then show ?thesis
      using good_receive [OF less.prems stopped(1)] receive_progress [OF less.prems] by auto
  qed
qed

end

context resumable_transport
begin

lemma loop_dropped:
  assumes "good (bd_inner b)" "receive (bd_inner b) = Some (Ready (Inr dg), s)"
    and "\<not> length (dg_payload dg) \<le>
      unat (db_receive (bounded_budget budget (b\<lparr>bd_inner := s\<rparr>) (dg_remote dg)))"
  shows "bounded_receive_loop budget receive b = bounded_receive_loop budget receive (b\<lparr>bd_inner := s\<rparr>)"
    "bounded_receive_loop budget receive (bounded_arrive arrive e b) =
     bounded_receive_loop budget receive (bounded_arrive arrive e (b\<lparr>bd_inner := s\<rparr>))"
proof -
  show "bounded_receive_loop budget receive b = bounded_receive_loop budget receive (b\<lparr>bd_inner := s\<rparr>)"
    by (rule loop_step [OF assms(2,3)])
  have "good s" using good_receive [OF assms(1,2)] .
  then show "bounded_receive_loop budget receive (bounded_arrive arrive e b) =
     bounded_receive_loop budget receive (bounded_arrive arrive e (b\<lparr>bd_inner := s\<rparr>))"
    by (subst bounded_loop_step)
      (use assms receive_stable [OF assms(1,2), of e] in
        \<open>auto simp: Let_def bounded_arrive_def bounded_budget_def budget_arrive\<close>)
qed

lemma loop_resumes:
  "good (bd_inner b) \<Longrightarrow> bounded_receive_loop budget receive b = Some (Pending, b') \<Longrightarrow>
   bounded_receive_loop budget receive (bounded_arrive arrive e b') =
   bounded_receive_loop budget receive (bounded_arrive arrive e b)"
proof (induction "backlog (bd_inner b)" arbitrary: b rule: less_induct)
  case less
  from less.prems(1) show ?case
  proof (cases b rule: loop_cases)
    case (dropped dg s)
    note d = loop_dropped [OF less.prems(1) dropped(1,4)]
    show ?thesis
      using less.hyps [of "b\<lparr>bd_inner := s\<rparr>"] dropped less.prems(2) d(1) by (simp add: d(2))
  next
    case (stopped p s)
    then have b': "p = Pending" "b' = b\<lparr>bd_inner := s\<rparr>" using less.prems(2) by auto
    show ?thesis
      unfolding b' by (subst (1 2) bounded_loop_step)
        (use receive_resumes [OF less.prems(1), of s e] stopped b' in \<open>simp add: bounded_arrive_def\<close>)
  qed
qed

lemma loop_stable:
  "good (bd_inner b) \<Longrightarrow> bounded_receive_loop budget receive b = Some (Ready r, b') \<Longrightarrow>
   bounded_receive_loop budget receive (bounded_arrive arrive e b) =
   Some (Ready r, bounded_arrive arrive e b')"
proof (induction "backlog (bd_inner b)" arbitrary: b rule: less_induct)
  case less
  from less.prems(1) show ?case
  proof (cases b rule: loop_cases)
    case (dropped dg s)
    note d = loop_dropped [OF less.prems(1) dropped(1,4)]
    show ?thesis
      using less.hyps [of "b\<lparr>bd_inner := s\<rparr>"] dropped less.prems(2) d(1) by (simp add: d(2))
  next
    case (stopped p s)
    then have b': "p = Ready r" "b' = b\<lparr>bd_inner := s\<rparr>" using less.prems(2) by auto
    have "good s" using good_receive [OF less.prems(1) stopped(1)] .
    then show ?thesis
      using receive_stable [OF less.prems(1) stopped(1) [unfolded b'(1)], of e] stopped(3) b'
      by (subst bounded_loop_step)
        (auto simp: bounded_arrive_def Let_def bounded_budget_def budget_arrive
          split: sum.splits)
  qed
qed

end

lemma bounded_send_good:
  assumes "datagram_transport budget send receive arrive good backlog" "good (bd_inner b)"
    and "bounded_send budget send w dg b = Some (r, b')"
  shows "good (bd_inner b')"
  using assms(2,3) datagram_transport.good_send [OF assms(1)]
  by (auto simp: bounded_send_def split: if_splits prod.splits)

lemma bounded_keeps:
  fixes budget :: "'s \<Rightarrow> destination \<Rightarrow> datagram_budget"
  assumes "datagram_transport budget send receive arrive good backlog"
  shows "datagram_transport (bounded_budget budget) (bounded_send budget send)
      (bounded_receive budget receive) (bounded_arrive arrive) (\<lambda>b. good (bd_inner b))
      (\<lambda>b. backlog (bd_inner b))"
proof
  fix b :: "'s bounded" and dg :: datagram and w
  assume "good (bd_inner b)"
    "unat (db_transmit (bounded_budget budget b (dg_remote dg))) < length (dg_payload dg)"
  then show "\<exists>e. bounded_send budget send w dg b = Some (Ready (Inl e), b)"
    by (simp add: bounded_send_def)
next
  fix b :: "'s bounded" and dg :: datagram and w
  assume "good (bd_inner b)"
  then show "bounded_send budget send w dg b \<noteq> None"
    using datagram_transport.send_returns [OF assms] by (simp add: bounded_send_def)
next
  fix b b' :: "'s bounded" and dg :: datagram
  assume *: "good (bd_inner b)" "bounded_receive budget receive b = Some (Ready (Inr dg), b')"
  note out = datagram_transport.loop_outcome [OF assms *(1)]
  show "length (dg_payload dg) \<le> unat (db_receive (bounded_budget budget b' (dg_remote dg)))"
    "backlog (bd_inner b') < backlog (bd_inner b)"
    using * out by (auto simp: bounded_receive_def split: if_splits)
next
  fix b b' :: "'s bounded" and p
  assume *: "good (bd_inner b)"
  note out = datagram_transport.loop_outcome [OF assms *]
  show "bounded_receive budget receive b \<noteq> None"
    using out by (auto simp: bounded_receive_def)
  show "bounded_receive budget receive b = Some (p, b') \<Longrightarrow> good (bd_inner b')"
    using * out by (auto simp: bounded_receive_def split: if_splits)
qed (use bounded_send_good [OF assms] datagram_transport.good_arrive [OF assms] in
    \<open>auto simp: bounded_arrive_def\<close>)

lemma bounded_resumable:
  fixes budget :: "'s \<Rightarrow> destination \<Rightarrow> datagram_budget"
  assumes "resumable_transport budget send receive arrive good backlog"
  shows "resumable_transport (bounded_budget budget) (bounded_send budget send)
      (bounded_receive budget receive) (bounded_arrive arrive) (\<lambda>b. good (bd_inner b))
      (\<lambda>b. backlog (bd_inner b))"
proof (intro resumable_transport.intro resumable_transport_axioms.intro)
  show "datagram_transport (bounded_budget budget) (bounded_send budget send)
      (bounded_receive budget receive) (bounded_arrive arrive) (\<lambda>b. good (bd_inner b))
      (\<lambda>b. backlog (bd_inner b))"
    using assms by (intro bounded_keeps) (rule resumable_transport.axioms(1))
next
  fix b b' :: "'s bounded" and e
  assume *: "good (bd_inner b)" "bounded_receive budget receive b = Some (Pending, b')"
  have "\<not> bd_closing b" using *(2) by (auto simp: bounded_receive_def split: if_splits)
  moreover from this have "bounded_receive_loop budget receive b = Some (Pending, b')"
    using *(2) by (simp add: bounded_receive_def)
  moreover from this have "bd_closing b' = bd_closing b"
    using datagram_transport.loop_outcome [OF resumable_transport.axioms(1) [OF assms] *(1)] by auto
  ultimately show "bounded_receive budget receive (bounded_arrive arrive e b') =
      bounded_receive budget receive (bounded_arrive arrive e b)"
    using resumable_transport.loop_resumes [OF assms *(1)]
    by (simp add: bounded_receive_def) (simp add: bounded_arrive_def)
next
  fix b b' :: "'s bounded" and e r
  assume *: "good (bd_inner b)" "bounded_receive budget receive b = Some (Ready r, b')"
  then show "bounded_receive budget receive (bounded_arrive arrive e b) =
      Some (Ready r, bounded_arrive arrive e b')"
    using resumable_transport.loop_stable [OF assms *(1)]
    by (auto simp: bounded_receive_def split: if_splits) (simp_all add: bounded_arrive_def)
next
  fix b :: "'s bounded" and e peer
  assume "good (bd_inner b)"
  then show "bounded_budget budget (bounded_arrive arrive e b) peer = bounded_budget budget b peer"
    using resumable_transport.budget_arrive [OF assms]
    by (simp add: bounded_budget_def bounded_arrive_def)
qed

text \<open>
  Claim C39. The bounding wrapper around a transport that keeps the contract keeps it too: a datagram
  above either budget is refused without reaching the transport, only datagrams within both budgets
  are delivered, \<^verbatim>\<open>receive\<close> always returns or waits, and the wrapped transport may be dropped
  while it waits when the transport below it may.
\<close>

theorem bounded_transport:
  assumes "datagram_transport budget send receive arrive good backlog"
  shows "datagram_transport (bounded_budget budget) (bounded_send budget send)
      (bounded_receive budget receive) (bounded_arrive arrive) (\<lambda>b. good (bd_inner b))
      (\<lambda>b. backlog (bd_inner b)) \<and>
    (resumable_transport budget send receive arrive good backlog \<longrightarrow>
     resumable_transport (bounded_budget budget) (bounded_send budget send)
      (bounded_receive budget receive) (bounded_arrive arrive) (\<lambda>b. good (bd_inner b))
      (\<lambda>b. backlog (bd_inner b))) \<and>
    (\<forall>b dg b'. good (bd_inner b) \<longrightarrow>
       bounded_receive budget receive b = Some (Ready (Inr dg), b') \<longrightarrow>
       length (dg_payload dg) \<le> unat (db_receive (bd_budget b)))"
proof (intro conjI impI allI)
  fix b dg b'
  assume "good (bd_inner b)" "bounded_receive budget receive b = Some (Ready (Inr dg), b')"
  then show "length (dg_payload dg) \<le> unat (db_receive (bd_budget b))"
    using datagram_transport.loop_outcome [OF assms]
    by (fastforce simp: bounded_receive_def bounded_budget_def split: if_splits)
qed (use assms bounded_keeps bounded_resumable in blast)+

end
