(* ===== verification/Proxy_Groups.thy ===== *)
theory Proxy_Groups
  imports Proxy_Graph Datagram_Transport
begin

text \<open>
  \<^verbatim>\<open>src/routing/proxy_group.rs\<close> and the registry \<^verbatim>\<open>ProxyDispatchers\<close> of \<^verbatim>\<open>src/routing/dispatcher.rs\<close>:
  the immutable graph of select groups with one replaceable member index per group. A dispatcher is
  a value of a type parameter. The shared atomic cells are an explicit store from addresses to
  indices, so that two groups could share a cell.
\<close>

datatype proxy_group_error = UnknownGroup | UnknownMember

record proxy_group_state =
  state_name :: bytes
  state_all :: "bytes list"
  state_now :: bytes

record select_proxy_group =
  spg_name :: bytes
  spg_members :: "group_member list"
  spg_selected :: nat

type_synonym selection_store = "nat \<Rightarrow> nat"

record 'd proxy_groups =
  pg_proxies :: "'d list"
  pg_direct :: 'd
  pg_reject :: 'd
  pg_groups :: "select_proxy_group list"
  pg_ids_by_name :: "bytes \<rightharpoonup> nat"

record 'd resolved_leaf =
  leaf_dispatcher :: 'd
  leaf_direct :: bool

fun check_members :: "nat \<Rightarrow> nat \<Rightarrow> nat \<Rightarrow> group_member list \<Rightarrow> dispatch_error + unit" where
  "check_members index proxy_count group_count [] = Inr ()"
| "check_members index proxy_count group_count (m # ms) =
     (case member_target m of
        MemberRoute (ProxyTarget k) \<Rightarrow>
          if proxy_count \<le> k then Inl (DispatchOther (GroupUnknownProxy index k))
          else check_members index proxy_count group_count ms
      | MemberRoute (GroupTarget k) \<Rightarrow>
          if group_count \<le> k then Inl (DispatchOther (GroupUnknownGroup index k))
          else check_members index proxy_count group_count ms
      | _ \<Rightarrow> check_members index proxy_count group_count ms)"

fun check_groups ::
  "nat \<Rightarrow> nat \<Rightarrow> nat \<Rightarrow> (bytes \<rightharpoonup> nat) \<Rightarrow> select_group_config list \<Rightarrow> dispatch_error + (bytes \<rightharpoonup> nat)" where
  "check_groups index proxy_count group_count ids [] = Inr ids"
| "check_groups index proxy_count group_count ids (config # rest) =
     (if sg_members config = [] \<or> length (sg_members config) \<le> sg_initial_member config
      then Inl (DispatchOther (InvalidGroupMembers index))
      else if ids (sg_name config) \<noteq> None then Inl (DispatchOther (DuplicateGroup index))
      else and_then (check_members index proxy_count group_count (sg_members config)) (\<lambda>_.
        check_groups (Suc index) proxy_count group_count (ids(sg_name config \<mapsto> index)) rest))"

definition with_selections ::
  "select_group_config list \<Rightarrow> 'd list \<Rightarrow> 'd \<Rightarrow> 'd \<Rightarrow> nat list \<Rightarrow> dispatch_error + 'd proxy_groups" where
  "with_selections configs proxies direct reject selections =
     (if length selections \<noteq> length configs then Inl (DispatchOther SelectionLengthMismatch)
      else and_then (check_groups 0 (length proxies) (length configs) Map.empty configs) (\<lambda>ids.
        Inr \<lparr>pg_proxies = proxies, pg_direct = direct, pg_reject = reject,
             pg_groups = map (\<lambda>(config, selection).
               \<lparr>spg_name = sg_name config, spg_members = sg_members config, spg_selected = selection\<rparr>)
               (zip configs selections),
             pg_ids_by_name = ids\<rparr>))"

text \<open>\<^verbatim>\<open>SelectProxyGroup::state\<close>; None is the panic of an index out of range.\<close>

definition group_state :: "selection_store \<Rightarrow> select_proxy_group \<Rightarrow> proxy_group_state option" where
  "group_state store g =
     map_option (\<lambda>m. \<lparr>state_name = spg_name g, state_all = map member_name (spg_members g), state_now = member_name m\<rparr>)
       (get_at (spg_members g) (store (spg_selected g)))"

definition list_states :: "selection_store \<Rightarrow> 'd proxy_groups \<Rightarrow> proxy_group_state option list" where
  "list_states store pg = map (group_state store) (pg_groups pg)"

definition groups_state ::
  "selection_store \<Rightarrow> 'd proxy_groups \<Rightarrow> bytes \<Rightarrow> proxy_group_error + proxy_group_state option" where
  "groups_state store pg name =
     and_then (ok_or UnknownGroup (pg_ids_by_name pg name)) (\<lambda>k. Inr (group_state store (pg_groups pg ! k)))"

definition groups_select ::
  "selection_store \<Rightarrow> 'd proxy_groups \<Rightarrow> bytes \<Rightarrow> bytes \<Rightarrow> proxy_group_error + selection_store" where
  "groups_select store pg name member =
     and_then (ok_or UnknownGroup (pg_ids_by_name pg name)) (\<lambda>k.
       let g = pg_groups pg ! k in
       and_then (ok_or UnknownMember (position (\<lambda>c. member_name c = member) (spg_members g))) (\<lambda>selected.
         Inr (store(spg_selected g := selected))))"

text \<open>The hop loop of \<^verbatim>\<open>resolve_leaf\<close>: the first argument counts the remaining rounds.\<close>

fun resolve_hops :: "nat \<Rightarrow> selection_store \<Rightarrow> 'd proxy_groups \<Rightarrow> nat \<Rightarrow> dispatch_error + 'd resolved_leaf" where
  "resolve_hops 0 store pg group_id = Inl (DispatchOther HopCeiling)"
| "resolve_hops (Suc hops) store pg group_id =
     and_then (ok_or (DispatchOther (UnknownGroupId group_id)) (get_at (pg_groups pg) group_id)) (\<lambda>g.
       let selected = store (spg_selected g) in
       and_then (ok_or (DispatchOther (InvalidSelected group_id selected)) (get_at (spg_members g) selected)) (\<lambda>m.
         case member_target m of
           MemberRoute (ProxyTarget k) \<Rightarrow>
             ok_or (DispatchOther (UnknownProxyId k))
               (map_option (\<lambda>d. \<lparr>leaf_dispatcher = d, leaf_direct = False\<rparr>) (get_at (pg_proxies pg) k))
         | MemberRoute (GroupTarget k) \<Rightarrow> resolve_hops hops store pg k
         | MemberDirect \<Rightarrow> Inr \<lparr>leaf_dispatcher = pg_direct pg, leaf_direct = True\<rparr>
         | MemberReject \<Rightarrow> Inr \<lparr>leaf_dispatcher = pg_reject pg, leaf_direct = False\<rparr>))"

definition resolve_leaf :: "selection_store \<Rightarrow> 'd proxy_groups \<Rightarrow> nat \<Rightarrow> dispatch_error + 'd resolved_leaf" where
  "resolve_leaf store pg group_id = resolve_hops (Suc (length (pg_groups pg))) store pg group_id"

text \<open>\<^verbatim>\<open>ProxyDispatchers\<close>: nodes and, when there are groups, the group graph.\<close>

record 'd proxy_dispatchers =
  pd_proxies :: "'d list"
  pd_groups :: "'d proxy_groups option"

definition proxy_dispatchers_new :: "'d list \<Rightarrow> dispatch_error + 'd proxy_dispatchers" where
  "proxy_dispatchers_new proxies =
     (if proxies = [] then Inl (DispatchOther EmptyRegistry) else Inr \<lparr>pd_proxies = proxies, pd_groups = None\<rparr>)"

definition with_proxy_groups :: "'d list \<Rightarrow> 'd proxy_groups \<Rightarrow> dispatch_error + 'd proxy_dispatchers" where
  "with_proxy_groups proxies pg =
     and_then (proxy_dispatchers_new proxies) (\<lambda>registry. Inr (registry\<lparr>pd_groups := Some pg\<rparr>))"

definition dispatchers_resolve ::
  "selection_store \<Rightarrow> 'd proxy_dispatchers \<Rightarrow> route_target_id \<Rightarrow> dispatch_error + 'd resolved_leaf" where
  "dispatchers_resolve store registry target =
     (case target of
        ProxyTarget k \<Rightarrow>
          ok_or (DispatchOther (UnknownProxyId k))
            (map_option (\<lambda>d. \<lparr>leaf_dispatcher = d, leaf_direct = False\<rparr>) (get_at (pd_proxies registry) k))
      | GroupTarget k \<Rightarrow>
          and_then (ok_or (DispatchOther (UnknownGroupId k)) (pd_groups registry)) (\<lambda>pg. resolve_leaf store pg k))"

section \<open>Well-formed graphs and selections\<close>

definition targets_in_range :: "nat \<Rightarrow> nat \<Rightarrow> group_member list \<Rightarrow> bool" where
  "targets_in_range proxy_count group_count ms \<longleftrightarrow>
     (\<forall>m \<in> set ms. case member_target m of
        MemberRoute (ProxyTarget k) \<Rightarrow> k < proxy_count
      | MemberRoute (GroupTarget k) \<Rightarrow> k < group_count
      | _ \<Rightarrow> True)"

definition pg_wf :: "'d proxy_groups \<Rightarrow> bool" where
  "pg_wf pg \<longleftrightarrow>
     (\<forall>name k. pg_ids_by_name pg name = Some k \<longleftrightarrow> k < length (pg_groups pg) \<and> spg_name (pg_groups pg ! k) = name) \<and>
     (\<forall>g \<in> set (pg_groups pg). targets_in_range (length (pg_proxies pg)) (length (pg_groups pg)) (spg_members g)) \<and>
     distinct (map spg_selected (pg_groups pg))"

definition store_valid :: "selection_store \<Rightarrow> 'd proxy_groups \<Rightarrow> bool" where
  "store_valid store pg \<longleftrightarrow> (\<forall>g \<in> set (pg_groups pg). store (spg_selected g) < length (spg_members g))"

lemma check_members_Inr [res_simps]:
  "check_members index p g ms = Inr u \<longleftrightarrow> targets_in_range p g ms"
  by (induction ms) (auto simp: targets_in_range_def split: member_target.splits route_target_id.splits)

lemma check_groups_Inr:
  assumes "check_groups index p g ids configs = Inr ids'"
  shows "(\<forall>config \<in> set configs. sg_initial_member config < length (sg_members config) \<and>
           targets_in_range p g (sg_members config)) \<and>
         (\<forall>name k. ids' name = Some k \<longleftrightarrow>
            (ids name = Some k \<or> (\<exists>i < length configs. k = index + i \<and> sg_name (configs ! i) = name)))"
  using assms
proof (induction configs arbitrary: index ids)
  case (Cons config rest)
  have "sg_initial_member config < length (sg_members config)" "ids (sg_name config) = None"
    "targets_in_range p g (sg_members config)"
    and rest: "check_groups (Suc index) p g (ids(sg_name config \<mapsto> index)) rest = Inr ids'"
    using Cons.prems by (auto simp: res_simps split: if_splits)
  then show ?case
    using Cons.IH [OF rest] by (auto simp: Ex_less_Suc2)
qed simp

lemma with_selections_Inr:
  assumes "with_selections configs proxies direct reject selections = Inr pg"
  shows "pg_groups pg = map (\<lambda>(config, selection).
      \<lparr>spg_name = sg_name config, spg_members = sg_members config, spg_selected = selection\<rparr>) (zip configs selections)"
    "length selections = length configs" "pg_proxies pg = proxies" "length (pg_groups pg) = length configs"
    "\<And>i. i < length configs \<Longrightarrow> pg_groups pg ! i = \<lparr>spg_name = sg_name (configs ! i),
       spg_members = sg_members (configs ! i), spg_selected = selections ! i\<rparr>"
    "check_groups 0 (length proxies) (length configs) Map.empty configs = Inr (pg_ids_by_name pg)"
  using assms by (auto simp: with_selections_def res_simps split: if_splits)

lemma with_selections_wf:
  assumes w: "with_selections configs proxies direct reject selections = Inr pg" and "distinct selections"
  shows "pg_wf pg"
proof -
  note f = with_selections_Inr [OF w]
  note c = check_groups_Inr [OF f(6)]
  have "map spg_selected (pg_groups pg) = selections"
    using f by (intro nth_equalityI) simp_all
  moreover have "targets_in_range (length (pg_proxies pg)) (length (pg_groups pg)) (spg_members g)"
    if g: "g \<in> set (pg_groups pg)" for g
  proof -
    obtain i where "i < length configs" "g = pg_groups pg ! i"
      using g f(4) by (metis in_set_conv_nth)
    then show ?thesis
      using c f(3,4,5) by simp
  qed
  moreover have "pg_ids_by_name pg name = Some k \<longleftrightarrow> k < length (pg_groups pg) \<and> spg_name (pg_groups pg ! k) = name"
    for name k
    using c f(4,5) by auto
  ultimately show ?thesis
    using assms(2) unfolding pg_wf_def by simp
qed

lemma with_selections_store:
  assumes w: "with_selections configs proxies direct reject selections = Inr pg"
    and "\<forall>i < length configs. store (selections ! i) = sg_initial_member (configs ! i)"
  shows "store_valid store pg"
  unfolding store_valid_def
proof
  note f = with_selections_Inr [OF w]
  fix g assume "g \<in> set (pg_groups pg)"
  then obtain i where "i < length configs" "g = pg_groups pg ! i"
    using f(4) by (metis in_set_conv_nth)
  then show "store (spg_selected g) < length (spg_members g)"
    using f(5) assms(2) check_groups_Inr [OF f(6)] by simp
qed

lemma ok_or_Inl [res_simps]: "ok_or e v = Inl e' \<longleftrightarrow> v = None \<and> e = e'"
  by (auto simp: ok_or_def split: option.splits)

lemma groups_select_Inr:
  assumes "pg_wf pg" "groups_select store pg name member = Inr store'"
  obtains k i where "pg_ids_by_name pg name = Some k" "k < length (pg_groups pg)"
    "i < length (spg_members (pg_groups pg ! k))" "member_name (spg_members (pg_groups pg ! k) ! i) = member"
    "store' = store(spg_selected (pg_groups pg ! k) := i)"
  using assms by (auto simp: groups_select_def Let_def res_simps pg_wf_def dest!: position_Some)

lemma groups_state_eq:
  "groups_state store pg name =
     (case pg_ids_by_name pg name of None \<Rightarrow> Inl UnknownGroup | Some k \<Rightarrow> Inr (group_state store (pg_groups pg ! k)))"
  by (simp add: groups_state_def ok_or_def split: option.splits)

lemma store_valid_update:
  assumes "store_valid store pg" "distinct (map spg_selected (pg_groups pg))" "k < length (pg_groups pg)"
    and "i < length (spg_members (pg_groups pg ! k))"
  shows "store_valid (store(spg_selected (pg_groups pg ! k) := i)) pg"
  unfolding store_valid_def
proof
  fix g assume "g \<in> set (pg_groups pg)"
  then obtain j where j: "j < length (pg_groups pg)" "g = pg_groups pg ! j"
    by (metis in_set_conv_nth)
  then have "spg_selected g = spg_selected (pg_groups pg ! k) \<Longrightarrow> j = k"
    using assms(2,3) by (auto simp: distinct_conv_nth)
  then show "(store(spg_selected (pg_groups pg ! k) := i)) (spg_selected g) < length (spg_members g)"
    using assms j by (auto simp: store_valid_def)
qed

lemma group_state_other:
  assumes "distinct (map spg_selected (pg_groups pg))" "k < length (pg_groups pg)" "j < length (pg_groups pg)" "j \<noteq> k"
  shows "group_state (store(spg_selected (pg_groups pg ! k) := i)) (pg_groups pg ! j) =
         group_state store (pg_groups pg ! j)"
proof -
  have "spg_selected (pg_groups pg ! j) \<noteq> spg_selected (pg_groups pg ! k)"
    using assms by (auto simp: distinct_conv_nth)
  then show ?thesis by (simp add: group_state_def)
qed

section \<open>The hop loop\<close>

lemma resolve_hops_ranked:
  assumes wf: "pg_wf pg" and valid: "store_valid store pg"
    and desc: "\<And>g m k. g < length (pg_groups pg) \<Longrightarrow> m \<in> set (spg_members (pg_groups pg ! g)) \<Longrightarrow>
       member_target m = MemberRoute (GroupTarget k) \<Longrightarrow> (rank k :: nat) < rank g"
  shows "g < length (pg_groups pg) \<Longrightarrow> card {h. h < length (pg_groups pg) \<and> rank h < rank g} < hops \<Longrightarrow>
         \<exists>leaf. resolve_hops hops store pg g = Inr leaf"
proof (induction hops arbitrary: g)
  case (Suc hops)
  let ?below = "\<lambda>g. {h. h < length (pg_groups pg) \<and> rank h < rank g}"
  let ?g = "pg_groups pg ! g"
  let ?m = "spg_members ?g ! store (spg_selected ?g)"
  have sel: "store (spg_selected ?g) < length (spg_members ?g)"
    using valid Suc.prems(1) by (simp add: store_valid_def)
  then have m: "?m \<in> set (spg_members ?g)"
    by simp
  have range: "targets_in_range (length (pg_proxies pg)) (length (pg_groups pg)) (spg_members ?g)"
    using wf Suc.prems(1) by (simp add: pg_wf_def)
  have next_hop: "\<exists>leaf. resolve_hops hops store pg k = Inr leaf" if k: "member_target ?m = MemberRoute (GroupTarget k)" for k
  proof (rule Suc.IH)
    show kl: "k < length (pg_groups pg)"
      using range m k by (auto simp: targets_in_range_def split: member_target.splits route_target_id.splits)
    have "rank k < rank g"
      using desc [OF Suc.prems(1) m k] .
    then have "?below k \<subset> ?below g"
      using kl by (auto intro: less_trans)
    then have "card (?below k) < card (?below g)"
      by (intro psubset_card_mono) auto
    then show "card (?below k) < hops"
      using Suc.prems(2) by simp
  qed
  have "k < length (pg_proxies pg)" if "member_target ?m = MemberRoute (ProxyTarget k)" for k
    using range m that by (auto simp: targets_in_range_def split: member_target.splits route_target_id.splits)
  then show ?case
    using Suc.prems(1) sel next_hop
    by (simp add: get_at_def ok_or_def Let_def split: member_target.split route_target_id.split)
qed simp

section \<open>Claims\<close>

text \<open>
  Claim C12. Selecting a member replaces exactly that group's selection. On a graph built with one cell
  per group, every group name keeps naming its group, every selection stays a member of its group, the
  selected group then reports the chosen member, every other group reports what it did before, and the
  two errors are exactly an unknown group and a name that is not a member.
\<close>

theorem select_replaces_one:
  assumes "with_selections configs proxies direct reject selections = Inr pg" "distinct selections"
    and "store_valid store pg"
  shows "case groups_select store pg name member of
      Inl UnknownGroup \<Rightarrow> name \<notin> sg_name ` set configs
    | Inl UnknownMember \<Rightarrow> \<exists>config \<in> set configs. sg_name config = name \<and> member \<notin> member_name ` set (sg_members config)
    | Inr store' \<Rightarrow> store_valid store' pg \<and>
        (\<exists>state. groups_state store' pg name = Inr (Some state) \<and> state_name state = name \<and> state_now state = member) \<and>
        (\<forall>other. other \<noteq> name \<longrightarrow> groups_state store' pg other = groups_state store pg other)"
proof -
  have wf: "pg_wf pg" using with_selections_wf [OF assms(1,2)] .
  note f = with_selections_Inr [OF assms(1)]
  have ids: "pg_ids_by_name pg n = Some k \<longleftrightarrow> k < length configs \<and> sg_name (configs ! k) = n" for n k
    using wf f(4,5) by (auto simp: pg_wf_def)
  show ?thesis
  proof (cases "groups_select store pg name member")
    case (Inl e)
    show ?thesis
    proof (cases "pg_ids_by_name pg name")
      case None
      then have "name \<notin> sg_name ` set configs"
        using ids [of name] unfolding image_iff Bex_def in_set_conv_nth by (metis option.distinct(1))
      with None Inl show ?thesis by (auto simp: groups_select_def ok_or_def)
    next
      case (Some k)
      then have k: "k < length configs" "sg_name (configs ! k) = name"
        using ids by auto
      then have "e = UnknownMember" "position (\<lambda>c. member_name c = member) (sg_members (configs ! k)) = None"
        using Inl Some f(5) by (auto simp: groups_select_def ok_or_def Let_def split: option.splits)
      with Inl k show ?thesis
        by (auto simp: position_None intro!: bexI [of _ "configs ! k"])
    qed
  next
    case (Inr store')
    then obtain k i where s: "pg_ids_by_name pg name = Some k" "k < length (pg_groups pg)"
      "i < length (spg_members (pg_groups pg ! k))" "member_name (spg_members (pg_groups pg ! k) ! i) = member"
      "store' = store(spg_selected (pg_groups pg ! k) := i)"
      using groups_select_Inr [OF wf] by blast
    have dist: "distinct (map spg_selected (pg_groups pg))"
      using wf by (simp add: pg_wf_def)
    have "groups_state store' pg other = groups_state store pg other" if "other \<noteq> name" for other
    proof (cases "pg_ids_by_name pg other")
      case (Some j)
      have "j < length (pg_groups pg)" "j \<noteq> k"
        using wf that s(1) Some unfolding pg_wf_def by (blast, metis)
      then show ?thesis
        using Some group_state_other [OF dist s(2)] by (simp add: groups_state_eq s(5))
    qed (simp add: groups_state_eq)
    moreover have "group_state store' (pg_groups pg ! k) =
        Some \<lparr>state_name = name, state_all = map member_name (spg_members (pg_groups pg ! k)), state_now = member\<rparr>"
      using s wf by (simp add: group_state_def get_at_def pg_wf_def)
    ultimately show ?thesis
      using Inr s store_valid_update [OF assms(3) dist s(2,3)] by (auto simp: groups_state_eq)
  qed
qed

definition sample_groups :: "select_group_config list" where
  "sample_groups =
     [\<lparr>sg_name = str ''auto'', sg_members =
         [\<lparr>member_name = str ''node'', member_target = MemberRoute (ProxyTarget 0)\<rparr>,
          \<lparr>member_name = str ''DIRECT'', member_target = MemberDirect\<rparr>], sg_initial_member = 0\<rparr>,
      \<lparr>sg_name = str ''top'', sg_members =
         [\<lparr>member_name = str ''auto'', member_target = MemberRoute (GroupTarget 0)\<rparr>], sg_initial_member = 0\<rparr>]"

definition sample_pg :: "nat proxy_groups" where
  "sample_pg = projr (with_selections sample_groups [7] 1 2 [100, 101])"

lemma sample_pg: "with_selections sample_groups [7] 1 2 [100, 101] = Inr sample_pg"
  unfolding sample_pg_def sample_groups_def by (simp add: with_selections_def str_def)

lemma sample_store: "store_valid (\<lambda>_. 0) sample_pg"
  by (rule with_selections_store [OF sample_pg]) (auto simp: sample_groups_def less_Suc_eq)

theorem select_replaces_one_witness:
  "case groups_select (\<lambda>_. 0) sample_pg (str ''auto'') (str ''nowhere'') of
     Inl UnknownMember \<Rightarrow> True | _ \<Rightarrow> False"
proof -
  have "groups_select (\<lambda>_. 0) sample_pg (str ''auto'') (str ''nowhere'') \<noteq> Inl UnknownGroup"
    using select_replaces_one [OF sample_pg _ sample_store, of "str ''auto''" "str ''nowhere''"]
    by (auto simp: sample_groups_def)
  moreover have "groups_select (\<lambda>_. 0) sample_pg (str ''auto'') (str ''nowhere'') \<noteq> Inr store" for store
    using select_replaces_one [OF sample_pg _ sample_store, of "str ''auto''" "str ''nowhere''"]
    by (auto simp: groups_select_def sample_pg_def sample_groups_def with_selections_def str_def Let_def ok_or_def)
  ultimately show ?thesis
    by (auto split: sum.splits proxy_group_error.splits)
qed

text \<open>
  Claim C28. A group always resolves to a leaf. If the configuration's graph was accepted by
  \<^verbatim>\<open>proxy_graph_order\<close> and the runtime graph was built from the same groups with the configured
  number of nodes, then under every selection of members each group resolves to a node, to DIRECT or to
  REJECT: the hop ceiling of \<^verbatim>\<open>resolve_leaf\<close> is never reached, nor is any other error.
\<close>

theorem resolve_leaf_total:
  assumes "proxy_graph_order configs groups = Inr order"
    and "with_selections groups proxies direct reject selections = Inr pg" "distinct selections"
    and "length proxies = length configs" "store_valid store pg" "k < length groups"
  shows "\<exists>leaf. resolve_leaf store pg k = Inr leaf"
proof -
  obtain rank where rank: "ranks configs groups rank"
    using proxy_graph_order_ranked [OF assms(1)] .
  note f = with_selections_Inr [OF assms(2)]
  have "rank (GroupTarget j) < rank (GroupTarget g)"
    if "g < length (pg_groups pg)" "m \<in> set (spg_members (pg_groups pg ! g))"
      "member_target m = MemberRoute (GroupTarget j)" for g m j
    using rank that f(4,5) by (force simp: ranks_def target_exists_def target_dependencies_def)
  moreover have "card {h. h < length (pg_groups pg) \<and> rank (GroupTarget h) < rank (GroupTarget k)} <
      Suc (length (pg_groups pg))"
    using card_mono [of "{..<length (pg_groups pg)}" "{h. h < length (pg_groups pg) \<and> rank (GroupTarget h) < rank (GroupTarget k)}"]
    by (auto simp: less_Suc_eq_le)
  ultimately show ?thesis
    unfolding resolve_leaf_def
    using resolve_hops_ranked [OF with_selections_wf [OF assms(2,3)] assms(5), of "\<lambda>h. rank (GroupTarget h)" k]
      assms(6) f(4) by (simp del: resolve_hops.simps)
qed

theorem resolve_leaf_total_witness: "\<exists>leaf. resolve_leaf (\<lambda>_. 0) sample_pg 1 = Inr leaf"
proof -
  have "proxy_graph_order [\<lparr>proxy_tag = str ''node'', dialer_proxy = None\<rparr>] sample_groups =
      Inr [ProxyTarget 0, GroupTarget 0, GroupTarget 1]"
    by code_simp
  from resolve_leaf_total [OF this sample_pg _ _ sample_store] show ?thesis
    by (simp add: sample_groups_def)
qed

end
