(* ===== verification/Routing_Dispatch.thy ===== *)
theory Routing_Dispatch
  imports Proxy_Groups
begin

text \<open>
  \<^verbatim>\<open>src/routing/dispatcher.rs\<close>: the routing decision for one destination, the plan of a TCP
  connection, and the UDP association with its pinned flows and its lazily opened transports.
  Runtime DNS is a pair of functions; every resolution it performs is recorded in a log. Opening a
  transport and sending on it are answered by a backend argument, and recorded as effects.
\<close>

section \<open>The decision\<close>

record routing_dns =
  dns_resolve :: "bytes \<Rightarrow> ip_addr list option"
  dns_domain_hint :: "ip_addr \<Rightarrow> bytes option"

record tun_config =
  tun_dns_hijack :: "socket_addr list"
  tun_udp_timeout :: nat

record 'd routing_dispatcher =
  rd_targets :: "'d proxy_dispatchers"
  rd_store :: selection_store
  rd_direct :: 'd
  rd_dns :: "routing_dns option"
  rd_ipv6 :: bool
  rd_rules :: rule_set
  rd_geo :: geo_matcher
  rd_idna :: "bytes \<Rightarrow> bytes option"
  rd_tun :: tun_config

record route_decision =
  rdec_action :: rule_action
  rdec_destination :: destination
  rdec_resolved :: "ip_addr list option"

fun ip_unspecified :: "ip_addr \<Rightarrow> bool" where
  "ip_unspecified (IpV4 ip) = (ip = 0)"
| "ip_unspecified (IpV6 ip) = (ip = 0)"

definition hijacks_dns :: "tun_config \<Rightarrow> socket_addr \<Rightarrow> bool" where
  "hijacks_dns tun destination =
     list_ex (\<lambda>target. target = destination \<or> (ip_unspecified (socket_ip target) \<and> socket_port destination = 53))
       (tun_dns_hijack tun)"

fun dest_is_ipv6 :: "destination \<Rightarrow> bool" where
  "dest_is_ipv6 (DestIp address) = (\<not> is_ipv4 (socket_ip address))"
| "dest_is_ipv6 (DestDomain host port) = False"

fun dest_is_ip :: "destination \<Rightarrow> bool" where
  "dest_is_ip (DestIp address) = True"
| "dest_is_ip (DestDomain host port) = False"

definition ensure_destination_allowed :: "'d routing_dispatcher \<Rightarrow> destination \<Rightarrow> dispatch_error + unit" where
  "ensure_destination_allowed rd destination =
     (if \<not> rd_ipv6 rd \<and> dest_is_ipv6 destination then Inl NetworkUnreachable else Inr ())"

definition resolve_addresses :: "'d routing_dispatcher \<Rightarrow> routing_dns \<Rightarrow> bytes \<Rightarrow> ip_addr list" where
  "resolve_addresses rd dns host =
     (let addresses = unwrap_or (dns_resolve dns host) [] in
      if rd_ipv6 rd then addresses else filter is_ipv4 addresses)"

definition preferred_address :: "ip_addr list \<Rightarrow> ip_addr option" where
  "preferred_address addresses =
     (case find is_ipv4 addresses of Some a \<Rightarrow> Some a | None \<Rightarrow> find (\<lambda>a. \<not> is_ipv4 a) addresses)"

text \<open>The first component is the log of the names resolved.\<close>

definition resolve_direct_destination ::
  "'d routing_dispatcher \<Rightarrow> route_decision \<Rightarrow> bytes list \<times> (dispatch_error + route_decision)" where
  "resolve_direct_destination rd decision =
     (case rdec_destination decision of
        DestIp address \<Rightarrow> ([], Inr decision)
      | DestDomain host port \<Rightarrow>
          let (log, addresses) =
                (case rdec_resolved decision of
                   Some addresses \<Rightarrow> ([], addresses)
                 | None \<Rightarrow> (case rd_dns rd of
                              Some dns \<Rightarrow> ([host], resolve_addresses rd dns host)
                            | None \<Rightarrow> ([], []))) in
          (log, and_then (ok_or HostUnreachable (preferred_address addresses)) (\<lambda>address.
             Inr (decision\<lparr>rdec_destination := DestIp (socket_new address port), rdec_resolved := Some addresses\<rparr>))))"

definition decide_rules ::
  "'d routing_dispatcher \<Rightarrow> destination \<Rightarrow> routing_context \<Rightarrow>
   bytes list \<times> routing_context \<times> ip_addr list option \<times> rule_evaluation" where
  "decide_rules rd destination ctx =
     (case evaluate_with_geo (rd_rules rd) ctx (rd_geo rd) of
        NeedsIpResolution i \<Rightarrow>
          let (log, addresses) =
                (case (destination, rd_dns rd) of
                   (DestDomain host port, Some dns) \<Rightarrow>
                     (let name = unwrap_or (normalized_domain ctx) host in ([name], resolve_addresses rd dns name))
                 | _ \<Rightarrow> ([], []));
              (ctx', evaluation) = evaluate_with_resolved_ips (rd_rules rd) ctx (rd_geo rd) i addresses in
          (log, ctx', Some addresses, evaluation)
      | evaluation \<Rightarrow> ([], ctx, None, evaluation))"

definition route_hint :: "'d routing_dispatcher \<Rightarrow> inbound_kind \<Rightarrow> destination \<Rightarrow> bytes option \<Rightarrow> bytes option" where
  "route_hint rd inbound destination sniffed_domain =
     (let accepts = (inbound = Tun \<and> uses_domain_routing (rd_rules rd));
          sniffed = (if accepts then sniffed_domain else None);
          dns_hint = (case (accepts, destination, rd_dns rd, sniffed) of
                        (True, DestIp address, Some dns, None) \<Rightarrow> dns_domain_hint dns (socket_ip address)
                      | _ \<Rightarrow> None) in
      case sniffed of Some domain \<Rightarrow> Some domain | None \<Rightarrow> dns_hint)"

text \<open>The tail of \<^verbatim>\<open>route\<close>, after the match. A domain destination always has a normalised domain in its
  context, so \<^verbatim>\<open>unwrap_or\<close> stands for the \<^verbatim>\<open>expect\<close> of the source.\<close>

definition finish_decision ::
  "'d routing_dispatcher \<Rightarrow> destination \<Rightarrow> bytes list \<Rightarrow> routing_context \<Rightarrow> ip_addr list option \<Rightarrow> rule_match \<Rightarrow>
   bytes list \<times> (dispatch_error + route_decision)" where
  "finish_decision rd destination log ctx resolved m =
     (let routed =
            (case destination of
               DestDomain host port \<Rightarrow> DestDomain (unwrap_or (normalized_domain ctx) host) port
             | DestIp address \<Rightarrow> destination);
          decision = \<lparr>rdec_action = match_action m,
                      rdec_destination =
                        (case pinned_ip ctx of
                           None \<Rightarrow> routed
                         | Some address \<Rightarrow> DestIp (socket_new address (destination_port destination))),
                      rdec_resolved = resolved\<rparr> in
      if match_action m = RuleDirect then
        let (log', result) = resolve_direct_destination rd decision in (log @ log', result)
      else (log, Inr decision))"

definition route ::
  "'d routing_dispatcher \<Rightarrow> network \<Rightarrow> inbound_kind \<Rightarrow> destination \<Rightarrow> bytes option \<Rightarrow>
   bytes list \<times> (dispatch_error + route_decision)" where
  "route rd network inbound destination sniffed_domain =
     (case ensure_destination_allowed rd destination of
        Inl e \<Rightarrow> ([], Inl e)
      | Inr _ \<Rightarrow>
          (case with_domain_hint (rd_idna rd) network destination (route_hint rd inbound destination sniffed_domain) of
             Inl _ \<Rightarrow> ([], Inl HostUnreachable)
           | Inr ctx0 \<Rightarrow>
               let (log, ctx, resolved, evaluation) = decide_rules rd destination ctx0 in
               (case evaluation of
                  Matched m \<Rightarrow> finish_decision rd destination log ctx resolved m
                | _ \<Rightarrow> (log, Inl (DispatchOther NoFinalAction)))))"

section \<open>TCP\<close>

record stream_session =
  ss_inbound :: inbound_kind
  ss_source :: socket_addr
  ss_destination :: destination
  ss_sniffed_domain :: "bytes option"

text \<open>What \<^verbatim>\<open>connect_tcp\<close> ends in: the local DNS stream, or a dispatcher with the session it is given.\<close>

datatype 'd tcp_plan = ServeDns routing_dns | ConnectVia 'd stream_session

fun dest_hijacked :: "tun_config \<Rightarrow> destination \<Rightarrow> bool" where
  "dest_hijacked tun (DestIp address) = hijacks_dns tun address"
| "dest_hijacked tun (DestDomain host port) = False"

text \<open>The part of \<^verbatim>\<open>connect_tcp\<close> after the decision.\<close>

definition connect_routed ::
  "'d routing_dispatcher \<Rightarrow> stream_session \<Rightarrow> bytes list \<Rightarrow> route_decision \<Rightarrow>
   bytes list \<times> (dispatch_error + 'd tcp_plan)" where
  "connect_routed rd session log decision =
     (case rdec_action decision of
        RuleRoute target \<Rightarrow>
          (case dispatchers_resolve (rd_store rd) (rd_targets rd) target of
             Inl e \<Rightarrow> (log, Inl e)
           | Inr leaf \<Rightarrow>
               let (log', final) =
                     (if leaf_direct leaf then resolve_direct_destination rd decision else ([], Inr decision)) in
               (log @ log', and_then final (\<lambda>decision.
                  Inr (ConnectVia (leaf_dispatcher leaf)
                    (session\<lparr>ss_destination := rdec_destination decision, ss_sniffed_domain := None\<rparr>)))))
      | RuleDirect \<Rightarrow>
          (log, Inr (ConnectVia (rd_direct rd)
             (session\<lparr>ss_destination := rdec_destination decision, ss_sniffed_domain := None\<rparr>)))
      | RuleReject \<Rightarrow> (log, Inl NotAllowed))"

definition connect_tcp ::
  "'d routing_dispatcher \<Rightarrow> stream_session \<Rightarrow> bytes list \<times> (dispatch_error + 'd tcp_plan)" where
  "connect_tcp rd session =
     (case ensure_destination_allowed rd (ss_destination session) of
        Inl e \<Rightarrow> ([], Inl e)
      | Inr _ \<Rightarrow>
        (case (ss_inbound session = Tun \<and> dest_hijacked (rd_tun rd) (ss_destination session), rd_dns rd) of
           (True, Some dns) \<Rightarrow> ([], Inr (ServeDns dns))
         | _ \<Rightarrow>
           (case route rd Tcp (ss_inbound session) (ss_destination session) (ss_sniffed_domain session) of
              (log, Inl e) \<Rightarrow> (log, Inl e)
            | (log, Inr decision) \<Rightarrow> connect_routed rd session log decision)))"

section \<open>UDP flows\<close>

record datagram_route =
  dr_action :: rule_action
  dr_last_used :: nat
  dr_flow_id :: "bytes option"

record datagram_routes =
  flow_entries :: "socket_addr \<rightharpoonup> datagram_route"
  flow_next_cleanup :: nat
  flow_idle_timeout :: nat

definition UDP_FLOW_CLEANUP_INTERVAL :: nat where "UDP_FLOW_CLEANUP_INTERVAL = 10 * 1000000000"

definition flows_new :: "nat \<Rightarrow> nat \<Rightarrow> datagram_routes" where
  "flows_new now idle_timeout =
     \<lparr>flow_entries = Map.empty, flow_next_cleanup = now + UDP_FLOW_CLEANUP_INTERVAL, flow_idle_timeout = idle_timeout\<rparr>"

definition retain_entries :: "('v \<Rightarrow> bool) \<Rightarrow> ('k \<rightharpoonup> 'v) \<Rightarrow> ('k \<rightharpoonup> 'v)" where
  "retain_entries keep m = (\<lambda>k. case m k of Some v \<Rightarrow> if keep v then Some v else None | None \<Rightarrow> None)"

definition flows_expire :: "nat \<Rightarrow> datagram_routes \<Rightarrow> datagram_routes" where
  "flows_expire now flows =
     (if now < flow_next_cleanup flows then flows
      else flows\<lparr>flow_next_cleanup := now + UDP_FLOW_CLEANUP_INTERVAL,
                 flow_entries := retain_entries (\<lambda>r. now - dr_last_used r < flow_idle_timeout flows) (flow_entries flows)\<rparr>)"

definition flows_action :: "socket_addr \<Rightarrow> nat \<Rightarrow> datagram_routes \<Rightarrow> rule_action option \<times> datagram_routes" where
  "flows_action destination now flows0 =
     (let flows = flows_expire now flows0 in
      case flow_entries flows destination of
        None \<Rightarrow> (None, flows)
      | Some r \<Rightarrow>
          if flow_idle_timeout flows \<le> now - dr_last_used r
          then (None, flows\<lparr>flow_entries := (flow_entries flows)(destination := None)\<rparr>)
          else (Some (dr_action r),
                flows\<lparr>flow_entries := (flow_entries flows)(destination \<mapsto> r\<lparr>dr_last_used := now\<rparr>)\<rparr>))"

definition flows_observe_response :: "socket_addr \<Rightarrow> nat \<Rightarrow> datagram_routes \<Rightarrow> datagram_routes" where
  "flows_observe_response destination now flows0 =
     (let flows = flows_expire now flows0 in
      case flow_entries flows destination of
        None \<Rightarrow> flows
      | Some r \<Rightarrow>
          if now - dr_last_used r < flow_idle_timeout flows
          then flows\<lparr>flow_entries := (flow_entries flows)(destination \<mapsto> r\<lparr>dr_last_used := now\<rparr>)\<rparr>
          else flows\<lparr>flow_entries := (flow_entries flows)(destination := None)\<rparr>)"

section \<open>The UDP association\<close>

record routed_transport =
  rt_session :: datagram_session
  rt_routes :: "route_target_id \<rightharpoonup> bool"
  rt_direct_open :: bool
  rt_flows :: datagram_routes
  rt_logged :: "rule_action list"

text \<open>The cached transports are named by their route target, None for the direct one.\<close>

datatype 'd udp_effect =
  OpenTransport "route_target_id option" 'd
| SendOn "route_target_id option" datagram

record 'd udp_backend =
  be_open :: "'d \<Rightarrow> dispatch_error option"
  be_send :: "route_target_id option \<Rightarrow> datagram \<Rightarrow> dispatch_error option"

type_synonym 'd udp_result = "routed_transport \<times> bytes list \<times> 'd udp_effect list \<times> (dispatch_error + unit)"

definition open_datagram :: "'d routing_dispatcher \<Rightarrow> nat \<Rightarrow> datagram_session \<Rightarrow> routed_transport" where
  "open_datagram rd now session =
     \<lparr>rt_session = session, rt_routes = Map.empty, rt_direct_open = False,
      rt_flows = flows_new now (tun_udp_timeout (rd_tun rd)), rt_logged = []\<rparr>"

definition send_on :: "'d udp_backend \<Rightarrow> route_target_id option \<Rightarrow> datagram \<Rightarrow> dispatch_error + unit" where
  "send_on backend slot dg = (case be_send backend slot dg of None \<Rightarrow> Inr () | Some e \<Rightarrow> Inl e)"

text \<open>The second half of \<^verbatim>\<open>send_route\<close>: the transport is cached, \<^verbatim>\<open>direct\<close> says whether it is DIRECT.\<close>

definition send_cached ::
  "'d routing_dispatcher \<Rightarrow> 'd udp_backend \<Rightarrow> routed_transport \<Rightarrow> route_target_id \<Rightarrow> bool \<Rightarrow> route_decision \<Rightarrow>
   datagram \<Rightarrow> 'd udp_result" where
  "send_cached rd backend rt target direct decision dg =
     (let (log, final) =
            (if direct \<and> \<not> dest_is_ip (rdec_destination decision)
             then resolve_direct_destination rd decision else ([], Inr decision)) in
      case final of
        Inl e \<Rightarrow> (rt, log, [], Inl e)
      | Inr decision \<Rightarrow>
          let dg = dg\<lparr>dg_remote := rdec_destination decision, dg_sniffed_domain := None\<rparr> in
          (rt, log, [SendOn (Some target) dg], send_on backend (Some target) dg))"

definition send_route ::
  "'d routing_dispatcher \<Rightarrow> 'd udp_backend \<Rightarrow> routed_transport \<Rightarrow> route_target_id \<Rightarrow> route_decision \<Rightarrow>
   datagram \<Rightarrow> 'd udp_result" where
  "send_route rd backend rt target decision dg =
     (case rt_routes rt target of
        Some direct \<Rightarrow> send_cached rd backend rt target direct decision dg
      | None \<Rightarrow>
          (case dispatchers_resolve (rd_store rd) (rd_targets rd) target of
             Inl e \<Rightarrow> (rt, [], [], Inl e)
           | Inr leaf \<Rightarrow>
               let (log, resolved) =
                     (if leaf_direct leaf then resolve_direct_destination rd decision else ([], Inr decision)) in
               (case resolved of
                  Inl e \<Rightarrow> (rt, log, [], Inl e)
                | Inr decision \<Rightarrow>
                    (case be_open backend (leaf_dispatcher leaf) of
                       Some e \<Rightarrow> (rt, log, [], Inl e)
                     | None \<Rightarrow>
                         let rt = rt\<lparr>rt_routes := (rt_routes rt)(target \<mapsto> leaf_direct leaf)\<rparr>;
                             (rt, log', effects, result) =
                               send_cached rd backend rt target (leaf_direct leaf) decision dg in
                         (rt, log @ log', OpenTransport (Some target) (leaf_dispatcher leaf) # effects, result)))))"

definition send_direct ::
  "'d routing_dispatcher \<Rightarrow> 'd udp_backend \<Rightarrow> routed_transport \<Rightarrow> datagram \<Rightarrow> 'd udp_result" where
  "send_direct rd backend rt dg =
     (if rt_direct_open rt then (rt, [], [SendOn None dg], send_on backend None dg)
      else case be_open backend (rd_direct rd) of
             Some e \<Rightarrow> (rt, [], [], Inl e)
           | None \<Rightarrow> (rt\<lparr>rt_direct_open := True\<rparr>, [], [OpenTransport None (rd_direct rd), SendOn None dg],
                      send_on backend None dg))"

definition flow_of :: "routed_transport \<Rightarrow> datagram \<Rightarrow> socket_addr option" where
  "flow_of rt dg =
     (case (ds_inbound (rt_session rt), dg_remote dg) of (Tun, DestIp address) \<Rightarrow> Some address | _ \<Rightarrow> None)"

text \<open>The choice of the decision: the pinned action of the flow, or a new one, which is then pinned. \<^verbatim>\<open>now\<close> and
  \<^verbatim>\<open>later\<close> are the two readings of the clock.\<close>

definition datagram_decision ::
  "'d routing_dispatcher \<Rightarrow> routed_transport \<Rightarrow> datagram \<Rightarrow> nat \<Rightarrow> nat \<Rightarrow>
   routed_transport \<times> bytes list \<times> (dispatch_error + route_decision)" where
  "datagram_decision rd rt0 dg now later =
     (let rt = (if ds_inbound (rt_session rt0) = Tun then rt0\<lparr>rt_flows := flows_expire now (rt_flows rt0)\<rparr> else rt0);
          flow = flow_of rt dg;
          (action, rt) = (case flow of
             None \<Rightarrow> (None, rt)
           | Some destination \<Rightarrow>
               (let (action, flows) = flows_action destination now (rt_flows rt) in (action, rt\<lparr>rt_flows := flows\<rparr>))) in
      case action of
        Some action \<Rightarrow>
          (rt, [], Inr \<lparr>rdec_action = action, rdec_destination = dg_remote dg, rdec_resolved = None\<rparr>)
      | None \<Rightarrow>
          (let (log, routed) =
                 route rd Udp (ds_inbound (rt_session rt)) (dg_remote dg) (dg_sniffed_domain dg) in
           case routed of
             Inl e \<Rightarrow> (rt, log, Inl e)
           | Inr decision \<Rightarrow>
               ((case flow of
                   None \<Rightarrow> rt
                 | Some destination \<Rightarrow>
                     rt\<lparr>rt_flows := (rt_flows rt)\<lparr>flow_entries := (flow_entries (rt_flows rt))(destination \<mapsto>
                       \<lparr>dr_action = rdec_action decision, dr_last_used = later, dr_flow_id = None\<rparr>)\<rparr>\<rparr>),
                log, Inr decision)))"

definition udp_send ::
  "'d routing_dispatcher \<Rightarrow> 'd udp_backend \<Rightarrow> routed_transport \<Rightarrow> datagram \<Rightarrow> nat \<Rightarrow> nat \<Rightarrow> 'd udp_result" where
  "udp_send rd backend rt0 dg now later =
     (case datagram_decision rd rt0 dg now later of
        (rt, log, Inl e) \<Rightarrow> (rt, log, [], Inl e)
      | (rt, log, Inr decision) \<Rightarrow>
          (let rt = rt\<lparr>rt_logged := List.insert (rdec_action decision) (rt_logged rt)\<rparr>;
               (rt, log', effects, result) =
                 (case rdec_action decision of
                    RuleRoute target \<Rightarrow> send_route rd backend rt target decision dg
                  | RuleDirect \<Rightarrow>
                      send_direct rd backend rt (dg\<lparr>dg_remote := rdec_destination decision, dg_sniffed_domain := None\<rparr>)
                  | RuleReject \<Rightarrow> (rt, [], [], Inr ())) in
           (rt, log @ log', effects, result)))"

definition send_with_flow_id ::
  "'d routing_dispatcher \<Rightarrow> 'd udp_backend \<Rightarrow> routed_transport \<Rightarrow> datagram \<Rightarrow> bytes \<Rightarrow> nat \<Rightarrow> nat \<Rightarrow> nat \<Rightarrow>
   'd udp_result" where
  "send_with_flow_id rd backend rt0 dg flow_id before now later =
     (if flow_id = [] \<or> 25 < length flow_id then (rt0, [], [], Inl NotAllowed)
      else
        let flow = flow_of rt0 dg;
            rt = (case flow of
              None \<Rightarrow> rt0
            | Some destination \<Rightarrow>
                (let flows = flows_expire before (rt_flows rt0);
                     flows = (case flow_entries flows destination of
                       Some r \<Rightarrow> if dr_flow_id r \<noteq> Some flow_id
                                 then flows\<lparr>flow_entries := (flow_entries flows)(destination := None)\<rparr> else flows
                     | None \<Rightarrow> flows) in
                 rt0\<lparr>rt_flows := flows\<rparr>));
            (rt, log, effects, result) = udp_send rd backend rt dg now later in
        (case result of
           Inl e \<Rightarrow> (rt, log, effects, Inl e)
         | Inr _ \<Rightarrow>
             ((case flow of
                 None \<Rightarrow> rt
               | Some destination \<Rightarrow>
                   (case flow_entries (rt_flows rt) destination of
                      Some r \<Rightarrow> rt\<lparr>rt_flows := (rt_flows rt)\<lparr>flow_entries :=
                          (flow_entries (rt_flows rt))(destination \<mapsto> r\<lparr>dr_flow_id := Some flow_id\<rparr>)\<rparr>\<rparr>
                    | None \<Rightarrow> rt)),
              log, effects, Inr ())))"

text \<open>\<^verbatim>\<open>receive\<close> after a backend delivered a datagram, and \<^verbatim>\<open>close\<close>.\<close>

definition udp_received :: "routed_transport \<Rightarrow> datagram \<Rightarrow> nat \<Rightarrow> routed_transport" where
  "udp_received rt dg now =
     (if ds_inbound (rt_session rt) = Tun then
        let flows = flows_expire now (rt_flows rt) in
        rt\<lparr>rt_flows := (case dg_remote dg of
             DestIp destination \<Rightarrow> flows_observe_response destination now flows
           | DestDomain host port \<Rightarrow> flows)\<rparr>
      else rt)"

definition udp_close :: "routed_transport \<Rightarrow> routed_transport" where
  "udp_close rt = rt\<lparr>rt_routes := Map.empty, rt_direct_open := False,
     rt_flows := (rt_flows rt)\<lparr>flow_entries := Map.empty\<rparr>\<rparr>"

section \<open>Facts about decisions\<close>

text \<open>With IPv6 switched off, neither the destination nor the resolved addresses are IPv6.\<close>

definition decision_safe :: "'d routing_dispatcher \<Rightarrow> route_decision \<Rightarrow> bool" where
  "decision_safe rd decision \<longleftrightarrow>
     (\<not> rd_ipv6 rd \<longrightarrow> \<not> dest_is_ipv6 (rdec_destination decision) \<and>
        (\<forall>addresses. rdec_resolved decision = Some addresses \<longrightarrow> list_all is_ipv4 addresses))"

lemma resolve_addresses_ipv4: "\<not> rd_ipv6 rd \<Longrightarrow> list_all is_ipv4 (resolve_addresses rd dns host)"
  by (auto simp: resolve_addresses_def Let_def list_all_iff)

lemma preferred_address_mem: "preferred_address addresses = Some a \<Longrightarrow> a \<in> set addresses"
  by (auto simp: preferred_address_def dest!: find_Some_D split: option.splits)

lemma socket_new_simps [simp]: "socket_ip (socket_new a port) = a" "socket_port (socket_new a port) = port"
  by (cases a; simp)+

lemma resolve_direct_facts:
  assumes "resolve_direct_destination rd decision = (log, r)"
  shows "length log \<le> 1" "rdec_resolved decision \<noteq> None \<Longrightarrow> log = []" "dest_is_ip (rdec_destination decision) \<Longrightarrow> log = []"
    "r = Inl e \<Longrightarrow> e = HostUnreachable"
    "r = Inr decision' \<Longrightarrow> dest_is_ip (rdec_destination decision') \<and> rdec_action decision' = rdec_action decision \<and>
       destination_port (rdec_destination decision') = destination_port (rdec_destination decision) \<and>
       (decision_safe rd decision \<longrightarrow> decision_safe rd decision') \<and> (log \<noteq> [] \<or> rdec_resolved decision \<noteq> None \<longrightarrow> rdec_resolved decision' \<noteq> None)"
proof -
  show "length log \<le> 1" "rdec_resolved decision \<noteq> None \<Longrightarrow> log = []" "dest_is_ip (rdec_destination decision) \<Longrightarrow> log = []"
    using assms by (auto simp: resolve_direct_destination_def split: destination.splits option.splits)
  show "r = Inl e \<Longrightarrow> e = HostUnreachable"
    using assms by (auto simp: resolve_direct_destination_def ok_or_def split: destination.splits option.splits)
  assume r: "r = Inr decision'"
  show "dest_is_ip (rdec_destination decision') \<and> rdec_action decision' = rdec_action decision \<and>
       destination_port (rdec_destination decision') = destination_port (rdec_destination decision) \<and>
       (decision_safe rd decision \<longrightarrow> decision_safe rd decision') \<and> (log \<noteq> [] \<or> rdec_resolved decision \<noteq> None \<longrightarrow> rdec_resolved decision' \<noteq> None)"
  proof (cases "rdec_destination decision")
    case (DestIp address)
    then show ?thesis using assms r by (auto simp: resolve_direct_destination_def)
  next
    case (DestDomain host port)
    then obtain addresses a where d: "preferred_address addresses = Some a"
      "decision' = decision\<lparr>rdec_destination := DestIp (socket_new a port), rdec_resolved := Some addresses\<rparr>"
      "decision_safe rd decision \<longrightarrow> \<not> rd_ipv6 rd \<longrightarrow> list_all is_ipv4 addresses"
      using assms r by (auto simp: resolve_direct_destination_def res_simps resolve_addresses_ipv4 decision_safe_def
          split: option.splits)
    then show ?thesis
      using DestDomain preferred_address_mem [OF d(1)] by (auto simp: decision_safe_def list_all_iff)
  qed
qed

lemma decide_rules_facts:
  assumes "decide_rules rd destination ctx = (log, ctx', resolved, evaluation)" "pinned_ip ctx = None"
  shows "length log \<le> 1" "log \<noteq> [] \<Longrightarrow> resolved \<noteq> None"
    "\<not> rd_ipv6 rd \<Longrightarrow> resolved = Some addresses \<Longrightarrow> list_all is_ipv4 addresses"
    "pinned_ip ctx' = Some a \<Longrightarrow> \<exists>addresses. resolved = Some addresses \<and> a \<in> set addresses"
    "normalized_domain ctx' = normalized_domain ctx"
    "rule_set_wf (rd_rules rd) \<Longrightarrow> \<exists>m. evaluation = Matched m"
proof -
  have "length log \<le> 1 \<and> (log \<noteq> [] \<longrightarrow> resolved \<noteq> None) \<and>
     (\<forall>addresses. \<not> rd_ipv6 rd \<longrightarrow> resolved = Some addresses \<longrightarrow> list_all is_ipv4 addresses) \<and>
     (\<forall>a. pinned_ip ctx' = Some a \<longrightarrow> (\<exists>addresses. resolved = Some addresses \<and> a \<in> set addresses)) \<and>
     normalized_domain ctx' = normalized_domain ctx \<and>
     (rule_set_wf (rd_rules rd) \<longrightarrow> (\<exists>m. evaluation = Matched m))"
  proof (cases "evaluate_with_geo (rd_rules rd) ctx (rd_geo rd)")
    case (NeedsIpResolution i)
    note no_ip = needs_resolution_no_ip [OF this]
    obtain addresses where d: "resolved = Some addresses" "length log \<le> 1"
      "evaluate_with_resolved_ips (rd_rules rd) ctx (rd_geo rd) i addresses = (ctx', evaluation)"
      "\<not> rd_ipv6 rd \<longrightarrow> list_all is_ipv4 addresses"
      using assms(1) NeedsIpResolution
      by (auto simp: decide_rules_def resolve_addresses_ipv4 Let_def split: prod.splits destination.splits option.splits)
    have "\<exists>m. evaluation = Matched m" if "rule_set_wf (rd_rules rd)"
      using rule_set_wf_decides [OF that, of ctx "rd_geo rd" i addresses] no_ip d(3) by auto
    moreover have "a \<in> set addresses" if "pinned_ip ctx' = Some a" for a
      using resolved_from_context(1) d(3) no_ip that by (auto simp: evaluate_with_resolved_ips_def)
    moreover have "normalized_domain ctx' = normalized_domain ctx"
      using resolved_from_context(2) d(3) no_ip by (auto simp: evaluate_with_resolved_ips_def)
    ultimately show ?thesis
      using d(1,2,4) by blast
  next
    case (Matched m)
    then have "log = []" "ctx' = ctx" "resolved = None" "evaluation = Matched m"
      using assms(1) by (simp_all add: decide_rules_def)
    then show ?thesis using assms(2) by simp
  next
    case NoMatch
    then show ?thesis using assms rule_set_wf_decides by (fastforce simp: decide_rules_def)
  qed
  then show "length log \<le> 1" "log \<noteq> [] \<Longrightarrow> resolved \<noteq> None"
    "\<not> rd_ipv6 rd \<Longrightarrow> resolved = Some addresses \<Longrightarrow> list_all is_ipv4 addresses"
    "pinned_ip ctx' = Some a \<Longrightarrow> \<exists>addresses. resolved = Some addresses \<and> a \<in> set addresses"
    "normalized_domain ctx' = normalized_domain ctx"
    "rule_set_wf (rd_rules rd) \<Longrightarrow> \<exists>m. evaluation = Matched m"
    by blast+
qed

lemma with_domain_hint_facts:
  assumes "with_domain_hint idna network destination hint = Inr ctx"
  shows "pinned_ip ctx = None" "\<not> dest_is_ip destination \<Longrightarrow> normalized_domain ctx \<noteq> None"
  using assms by (auto simp: with_domain_hint_def res_simps split: destination.splits)

text \<open>What holds of the outcome of a decision for \<^verbatim>\<open>destination\<close>.\<close>

definition decision_for ::
  "'d routing_dispatcher \<Rightarrow> destination \<Rightarrow> bytes list \<Rightarrow> dispatch_error + route_decision \<Rightarrow> bool" where
  "decision_for rd destination log r \<longleftrightarrow> length log \<le> 1 \<and>
     (case r of
        Inl e \<Rightarrow> e \<in> {NetworkUnreachable, HostUnreachable}
      | Inr decision \<Rightarrow> decision_safe rd decision \<and> (log \<noteq> [] \<longrightarrow> rdec_resolved decision \<noteq> None) \<and>
          destination_port (rdec_destination decision) = destination_port destination \<and>
          (rdec_action decision = RuleDirect \<longrightarrow> dest_is_ip (rdec_destination decision)))"

lemma finish_decision_for:
  assumes "length log \<le> 1" "log \<noteq> [] \<Longrightarrow> resolved \<noteq> None"
    and "\<And>addresses. \<not> rd_ipv6 rd \<Longrightarrow> resolved = Some addresses \<Longrightarrow> list_all is_ipv4 addresses"
    and "\<And>a. pinned_ip ctx = Some a \<Longrightarrow> \<exists>addresses. resolved = Some addresses \<and> a \<in> set addresses"
    and "\<not> rd_ipv6 rd \<Longrightarrow> \<not> dest_is_ipv6 destination"
    and "finish_decision rd destination log ctx resolved m = (log', r)"
  shows "decision_for rd destination log' r"
proof -
  define decision where "decision = \<lparr>rdec_action = match_action m,
    rdec_destination = (case pinned_ip ctx of
       None \<Rightarrow> (case destination of DestDomain host port \<Rightarrow> DestDomain (unwrap_or (normalized_domain ctx) host) port
               | DestIp address \<Rightarrow> destination)
     | Some address \<Rightarrow> DestIp (socket_new address (destination_port destination))),
    rdec_resolved = resolved\<rparr>"
  have safe: "decision_safe rd decision"
    using assms(3-5) by (fastforce simp: decision_safe_def decision_def list_all_iff
        split: option.splits destination.splits)
  have port: "destination_port (rdec_destination decision) = destination_port destination"
    by (auto simp: decision_def split: option.splits destination.splits)
  have res: "(log', r) = (if match_action m = RuleDirect
      then let (log', result) = resolve_direct_destination rd decision in (log @ log', result)
      else (log, Inr decision))"
    using assms(6) unfolding finish_decision_def decision_def Let_def by simp
  show ?thesis
  proof (cases "match_action m = RuleDirect")
    case True
    obtain log1 result where rd': "resolve_direct_destination rd decision = (log1, result)"
      by (cases "resolve_direct_destination rd decision")
    note g = resolve_direct_facts [OF rd']
    have "log \<noteq> [] \<Longrightarrow> log1 = []"
      using assms(2) g(2) by (simp add: decision_def)
    moreover have "log' = log @ log1" "r = result"
      using res True rd' by simp_all
    ultimately show ?thesis
      using assms(1,2) g(1,4,5) safe port by (cases "log = []"; cases result)
        (auto simp: decision_for_def decision_def)
  next
    case False
    then show ?thesis using res safe port assms(1,2) by (auto simp: decision_def decision_for_def)
  qed
qed

lemma route_decision_for:
  assumes "route rd network inbound destination sniffed = (log, r)" "rule_set_wf (rd_rules rd)"
  shows "decision_for rd destination log r"
proof (cases "ensure_destination_allowed rd destination")
  case (Inl e)
  then show ?thesis
    using assms by (auto simp: route_def ensure_destination_allowed_def decision_for_def split: if_splits)
next
  case allowed: (Inr u)
  then have v4: "\<not> rd_ipv6 rd \<Longrightarrow> \<not> dest_is_ipv6 destination"
    by (auto simp: ensure_destination_allowed_def split: if_splits)
  show ?thesis
  proof (cases "with_domain_hint (rd_idna rd) network destination (route_hint rd inbound destination sniffed)")
    case (Inl e)
    then show ?thesis using assms allowed by (auto simp: route_def decision_for_def)
  next
    case ctx0: (Inr ctx0)
    obtain log0 ctx resolved evaluation where d: "decide_rules rd destination ctx0 = (log0, ctx, resolved, evaluation)"
      by (cases "decide_rules rd destination ctx0") auto
    note f = decide_rules_facts [OF d with_domain_hint_facts(1) [OF ctx0]]
    obtain m where "evaluation = Matched m"
      using f(6) assms(2) by blast
    then have "finish_decision rd destination log0 ctx resolved m = (log, r)"
      using assms(1) allowed ctx0 d by (simp add: route_def)
    then show ?thesis
      using f(1-4) v4 by (intro finish_decision_for [of log0 resolved rd ctx destination m log r]) blast+
  qed
qed

text \<open>What holds of a plan for \<^verbatim>\<open>session\<close>.\<close>

definition plan_for ::
  "'d routing_dispatcher \<Rightarrow> stream_session \<Rightarrow> bytes list \<Rightarrow> dispatch_error + 'd tcp_plan \<Rightarrow> bool" where
  "plan_for rd session log r \<longleftrightarrow> length log \<le> 1 \<and>
     (\<forall>d session'. r = Inr (ConnectVia d session') \<longrightarrow>
        (\<not> rd_ipv6 rd \<longrightarrow> \<not> dest_is_ipv6 (ss_destination session')) \<and>
        destination_port (ss_destination session') = destination_port (ss_destination session) \<and>
        ss_sniffed_domain session' = None)"

lemma plan_for_via:
  assumes "length log \<le> 1" "decision_safe rd decision"
    and "destination_port (rdec_destination decision) = destination_port (ss_destination session)"
  shows "plan_for rd session log (Inr (ConnectVia d
    (session\<lparr>ss_destination := rdec_destination decision, ss_sniffed_domain := None\<rparr>)))"
  using assms by (simp add: plan_for_def decision_safe_def)

lemma plan_for_Inl: "plan_for rd session log (Inl e) \<longleftrightarrow> length log \<le> 1"
  by (simp add: plan_for_def)

lemma connect_routed_plan_for:
  assumes d: "decision_for rd (ss_destination session) log (Inr decision)"
    and c: "connect_routed rd session log decision = (log', r)"
  shows "plan_for rd session log' r"
proof -
  have f: "length log \<le> 1" "decision_safe rd decision" "log \<noteq> [] \<Longrightarrow> rdec_resolved decision \<noteq> None"
    "destination_port (rdec_destination decision) = destination_port (ss_destination session)"
    using d by (simp_all add: decision_for_def)
  show ?thesis
  proof (cases "rdec_action decision")
    case (RuleRoute target)
    show ?thesis
    proof (cases "dispatchers_resolve (rd_store rd) (rd_targets rd) target")
      case (Inl e)
      then show ?thesis using f c RuleRoute by (auto simp: connect_routed_def plan_for_Inl)
    next
      case (Inr leaf)
      obtain log1 final where fin: "(if leaf_direct leaf then resolve_direct_destination rd decision
          else ([], Inr decision)) = (log1, final)"
        by (cases "if leaf_direct leaf then resolve_direct_destination rd decision else ([], Inr decision)")
      have "log = [] \<or> log1 = []" "length log1 \<le> 1"
        using f(3) fin resolve_direct_facts(1,2) by (fastforce split: if_splits)+
      then have len: "length (log @ log1) \<le> 1"
        using f(1) by auto
      have ok: "decision_safe rd decision' \<and>
          destination_port (rdec_destination decision') = destination_port (ss_destination session)"
        if "final = Inr decision'" for decision'
      proof (cases "leaf_direct leaf")
        case True
        then have "resolve_direct_destination rd decision = (log1, Inr decision')"
          using fin that by simp
        from resolve_direct_facts(5) [OF this refl] show ?thesis
          using f(2,4) by simp
      qed (use fin f(2,4) that in simp)
      have "log' = log @ log1" "r = and_then final (\<lambda>decision. Inr (ConnectVia (leaf_dispatcher leaf)
          (session\<lparr>ss_destination := rdec_destination decision, ss_sniffed_domain := None\<rparr>)))"
        using c RuleRoute Inr fin by (simp_all add: connect_routed_def)
      then show ?thesis
        using len ok by (cases final) (simp_all add: plan_for_Inl plan_for_via)
    qed
  next
    case RuleDirect
    then show ?thesis using f c plan_for_via by (auto simp: connect_routed_def)
  next
    case RuleReject
    then show ?thesis using f c by (auto simp: connect_routed_def plan_for_Inl)
  qed
qed

lemma connect_tcp_cases:
  assumes "connect_tcp rd session = (log, r)"
    and "route rd Tcp (ss_inbound session) (ss_destination session) (ss_sniffed_domain session) = (log0, routed)"
  obtains e where "log = []" "r = Inl e"
  | dns where "log = []" "r = Inr (ServeDns dns)"
  | e where "routed = Inl e" "log = log0" "r = Inl e"
  | decision where "routed = Inr decision" "connect_routed rd session log0 decision = (log, r)"
  using assms
  by (cases "ensure_destination_allowed rd (ss_destination session)"; cases "rd_dns rd"; cases routed;
      cases "ss_inbound session = Tun \<and> dest_hijacked (rd_tun rd) (ss_destination session)")
    (auto simp: connect_tcp_def)

text \<open>A router over the sample rules and groups, for the witnesses.\<close>

definition sample_rd :: "nat routing_dispatcher" where
  "sample_rd = \<lparr>rd_targets = \<lparr>pd_proxies = [7], pd_groups = Some sample_pg\<rparr>, rd_store = \<lambda>_. 0, rd_direct = 1,
     rd_dns = Some \<lparr>dns_resolve = \<lambda>_. Some [IpV4 0x01010101], dns_domain_hint = \<lambda>_. None\<rparr>, rd_ipv6 = False,
     rd_rules = sample_set, rd_geo = empty_geo_matcher, rd_idna = Some,
     rd_tun = \<lparr>tun_dns_hijack = [], tun_udp_timeout = 300\<rparr>\<rparr>"

lemma sample_rd_rules: "rule_set_compile sample_env sample_specs = Inr (rd_rules sample_rd)"
  using sample_set_compiled by (simp add: sample_rd_def)

section \<open>Claims about decisions\<close>

text \<open>
  Claim C5. With a compiled rule set a routing decision always comes out, after at most one DNS
  resolution. The only errors are an IPv6 destination while IPv6 is off, and a name that cannot be
  normalised or resolved. A decision keeps the destination port, never yields an IPv6 destination while
  IPv6 is off, and one for DIRECT always carries an address.
\<close>

theorem route_decides:
  assumes "rule_set_compile env specs = Inr (rd_rules rd)"
    and "route rd network inbound destination sniffed = (log, r)"
  shows "length log \<le> 1 \<and>
     (case r of
        Inl e \<Rightarrow> e \<in> {NetworkUnreachable, HostUnreachable}
      | Inr decision \<Rightarrow>
          destination_port (rdec_destination decision) = destination_port destination \<and>
          (\<not> rd_ipv6 rd \<longrightarrow> \<not> dest_is_ipv6 (rdec_destination decision)) \<and>
          (rdec_action decision = RuleDirect \<longrightarrow> dest_is_ip (rdec_destination decision)))"
  using route_decision_for [OF assms(2) rule_set_compile_wf(1) [OF assms(1)]]
  by (auto simp: decision_for_def decision_safe_def split: sum.splits)

theorem route_decides_witness:
  "length (fst (route sample_rd Tcp Socks5 (DestDomain (str ''a.b'') 443) None)) \<le> 1"
  using route_decides [OF sample_rd_rules] by (metis prod.collapse)

text \<open>
  Claim C29. A TCP connection makes at most one DNS resolution in all, also when a proxy group selects
  DIRECT. The session handed to an outbound keeps the port, carries no sniffed domain any more, and is
  never an IPv6 one while IPv6 is off.
\<close>

theorem connect_tcp_plan:
  assumes "rule_set_compile env specs = Inr (rd_rules rd)" "connect_tcp rd session = (log, r)"
  shows "length log \<le> 1 \<and>
     (\<forall>d session'. r = Inr (ConnectVia d session') \<longrightarrow>
        (\<not> rd_ipv6 rd \<longrightarrow> \<not> dest_is_ipv6 (ss_destination session')) \<and>
        destination_port (ss_destination session') = destination_port (ss_destination session) \<and>
        ss_sniffed_domain session' = None)"
proof -
  obtain log0 routed where route: "route rd Tcp (ss_inbound session) (ss_destination session)
      (ss_sniffed_domain session) = (log0, routed)"
    by (cases "route rd Tcp (ss_inbound session) (ss_destination session) (ss_sniffed_domain session)")
  note f = route_decision_for [OF route rule_set_compile_wf(1) [OF assms(1)]]
  have "plan_for rd session log r"
    using assms(2) route
  proof (cases rule: connect_tcp_cases)
    case (4 decision)
    then show ?thesis using connect_routed_plan_for f by blast
  qed (use f in \<open>auto simp: plan_for_def decision_for_def\<close>)
  then show ?thesis unfolding plan_for_def .
qed

theorem connect_tcp_plan_witness:
  "length (fst (connect_tcp sample_rd \<lparr>ss_inbound = Tun, ss_source = SocketV4 1 1,
     ss_destination = DestDomain (str ''a.b'') 443, ss_sniffed_domain = None\<rparr>)) \<le> 1"
  using connect_tcp_plan [OF sample_rd_rules] by (metis prod.collapse)

section \<open>Facts about flows and transports\<close>

lemma flows_expire_simps [simp]:
  "flow_idle_timeout (flows_expire now flows) = flow_idle_timeout flows"
  by (simp add: flows_expire_def)

lemma flows_expire_live:
  "flow_entries flows k = Some r \<Longrightarrow> now - dr_last_used r < flow_idle_timeout flows \<Longrightarrow>
   flow_entries (flows_expire now flows) k = Some r"
  by (simp add: flows_expire_def retain_entries_def)

lemma flows_expire_Some:
  "flow_entries (flows_expire now flows) k = Some r \<Longrightarrow> flow_entries flows k = Some r"
  by (auto simp: flows_expire_def retain_entries_def split: if_splits option.splits)

definition slot_open :: "routed_transport \<Rightarrow> route_target_id option \<Rightarrow> bool" where
  "slot_open rt slot = (case slot of None \<Rightarrow> rt_direct_open rt | Some target \<Rightarrow> rt_routes rt target \<noteq> None)"

fun opens_slot :: "route_target_id option \<Rightarrow> 'd udp_effect \<Rightarrow> bool" where
  "opens_slot slot (OpenTransport s d) = (s = slot)"
| "opens_slot slot (SendOn s dg) = False"

definition opens :: "route_target_id option \<Rightarrow> 'd udp_effect list \<Rightarrow> nat" where
  "opens slot effects = length (filter (opens_slot slot) effects)"

text \<open>A step opens a slot at most once, only if it was closed, and sends only on open slots.\<close>

definition opens_ok :: "routed_transport \<Rightarrow> routed_transport \<Rightarrow> 'd udp_effect list \<Rightarrow> bool" where
  "opens_ok rt rt' effects \<longleftrightarrow>
     (\<forall>slot. opens slot effects + of_bool (slot_open rt slot) = of_bool (slot_open rt' slot)) \<and>
     (\<forall>slot dg. SendOn slot dg \<in> set effects \<longrightarrow> slot_open rt' slot)"

lemma slot_open_update [simp]:
  "slot_open (rt\<lparr>rt_flows := f\<rparr>) slot = slot_open rt slot"
  "slot_open (rt\<lparr>rt_logged := l\<rparr>) slot = slot_open rt slot"
  "slot_open (rt\<lparr>rt_direct_open := True\<rparr>) slot \<longleftrightarrow> slot = None \<or> slot_open rt slot"
  "slot_open (rt\<lparr>rt_routes := (rt_routes rt)(t \<mapsto> b)\<rparr>) slot \<longleftrightarrow> slot = Some t \<or> slot_open rt slot"
  by (auto simp: slot_open_def split: option.splits)

lemma send_cached_result:
  assumes "send_cached rd backend rt target direct decision dg = (rt', log, effects, result)"
  shows "rt' = rt" "effects = [] \<or> (\<exists>dg'. effects = [SendOn (Some target) dg'])"
    "log = (if direct \<and> \<not> dest_is_ip (rdec_destination decision) then fst (resolve_direct_destination rd decision) else [])"
  using assms by (auto simp: send_cached_def Let_def split: if_splits prod.splits sum.splits)

lemma send_direct_opens:
  "send_direct rd backend rt dg = (rt', log, effects, result) \<Longrightarrow> opens_ok rt rt' effects \<and> log = []"
  by (auto simp: send_direct_def opens_ok_def opens_def slot_open_def split: if_splits option.splits)

lemma send_route_opens:
  assumes "send_route rd backend rt target decision dg = (rt', log, effects, result)"
  shows "opens_ok rt rt' effects"
proof (cases "rt_routes rt target")
  case (Some direct)
  then have "send_cached rd backend rt target direct decision dg = (rt', log, effects, result)"
    using assms by (simp add: send_route_def)
  from send_cached_result(1,2) [OF this] show ?thesis
    using Some by (auto simp: opens_ok_def opens_def slot_open_def)
next
  case None
  show ?thesis
  proof (cases "effects = []")
    case True
    then have "rt' = rt"
      using assms None by (auto simp: send_route_def Let_def split: sum.splits prod.splits if_splits option.splits)
    with True show ?thesis by (simp add: opens_ok_def opens_def)
  next
    case False
    then obtain d b rt1 log1 effects1 result1 decision1 where
      s: "send_cached rd backend (rt\<lparr>rt_routes := (rt_routes rt)(target \<mapsto> b)\<rparr>) target b decision1 dg =
            (rt1, log1, effects1, result1)"
      "rt' = rt1" "effects = OpenTransport (Some target) d # effects1"
      using assms None by (auto simp: send_route_def Let_def split: sum.splits prod.splits if_splits option.splits)
    from send_cached_result(1,2) [OF s(1)] show ?thesis
      using None s(2,3) by (auto simp: opens_ok_def opens_def slot_open_def split: option.splits)
  qed
qed

lemma datagram_decision_slots:
  assumes "datagram_decision rd rt dg now later = (rt', log, r)"
  shows "rt_routes rt' = rt_routes rt \<and> rt_direct_open rt' = rt_direct_open rt"
  using assms by (auto simp: datagram_decision_def Let_def split: if_splits prod.splits option.splits sum.splits)

lemma slot_open_cong:
  "rt_routes rt = rt_routes rt0 \<Longrightarrow> rt_direct_open rt = rt_direct_open rt0 \<Longrightarrow> slot_open rt = slot_open rt0"
  by (rule ext) (simp add: slot_open_def split: option.split)

lemma opens_ok_start:
  "opens_ok rt rt' effects \<Longrightarrow> rt_routes rt = rt_routes rt0 \<Longrightarrow> rt_direct_open rt = rt_direct_open rt0 \<Longrightarrow>
   opens_ok rt0 rt' effects"
  using slot_open_cong [of rt rt0] by (simp add: opens_ok_def)

lemma udp_send_opens:
  assumes "udp_send rd backend rt dg now later = (rt', log, effects, result)"
  shows "opens_ok rt rt' effects"
proof -
  obtain rt1 log1 r where d: "datagram_decision rd rt dg now later = (rt1, log1, r)"
    by (cases "datagram_decision rd rt dg now later") auto
  note slots = datagram_decision_slots [OF d]
  show ?thesis
  proof (cases r)
    case (Inl e)
    with assms d have "rt' = rt1" "effects = []"
      by (auto simp: udp_send_def)
    then show ?thesis
      using slot_open_cong [of rt1 rt] slots by (simp add: opens_ok_def opens_def)
  next
    case (Inr decision)
    let ?rt = "rt1\<lparr>rt_logged := List.insert (rdec_action decision) (rt_logged rt1)\<rparr>"
    define res where "res = (case rdec_action decision of
        RuleRoute target \<Rightarrow> send_route rd backend ?rt target decision dg
      | RuleDirect \<Rightarrow>
          send_direct rd backend ?rt (dg\<lparr>dg_remote := rdec_destination decision, dg_sniffed_domain := None\<rparr>)
      | RuleReject \<Rightarrow> (?rt, [], [], Inr ()))"
    obtain rt2 log2 effects2 result2 where r2: "res = (rt2, log2, effects2, result2)"
      by (cases res) auto
    then have "rt' = rt2" "effects = effects2"
      using assms d Inr by (simp_all add: udp_send_def Let_def res_def)
    moreover have "opens_ok ?rt rt2 effects2"
    proof (cases "rdec_action decision")
      case (RuleRoute target)
      then show ?thesis using r2 by (auto simp: res_def intro: send_route_opens)
    next
      case RuleDirect
      then show ?thesis using r2 by (auto simp: res_def dest: send_direct_opens)
    next
      case RuleReject
      then show ?thesis using r2 by (auto simp: res_def opens_ok_def opens_def)
    qed
    ultimately have "opens_ok ?rt rt' effects"
      by simp
    then show ?thesis
      by (rule opens_ok_start) (use slots in simp_all)
  qed
qed

text \<open>A run of the association: sends with their router, backend and clock readings, and receptions.\<close>

datatype 'd udp_event =
  UdpSend "'d routing_dispatcher" "'d udp_backend" datagram nat nat
| UdpReceived datagram nat

fun udp_run :: "routed_transport \<Rightarrow> 'd udp_event list \<Rightarrow> routed_transport \<times> 'd udp_effect list" where
  "udp_run rt [] = (rt, [])"
| "udp_run rt (UdpSend rd backend dg now later # events) =
     (let (rt', log, effects, result) = udp_send rd backend rt dg now later;
          (rt'', effects') = udp_run rt' events in
      (rt'', effects @ effects'))"
| "udp_run rt (UdpReceived dg now # events) = udp_run (udp_received rt dg now) events"

lemma opens_ok_trans:
  assumes "opens_ok rt rt' effects" "opens_ok rt' rt'' effects'"
  shows "opens_ok rt rt'' (effects @ effects')"
proof -
  have "slot_open rt'' slot" if "slot_open rt' slot" for slot
  proof -
    have "opens slot effects' + of_bool (slot_open rt' slot) = of_bool (slot_open rt'' slot)"
      using assms(2) unfolding opens_ok_def by blast
    with that show ?thesis by (cases "slot_open rt'' slot") simp_all
  qed
  moreover have "opens slot (effects @ effects') + of_bool (slot_open rt slot) = of_bool (slot_open rt'' slot)" for slot
  proof -
    have "opens slot effects + of_bool (slot_open rt slot) = of_bool (slot_open rt' slot)"
      "opens slot effects' + of_bool (slot_open rt' slot) = of_bool (slot_open rt'' slot)"
      using assms unfolding opens_ok_def by blast+
    then show ?thesis by (simp add: opens_def)
  qed
  ultimately show ?thesis
    using assms by (auto simp: opens_ok_def)
qed

lemma udp_run_opens: "udp_run rt events = (rt', effects) \<Longrightarrow> opens_ok rt rt' effects"
proof (induction rt events arbitrary: effects rule: udp_run.induct)
  case (1 rt)
  then show ?case by (simp add: opens_ok_def opens_def)
next
  case (2 rt rd backend dg now later events)
  obtain rt1 log effects1 result where s: "udp_send rd backend rt dg now later = (rt1, log, effects1, result)"
    by (cases "udp_send rd backend rt dg now later") auto
  obtain rt2 effects2 where u: "udp_run rt1 events = (rt2, effects2)"
    by (cases "udp_run rt1 events") auto
  have "rt' = rt2" "effects = effects1 @ effects2"
    using 2(2) s u by simp_all
  then show ?case
    using opens_ok_trans [OF udp_send_opens [OF s]] 2(1) s u by simp
next
  case (3 rt dg now events)
  then have "opens_ok (udp_received rt dg now) rt' effects"
    by simp
  then show ?case
    by (rule opens_ok_start) (simp_all add: udp_received_def Let_def)
qed

section \<open>Claims about UDP\<close>

text \<open>
  Claim C30. Over any run of sends and receptions, with routing state, selections, backends and clock
  readings changing arbitrarily in between, an association opens at most one transport for each route
  target and at most one direct transport, and it sends only on a transport that it has opened.
\<close>

theorem udp_transports_once:
  assumes "udp_run (open_datagram rd now session) events = (rt', effects)"
  shows "opens slot effects \<le> 1 \<and> (SendOn slot dg \<in> set effects \<longrightarrow> opens slot effects = 1)"
proof -
  have closed: "\<not> slot_open (open_datagram rd now session) slot"
    by (simp add: slot_open_def open_datagram_def split: option.split)
  have ok: "opens_ok (open_datagram rd now session) rt' effects"
    by (rule udp_run_opens [OF assms])
  then have "opens slot effects = of_bool (slot_open rt' slot)"
    using closed unfolding opens_ok_def by (metis add.right_neutral of_bool_eq(1))
  moreover have "SendOn slot dg \<in> set effects \<Longrightarrow> slot_open rt' slot"
    using ok unfolding opens_ok_def by blast
  ultimately show ?thesis by auto
qed

theorem udp_transports_once_witness:
  "opens None (snd (udp_run (open_datagram sample_rd 0 (datagram_session_new Tun (SocketV4 1 1)))
     [UdpSend sample_rd \<lparr>be_open = \<lambda>_. None, be_send = \<lambda>_ _. None\<rparr>
        \<lparr>dg_remote = DestDomain (str ''a.lan'') 53, dg_payload = [], dg_sniffed_domain = None\<rparr> 1 2])) \<le> 1"
  using udp_transports_once by (metis prod.collapse)

text \<open>
  Claim C31. A TUN flow keeps its action. While a flow's entry is younger than the idle timeout, the next
  datagram to the same address takes the pinned action with no DNS resolution, whatever the rules,
  GeoData or DNS have become; its entry is refreshed with the same action; and the entry of any other
  flow is left as it is or, if it has been idle for the timeout, dropped.
\<close>

theorem udp_flow_pinned:
  assumes "ds_inbound (rt_session rt) = Tun" "dg_remote dg = DestIp address"
    and "flow_entries (rt_flows rt) address = Some r" "now - dr_last_used r < flow_idle_timeout (rt_flows rt)"
    and "datagram_decision rd rt dg now later = (rt', log, result)"
  shows "result = Inr \<lparr>rdec_action = dr_action r, rdec_destination = dg_remote dg, rdec_resolved = None\<rparr> \<and>
         log = [] \<and> flow_entries (rt_flows rt') address = Some (r\<lparr>dr_last_used := now\<rparr>) \<and>
         (other \<noteq> address \<longrightarrow>
            flow_entries (rt_flows rt') other = flow_entries (rt_flows rt) other \<or>
            (flow_entries (rt_flows rt') other = None \<and>
             (\<exists>q. flow_entries (rt_flows rt) other = Some q \<and>
                flow_idle_timeout (rt_flows rt) \<le> now - dr_last_used q)))"
proof -
  let ?flows = "flows_expire now (flows_expire now (rt_flows rt))"
  have live: "flow_entries ?flows address = Some r"
    using assms(3,4) by (simp add: flows_expire_live)
  have other: "flow_entries (flows_expire now f) k = flow_entries f k \<or>
      (flow_entries (flows_expire now f) k = None \<and>
       (\<exists>q. flow_entries f k = Some q \<and> flow_idle_timeout f \<le> now - dr_last_used q))" for f k
    by (auto simp: flows_expire_def retain_entries_def not_less split: option.splits)
  have rt': "rt' = rt\<lparr>rt_flows := ?flows\<lparr>flow_entries := (flow_entries ?flows)(address \<mapsto> r\<lparr>dr_last_used := now\<rparr>)\<rparr>\<rparr>"
    and "log = []" "result = Inr \<lparr>rdec_action = dr_action r, rdec_destination = dg_remote dg, rdec_resolved = None\<rparr>"
    using assms live by (auto simp: datagram_decision_def flow_of_def flows_action_def Let_def)
  moreover have "flow_entries ?flows other = flow_entries (rt_flows rt) other \<or>
      (flow_entries ?flows other = None \<and>
       (\<exists>q. flow_entries (rt_flows rt) other = Some q \<and> flow_idle_timeout (rt_flows rt) \<le> now - dr_last_used q))"
    using other [of "rt_flows rt" other] other [of "flows_expire now (rt_flows rt)" other]
    by (metis flows_expire_simps)
  ultimately show ?thesis by auto
qed

theorem udp_flow_pinned_witness:
  "fst (snd (datagram_decision sample_rd
     ((open_datagram sample_rd 0 (datagram_session_new Tun (SocketV4 1 1)))\<lparr>rt_flows :=
        \<lparr>flow_entries = [SocketV4 2 2 \<mapsto> \<lparr>dr_action = RuleReject, dr_last_used = 5, dr_flow_id = None\<rparr>],
         flow_next_cleanup = 0, flow_idle_timeout = 300\<rparr>\<rparr>)
     \<lparr>dg_remote = DestIp (SocketV4 2 2), dg_payload = [], dg_sniffed_domain = None\<rparr> 100 101)) = []"
  (is "fst (snd (datagram_decision _ ?rt ?dg _ _)) = []")
proof -
  obtain rt' log result where d: "datagram_decision sample_rd ?rt ?dg 100 101 = (rt', log, result)"
    by (cases "datagram_decision sample_rd ?rt ?dg 100 101") auto
  have "log = []"
    using udp_flow_pinned [OF _ _ _ _ d, of "SocketV4 2 2"
        "\<lparr>dr_action = RuleReject, dr_last_used = 5, dr_flow_id = None\<rparr>"]
    by (simp add: open_datagram_def datagram_session_new_def)
  with d show ?thesis by simp
qed

end
