(* ===== verification/Dns_Message.thy ===== *)
theory Dns_Message
  imports Session_Model Rust_Str
begin

text \<open>
  The DNS wire primitives of \<^verbatim>\<open>src/dns/mod.rs\<close>: names with compression pointers, questions,
  records, the typed A/AAAA path (\<^verbatim>\<open>build_query\<close>, \<^verbatim>\<open>parse_query\<close>, \<^verbatim>\<open>parse_response\<close>) and the opaque
  path (\<^verbatim>\<open>classify_query\<close>, \<^verbatim>\<open>validate_opaque_response\<close>). A message is its bytes; every read is
  checked as in the source, so each early return is an error value. SHA-256, a third-party
  crate, is the parameter \<open>sha256\<close> of the operations that use it.
\<close>

unbundle bit_operations_syntax

section \<open>Constants, errors and data\<close>

definition MAX_MESSAGE_SIZE :: nat where "MAX_MESSAGE_SIZE = 4096"
definition MAX_RESPONSE_RECORDS :: nat where "MAX_RESPONSE_RECORDS = 64"
definition MAX_ANSWERS :: nat where "MAX_ANSWERS = 16"
definition MAX_NAME_LEN :: nat where "MAX_NAME_LEN = 253"
definition MAX_COMPRESSION_JUMPS :: nat where "MAX_COMPRESSION_JUMPS = 16"
definition MAX_OPAQUE_RECORDS :: nat where "MAX_OPAQUE_RECORDS = 64"
definition MIN_TTL_SECS :: u32 where "MIN_TTL_SECS = 30"
definition MAX_TTL_SECS :: u32 where "MAX_TTL_SECS = 3600"
definition NEGATIVE_TTL_SECS :: u32 where "NEGATIVE_TTL_SECS = 30"
definition DNS_HEADER_LEN :: nat where "DNS_HEADER_LEN = 12"
definition CLASS_IN :: u16 where "CLASS_IN = 1"
definition TYPE_CNAME :: u16 where "TYPE_CNAME = 5"
definition TYPE_OPT :: u16 where "TYPE_OPT = 41"
definition RCODE_NOERROR :: u8 where "RCODE_NOERROR = 0"
definition RCODE_NXDOMAIN :: u8 where "RCODE_NXDOMAIN = 3"

lemmas dns_limits =
  MAX_MESSAGE_SIZE_def MAX_RESPONSE_RECORDS_def MAX_NAME_LEN_def MAX_COMPRESSION_JUMPS_def
  MAX_OPAQUE_RECORDS_def DNS_HEADER_LEN_def

datatype dns_error =
  MessageTooLarge | Truncated | TruncatedResponse | NotAQuery | NotAResponse
| UnsupportedOpcode | ReservedFlag | InvalidQuestionCount | QueryContainsAnswers
| QueryContainsAuthorityRecords | TooManyAnswers | TooManyRecords
| UnsupportedQuestionType | UnsupportedQuestionClass | InvalidName | NameTooLong
| CompressionPointerLoop | TooManyCompressionJumps | InvalidRecord | InvalidCnameChain
| TrailingData | EmptyCacheValue | TooManyCacheAddresses | AddressFamilyMismatch
| InvalidRcode | ResponseMismatch | ExpectedOpaqueQuestion | CacheAllocation

datatype query_type = TypeA | TypeAaaa

fun query_type_wire :: "query_type \<Rightarrow> u16" where
  "query_type_wire TypeA = 1"
| "query_type_wire TypeAaaa = 28"

definition query_type_from_wire :: "u16 \<Rightarrow> dns_error + query_type" where
  "query_type_from_wire value =
     (if value = 1 then Inr TypeA
      else if value = 28 then Inr TypeAaaa
      else Inl UnsupportedQuestionType)"

datatype dns_query_kind = Address query_type | Opaque

record wire_question =
  wq_name :: bytes
  wq_type :: u16
  wq_class :: u16

record classified_query =
  cq_id :: u16
  cq_recursion_desired :: bool
  cq_question :: wire_question
  cq_kind :: dns_query_kind
  cq_question_wire :: bytes
  cq_digest :: bytes

definition is_opaque :: "classified_query \<Rightarrow> bool" where
  "is_opaque query \<longleftrightarrow> cq_kind query = Opaque"

datatype opaque_cache_policy = NotCacheable | Positive u32 | Negative u32

fun policy_lifetime_secs :: "opaque_cache_policy \<Rightarrow> u32 option" where
  "policy_lifetime_secs NotCacheable = None"
| "policy_lifetime_secs (Positive lifetime) = Some lifetime"
| "policy_lifetime_secs (Negative lifetime) = Some lifetime"

record validated_response =
  vr_wire :: bytes
  vr_question :: wire_question
  vr_digest :: bytes
  vr_ttl_offsets :: "u16 list"
  vr_rcode :: u16
  vr_cache_policy :: opaque_cache_policy

record dns_question =
  dq_name :: bytes
  dq_type :: query_type

datatype record_data = DataA u32 | DataAaaa u128 | DataCname bytes

record dns_record =
  rr_name :: bytes
  rr_ttl :: u32
  rr_data :: record_data

record dns_message =
  dm_id :: u16
  dm_is_response :: bool
  dm_authoritative :: bool
  dm_recursion_desired :: bool
  dm_recursion_available :: bool
  dm_rcode :: u8
  dm_question :: dns_question
  dm_answers :: "dns_record list"
  dm_answer_count :: u16

record wire_question_header =
  wh_id :: u16
  wh_flags :: u16
  wh_answer_count :: u16
  wh_authority_count :: u16
  wh_additional_count :: u16
  wh_question :: wire_question
  wh_records_offset :: nat

record parsed_question_header =
  ph_id :: u16
  ph_flags :: u16
  ph_answer_count :: u16
  ph_authority_count :: u16
  ph_additional_count :: u16
  ph_question :: dns_question
  ph_records_offset :: nat

record scanned_record =
  sr_owner :: bytes
  sr_type :: u16
  sr_class :: u16
  sr_ttl :: u32
  sr_ttl_offset :: u16
  sr_data_start :: u16
  sr_data_end :: u16

section \<open>Checked reads\<close>

definition saturating_add :: "nat \<Rightarrow> nat \<Rightarrow> nat" where
  "saturating_add a b = min (a + b) usize_max"

definition dns_read_u16 :: "bytes \<Rightarrow> nat \<Rightarrow> dns_error + u16" where
  "dns_read_u16 message offset =
     (case get_range message offset (saturating_add offset 2) of
        None \<Rightarrow> Inl Truncated
      | Some bs \<Rightarrow> if length bs = 2 then Inr (u16_of bs) else Inl Truncated)"

definition dns_read_u32 :: "bytes \<Rightarrow> nat \<Rightarrow> dns_error + u32" where
  "dns_read_u32 message offset =
     (case get_range message offset (saturating_add offset 4) of
        None \<Rightarrow> Inl Truncated
      | Some bs \<Rightarrow> if length bs = 4 then Inr (u32_of bs) else Inl Truncated)"

text \<open>\<^verbatim>\<open>cursor.checked_add(n).ok_or(DnsError::Truncated)\<close>, and the form that is also checked against the
  end of the message.\<close>

definition advance :: "nat \<Rightarrow> nat \<Rightarrow> dns_error + nat" where
  "advance cursor n = ok_or Truncated (checked_add cursor n)"

definition advance_within :: "dns_error \<Rightarrow> nat \<Rightarrow> nat \<Rightarrow> nat \<Rightarrow> dns_error + nat" where
  "advance_within err limit cursor n =
     (case checked_add cursor n of
        None \<Rightarrow> Inl err
      | Some next \<Rightarrow> if next \<le> limit then Inr next else Inl err)"

text \<open>\<^verbatim>\<open>u16::try_from(cursor).map_err(|_| DnsError::InvalidRecord)\<close>.\<close>

definition cursor_u16 :: "nat \<Rightarrow> dns_error + u16" where
  "cursor_u16 cursor = (if cursor \<le> 65535 then Inr (of_nat cursor) else Inl InvalidRecord)"

section \<open>Names\<close>

definition valid_label_byte :: "u8 \<Rightarrow> bool" where
  "valid_label_byte b \<longleftrightarrow> is_ascii_alphanumeric b \<or> b = 0x2D \<or> b = 0x5F"

definition bad_label :: "bytes \<Rightarrow> bool" where
  "bad_label label \<longleftrightarrow>
     label = [] \<or> 63 < length label \<or> \<not> list_all valid_label_byte label"

definition canonicalize_name :: "bytes \<Rightarrow> dns_error + bytes" where
  "canonicalize_name raw =
     (let name = unwrap_or (strip_suffix1 0x2E raw) raw in
      if name = [] then Inl InvalidName
      else if MAX_NAME_LEN < length name then Inl NameTooLong
      else if list_ex bad_label (split_on 0x2E name) then Inl InvalidName
      else Inr (ascii_lowercase name))"

definition encode_label :: "bytes \<Rightarrow> bytes" where
  "encode_label label = of_nat (length label) # label"

definition encode_name :: "bytes \<Rightarrow> bytes" where
  "encode_name name = concat (map encode_label (split_on 0x2E name)) @ [0]"

definition push_label :: "bytes \<Rightarrow> bytes \<Rightarrow> bytes" where
  "push_label name label =
     (if name = [] then [] else name @ [0x2E]) @ ascii_lowercase label"

definition pointer_target :: "u8 \<Rightarrow> u8 \<Rightarrow> nat" where
  "pointer_target len next = push_bit 8 (unat (len AND 0x3F)) OR unat next"

function decode_name_loop ::
  "bytes \<Rightarrow> nat \<Rightarrow> nat \<Rightarrow> bool \<Rightarrow> nat \<Rightarrow> nat list \<Rightarrow> bytes \<Rightarrow> dns_error + bytes \<times> nat" where
  "decode_name_loop message cursor consumed jumped jumps visited name =
     (case get_at message cursor of
        None \<Rightarrow> Inl Truncated
      | Some len \<Rightarrow>
          if len AND 0xC0 = 0xC0 then
            (case get_at message (cursor + 1) of
               None \<Rightarrow> Inl Truncated
             | Some next \<Rightarrow>
                 let target = pointer_target len next in
                 if length message \<le> target then Inl Truncated
                 else if target \<in> set visited then Inl CompressionPointerLoop
                 else if MAX_COMPRESSION_JUMPS \<le> jumps then Inl TooManyCompressionJumps
                 else (case (if jumped then Inr consumed else advance consumed 2) of
                         Inl e \<Rightarrow> Inl e
                       | Inr consumed' \<Rightarrow>
                           decode_name_loop message target consumed' True (jumps + 1)
                             (visited @ [target]) name))
          else if len AND 0xC0 = 0 then
            (let label_len = unat len in
             if label_len = 0 then
               (case (if jumped then Inr consumed else advance consumed 1) of
                  Inl e \<Rightarrow> Inl e
                | Inr consumed' \<Rightarrow> Inr (name, consumed'))
             else if 63 < label_len then Inl InvalidName
             else (case advance cursor 1 of
                     Inl e \<Rightarrow> Inl e
                   | Inr label_start \<Rightarrow>
                 (case advance_within Truncated (length message) label_start label_len of
                    Inl e \<Rightarrow> Inl e
                  | Inr label_end \<Rightarrow>
                      let label = subslice message label_start label_end;
                          separator = (if name = [] then 0 else 1) in
                      if \<not> list_all valid_label_byte label then Inl InvalidName
                      else (case advance_within NameTooLong MAX_NAME_LEN (length name)
                                   (separator + label_len) of
                              Inl e \<Rightarrow> Inl e
                            | Inr new_len \<Rightarrow>
                          (case (if jumped then Inr consumed
                                 else advance consumed (1 + label_len)) of
                             Inl e \<Rightarrow> Inl e
                           | Inr consumed' \<Rightarrow>
                               decode_name_loop message label_end consumed' jumped jumps
                                 visited (push_label name label))))))
          else Inl InvalidName)"
  by pat_completeness auto

lemma checked_add_Some_iff [res_simps]:
  "checked_add a b = Some c \<longleftrightarrow> c = a + b \<and> a + b \<le> usize_max"
  by (auto simp: checked_add_def)

lemma advance_Inr_iff [res_simps]: "advance a n = Inr b \<longleftrightarrow> b = a + n \<and> a + n \<le> usize_max"
  by (simp add: advance_def res_simps)

lemma advance_within_Inr_iff [res_simps]:
  "advance_within e limit a n = Inr b \<longleftrightarrow> b = a + n \<and> a + n \<le> usize_max \<and> a + n \<le> limit"
  by (auto simp: advance_within_def checked_add_def)

lemma cursor_u16_Inr_iff [res_simps]:
  "cursor_u16 c = Inr w \<longleftrightarrow> c = unat w"
  by (auto simp: cursor_u16_def)

lemma length_push_label [simp]:
  "length (push_label name label) =
     length name + (if name = [] then 0 else 1) + length label"
  by (simp add: push_label_def)

termination decode_name_loop
  by (relation "measure (\<lambda>(message, cursor, consumed, jumped, jumps, visited, name).
        (MAX_COMPRESSION_JUMPS - jumps) + (MAX_NAME_LEN - length name))")
    (auto simp: res_simps)

declare decode_name_loop.simps [simp del]

definition decode_name :: "bytes \<Rightarrow> nat \<Rightarrow> dns_error + bytes \<times> nat" where
  "decode_name message offset =
     (if length message \<le> offset then Inl Truncated
      else decode_name_loop message offset 0 False 0 [offset] [])"

section \<open>Questions\<close>

definition encode_wire_question :: "wire_question \<Rightarrow> bytes" where
  "encode_wire_question question =
     encode_name (wq_name question) @ be16 (wq_type question) @ be16 (wq_class question)"

definition total_records :: "u16 \<Rightarrow> u16 \<Rightarrow> u16 \<Rightarrow> nat option" where
  "total_records answers authority additional =
     (case checked_add (unat answers) (unat authority) of
        None \<Rightarrow> None
      | Some count \<Rightarrow> checked_add count (unat additional))"

text \<open>The part of \<^verbatim>\<open>parse_wire_question_header_inner\<close> after the header: the single question.\<close>

definition parse_wire_question :: "bytes \<Rightarrow> nat \<Rightarrow> dns_error + wire_question \<times> nat" where
  "parse_wire_question message start =
     and_then (decode_name message start) (\<lambda>(question_name, consumed).
     if question_name = [] then Inl InvalidName
     else and_then (advance start consumed) (\<lambda>at_type.
       and_then (dns_read_u16 message at_type) (\<lambda>query_type.
       and_then (advance at_type 2) (\<lambda>at_class.
       and_then (dns_read_u16 message at_class) (\<lambda>query_class.
       if query_class \<noteq> CLASS_IN then Inl UnsupportedQuestionClass
       else and_then (advance at_class 2) (\<lambda>cursor.
         Inr (\<lparr>wq_name = question_name, wq_type = query_type, wq_class = query_class\<rparr>,
              cursor)))))))"

definition parse_wire_question_header_inner ::
  "bytes \<Rightarrow> bool \<Rightarrow> dns_error + wire_question_header" where
  "parse_wire_question_header_inner message enforce_answer_limit =
     (if MAX_MESSAGE_SIZE < length message then Inl MessageTooLarge
      else if length message < DNS_HEADER_LEN then Inl Truncated
      else and_then (dns_read_u16 message 0) (\<lambda>id.
        and_then (dns_read_u16 message 2) (\<lambda>flags.
        if drop_bit 11 flags AND 0x0F \<noteq> 0 then Inl UnsupportedOpcode
        else if flags AND 0x0040 \<noteq> 0 then Inl ReservedFlag
        else and_then (dns_read_u16 message 4) (\<lambda>question_count.
          and_then (dns_read_u16 message 6) (\<lambda>answer_count.
          and_then (dns_read_u16 message 8) (\<lambda>authority_count.
          and_then (dns_read_u16 message 10) (\<lambda>additional_count.
          if question_count \<noteq> 1 then Inl InvalidQuestionCount
          else and_then (ok_or TooManyAnswers
                           (total_records answer_count authority_count additional_count))
            (\<lambda>record_count.
            if enforce_answer_limit \<and> MAX_RESPONSE_RECORDS < record_count
            then Inl TooManyAnswers
            else and_then (parse_wire_question message DNS_HEADER_LEN)
              (\<lambda>(question, cursor).
              Inr \<lparr>wh_id = id, wh_flags = flags, wh_answer_count = answer_count,
                   wh_authority_count = authority_count,
                   wh_additional_count = additional_count,
                   wh_question = question, wh_records_offset = cursor\<rparr>)))))))))"

definition parse_wire_question_header :: "bytes \<Rightarrow> dns_error + wire_question_header" where
  "parse_wire_question_header message = parse_wire_question_header_inner message False"

definition parse_question_header :: "bytes \<Rightarrow> bool \<Rightarrow> dns_error + parsed_question_header" where
  "parse_question_header message enforce_answer_limit =
     and_then (parse_wire_question_header_inner message enforce_answer_limit) (\<lambda>parsed.
     and_then (query_type_from_wire (wq_type (wh_question parsed))) (\<lambda>query_type.
     Inr \<lparr>ph_id = wh_id parsed, ph_flags = wh_flags parsed,
          ph_answer_count = wh_answer_count parsed,
          ph_authority_count = wh_authority_count parsed,
          ph_additional_count = wh_additional_count parsed,
          ph_question = \<lparr>dq_name = wq_name (wh_question parsed), dq_type = query_type\<rparr>,
          ph_records_offset = wh_records_offset parsed\<rparr>))"

section \<open>Records\<close>

definition scan_record :: "bytes \<Rightarrow> nat \<Rightarrow> dns_error + scanned_record \<times> nat" where
  "scan_record message start =
     and_then (decode_name message start) (\<lambda>(owner, consumed).
     and_then (advance start consumed) (\<lambda>at_type.
     and_then (dns_read_u16 message at_type) (\<lambda>record_type.
     and_then (advance at_type 2) (\<lambda>at_class.
     and_then (dns_read_u16 message at_class) (\<lambda>record_class.
     and_then (advance at_class 2) (\<lambda>at_ttl.
     and_then (cursor_u16 at_ttl) (\<lambda>ttl_offset.
     and_then (dns_read_u32 message at_ttl) (\<lambda>ttl.
     and_then (advance at_ttl 4) (\<lambda>at_len.
     and_then (dns_read_u16 message at_len) (\<lambda>data_len.
     and_then (advance at_len 2) (\<lambda>at_data.
     and_then (cursor_u16 at_data) (\<lambda>data_start.
     and_then (advance_within Truncated (length message) at_data (unat data_len)) (\<lambda>cursor.
     and_then (cursor_u16 cursor) (\<lambda>data_end.
     Inr (\<lparr>sr_owner = owner, sr_type = record_type, sr_class = record_class, sr_ttl = ttl,
           sr_ttl_offset = ttl_offset, sr_data_start = data_start, sr_data_end = data_end\<rparr>,
          cursor)))))))))))))))"

function validate_edns_options :: "bytes \<Rightarrow> nat \<Rightarrow> nat \<Rightarrow> dns_error + unit" where
  "validate_edns_options message cursor end_pos =
     (if cursor < end_pos then
        if end_pos - cursor < 4 then Inl InvalidRecord
        else (case dns_read_u16 message cursor of
                Inl e \<Rightarrow> Inl e
              | Inr option_code \<Rightarrow>
            (case dns_read_u16 message (cursor + 2) of
               Inl e \<Rightarrow> Inl e
             | Inr option_len \<Rightarrow>
                 (case advance_within InvalidRecord end_pos (cursor + 4) (unat option_len) of
                    Inl e \<Rightarrow> Inl e
                  | Inr next \<Rightarrow> validate_edns_options message next end_pos)))
      else Inr ())"
  by pat_completeness auto

termination validate_edns_options
  by (relation "measure (\<lambda>(message, cursor, end_pos). end_pos - cursor)")
    (auto simp: res_simps)

declare validate_edns_options.simps [simp del]

definition parse_record_data ::
  "bytes \<Rightarrow> u16 \<Rightarrow> u16 \<Rightarrow> nat \<Rightarrow> nat \<Rightarrow> dns_error + record_data option" where
  "parse_record_data message record_type class_code data_start data_end =
     (let data = subslice message data_start data_end in
      if class_code \<noteq> CLASS_IN then Inr None
      else if record_type = 1 then
        (if length data = 4 then Inr (Some (DataA (u32_of data))) else Inl InvalidRecord)
      else if record_type = 28 then
        (if length data = 16 then Inr (Some (DataAaaa (u128_of data))) else Inl InvalidRecord)
      else if record_type = TYPE_CNAME then
        and_then (decode_name message data_start) (\<lambda>(target, cname_len).
        if target = [] \<or> cname_len \<noteq> data_end - data_start then Inl InvalidRecord
        else Inr (Some (DataCname target)))
      else Inr None)"

definition parse_record :: "bytes \<Rightarrow> nat \<Rightarrow> dns_error + dns_record option \<times> nat" where
  "parse_record message start =
     and_then (decode_name message start) (\<lambda>(name, consumed).
     and_then (advance start consumed) (\<lambda>at_type.
     and_then (dns_read_u16 message at_type) (\<lambda>record_type.
     and_then (advance at_type 2) (\<lambda>at_class.
     and_then (dns_read_u16 message at_class) (\<lambda>class_code.
     and_then (advance at_class 2) (\<lambda>at_ttl.
     and_then (dns_read_u32 message at_ttl) (\<lambda>ttl.
     and_then (advance at_ttl 4) (\<lambda>at_len.
     and_then (dns_read_u16 message at_len) (\<lambda>data_len.
     and_then (advance at_len 2) (\<lambda>data_start.
     and_then (advance_within Truncated (length message) data_start (unat data_len)) (\<lambda>data_end.
     and_then (parse_record_data message record_type class_code data_start data_end) (\<lambda>data.
     Inr (map_option (\<lambda>d. \<lparr>rr_name = name, rr_ttl = ttl, rr_data = d\<rparr>) data,
          data_end)))))))))))))"

section \<open>Typed messages\<close>

text \<open>\<^verbatim>\<open>for _ in 0..count { parse_record(message, &mut cursor)? }\<close>, keeping the records that are
  \<^verbatim>\<open>Some\<close>.\<close>

fun parse_records :: "bytes \<Rightarrow> nat \<Rightarrow> nat \<Rightarrow> dns_error + dns_record list \<times> nat" where
  "parse_records message 0 cursor = Inr ([], cursor)"
| "parse_records message (Suc count) cursor =
     and_then (parse_record message cursor) (\<lambda>(found, next).
     and_then (parse_records message count next) (\<lambda>(others, final).
     Inr ((case found of None \<Rightarrow> others | Some r \<Rightarrow> r # others), final)))"

definition parse_message :: "bytes \<Rightarrow> dns_error + dns_message" where
  "parse_message message =
     and_then (parse_question_header message True) (\<lambda>header.
     and_then (parse_records message (unat (ph_answer_count header)) (ph_records_offset header))
       (\<lambda>(answers, c1).
     and_then (parse_records message (unat (ph_authority_count header)) c1) (\<lambda>(authority, c2).
     and_then (parse_records message (unat (ph_additional_count header)) c2)
       (\<lambda>(additional, cursor).
     if cursor \<noteq> length message then Inl TrailingData
     else
       (let flags = ph_flags header in
        Inr \<lparr>dm_id = ph_id header,
             dm_is_response = (flags AND 0x8000 \<noteq> 0),
             dm_authoritative = (flags AND 0x0400 \<noteq> 0),
             dm_recursion_desired = (flags AND 0x0100 \<noteq> 0),
             dm_recursion_available = (flags AND 0x0080 \<noteq> 0),
             dm_rcode = ucast (flags AND 0x000F),
             dm_question = ph_question header,
             dm_answers = answers,
             dm_answer_count = ph_answer_count header\<rparr>)))))"

definition parse_query :: "bytes \<Rightarrow> dns_error + dns_message" where
  "parse_query message =
     and_then (parse_message message) (\<lambda>parsed.
     if dm_is_response parsed then Inl NotAQuery
     else if dm_answer_count parsed \<noteq> 0 then Inl QueryContainsAnswers
     else Inr parsed)"

definition parse_response :: "bytes \<Rightarrow> dns_error + dns_message" where
  "parse_response message =
     and_then (parse_message message) (\<lambda>parsed.
     if \<not> dm_is_response parsed then Inl NotAResponse
     else if u16_of [message ! 2, message ! 3] AND 0x0200 \<noteq> 0 then Inl TruncatedResponse
     else Inr parsed)"

definition validate_response_identity :: "dns_message \<Rightarrow> bytes \<Rightarrow> dns_error + unit" where
  "validate_response_identity query response =
     and_then (parse_question_header response False) (\<lambda>parsed.
     if ph_flags parsed AND 0x8000 = 0 then Inl NotAResponse
     else if ph_id parsed \<noteq> dm_id query \<or> ph_question parsed \<noteq> dm_question query
     then Inl ResponseMismatch
     else if ph_flags parsed AND 0x0200 \<noteq> 0 then Inl TruncatedResponse
     else Inr ())"

definition build_query :: "u16 \<Rightarrow> bytes \<Rightarrow> query_type \<Rightarrow> dns_error + bytes" where
  "build_query qid raw query_type =
     and_then (canonicalize_name raw) (\<lambda>name.
     Inr (be16 qid @ be16 0x0100 @ be16 1 @ be16 0 @ be16 0 @ be16 0 @
          encode_name name @ be16 (query_type_wire query_type) @ be16 CLASS_IN))"

section \<open>Opaque messages\<close>

text \<open>The additional section of a query: at most one OPT record with well-formed options.\<close>

fun scan_query_additional :: "bytes \<Rightarrow> nat \<Rightarrow> nat \<Rightarrow> dns_error + nat" where
  "scan_query_additional message 0 cursor = Inr cursor"
| "scan_query_additional message (Suc count) cursor =
     and_then (scan_record message cursor) (\<lambda>(rr, next).
     if sr_type rr \<noteq> TYPE_OPT \<or> sr_owner rr \<noteq> [] then Inl InvalidRecord
     else and_then (validate_edns_options message (unat (sr_data_start rr))
                      (unat (sr_data_end rr)))
       (\<lambda>_. scan_query_additional message count next))"

definition classify_query :: "(bytes \<Rightarrow> bytes) \<Rightarrow> bytes \<Rightarrow> dns_error + classified_query" where
  "classify_query sha256 message =
     and_then (parse_wire_question_header message) (\<lambda>parsed.
     if wh_flags parsed AND 0x8000 \<noteq> 0 then Inl NotAQuery
     else if wh_answer_count parsed \<noteq> 0 then Inl QueryContainsAnswers
     else if wh_authority_count parsed \<noteq> 0 then Inl QueryContainsAuthorityRecords
     else if 1 < unat (wh_additional_count parsed) then Inl InvalidRecord
     else and_then (scan_query_additional message (unat (wh_additional_count parsed))
                      (wh_records_offset parsed)) (\<lambda>cursor.
       if cursor \<noteq> length message then Inl TrailingData
       else Inr \<lparr>cq_id = wh_id parsed,
                 cq_recursion_desired = (wh_flags parsed AND 0x0100 \<noteq> 0),
                 cq_question = wh_question parsed,
                 cq_kind =
                   (if wq_type (wh_question parsed) = 1 then Address TypeA
                    else if wq_type (wh_question parsed) = 28 then Address TypeAaaa
                    else Opaque),
                 cq_question_wire = encode_wire_question (wh_question parsed),
                 cq_digest = sha256 (drop 2 message)\<rparr>))"

definition synthesize_empty_response :: "classified_query \<Rightarrow> u8 \<Rightarrow> dns_error + bytes" where
  "synthesize_empty_response query rcode =
     (if 0x0F < rcode then Inl InvalidRcode
      else
        (let base = 0x8000 OR 0x0080 OR ucast rcode;
             flags = (if cq_recursion_desired query then base OR 0x0100 else base) in
         Inr (be16 (cq_id query) @ be16 flags @ be16 1 @ be16 0 @ be16 0 @ be16 0 @
              cq_question_wire query)))"

text \<open>\<^verbatim>\<open>synthesize_servfail_response\<close>: \<open>None\<close> is the panic of its \<^verbatim>\<open>expect\<close>.\<close>

definition synthesize_servfail_response :: "classified_query \<Rightarrow> bytes option" where
  "synthesize_servfail_response query =
     (case synthesize_empty_response query 2 of Inl _ \<Rightarrow> None | Inr response \<Rightarrow> Some response)"

definition clamp_ttl :: "u32 \<Rightarrow> u32" where
  "clamp_ttl ttl =
     (if ttl < MIN_TTL_SECS then MIN_TTL_SECS
      else if MAX_TTL_SECS < ttl then MAX_TTL_SECS
      else ttl)"

text \<open>The variables of the section loop of \<^verbatim>\<open>validate_opaque_response\<close>.\<close>

record opaque_scan =
  os_cursor :: nat
  os_ttl_offsets :: "u16 list"
  os_minimum_ttl :: "u32 option"
  os_seen_opt :: bool
  os_extended_rcode :: u8
  os_authority_has_soa :: bool

definition scan_opaque_record ::
  "bytes \<Rightarrow> u16 \<Rightarrow> nat \<Rightarrow> opaque_scan \<Rightarrow> dns_error + opaque_scan" where
  "scan_opaque_record response query_class sect st =
     and_then (scan_record response (os_cursor st)) (\<lambda>(rr, next).
     let soa = (os_authority_has_soa st \<or>
                (sect = 1 \<and> sr_type rr = 6 \<and> sr_class rr = query_class));
         st1 = st\<lparr>os_cursor := next, os_authority_has_soa := soa\<rparr> in
     if sr_type rr = TYPE_OPT then
       (if sect \<noteq> 2 \<or> os_seen_opt st \<or> sr_owner rr \<noteq> [] then Inl InvalidRecord
        else and_then (validate_edns_options response (unat (sr_data_start rr))
                         (unat (sr_data_end rr)))
          (\<lambda>_. Inr (st1\<lparr>os_seen_opt := True,
                        os_extended_rcode := ucast (drop_bit 24 (sr_ttl rr))\<rparr>)))
     else
       Inr (st1\<lparr>os_ttl_offsets := os_ttl_offsets st @ [sr_ttl_offset rr],
                os_minimum_ttl :=
                  Some (case os_minimum_ttl st of None \<Rightarrow> sr_ttl rr
                        | Some v \<Rightarrow> min v (sr_ttl rr))\<rparr>))"

fun scan_opaque_section ::
  "bytes \<Rightarrow> u16 \<Rightarrow> nat \<Rightarrow> nat \<Rightarrow> opaque_scan \<Rightarrow> dns_error + opaque_scan" where
  "scan_opaque_section response query_class sect 0 st = Inr st"
| "scan_opaque_section response query_class sect (Suc count) st =
     and_then (scan_opaque_record response query_class sect st)
       (scan_opaque_section response query_class sect count)"

definition opaque_policy :: "u16 \<Rightarrow> u16 \<Rightarrow> opaque_scan \<Rightarrow> opaque_cache_policy" where
  "opaque_policy flags answer_count st =
     (let header_rcode = ucast (flags AND 0x000F) :: u8 in
      if os_extended_rcode st \<noteq> 0 then NotCacheable
      else if header_rcode = RCODE_NXDOMAIN then Negative NEGATIVE_TTL_SECS
      else if header_rcode = RCODE_NOERROR \<and> answer_count = 0 then
        (if os_authority_has_soa st then Negative NEGATIVE_TTL_SECS else NotCacheable)
      else if header_rcode = RCODE_NOERROR then
        (case os_minimum_ttl st of
           None \<Rightarrow> NotCacheable
         | Some ttl \<Rightarrow> if ttl = 0 then NotCacheable else Positive (clamp_ttl ttl))
      else NotCacheable)"

definition validate_opaque_response ::
  "classified_query \<Rightarrow> bytes \<Rightarrow> dns_error + validated_response" where
  "validate_opaque_response query response =
     (if \<not> is_opaque query then Inl ExpectedOpaqueQuestion
      else and_then (parse_wire_question_header response) (\<lambda>parsed.
        if wh_flags parsed AND 0x8000 = 0 then Inl NotAResponse
        else if wh_id parsed \<noteq> cq_id query \<or> wh_question parsed \<noteq> cq_question query
        then Inl ResponseMismatch
        else if wh_flags parsed AND 0x0200 \<noteq> 0 then Inl TruncatedResponse
        else and_then (ok_or TooManyRecords (total_records (wh_answer_count parsed)
                         (wh_authority_count parsed) (wh_additional_count parsed)))
          (\<lambda>record_count.
          if MAX_OPAQUE_RECORDS < record_count then Inl TooManyRecords
          else
            let query_class = wq_class (cq_question query) in
            and_then (scan_opaque_section response query_class 0
                        (unat (wh_answer_count parsed))
                        \<lparr>os_cursor = wh_records_offset parsed, os_ttl_offsets = [],
                         os_minimum_ttl = None, os_seen_opt = False,
                         os_extended_rcode = 0, os_authority_has_soa = False\<rparr>) (\<lambda>s1.
            and_then (scan_opaque_section response query_class 1
                        (unat (wh_authority_count parsed)) s1) (\<lambda>s2.
            and_then (scan_opaque_section response query_class 2
                        (unat (wh_additional_count parsed)) s2) (\<lambda>st.
            if os_cursor st \<noteq> length response then Inl TrailingData
            else Inr
              \<lparr>vr_wire = response, vr_question = wh_question parsed,
               vr_digest = cq_digest query, vr_ttl_offsets = os_ttl_offsets st,
               vr_rcode =
                 (push_bit 4 (ucast (os_extended_rcode st)) OR
                  ucast (ucast (wh_flags parsed AND 0x000F) :: u8)),
               vr_cache_policy =
                 opaque_policy (wh_flags parsed) (wh_answer_count parsed) st\<rparr>))))))"

section \<open>Facts on reads and labels\<close>

lemma usize_small: "n \<le> 1000000 \<Longrightarrow> n \<le> usize_max"
  by (simp add: usize_max_def)

lemma dns_read_u16_Inr_iff [res_simps]:
  "dns_read_u16 message offset = Inr w \<longleftrightarrow>
     offset + 2 \<le> length message \<and> offset + 2 \<le> usize_max \<and>
     w = u16_of (subslice message offset (offset + 2))"
  by (auto simp: dns_read_u16_def saturating_add_def get_range_def subslice_def min_def)

lemma dns_read_u32_Inr_iff [res_simps]:
  "dns_read_u32 message offset = Inr w \<longleftrightarrow>
     offset + 4 \<le> length message \<and> offset + 4 \<le> usize_max \<and>
     w = u32_of (subslice message offset (offset + 4))"
  by (auto simp: dns_read_u32_def saturating_add_def get_range_def subslice_def min_def)

lemma dns_read_u16_at:
  "offset = length pre \<Longrightarrow> offset + 2 \<le> usize_max \<Longrightarrow>
   dns_read_u16 (pre @ be16 w @ rest) offset = Inr w"
  by (simp add: dns_read_u16_Inr_iff slice_at)

lemma total_records_Some [simp]:
  "total_records a b c = Some (unat a + unat b + unat c)"
proof -
  have "unat a + unat b + unat c \<le> 65535 + 65535 + 65535"
    by (intro add_mono unat_u16_le)
  then show ?thesis
    by (simp add: total_records_def checked_add_def usize_max_def)
qed

lemma label_length_bits: "n \<le> 63 \<Longrightarrow> (of_nat n :: u8) AND 0xC0 = 0"
proof -
  have "\<forall>n \<in> set [0..<64]. (of_nat n :: u8) AND 0xC0 = 0"
    by code_simp
  then show "n \<le> 63 \<Longrightarrow> (of_nat n :: u8) AND 0xC0 = 0" by simp
qed

lemma valid_label_byte_no_dot: "list_all valid_label_byte label \<Longrightarrow> 0x2E \<notin> set label"
  by (auto simp: list_all_iff valid_label_byte_def is_ascii_alphanumeric_def is_ascii_digit_def
      is_ascii_uppercase_def is_ascii_lowercase_def word_le_nat_alt)

lemma valid_label_byte_lower: "valid_label_byte b \<Longrightarrow> valid_label_byte (to_ascii_lowercase b)"
  by (auto simp: valid_label_byte_def to_ascii_lowercase_def is_ascii_alphanumeric_def
      is_ascii_uppercase_def is_ascii_lowercase_def word_le_nat_alt unat_word_ariths)

lemma bad_label_lower: "\<not> bad_label label \<Longrightarrow> \<not> bad_label (ascii_lowercase label)"
  by (auto simp: bad_label_def ascii_lowercase_def list_all_iff valid_label_byte_lower)

lemma ascii_lowercase_Nil_iff [simp]: "ascii_lowercase w = [] \<longleftrightarrow> w = []"
  by (simp add: ascii_lowercase_def)

text \<open>A canonical name is its own canonical form; the labels say when.\<close>

definition canonical :: "bytes \<Rightarrow> bool" where
  "canonical name \<longleftrightarrow> canonicalize_name name = Inr name"

lemma to_ascii_lowercase_dot_iff: "to_ascii_lowercase b = 0x2E \<longleftrightarrow> b = 0x2E"
  by (auto simp: to_ascii_lowercase_def is_ascii_uppercase_def word_le_nat_alt word_unat_eq_iff
      unat_word_ariths)

lemma split_on_lowercase:
  "split_on 0x2E (ascii_lowercase bs) = map ascii_lowercase (split_on 0x2E bs)"
  by (induction bs)
    (auto simp: ascii_lowercase_def to_ascii_lowercase_dot_iff split: list.split)

lemma split_on_snoc: "c \<notin> set w \<Longrightarrow> split_on c (bs @ c # w) = split_on c bs @ [w]"
  by (induction bs) (auto simp: split_on_single split: list.split)

lemma split_on_last: "bs \<noteq> [] \<Longrightarrow> last bs = c \<Longrightarrow> [] \<in> set (split_on c bs)"
  by (metis append_butlast_last_id empty_iff empty_set in_set_conv_decomp split_on_snoc)

lemma canonical_iff:
  "canonical name \<longleftrightarrow>
     name \<noteq> [] \<and> length name \<le> MAX_NAME_LEN \<and>
     (\<forall>label \<in> set (split_on 0x2E name). \<not> bad_label label) \<and> ascii_lowercase name = name"
proof (cases "name \<noteq> [] \<and> last name = 0x2E")
  case True
  then have "length (butlast name) < length name" by simp
  then have "\<not> canonical name"
    using True
    by (cases name)
      (auto simp: canonical_def canonicalize_name_def strip_suffix1_def Let_def
        dest!: arg_cong [of _ _ length])
  moreover have "[] \<in> set (split_on 0x2E name)"
    using True by (simp add: split_on_last)
  ultimately show ?thesis by (auto simp: bad_label_def)
next
  case False
  then show ?thesis
    by (auto simp: canonical_def canonicalize_name_def strip_suffix1_def Let_def list_ex_iff
        split: if_splits)
qed

lemma canonicalize_name_canonical: "canonicalize_name raw = Inr name \<Longrightarrow> canonical name"
  by (auto simp: canonical_iff canonicalize_name_def Let_def split_on_lowercase list_ex_iff
      bad_label_lower split: if_splits)

lemma canonicalNil [simp]: "\<not> canonical []"
  by (simp add: canonical_iff)

lemma canonical_push_label:
  assumes "name = [] \<or> canonical name" "\<not> bad_label label"
    and "length (push_label name label) \<le> MAX_NAME_LEN"
  shows "canonical (push_label name label)"
proof -
  have dot: "0x2E \<notin> set (ascii_lowercase label)"
    using bad_label_lower [OF assms(2)] valid_label_byte_no_dot by (auto simp: bad_label_def)
  have labels: "split_on 0x2E (push_label name label) =
      (if name = [] then [] else split_on 0x2E name) @ [ascii_lowercase label]"
    using dot by (simp add: push_label_def split_on_single split_on_snoc)
  have "ascii_lowercase [0x2E] = [0x2E]"
    by (simp add: ascii_lowercase_def to_ascii_lowercase_def is_ascii_uppercase_def)
  then have "ascii_lowercase (push_label name label) = push_label name label"
    using assms(1)
    by (auto simp: push_label_def canonical_iff ascii_lowercase_def)
  with assms labels show ?thesis
    by (auto simp: canonical_iff bad_label_lower) (auto simp: push_label_def bad_label_def ascii_lowercase_def)
qed

section \<open>Decoding names\<close>

lemma bad_label_alt:
  "bad_label label \<longleftrightarrow>
     length label = 0 \<or> 63 < length label \<or> \<not> list_all valid_label_byte label"
  by (simp add: bad_label_def)

text \<open>One iteration of the loop, when the call succeeds.\<close>

lemma decode_name_loop_cases:
  assumes "decode_name_loop message cursor consumed jumped jumps visited name = Inr r"
  obtains
    (stop) "cursor < length message"
      "r = (name, if jumped then consumed else consumed + 1)"
  | (jump) target where "cursor + 1 < length message" "target < length message"
      "jumps < MAX_COMPRESSION_JUMPS"
      "decode_name_loop message target (if jumped then consumed else consumed + 2) True
         (jumps + 1) (visited @ [target]) name = Inr r"
  | (label) len where "cursor + 1 + len \<le> length message"
      "\<not> bad_label (subslice message (cursor + 1) (cursor + 1 + len))"
      "length (push_label name (subslice message (cursor + 1) (cursor + 1 + len)))
         \<le> MAX_NAME_LEN"
      "length name < length (push_label name (subslice message (cursor + 1) (cursor + 1 + len)))"
      "decode_name_loop message (cursor + 1 + len)
         (if jumped then consumed else consumed + (1 + len)) jumped jumps visited
         (push_label name (subslice message (cursor + 1) (cursor + 1 + len))) = Inr r"
proof -
  from assms obtain len where len: "cursor < length message" "len = message ! cursor"
    by (subst (asm) decode_name_loop.simps) (auto simp: get_at_def split: if_splits)
  consider (ptr) "len AND 0xC0 = 0xC0" | (zero) "len AND 0xC0 = 0" "unat len = 0"
    | (lab) "len AND 0xC0 = 0" "unat len \<noteq> 0"
    using assms len
    by (subst (asm) decode_name_loop.simps) (auto simp: get_at_def split: if_splits)
  then show thesis
  proof cases
    case ptr
    with assms len show thesis
      by (subst (asm) decode_name_loop.simps)
        (auto simp: get_at_def Let_def res_simps split: if_splits sum.splits option.splits
          intro!: jump [of "pointer_target len (message ! (cursor + 1))"])
  next
    case zero
    with assms len show thesis
      by (subst (asm) decode_name_loop.simps)
        (auto simp: get_at_def Let_def res_simps split: if_splits sum.splits intro!: stop)
  next
    case lab
    with assms len show thesis
      by (subst (asm) decode_name_loop.simps)
        (auto simp: get_at_def Let_def res_simps bad_label_alt
          simp del: length_0_conv length_greater_0_conv
          split: if_splits sum.splits intro!: label [of "unat len"])
  qed
qed

lemma decode_name_loop_sound:
  "decode_name_loop message cursor consumed jumped jumps visited name = Inr (n, c) \<Longrightarrow>
   name = [] \<or> canonical name \<Longrightarrow>
   (if jumped then start + consumed \<le> length message else cursor = start + consumed) \<Longrightarrow>
   (n = [] \<or> canonical n) \<and> start + c \<le> length message \<and>
   (if jumped then c = consumed else consumed < c)"
proof (induction "(MAX_COMPRESSION_JUMPS - jumps) + (MAX_NAME_LEN - length name)"
    arbitrary: cursor consumed jumped jumps visited name rule: less_induct)
  case less
  from less.prems(1) show ?case
  proof (cases rule: decode_name_loop_cases)
    case stop
    with less.prems show ?thesis by (auto split: if_splits)
  next
    case (jump target)
    then show ?thesis
      using less.hyps [OF _ jump(4)] less.prems by (auto split: if_splits)
  next
    case (label len)
    let ?name = "push_label name (subslice message (cursor + 1) (cursor + 1 + len))"
    have "MAX_COMPRESSION_JUMPS - jumps + (MAX_NAME_LEN - length ?name)
        < MAX_COMPRESSION_JUMPS - jumps + (MAX_NAME_LEN - length name)"
      using label(3,4) by linarith
    note IH = less.hyps [OF this label(5) disjI2
        [OF canonical_push_label [OF less.prems(2) label(2,3)]]]
    show ?thesis
      using IH less.prems(3) label(1) by (auto split: if_splits)
  qed
qed

lemma decode_name_sound:
  assumes "decode_name message start = Inr (n, c)"
  shows "n = [] \<or> canonical n" and "start + c \<le> length message" and "0 < c"
    and "length n \<le> MAX_NAME_LEN"
proof -
  from assms have "(n = [] \<or> canonical n) \<and> start + c \<le> length message \<and> 0 < c"
    using decode_name_loop_sound [of message start 0 False 0 "[start]" "[]" n c start]
    by (auto simp: decode_name_def split: if_splits)
  then show "n = [] \<or> canonical n" "start + c \<le> length message" "0 < c"
    "length n \<le> MAX_NAME_LEN"
    by (auto simp: canonical_iff)
qed

text \<open>Reading back the labels of an uncompressed name.\<close>

lemma decode_name_loop_label:
  assumes "\<not> bad_label label" "message = pre @ encode_label label @ post"
    and "length (push_label name label) \<le> MAX_NAME_LEN" "length message \<le> usize_max"
    and "consumed + 1 + length label \<le> usize_max"
  shows "decode_name_loop message (length pre) consumed False jumps visited name =
         decode_name_loop message (length (pre @ encode_label label))
           (consumed + length (encode_label label)) False jumps visited (push_label name label)"
proof -
  have len: "unat (of_nat (length label) :: u8) = length label" "length label \<noteq> 0"
      "length label \<le> 63"
    using assms(1) by (auto simp: bad_label_def)
  then have at: "get_at message (length pre) = Some (of_nat (length label))"
    and bits: "(of_nat (length label) :: u8) AND 0xC0 = 0"
    and slice: "subslice message (length pre + 1) (length pre + 1 + length label) = label"
    by (simp_all add: assms(2) get_at_def encode_label_def nth_append label_length_bits
        subslice_def)
  have "advance (length pre) 1 = Inr (length pre + 1)"
    "advance_within Truncated (length message) (length pre + 1) (length label) =
       Inr (length pre + 1 + length label)"
    "advance consumed (1 + length label) = Inr (consumed + 1 + length label)"
    "advance_within NameTooLong MAX_NAME_LEN (length name)
       ((if name = [] then 0 else 1) + length label) =
       Inr (length (push_label name label))"
    using assms by (simp_all add: res_simps encode_label_def dns_limits usize_small)
  then show ?thesis
    using assms(1) len slice
    by (subst decode_name_loop.simps)
      (simp add: at bits bad_label_def encode_label_def Let_def)
qed

lemma decode_name_loop_end:
  "message = pre @ 0 # post \<Longrightarrow> consumed + 1 \<le> usize_max \<Longrightarrow>
   decode_name_loop message (length pre) consumed False jumps visited name =
     Inr (name, consumed + 1)"
  by (subst decode_name_loop.simps) (simp add: get_at_def advance_def checked_add_def)

lemma length_foldl_push_label: "length name \<le> length (foldl push_label name ls)"
proof (induction ls arbitrary: name)
  case (Cons l ls)
  have "length name \<le> length (push_label name l)" by simp
  also have "\<dots> \<le> length (foldl push_label (push_label name l) ls)" by (rule Cons.IH)
  finally show ?case by simp
qed simp

lemma decode_name_loop_labels:
  "\<forall>l \<in> set ls. \<not> bad_label l \<Longrightarrow> message = pre @ concat (map encode_label ls) @ 0 # post \<Longrightarrow>
   length (foldl push_label name ls) \<le> MAX_NAME_LEN \<Longrightarrow> length message \<le> usize_max \<Longrightarrow>
   consumed \<le> length pre \<Longrightarrow>
   decode_name_loop message (length pre) consumed False jumps visited name =
     Inr (foldl push_label name ls, consumed + length (concat (map encode_label ls)) + 1)"
proof (induction ls arbitrary: pre consumed name)
  case Nil
  then show ?case by (simp add: decode_name_loop_end)
next
  case (Cons l ls)
  let ?post = "concat (map encode_label ls) @ 0 # post"
  have "length (push_label name l) \<le> MAX_NAME_LEN"
    using Cons.prems(3) length_foldl_push_label [of "push_label name l" ls] by simp
  moreover have "message = pre @ encode_label l @ ?post"
    using Cons.prems(2) by simp
  moreover have "consumed + 1 + length l \<le> usize_max"
    using Cons.prems(2,4,5) by (simp add: encode_label_def)
  ultimately have "decode_name_loop message (length pre) consumed False jumps visited name =
      decode_name_loop message (length (pre @ encode_label l))
        (consumed + length (encode_label l)) False jumps visited (push_label name l)"
    using decode_name_loop_label [of l message pre ?post name consumed] Cons.prems(1,4) by simp
  also have "\<dots> = Inr (foldl push_label name (l # ls),
      consumed + length (encode_label l) + length (concat (map encode_label ls)) + 1)"
    using Cons.IH [of "pre @ encode_label l" "push_label name l"
        "consumed + length (encode_label l)"] Cons.prems
    by simp
  finally show ?case by simp
qed

lemma foldl_push_label:
  "name \<noteq> [] \<Longrightarrow>
   foldl push_label name ls = name @ concat (map (\<lambda>l. 0x2E # ascii_lowercase l) ls)"
  by (induction ls arbitrary: name) (simp_all add: push_label_def)

lemma join_concat: "join c (w # ws) = w @ concat (map (\<lambda>l. c # l) ws)"
  by (induction ws arbitrary: w) simp_all

lemma foldl_push_label_canonical:
  assumes "canonical name"
  shows "foldl push_label [] (split_on 0x2E name) = name"
proof -
  obtain w ws where split: "split_on 0x2E name = w # ws"
    by (cases "split_on 0x2E name") auto
  have ne: "w \<noteq> []"
    using assms split by (auto simp: canonical_iff bad_label_def)
  have lower: "map ascii_lowercase (w # ws) = w # ws"
    using assms split_on_lowercase [of name] split by (simp add: canonical_iff)
  have "foldl push_label [] (w # ws) =
      ascii_lowercase w @ concat (map (\<lambda>l. 0x2E # ascii_lowercase l) ws)"
    using ne foldl_push_label [of "ascii_lowercase w" ws] by (simp add: push_label_def)
  also have "\<dots> = join 0x2E (map ascii_lowercase (w # ws))"
    by (simp only: join_concat list.map map_map comp_def)
  also have "\<dots> = name"
    using lower split join_split_on [of "0x2E" name] by simp
  finally show ?thesis by (simp add: split)
qed

lemma decode_encode_name:
  assumes "canonical name" "length pre + length (encode_name name) + length post \<le> usize_max"
  shows "decode_name (pre @ encode_name name @ post) (length pre) =
         Inr (name, length (encode_name name))"
proof -
  have "\<forall>l \<in> set (split_on 0x2E name). \<not> bad_label l" "length name \<le> MAX_NAME_LEN"
    using assms(1) by (auto simp: canonical_iff)
  then have "decode_name_loop (pre @ encode_name name @ post) (length pre) 0 False 0
      [length pre] [] = Inr (name, length (encode_name name))"
    using decode_name_loop_labels [of "split_on 0x2E name" "pre @ encode_name name @ post" pre
        post "[]" 0] assms foldl_push_label_canonical [OF assms(1)]
    by (simp add: encode_name_def add.assoc)
  then show ?thesis
    by (simp add: decode_name_def encode_name_def)
qed

lemma length_concat_labels:
  "ws \<noteq> [] \<Longrightarrow> length (concat (map encode_label ws)) = length (join c ws) + 1"
  by (induction c ws rule: join.induct) (auto simp: encode_label_def)

lemma length_encode_name [simp]: "length (encode_name name) = length name + 2"
  using length_concat_labels [of "split_on 0x2E name" "0x2E"] by (simp add: encode_name_def)

section \<open>Messages that the program builds\<close>

definition header_bytes :: "u16 \<Rightarrow> u16 \<Rightarrow> u16 \<Rightarrow> u16 \<Rightarrow> u16 \<Rightarrow> bytes" where
  "header_bytes qid flags an ns ar =
     be16 qid @ be16 flags @ be16 1 @ be16 an @ be16 ns @ be16 ar"

lemma length_header_bytes [simp]: "length (header_bytes qid flags an ns ar) = 12"
  by (simp add: header_bytes_def)

lemma header_reads:
  "dns_read_u16 (header_bytes qid flags an ns ar @ body) 0 = Inr qid"
  "dns_read_u16 (header_bytes qid flags an ns ar @ body) 2 = Inr flags"
  "dns_read_u16 (header_bytes qid flags an ns ar @ body) 4 = Inr 1"
  "dns_read_u16 (header_bytes qid flags an ns ar @ body) 6 = Inr an"
  "dns_read_u16 (header_bytes qid flags an ns ar @ body) 8 = Inr ns"
  "dns_read_u16 (header_bytes qid flags an ns ar @ body) 10 = Inr ar"
  using dns_read_u16_at [of 0 "[]" qid]
    dns_read_u16_at [of 2 "be16 qid" flags]
    dns_read_u16_at [of 4 "be16 qid @ be16 flags" 1]
    dns_read_u16_at [of 6 "be16 qid @ be16 flags @ be16 1" an]
    dns_read_u16_at [of 8 "be16 qid @ be16 flags @ be16 1 @ be16 an" ns]
    dns_read_u16_at [of 10 "be16 qid @ be16 flags @ be16 1 @ be16 an @ be16 ns" ar]
  by (simp_all add: header_bytes_def usize_small)

definition good_question :: "wire_question \<Rightarrow> bool" where
  "good_question q \<longleftrightarrow> canonical (wq_name q) \<and> wq_class q = CLASS_IN"

lemma parse_wire_question_encoded:
  assumes "good_question q" "start = length pre"
    and "length (pre @ encode_wire_question q @ post) \<le> usize_max"
  shows "parse_wire_question (pre @ encode_wire_question q @ post) start =
         Inr (q, start + length (wq_name q) + 6)"
proof -
  let ?m = "pre @ encode_wire_question q @ post"
  let ?n = "wq_name q"
  have m: "?m = pre @ encode_name ?n @ (be16 (wq_type q) @ be16 (wq_class q) @ post)"
    by (simp add: encode_wire_question_def)
  have len: "start + length ?n + 6 + length post \<le> usize_max"
    using assms(2,3) by (simp add: encode_wire_question_def)
  have name: "decode_name ?m start = Inr (?n, length ?n + 2)"
    using assms len decode_encode_name [of ?n pre "be16 (wq_type q) @ be16 (wq_class q) @ post"]
    by (simp add: m good_question_def)
  have reads: "dns_read_u16 ?m (start + (length ?n + 2)) = Inr (wq_type q)"
    "dns_read_u16 ?m (start + (length ?n + 2) + 2) = Inr (wq_class q)"
    using len assms(2)
      dns_read_u16_at [of _ "pre @ encode_name ?n" "wq_type q" "be16 (wq_class q) @ post"]
      dns_read_u16_at [of _ "pre @ encode_name ?n @ be16 (wq_type q)" "wq_class q" post]
    by (simp_all add: m)
  have steps: "advance start (length ?n + 2) = Inr (start + (length ?n + 2))"
    "advance (start + (length ?n + 2)) 2 = Inr (start + (length ?n + 2) + 2)"
    "advance (start + (length ?n + 2) + 2) 2 = Inr (start + length ?n + 6)"
    using len by (simp_all add: res_simps)
  show ?thesis
    using assms(1) name reads steps by (auto simp: parse_wire_question_def good_question_def)
qed

lemma parse_header_encoded:
  assumes "good_question q" "drop_bit 11 flags AND 0x0F = 0" "flags AND 0x0040 = 0"
    and "m = header_bytes qid flags an ns ar @ encode_wire_question q @ post"
    and "length m \<le> MAX_MESSAGE_SIZE" "unat an + unat ns + unat ar \<le> MAX_RESPONSE_RECORDS"
  shows "parse_wire_question_header_inner m enforce =
         Inr \<lparr>wh_id = qid, wh_flags = flags, wh_answer_count = an, wh_authority_count = ns,
              wh_additional_count = ar, wh_question = q,
              wh_records_offset = 18 + length (wq_name q)\<rparr>"
proof -
  have "length m \<le> usize_max"
    using assms(5) by (simp add: dns_limits usize_small)
  then have "parse_wire_question m 12 = Inr (q, 12 + length (wq_name q) + 6)"
    using parse_wire_question_encoded [of q 12 "header_bytes qid flags an ns ar" post] assms(1,4)
    by simp
  then show ?thesis
    using assms(2,3,5,6)
    by (simp add: parse_wire_question_header_inner_def assms(4) header_reads dns_limits)
qed

lemma parse_wire_question_good:
  "parse_wire_question m start = Inr (q, c) \<Longrightarrow>
   good_question q \<and> c \<le> length m \<and> start < c"
  by (auto simp: parse_wire_question_def res_simps good_question_def
      dest: decode_name_sound)

lemma parse_header_good:
  assumes "parse_wire_question_header_inner m enforce = Inr h"
  shows "good_question (wh_question h)" "wh_records_offset h \<le> length m"
    "length m \<le> MAX_MESSAGE_SIZE" "DNS_HEADER_LEN < wh_records_offset h"
  using assms
  by (auto simp: parse_wire_question_header_inner_def res_simps dest: parse_wire_question_good)

lemma be16_prefix_nth: "be16 a @ be16 b @ rest = m \<Longrightarrow> u16_of [m ! 2, m ! 3] = b"
proof -
  assume m: "be16 a @ be16 b @ rest = m"
  have "length (be16 b) = Suc (Suc 0)" by simp
  then obtain w x where "be16 b = [w, x]"
    unfolding length_Suc_conv by auto
  moreover from this have "u16_of [w, x] = b"
    using u16_of_be16 [of b] by simp
  ultimately show "u16_of [m ! 2, m ! 3] = b"
    using m by (auto simp: nth_append)
qed

text \<open>A message that is a header without records and one question, read by the typed parser.\<close>

lemma parse_message_encoded:
  assumes "good_question q" "drop_bit 11 flags AND 0x0F = 0" "flags AND 0x0040 = 0"
    and "wq_type q = query_type_wire ty"
    and m: "m = header_bytes qid flags 0 0 0 @ encode_wire_question q"
  shows "parse_message m =
    Inr \<lparr>dm_id = qid, dm_is_response = (flags AND 0x8000 \<noteq> 0),
         dm_authoritative = (flags AND 0x0400 \<noteq> 0),
         dm_recursion_desired = (flags AND 0x0100 \<noteq> 0),
         dm_recursion_available = (flags AND 0x0080 \<noteq> 0),
         dm_rcode = ucast (flags AND 0x000F),
         dm_question = \<lparr>dq_name = wq_name q, dq_type = ty\<rparr>,
         dm_answers = [], dm_answer_count = 0\<rparr>"
proof -
  have len: "length m = 18 + length (wq_name q)"
    by (simp add: m encode_wire_question_def)
  moreover have "length (wq_name q) \<le> 253"
    using assms(1) by (simp add: good_question_def canonical_iff dns_limits)
  ultimately have "parse_wire_question_header_inner m True =
      Inr \<lparr>wh_id = qid, wh_flags = flags, wh_answer_count = 0, wh_authority_count = 0,
           wh_additional_count = 0, wh_question = q,
           wh_records_offset = 18 + length (wq_name q)\<rparr>"
    using parse_header_encoded [of q flags m qid 0 0 0 "[]" True] assms by (simp add: dns_limits)
  moreover have "query_type_from_wire (wq_type q) = Inr ty"
    using assms(4) by (cases ty) (simp_all add: query_type_from_wire_def)
  ultimately show ?thesis
    using len by (simp add: parse_message_def parse_question_header_def Let_def)
qed

definition response_flags :: "u8 \<Rightarrow> bool \<Rightarrow> u16" where
  "response_flags rcode rd =
     (let base = 0x8000 OR 0x0080 OR ucast rcode in if rd then base OR 0x0100 else base)"

definition response_flags_ok :: "u8 \<Rightarrow> bool \<Rightarrow> bool" where
  "response_flags_ok rcode rd \<longleftrightarrow>
     (let flags = response_flags rcode rd in
      drop_bit 11 flags AND 0x0F = 0 \<and> flags AND 0x0040 = 0 \<and> flags AND 0x8000 \<noteq> 0 \<and>
      flags AND 0x0200 = 0 \<and> flags AND 0x0400 = 0 \<and> flags AND 0x0080 \<noteq> 0 \<and>
      ucast (flags AND 0x000F) = rcode \<and> (flags AND 0x0100 \<noteq> 0) = rd)"

lemma response_flags_ok_table:
  "list_all (\<lambda>n. response_flags_ok (of_nat n) True \<and> response_flags_ok (of_nat n) False) [0..<16]"
  by code_simp

lemma response_flags_ok:
  assumes "rcode \<le> 0x0F"
  shows "response_flags_ok rcode rd"
proof -
  have "unat rcode \<in> set [0..<16]"
    using assms by (simp add: word_le_nat_alt)
  then have "response_flags_ok (of_nat (unat rcode)) True \<and>
      response_flags_ok (of_nat (unat rcode)) False"
    using response_flags_ok_table unfolding list_all_iff by blast
  then show ?thesis by (cases rd) simp_all
qed

lemma classify_query_Inr:
  assumes "classify_query sha256 m = Inr c"
  shows "good_question (cq_question c)"
    "cq_question_wire c = encode_wire_question (cq_question c)"
    "cq_kind c = (if wq_type (cq_question c) = 1 then Address TypeA
       else if wq_type (cq_question c) = 28 then Address TypeAaaa else Opaque)"
  using assms
  by (auto simp: classify_query_def parse_wire_question_header_def res_simps
      dest: parse_header_good(1))

lemma synthesize_empty_response_Inr:
  "rcode \<le> 0x0F \<Longrightarrow>
   synthesize_empty_response c rcode =
     Inr (header_bytes (cq_id c) (response_flags rcode (cq_recursion_desired c)) 0 0 0 @
          cq_question_wire c)"
  by (simp add: synthesize_empty_response_def header_bytes_def response_flags_def Let_def)

lemma response_flags_facts:
  assumes "rcode \<le> 0x0F" "flags = response_flags rcode rd"
  shows "drop_bit 11 flags AND 0x0F = 0" "flags AND 0x0040 = 0" "flags AND 0x8000 \<noteq> 0"
    "flags AND 0x0200 = 0" "flags AND 0x0400 = 0" "flags AND 0x0080 \<noteq> 0"
    "ucast (flags AND 0x000F) = rcode" "(flags AND 0x0100 \<noteq> 0) = rd"
  using response_flags_ok [OF assms(1), of rd]
  unfolding response_flags_ok_def Let_def assms(2) by blast+

lemma empty_response_typed:
  assumes "classify_query sha256 query = Inr c" "rcode \<le> 0x0F"
    and "synthesize_empty_response c rcode = Inr r" "cq_kind c = Address ty"
  shows "parse_response r = Inr \<lparr>dm_id = cq_id c, dm_is_response = True,
    dm_authoritative = False, dm_recursion_desired = cq_recursion_desired c,
    dm_recursion_available = True, dm_rcode = rcode,
    dm_question = \<lparr>dq_name = wq_name (cq_question c), dq_type = ty\<rparr>,
    dm_answers = [], dm_answer_count = 0\<rparr>"
proof -
  note c = classify_query_Inr [OF assms(1)]
  define flags where "flags = response_flags rcode (cq_recursion_desired c)"
  note ok = response_flags_facts [OF assms(2) flags_def]
  have r: "r = header_bytes (cq_id c) flags 0 0 0 @ encode_wire_question (cq_question c)"
    using synthesize_empty_response_Inr [OF assms(2)] c(2) assms(3) by (simp add: flags_def)
  have "u16_of [r ! 2, r ! 3] = flags"
    by (rule be16_prefix_nth) (simp add: r header_bytes_def)
  then show ?thesis
    using parse_message_encoded [OF c(1) ok(1,2) _ r, of ty] c(3) ok assms(4)
    by (auto simp: parse_response_def split: if_splits)
qed

lemma empty_response_opaque:
  assumes "classify_query sha256 query = Inr c" "rcode \<le> 0x0F"
    and "synthesize_empty_response c rcode = Inr r" "cq_kind c = Opaque"
  shows "validate_opaque_response c r = Inr \<lparr>vr_wire = r, vr_question = cq_question c,
    vr_digest = cq_digest c, vr_ttl_offsets = [], vr_rcode = ucast rcode,
    vr_cache_policy = (if rcode = 3 then Negative 30 else NotCacheable)\<rparr>"
proof -
  note c = classify_query_Inr [OF assms(1)]
  define flags where "flags = response_flags rcode (cq_recursion_desired c)"
  note ok = response_flags_facts [OF assms(2) flags_def]
  have r: "r = header_bytes (cq_id c) flags 0 0 0 @ encode_wire_question (cq_question c)"
    using synthesize_empty_response_Inr [OF assms(2)] c(2) assms(3) by (simp add: flags_def)
  have len: "length r = 18 + length (wq_name (cq_question c))"
    by (simp add: r encode_wire_question_def)
  moreover have "length (wq_name (cq_question c)) \<le> 253"
    using c(1) by (simp add: good_question_def canonical_iff dns_limits)
  ultimately have header: "parse_wire_question_header r =
      Inr \<lparr>wh_id = cq_id c, wh_flags = flags, wh_answer_count = 0, wh_authority_count = 0,
           wh_additional_count = 0, wh_question = cq_question c,
           wh_records_offset = 18 + length (wq_name (cq_question c))\<rparr>"
    using parse_header_encoded [of "cq_question c" flags r "cq_id c" 0 0 0 "[]" False] c(1) ok(1,2)
    by (simp add: parse_wire_question_header_def dns_limits r)
  show ?thesis
    using len ok assms(4)
    by (simp add: validate_opaque_response_def is_opaque_def header opaque_policy_def Let_def
        RCODE_NXDOMAIN_def RCODE_NOERROR_def NEGATIVE_TTL_SECS_def)
qed

lemma nxdomain_validated:
  assumes "classify_query sha256 query = Inr c" "cq_kind c = Opaque"
  shows "\<exists>r v. validate_opaque_response c r = Inr v \<and> vr_cache_policy v = Negative 30"
proof -
  have 3: "(3 :: u8) \<le> 0x0F" by simp
  from synthesize_empty_response_Inr [OF 3, of c] empty_response_opaque [OF assms(1) 3 _ assms(2)]
  show ?thesis by fastforce
qed

section \<open>Properties\<close>

text \<open>
  Names survive the wire: the canonical form of any accepted name, encoded anywhere
  in a message of addressable size, decodes to itself, and the decoder reports exactly the
  bytes the encoding takes.
\<close>

theorem name_roundtrip:
  assumes "canonicalize_name raw = Inr name"
    and "length pre + length name + 2 + length post \<le> usize_max"
  shows "decode_name (pre @ encode_name name @ post) (length pre) = Inr (name, length name + 2)"
  using decode_encode_name [OF canonicalize_name_canonical [OF assms(1)], of pre post] assms(2)
  by simp

theorem name_roundtrip_witness:
  "decode_name ([7, 7] @ encode_name (str ''a.b'') @ [9]) 2 = Inr (str ''a.b'', 5)"
proof -
  have "canonicalize_name (str ''A.b.'') = Inr (str ''a.b'')"
    by (simp add: str_def canonicalize_name_def strip_suffix1_def Let_def dns_limits bad_label_def
      valid_label_byte_def is_ascii_alphanumeric_def is_ascii_digit_def is_ascii_uppercase_def
      is_ascii_lowercase_def ascii_lowercase_def to_ascii_lowercase_def of_char_def)
  from name_roundtrip [OF this, of "[7, 7]" "[9]"]
  have "decode_name ([7, 7] @ encode_name (str ''a.b'') @ [9]) (length [7 :: u8, 7]) =
      Inr (str ''a.b'', length (str ''a.b'') + 2)"
    by (simp add: usize_small)
  then show ?thesis by (simp add: eval_nat_numeral)
qed

text \<open>
  Whatever bytes arrive, including compression pointers, a name that is accepted is
  the root or in canonical form, has at most 253 bytes, and the bytes it consumes at its
  position are inside the message; at least one is consumed, so record loops make progress.
\<close>

theorem decoded_name_bounds:
  assumes "decode_name message start = Inr (name, consumed)"
  shows "(name = [] \<or> canonicalize_name name = Inr name) \<and> length name \<le> MAX_NAME_LEN \<and>
         0 < consumed \<and> start + consumed \<le> length message"
  using decode_name_sound [OF assms] by (auto simp: canonical_def)

theorem decoded_name_bounds_witness:
  "decode_name [1, 0x58, 0, 0xC0, 0] 3 = Inr ([0x78], 2) \<and>
   canonicalize_name [0x78] = Inr [0x78]"
proof -
  have "decode_name [1, 0x58, 0, 0xC0, 0] 3 = Inr ([0x78], 2)"
    by (simp add: decode_name_def decode_name_loop.simps get_at_def pointer_target_def
        advance_def advance_within_def checked_add_def usize_max_def dns_limits subslice_def
        valid_label_byte_def is_ascii_alphanumeric_def is_ascii_digit_def
        is_ascii_uppercase_def is_ascii_lowercase_def push_label_def ascii_lowercase_def
        to_ascii_lowercase_def)
  with decoded_name_bounds [OF this] show ?thesis by simp
qed

text \<open>
  Claim C32. A query the resolver builds is one it accepts itself: it has at most 271 bytes, the
  typed parser reads back the identifier, the canonical name and the type with recursion
  desired and no answers, and the classifier puts it on the address path.
\<close>

theorem built_query_parses:
  assumes "build_query qid raw ty = Inr m"
  shows "\<exists>name. canonicalize_name raw = Inr name \<and> length m = 18 + length name \<and>
    length m \<le> 271 \<and>
    parse_query m = Inr \<lparr>dm_id = qid, dm_is_response = False, dm_authoritative = False,
      dm_recursion_desired = True, dm_recursion_available = False, dm_rcode = 0,
      dm_question = \<lparr>dq_name = name, dq_type = ty\<rparr>, dm_answers = [], dm_answer_count = 0\<rparr> \<and>
    (\<exists>c. classify_query sha256 m = Inr c \<and> cq_kind c = Address ty \<and> cq_id c = qid \<and>
      wq_name (cq_question c) = name)"
proof -
  from assms obtain name where name: "canonicalize_name raw = Inr name"
    by (auto simp: build_query_def res_simps)
  define q where "q = \<lparr>wq_name = name, wq_type = query_type_wire ty, wq_class = CLASS_IN\<rparr>"
  have m: "m = header_bytes qid 0x0100 0 0 0 @ encode_wire_question q"
    using assms name by (simp add: build_query_def header_bytes_def encode_wire_question_def q_def)
  have good: "good_question q" and len: "length m = 18 + length name" "length name \<le> 253"
    using canonicalize_name_canonical [OF name]
    by (simp_all add: good_question_def q_def m encode_wire_question_def canonical_iff dns_limits)
  have header: "parse_wire_question_header m =
      Inr \<lparr>wh_id = qid, wh_flags = 0x0100, wh_answer_count = 0, wh_authority_count = 0,
           wh_additional_count = 0, wh_question = q, wh_records_offset = 18 + length name\<rparr>"
    using parse_header_encoded [of q "0x0100" m qid 0 0 0 "[]" False] good m len
    by (simp add: parse_wire_question_header_def dns_limits) (simp add: q_def)
  have "parse_query m = Inr \<lparr>dm_id = qid, dm_is_response = False, dm_authoritative = False,
      dm_recursion_desired = True, dm_recursion_available = False, dm_rcode = 0,
      dm_question = \<lparr>dq_name = name, dq_type = ty\<rparr>, dm_answers = [], dm_answer_count = 0\<rparr>"
    using parse_message_encoded [OF good _ _ _ m, of ty] by (simp add: parse_query_def q_def)
  moreover have "\<exists>c. classify_query sha256 m = Inr c \<and> cq_kind c = Address ty \<and> cq_id c = qid \<and>
      wq_name (cq_question c) = name"
    using header len(1) by (cases ty) (simp_all add: classify_query_def q_def)
  ultimately show ?thesis
    using name len by auto
qed

theorem built_query_parses_witness:
  "\<exists>m. build_query 7 (str ''A.b.'') TypeAaaa = Inr m \<and> length m = 21 \<and> is_ok (parse_query m)"
proof -
  have name: "canonicalize_name (str ''A.b.'') = Inr (str ''a.b'')"
    by (simp add: str_def canonicalize_name_def strip_suffix1_def Let_def dns_limits bad_label_def
      valid_label_byte_def is_ascii_alphanumeric_def is_ascii_digit_def is_ascii_uppercase_def
      is_ascii_lowercase_def ascii_lowercase_def to_ascii_lowercase_def of_char_def)
  then obtain m where m: "build_query 7 (str ''A.b.'') TypeAaaa = Inr m"
    by (simp add: build_query_def)
  from built_query_parses [OF m] name m show ?thesis by auto
qed

text \<open>
  Claim C33. A response synthesised for a classified query is accepted as the answer to it. On
  the address path the typed parser returns the query's identifier, question and recursion
  flag and the chosen code; on the opaque path validation succeeds with that code, without
  records, and only a name error may be cached.
\<close>

theorem synthesized_response_accepted:
  assumes "classify_query sha256 query = Inr c" "rcode \<le> 0x0F"
  shows "\<exists>r. synthesize_empty_response c rcode = Inr r \<and>
    (case cq_kind c of
       Address ty \<Rightarrow>
         parse_response r = Inr \<lparr>dm_id = cq_id c, dm_is_response = True,
           dm_authoritative = False, dm_recursion_desired = cq_recursion_desired c,
           dm_recursion_available = True, dm_rcode = rcode,
           dm_question = \<lparr>dq_name = wq_name (cq_question c), dq_type = ty\<rparr>,
           dm_answers = [], dm_answer_count = 0\<rparr>
     | Opaque \<Rightarrow>
         validate_opaque_response c r = Inr \<lparr>vr_wire = r, vr_question = cq_question c,
           vr_digest = cq_digest c, vr_ttl_offsets = [], vr_rcode = ucast rcode,
           vr_cache_policy = (if rcode = 3 then Negative 30 else NotCacheable)\<rparr>)"
proof -
  obtain r where "synthesize_empty_response c rcode = Inr r"
    using synthesize_empty_response_Inr [OF assms(2)] by simp
  then show ?thesis
    using empty_response_typed [OF assms] empty_response_opaque [OF assms]
    by (cases "cq_kind c") auto
qed

definition txt_query :: bytes where
  "txt_query = header_bytes 7 0x0100 0 0 0 @
     encode_wire_question \<lparr>wq_name = str ''a.b'', wq_type = 16, wq_class = CLASS_IN\<rparr>"

lemma canonical_a_b: "canonical (str ''a.b'')"
  by (simp add: str_def canonical_def canonicalize_name_def strip_suffix1_def Let_def dns_limits
      bad_label_def valid_label_byte_def is_ascii_alphanumeric_def is_ascii_digit_def
      is_ascii_uppercase_def is_ascii_lowercase_def ascii_lowercase_def to_ascii_lowercase_def
      of_char_def)

lemma txt_query_classified:
  "classify_query sha256 txt_query =
     Inr \<lparr>cq_id = 7, cq_recursion_desired = True,
          cq_question = \<lparr>wq_name = str ''a.b'', wq_type = 16, wq_class = CLASS_IN\<rparr>,
          cq_kind = Opaque,
          cq_question_wire =
            encode_wire_question \<lparr>wq_name = str ''a.b'', wq_type = 16, wq_class = CLASS_IN\<rparr>,
          cq_digest = sha256 (drop 2 txt_query)\<rparr>"
proof -
  let ?q = "\<lparr>wq_name = str ''a.b'', wq_type = 16, wq_class = CLASS_IN\<rparr>"
  have "length txt_query = 21"
    by (simp add: txt_query_def encode_wire_question_def)
  moreover from this have "parse_wire_question_header txt_query =
      Inr \<lparr>wh_id = 7, wh_flags = 0x0100, wh_answer_count = 0, wh_authority_count = 0,
           wh_additional_count = 0, wh_question = ?q, wh_records_offset = 21\<rparr>"
    using parse_header_encoded [of ?q "0x0100" txt_query 7 0 0 0 "[]" False] canonical_a_b
    by (simp add: parse_wire_question_header_def good_question_def dns_limits txt_query_def)
  ultimately show ?thesis by (simp add: classify_query_def)
qed

theorem synthesized_response_accepted_witness:
  "\<exists>c r. classify_query (\<lambda>_. replicate 32 0) txt_query = Inr c \<and>
     synthesize_empty_response c 3 = Inr r \<and> is_ok (validate_opaque_response c r)"
proof -
  obtain c where c: "classify_query (\<lambda>_. replicate 32 0) txt_query = Inr c"
      "cq_kind c = Opaque"
    by (simp add: txt_query_classified)
  have "(3 :: u8) \<le> 0x0F" by simp
  from synthesized_response_accepted [OF c(1) this] c show ?thesis by auto
qed

section \<open>What validation establishes of an opaque response\<close>

definition ttl_offsets_ok :: "nat \<Rightarrow> u16 list \<Rightarrow> bool" where
  "ttl_offsets_ok limit offsets \<longleftrightarrow>
     sorted_wrt (\<lambda>a b. unat a + 4 \<le> unat b) offsets \<and>
     (\<forall>offset \<in> set offsets. DNS_HEADER_LEN \<le> unat offset \<and> unat offset + 4 \<le> limit)"

definition validated_ok :: "validated_response \<Rightarrow> bool" where
  "validated_ok v \<longleftrightarrow>
     DNS_HEADER_LEN \<le> length (vr_wire v) \<and> length (vr_wire v) \<le> MAX_MESSAGE_SIZE \<and>
     ttl_offsets_ok (length (vr_wire v)) (vr_ttl_offsets v) \<and>
     length (vr_ttl_offsets v) \<le> MAX_OPAQUE_RECORDS \<and>
     length (wq_name (vr_question v)) \<le> MAX_NAME_LEN"

lemma scan_record_sound:
  assumes "scan_record message start = Inr (rr, nxt)"
  shows "start < unat (sr_ttl_offset rr)" "unat (sr_ttl_offset rr) + 4 \<le> nxt"
    "nxt \<le> length message" "unat (sr_data_start rr) \<le> unat (sr_data_end rr)"
    "unat (sr_data_end rr) = nxt"
  using assms by (auto simp: scan_record_def res_simps dest: decode_name_sound(3))

lemma scan_opaque_record_sound:
  assumes "scan_opaque_record response qc sect st = Inr st'" "os_cursor st \<le> length response"
    and "ttl_offsets_ok (os_cursor st) (os_ttl_offsets st)" "DNS_HEADER_LEN \<le> os_cursor st"
  shows "os_cursor st \<le> os_cursor st' \<and> os_cursor st' \<le> length response \<and>
    ttl_offsets_ok (os_cursor st') (os_ttl_offsets st') \<and>
    length (os_ttl_offsets st') \<le> length (os_ttl_offsets st) + 1"
proof -
  from assms(1) obtain rr nxt where rr: "scan_record response (os_cursor st) = Inr (rr, nxt)"
    by (auto simp: scan_opaque_record_def res_simps)
  note s = scan_record_sound [OF rr]
  have "ttl_offsets_ok nxt (os_ttl_offsets st)"
    using assms(3) s unfolding ttl_offsets_ok_def by (meson le_trans less_imp_le add_leD1)
  moreover have "ttl_offsets_ok nxt (os_ttl_offsets st @ [sr_ttl_offset rr])"
    using assms(3,4) s unfolding ttl_offsets_ok_def
    by (auto simp: sorted_wrt_append)
  ultimately show ?thesis
    using assms(1) rr s
    by (auto simp: scan_opaque_record_def res_simps Let_def split: if_splits)
qed

lemma scan_opaque_section_sound:
  "scan_opaque_section response qc sect n st = Inr st' \<Longrightarrow> os_cursor st \<le> length response \<Longrightarrow>
   ttl_offsets_ok (os_cursor st) (os_ttl_offsets st) \<Longrightarrow> DNS_HEADER_LEN \<le> os_cursor st \<Longrightarrow>
   DNS_HEADER_LEN \<le> os_cursor st' \<and> os_cursor st' \<le> length response \<and>
   ttl_offsets_ok (os_cursor st') (os_ttl_offsets st') \<and>
   length (os_ttl_offsets st') \<le> length (os_ttl_offsets st) + n"
proof (induction n arbitrary: st)
  case (Suc n)
  then obtain st1 where st1: "scan_opaque_record response qc sect st = Inr st1"
    "scan_opaque_section response qc sect n st1 = Inr st'"
    by (auto simp: res_simps)
  note step = scan_opaque_record_sound [OF st1(1) Suc.prems(2-4)]
  from Suc.IH [OF st1(2)] step Suc.prems(4) show ?case by auto
qed simp

lemma validate_opaque_response_sound:
  assumes "validate_opaque_response c response = Inr v"
  shows "validated_ok v" "vr_wire v = response" "vr_question v = cq_question c"
    "vr_digest v = cq_digest c"
proof -
  from assms obtain h s1 s2 st where
    h: "parse_wire_question_header_inner response False = Inr h" and
    s1: "scan_opaque_section response (wq_class (cq_question c)) 0 (unat (wh_answer_count h))
           \<lparr>os_cursor = wh_records_offset h, os_ttl_offsets = [], os_minimum_ttl = None,
            os_seen_opt = False, os_extended_rcode = 0, os_authority_has_soa = False\<rparr> = Inr s1"
    and s2: "scan_opaque_section response (wq_class (cq_question c)) 1
           (unat (wh_authority_count h)) s1 = Inr s2"
    and st: "scan_opaque_section response (wq_class (cq_question c)) 2
           (unat (wh_additional_count h)) s2 = Inr st"
    and v: "vr_wire v = response" "vr_ttl_offsets v = os_ttl_offsets st"
      "os_cursor st = length response" "vr_question v = wh_question h" "vr_digest v = cq_digest c"
    and n: "unat (wh_answer_count h) + unat (wh_authority_count h) +
        unat (wh_additional_count h) \<le> MAX_OPAQUE_RECORDS"
    by (auto simp: validate_opaque_response_def parse_wire_question_header_def res_simps Let_def)
  note head = parse_header_good [OF h]
  from scan_opaque_section_sound [OF s1] head
  have 1: "DNS_HEADER_LEN \<le> os_cursor s1" "os_cursor s1 \<le> length response"
    "ttl_offsets_ok (os_cursor s1) (os_ttl_offsets s1)"
    "length (os_ttl_offsets s1) \<le> unat (wh_answer_count h)"
    by (auto simp: ttl_offsets_ok_def)
  from scan_opaque_section_sound [OF s2 1(2,3,1)]
  have 2: "DNS_HEADER_LEN \<le> os_cursor s2" "os_cursor s2 \<le> length response"
    "ttl_offsets_ok (os_cursor s2) (os_ttl_offsets s2)"
    "length (os_ttl_offsets s2) \<le> unat (wh_answer_count h) + unat (wh_authority_count h)"
    using 1(4) by auto
  have "length (wq_name (vr_question v)) \<le> MAX_NAME_LEN"
    using head(1) v(4) by (simp add: good_question_def canonical_iff)
  with scan_opaque_section_sound [OF st 2(2,3,1)] 2(4) v n head(3)
  show "validated_ok v" by (auto simp: validated_ok_def)
qed (use assms in \<open>auto simp: validate_opaque_response_def res_simps Let_def\<close>)

end
