(* ===== verification/Dns_Cache.thy ===== *)
theory Dns_Cache
  imports Dns_Message "HOL-Library.Multiset"
begin

text \<open>
  The bounded caches of \<^verbatim>\<open>src/dns/mod.rs\<close>: the typed answer cache \<^verbatim>\<open>DnsCache\<close> and the reverse
  hints \<^verbatim>\<open>RedirHostHints\<close>. An \<^verbatim>\<open>Instant\<close> is a number of nanoseconds; \<open>None\<close> is a panic (a
  \<^verbatim>\<open>swap_remove\<close> out of range), and whether the allocator grants the next slot is an argument
  of the operations that ask for one. The locale \<open>expiring_cache\<close> states what a client of such a
  table relies on; both tables interpret it.
\<close>

section \<open>Time\<close>

definition expiry :: "instant \<Rightarrow> u32 \<Rightarrow> instant" where
  "expiry now ttl =
     (if now + unat ttl * 1000000000 \<le> INSTANT_MAX then now + unat ttl * 1000000000 else now)"

text \<open>\<^verbatim>\<open>expires_at.saturating_duration_since(now).as_secs().min(u32::MAX) as u32\<close>.\<close>

definition remaining_ttl :: "instant \<Rightarrow> instant \<Rightarrow> u32" where
  "remaining_ttl expires_at now = of_nat (min ((expires_at - now) div 1000000000) 4294967295)"

lemma remaining_ttl_bound:
  assumes "now \<le> expires_at"
  shows "now + unat (remaining_ttl expires_at now) * 1000000000 \<le> expires_at"
proof -
  have "unat (remaining_ttl expires_at now) \<le> (expires_at - now) div 1000000000"
    by (simp add: remaining_ttl_def unat_of_nat)
  then have "unat (remaining_ttl expires_at now) * 1000000000 \<le>
      (expires_at - now) div 1000000000 * 1000000000"
    by (rule mult_le_mono1)
  also have "\<dots> \<le> expires_at - now"
    by (rule div_times_less_eq_dividend)
  finally show ?thesis using assms by simp
qed

section \<open>Vectors with a limit\<close>

definition swap_remove :: "'e list \<Rightarrow> nat \<Rightarrow> 'e list option" where
  "swap_remove xs i = (if i < length xs then Some (butlast (xs[i := last xs])) else None)"

fun find_index :: "('e \<Rightarrow> bool) \<Rightarrow> 'e list \<Rightarrow> nat option" where
  "find_index P [] = None"
| "find_index P (x # xs) = (if P x then Some 0 else map_option Suc (find_index P xs))"

text \<open>The order of \<^verbatim>\<open>(Instant, u64)\<close>, and the first index with the least key.\<close>

definition key_le :: "instant \<times> u64 \<Rightarrow> instant \<times> u64 \<Rightarrow> bool" where
  "key_le a b \<longleftrightarrow> fst a < fst b \<or> fst a = fst b \<and> snd a \<le> snd b"

fun eviction_index :: "('e \<Rightarrow> instant \<times> u64) \<Rightarrow> 'e list \<Rightarrow> nat" where
  "eviction_index key [] = 0"
| "eviction_index key [x] = 0"
| "eviction_index key (x # y # ys) =
     (let i = eviction_index key (y # ys) in
      if key_le (key x) (key ((y # ys) ! i)) then 0 else Suc i)"

definition reserve_entry_slot :: "bool \<Rightarrow> 'e list \<Rightarrow> nat \<Rightarrow> dns_error + unit" where
  "reserve_entry_slot alloc_ok entries max_entries =
     (if max_entries \<le> length entries then Inl CacheAllocation
      else if alloc_ok then Inr () else Inl CacheAllocation)"

text \<open>
  The common tail of the two \<^verbatim>\<open>insert\<close> functions: replace the entry with the same key, or make
  room by evicting the entry that expires first and push the new one.
\<close>

definition bounded_insert ::
  "('e \<Rightarrow> bool) \<Rightarrow> ('e \<Rightarrow> instant \<times> u64) \<Rightarrow> nat \<Rightarrow> bool \<Rightarrow> 'e \<Rightarrow> 'e list \<Rightarrow>
   ('e list \<times> (dns_error + unit)) option" where
  "bounded_insert same key max_entries alloc_ok e entries =
     (case find_index same entries of
        Some i \<Rightarrow> Some (entries[i := e], Inr ())
      | None \<Rightarrow>
          (case (if max_entries \<le> length entries
                 then swap_remove entries (eviction_index key entries)
                 else Some entries) of
             None \<Rightarrow> None
           | Some room \<Rightarrow>
               (case reserve_entry_slot alloc_ok room max_entries of
                  Inl err \<Rightarrow> Some (room, Inl err)
                | Inr _ \<Rightarrow> Some (room @ [e], Inr ()))))"

section \<open>The typed cache\<close>

datatype cache_value = PositiveValue "ip_addr list" | NegativeValue u8

record cache_entry =
  ce_name :: bytes
  ce_type :: query_type
  ce_value :: cache_value
  ce_expires_at :: instant
  ce_sequence :: u64

record dns_cache =
  dc_entries :: "cache_entry list"
  dc_max_entries :: nat
  dc_next_sequence :: u64

definition MAX_CACHE_ENTRIES :: nat where "MAX_CACHE_ENTRIES = 256"
definition MAX_REDIR_HOST_ENTRIES :: nat where "MAX_REDIR_HOST_ENTRIES = 256"

definition dns_cache_with_max_entries :: "nat \<Rightarrow> dns_cache option" where
  "dns_cache_with_max_entries max_entries =
     (if max_entries = 0 then None
      else Some \<lparr>dc_entries = [], dc_max_entries = max_entries, dc_next_sequence = 0\<rparr>)"

definition dns_cache_new :: "dns_cache option" where
  "dns_cache_new = dns_cache_with_max_entries MAX_CACHE_ENTRIES"

definition dns_cache_clear :: "dns_cache \<Rightarrow> dns_cache" where
  "dns_cache_clear c = c\<lparr>dc_entries := []\<rparr>"

definition dns_remove_expired :: "instant \<Rightarrow> dns_cache \<Rightarrow> dns_cache" where
  "dns_remove_expired now c =
     c\<lparr>dc_entries := filter (\<lambda>e. now < ce_expires_at e) (dc_entries c)\<rparr>"

definition dns_take_sequence :: "dns_cache \<Rightarrow> u64 \<times> dns_cache" where
  "dns_take_sequence c =
     (dc_next_sequence c, c\<lparr>dc_next_sequence := dc_next_sequence c + 1\<rparr>)"

definition dns_get_with_ttl ::
  "bytes \<Rightarrow> query_type \<Rightarrow> instant \<Rightarrow> dns_cache \<Rightarrow> (cache_value \<times> u32) option \<times> dns_cache" where
  "dns_get_with_ttl raw query_type now c =
     (let c1 = dns_remove_expired now c in
      case canonicalize_name raw of
        Inl _ \<Rightarrow> (None, c1)
      | Inr name \<Rightarrow>
          (map_option (\<lambda>e. (ce_value e, remaining_ttl (ce_expires_at e) now))
             (find (\<lambda>e. ce_name e = name \<and> ce_type e = query_type) (dc_entries c1)), c1))"

definition dns_get ::
  "bytes \<Rightarrow> query_type \<Rightarrow> instant \<Rightarrow> dns_cache \<Rightarrow> cache_value option \<times> dns_cache" where
  "dns_get raw query_type now c =
     (case dns_get_with_ttl raw query_type now c of
        (found, c1) \<Rightarrow> (map_option fst found, c1))"

definition dns_insert ::
  "bool \<Rightarrow> bytes \<Rightarrow> query_type \<Rightarrow> cache_value \<Rightarrow> u32 \<Rightarrow> instant \<Rightarrow> dns_cache \<Rightarrow>
   (dns_cache \<times> (dns_error + unit)) option" where
  "dns_insert alloc_ok raw query_type value ttl now c =
     (case canonicalize_name raw of
        Inl err \<Rightarrow> Some (c, Inl err)
      | Inr name \<Rightarrow>
          (let c1 = dns_remove_expired now c;
               expires_at = expiry now ttl;
               (sequence, c2) = dns_take_sequence c1;
               entry = \<lparr>ce_name = name, ce_type = query_type, ce_value = value,
                        ce_expires_at = expires_at, ce_sequence = sequence\<rparr> in
           map_option (\<lambda>(entries, r). (c2\<lparr>dc_entries := entries\<rparr>, r))
             (bounded_insert (\<lambda>e. ce_name e = name \<and> ce_type e = query_type)
                (\<lambda>e. (ce_expires_at e, ce_sequence e)) (dc_max_entries c2) alloc_ok entry
                (dc_entries c2))))"

fun family_matches :: "query_type \<Rightarrow> ip_addr \<Rightarrow> bool" where
  "family_matches TypeA (IpV4 ip) = True"
| "family_matches TypeAaaa (IpV6 ip) = True"
| "family_matches query_type address = False"

definition dns_insert_positive ::
  "bool \<Rightarrow> bytes \<Rightarrow> query_type \<Rightarrow> ip_addr list \<Rightarrow> u32 \<Rightarrow> instant \<Rightarrow> dns_cache \<Rightarrow>
   (dns_cache \<times> (dns_error + unit)) option" where
  "dns_insert_positive alloc_ok raw query_type addresses ttl now c =
     (if addresses = [] then Some (c, Inl EmptyCacheValue)
      else if MAX_ANSWERS < length addresses then Some (c, Inl TooManyCacheAddresses)
      else if list_ex (\<lambda>address. \<not> family_matches query_type address) addresses
      then Some (c, Inl AddressFamilyMismatch)
      else dns_insert alloc_ok raw query_type (PositiveValue addresses) (clamp_ttl ttl) now c)"

definition dns_insert_negative ::
  "bool \<Rightarrow> bytes \<Rightarrow> query_type \<Rightarrow> u8 \<Rightarrow> instant \<Rightarrow> dns_cache \<Rightarrow>
   (dns_cache \<times> (dns_error + unit)) option" where
  "dns_insert_negative alloc_ok raw query_type rcode now c =
     (if 0x0F < rcode then Some (c, Inl InvalidRcode)
      else dns_insert alloc_ok raw query_type (NegativeValue rcode) NEGATIVE_TTL_SECS now c)"

section \<open>The reverse hints\<close>

record redir_entry =
  re_address :: ip_addr
  re_domain :: bytes
  re_expires_at :: instant
  re_sequence :: u64

record redir_hints =
  rh_entries :: "redir_entry list"
  rh_max_entries :: nat
  rh_next_sequence :: u64

definition redir_with_max_entries :: "nat \<Rightarrow> redir_hints option" where
  "redir_with_max_entries max_entries =
     (if max_entries = 0 then None
      else Some \<lparr>rh_entries = [], rh_max_entries = max_entries, rh_next_sequence = 0\<rparr>)"

definition redir_new :: "redir_hints option" where
  "redir_new = redir_with_max_entries MAX_REDIR_HOST_ENTRIES"

definition redir_clear :: "redir_hints \<Rightarrow> redir_hints" where
  "redir_clear h = h\<lparr>rh_entries := []\<rparr>"

definition redir_remove_expired :: "instant \<Rightarrow> redir_hints \<Rightarrow> redir_hints" where
  "redir_remove_expired now h =
     h\<lparr>rh_entries := filter (\<lambda>e. now < re_expires_at e) (rh_entries h)\<rparr>"

definition redir_take_sequence :: "redir_hints \<Rightarrow> u64 \<times> redir_hints" where
  "redir_take_sequence h =
     (rh_next_sequence h, h\<lparr>rh_next_sequence := rh_next_sequence h + 1\<rparr>)"

definition redir_get ::
  "ip_addr \<Rightarrow> instant \<Rightarrow> redir_hints \<Rightarrow> (bytes option \<times> redir_hints) option" where
  "redir_get address now h =
     (case find_index (\<lambda>e. re_address e = address) (rh_entries h) of
        None \<Rightarrow> Some (None, h)
      | Some index \<Rightarrow>
          if re_expires_at (rh_entries h ! index) \<le> now then
            map_option (\<lambda>entries. (None, h\<lparr>rh_entries := entries\<rparr>))
              (swap_remove (rh_entries h) index)
          else Some (Some (re_domain (rh_entries h ! index)), h))"

definition redir_insert ::
  "bool \<Rightarrow> ip_addr \<Rightarrow> bytes \<Rightarrow> u32 \<Rightarrow> instant \<Rightarrow> redir_hints \<Rightarrow>
   (redir_hints \<times> (dns_error + unit)) option" where
  "redir_insert alloc_ok address raw ttl now h =
     (case canonicalize_name raw of
        Inl err \<Rightarrow> Some (h, Inl err)
      | Inr domain \<Rightarrow>
          (let h1 = redir_remove_expired now h;
               expires_at = expiry now (clamp_ttl ttl);
               (sequence, h2) = redir_take_sequence h1;
               entry = \<lparr>re_address = address, re_domain = domain,
                        re_expires_at = expires_at, re_sequence = sequence\<rparr> in
           map_option (\<lambda>(entries, r). (h2\<lparr>rh_entries := entries\<rparr>, r))
             (bounded_insert (\<lambda>e. re_address e = address)
                (\<lambda>e. (re_expires_at e, re_sequence e)) (rh_max_entries h2) alloc_ok entry
                (rh_entries h2))))"

section \<open>Facts on limited vectors\<close>

lemma find_index_Some: "find_index P xs = Some i \<Longrightarrow> i < length xs \<and> P (xs ! i)"
  by (induction xs arbitrary: i) (auto split: if_splits)

lemma find_index_None: "find_index P xs = None \<longleftrightarrow> (\<forall>x \<in> set xs. \<not> P x)"
  by (induction xs) auto

lemma eviction_index_less: "xs \<noteq> [] \<Longrightarrow> eviction_index key xs < length xs"
  by (induction key xs rule: eviction_index.induct) (auto simp: Let_def)

lemma key_le_trans: "key_le a b \<Longrightarrow> key_le b c \<Longrightarrow> key_le a c"
  by (auto simp: key_le_def)

lemma key_le_linear: "key_le a b \<or> key_le b a"
  by (auto simp: key_le_def)

text \<open>The entry chosen for eviction is the one that expires first.\<close>

lemma eviction_index_least:
  "x \<in> set xs \<Longrightarrow> key_le (key (xs ! eviction_index key xs)) (key x)"
proof (induction key xs rule: eviction_index.induct)
  case (2 key y)
  then show ?case by (simp add: key_le_def)
next
  case (3 key y z zs)
  show ?case
  proof (cases "x = y")
    case True
    then show ?thesis
      using key_le_linear [of "key y" "key y"]
        key_le_linear [of "key y" "key ((z # zs) ! eviction_index key (z # zs))"]
      by (auto simp: Let_def)
  next
    case False
    then show ?thesis
      using 3 key_le_trans by (fastforce simp: Let_def)
  qed
qed simp

lemma swap_remove_mset:
  assumes "swap_remove xs i = Some ys"
  shows "i < length xs" "mset xs = add_mset (xs ! i) (mset ys)"
proof -
  from assms show i: "i < length xs"
    by (simp add: swap_remove_def split: if_splits)
  then have ne: "xs \<noteq> []" by auto
  have ys: "ys = butlast (xs[i := last xs])"
    using assms i by (simp add: swap_remove_def)
  have "last (xs[i := last xs]) = last xs"
    using i ne by (simp add: last_list_update)
  then have "xs[i := last xs] = ys @ [last xs]"
    using ne ys by (metis append_butlast_last_id list_update_nonempty)
  then have "mset (xs[i := last xs]) = add_mset (last xs) (mset ys)"
    by simp
  then have "add_mset (last xs) (mset xs - {#xs ! i#}) = add_mset (last xs) (mset ys)"
    using i by (simp add: mset_update)
  then have "mset xs - {#xs ! i#} = mset ys" by simp
  then show "mset xs = add_mset (xs ! i) (mset ys)"
    using i by (metis insert_DiffM nth_mem_mset)
qed

lemma swap_remove_facts:
  assumes "swap_remove xs i = Some ys"
  shows "set ys \<subseteq> set xs" "length xs = Suc (length ys)"
    "distinct (map f xs) \<Longrightarrow> distinct (map f ys)"
proof -
  note ms = swap_remove_mset(2) [OF assms]
  show "set ys \<subseteq> set xs"
    using arg_cong [OF ms, of set_mset] by auto
  show "length xs = Suc (length ys)"
    using arg_cong [OF ms, of size] by simp
  have "mset (map f xs) = mset (map f (xs ! i # ys))"
    using ms by simp
  then have "distinct (map f xs) \<longleftrightarrow> distinct (map f (xs ! i # ys))"
    by (rule mset_eq_imp_distinct_iff)
  then show "distinct (map f xs) \<Longrightarrow> distinct (map f ys)" by simp
qed

lemma swap_remove_ok: "i < length xs \<Longrightarrow> \<exists>ys. swap_remove xs i = Some ys"
  by (simp add: swap_remove_def)

lemma find_distinct_key:
  "distinct (map f xs) \<Longrightarrow>
   find (\<lambda>e. f e = k \<and> Q e) xs = Some e \<longleftrightarrow> e \<in> set xs \<and> f e = k \<and> Q e"
  by (induction xs) (auto simp: inj_on_def rev_image_eqI)

text \<open>What one insertion does to a table with distinct keys.\<close>

lemma bounded_insert_ok:
  assumes "distinct (map f xs)" "length xs \<le> mx" "0 < mx" "f e = k"
  obtains ys r where "bounded_insert (\<lambda>e. f e = k) key mx alloc_ok e xs = Some (ys, r)"
    "distinct (map f ys)" "length ys \<le> mx" "set ys \<subseteq> insert e {x \<in> set xs. f x \<noteq> k}"
    "alloc_ok \<Longrightarrow> r = Inr () \<and> e \<in> set ys"
proof (cases "find_index (\<lambda>e. f e = k) xs")
  case (Some i)
  then have i: "i < length xs" "f (xs ! i) = k"
    by (auto dest: find_index_Some)
  have "map f (xs[i := e]) = map f xs"
    using i assms(4) by (metis list_update_id map_update nth_map)
  moreover have "set (xs[i := e]) \<subseteq> insert e {x \<in> set xs. f x \<noteq> k}"
  proof
    fix x assume "x \<in> set (xs[i := e])"
    then obtain j where j: "j < length xs" "x = xs[i := e] ! j"
      by (auto simp: in_set_conv_nth)
    show "x \<in> insert e {x \<in> set xs. f x \<noteq> k}"
    proof (cases "j = i")
      case False
      then have "f (xs ! j) \<noteq> f (xs ! i)"
        using assms(1) i(1) j(1) by (metis distinct_conv_nth length_map nth_map)
      then show ?thesis using j False i(2) by simp
    qed (use j in simp)
  qed
  moreover have "e \<in> set (xs[i := e])"
    using i(1) by (rule set_update_memI)
  ultimately show thesis
    using that [of "xs[i := e]" "Inr ()"] Some assms by (simp add: bounded_insert_def)
next
  case None
  then have new: "\<forall>x \<in> set xs. f x \<noteq> k"
    by (simp add: find_index_None)
  obtain room where room: "(if mx \<le> length xs then swap_remove xs (eviction_index key xs)
      else Some xs) = Some room" "set room \<subseteq> set xs" "distinct (map f room)" "length room < mx"
  proof (cases "mx \<le> length xs")
    case True
    then obtain ys where "swap_remove xs (eviction_index key xs) = Some ys"
      using swap_remove_ok eviction_index_less assms(3) by (metis leD length_0_conv)
    then show thesis
      using that [of ys] True assms(1,2) swap_remove_facts by (metis le_antisym lessI)
  qed (use that [of xs] assms(1) in auto)
  then have fresh: "k \<notin> f ` set room"
    and old: "set room \<subseteq> insert e {x \<in> set xs. f x \<noteq> k}"
    using new by auto
  show thesis
  proof (cases alloc_ok)
    case True
    then show thesis
      using that [of "room @ [e]" "Inr ()"] room None assms(4) fresh old
      by (simp add: bounded_insert_def reserve_entry_slot_def)
  next
    case False
    then show thesis
      using that [of room "Inl CacheAllocation"] room None old
      by (auto simp: bounded_insert_def reserve_entry_slot_def)
  qed
qed

section \<open>The contract of an expiring table\<close>

text \<open>
  What happens to a table: a value offered for a key with a time to live (and whether the
  allocator serves the call), or a lookup. \<open>latest\<close> is the specification: the last value
  admitted for the key and the instant it expires.
\<close>

datatype ('k, 'v) cache_event = Store 'k 'v u32 instant bool | Lookup 'k instant

fun exec ::
  "('k \<Rightarrow> 'v \<Rightarrow> u32 \<Rightarrow> instant \<Rightarrow> bool \<Rightarrow> 's \<Rightarrow> 's option) \<Rightarrow>
   ('k \<Rightarrow> instant \<Rightarrow> 's \<Rightarrow> ('v option \<times> 's) option) \<Rightarrow>
   ('k, 'v) cache_event list \<Rightarrow> 's \<Rightarrow> 's option" where
  "exec store look [] s = Some s"
| "exec store look (Store k v ttl now alloc_ok # es) s =
     Option.bind (store k v ttl now alloc_ok s) (exec store look es)"
| "exec store look (Lookup k now # es) s =
     Option.bind (look k now s) (\<lambda>(found, s'). exec store look es s')"

fun latest ::
  "('k \<Rightarrow> 'c) \<Rightarrow> ('k \<Rightarrow> 'v \<Rightarrow> u32 \<Rightarrow> ('v \<times> u32) option) \<Rightarrow> 'k \<Rightarrow>
   ('k, 'v) cache_event list \<Rightarrow> ('v \<times> instant) option \<Rightarrow> ('v \<times> instant) option" where
  "latest norm admit k [] cur = cur"
| "latest norm admit k (Store k' v ttl now alloc_ok # es) cur =
     latest norm admit k es
       (case admit k' v ttl of
          None \<Rightarrow> cur
        | Some (w, life) \<Rightarrow> if norm k' = norm k then Some (w, expiry now life) else cur)"
| "latest norm admit k (Lookup k' now # es) cur = latest norm admit k es cur"

locale expiring_cache =
  fixes store :: "'k \<Rightarrow> 'v \<Rightarrow> u32 \<Rightarrow> instant \<Rightarrow> bool \<Rightarrow> 's \<Rightarrow> 's option"
    and look :: "'k \<Rightarrow> instant \<Rightarrow> 's \<Rightarrow> ('v option \<times> 's) option"
    and norm :: "'k \<Rightarrow> 'c"
    and admit :: "'k \<Rightarrow> 'v \<Rightarrow> u32 \<Rightarrow> ('v \<times> u32) option"
    and good :: "'s \<Rightarrow> bool"
  assumes store_ok: "good s \<Longrightarrow> \<exists>s'. store k v ttl now alloc_ok s = Some s' \<and> good s'"
    and look_ok: "good s \<Longrightarrow> \<exists>r s'. look k t s = Some (r, s') \<and> good s'"
    and look_look: "good s \<Longrightarrow> look k u s = Some (r, s') \<Longrightarrow>
      look k' t s' = Some (Some v, x) \<Longrightarrow> \<exists>y. look k' t s = Some (Some v, y)"
    and store_refused: "good s \<Longrightarrow> store k v ttl now alloc_ok s = Some s' \<Longrightarrow>
      admit k v ttl = None \<Longrightarrow>
      look k' t s' = Some (Some v', x) \<Longrightarrow> \<exists>y. look k' t s = Some (Some v', y)"
    and store_other: "good s \<Longrightarrow> store k v ttl now alloc_ok s = Some s' \<Longrightarrow>
      norm k' \<noteq> norm k \<Longrightarrow>
      look k' t s' = Some (Some v', x) \<Longrightarrow> \<exists>y. look k' t s = Some (Some v', y)"
    and store_same: "good s \<Longrightarrow> store k v ttl now alloc_ok s = Some s' \<Longrightarrow>
      admit k v ttl = Some (w, life) \<Longrightarrow> norm k' = norm k \<Longrightarrow>
      look k' t s' = Some (Some v', x) \<Longrightarrow> v' = w \<and> t < expiry now life"
    and store_kept: "good s \<Longrightarrow> store k v ttl now True s = Some s' \<Longrightarrow>
      admit k v ttl = Some (w, life) \<Longrightarrow> norm k' = norm k \<Longrightarrow> t < expiry now life \<Longrightarrow>
      \<exists>y. look k' t s' = Some (Some w, y)"
begin

lemma exec_total: "good s \<Longrightarrow> \<exists>s'. exec store look es s = Some s' \<and> good s'"
proof (induction es arbitrary: s)
  case (Cons ev es)
  show ?case
  proof (cases ev)
    case (Store k v ttl now alloc_ok)
    obtain s1 where "store k v ttl now alloc_ok s = Some s1" "good s1"
      using store_ok [OF Cons.prems] by blast
    with Cons.IH [of s1] Store show ?thesis by simp
  next
    case (Lookup k now)
    obtain r s1 where "look k now s = Some (r, s1)" "good s1"
      using look_ok [OF Cons.prems] by blast
    with Cons.IH [of s1] Lookup show ?thesis by simp
  qed
qed simp

lemma serves_latest:
  "good s \<Longrightarrow> exec store look es s = Some s' \<Longrightarrow>
   (\<And>t v x. look k t s = Some (Some v, x) \<Longrightarrow> \<exists>e. cur = Some (v, e) \<and> t < e) \<Longrightarrow>
   look k t s' = Some (Some v, x) \<Longrightarrow>
   \<exists>e. latest norm admit k es cur = Some (v, e) \<and> t < e"
proof (induction es arbitrary: s cur)
  case Nil
  then show ?case by simp
next
  case (Cons ev es)
  show ?case
  proof (cases ev)
    case (Lookup k0 u)
    then obtain r s1 where s1: "look k0 u s = Some (r, s1)" "exec store look es s1 = Some s'"
      using Cons.prems(2) by (auto simp: bind_eq_Some_conv)
    moreover have "good s1"
      using look_ok [OF Cons.prems(1), of k0 u] s1(1) by auto
    moreover have "\<exists>e. cur = Some (v, e) \<and> t < e"
      if "look k t s1 = Some (Some v, x)" for t v x
      using look_look [OF Cons.prems(1) s1(1) that] Cons.prems(3) by blast
    ultimately show ?thesis
      using Cons.IH [OF _ s1(2) _ Cons.prems(4)] Lookup by simp
  next
    case (Store k0 w ttl now alloc_ok)
    then obtain s1 where s1: "store k0 w ttl now alloc_ok s = Some s1"
        "exec store look es s1 = Some s'"
      using Cons.prems(2) by (auto simp: bind_eq_Some_conv)
    moreover have "good s1"
      using store_ok [OF Cons.prems(1), of k0 w ttl now alloc_ok] s1(1) by auto
    moreover have "\<exists>e. (case admit k0 w ttl of None \<Rightarrow> cur | Some (w, life) \<Rightarrow>
        if norm k0 = norm k then Some (w, expiry now life) else cur) = Some (v, e) \<and> t < e"
      if "look k t s1 = Some (Some v, x)" for t v x
    proof (cases "admit k0 w ttl")
      case None
      then show ?thesis
        using store_refused [OF Cons.prems(1) s1(1) None that] Cons.prems(3) by auto
    next
      case (Some a)
      obtain w' life where a: "admit k0 w ttl = Some (w', life)"
        using Some by (cases a) simp
      show ?thesis
      proof (cases "norm k0 = norm k")
        case True
        then show ?thesis
          using store_same [OF Cons.prems(1) s1(1) a _ that] a by simp
      next
        case False
        then show ?thesis
          using store_other [OF Cons.prems(1) s1(1) _ that] Cons.prems(3) a by auto
      qed
    qed
    ultimately show ?thesis
      using Cons.IH [OF _ s1(2) _ Cons.prems(4)] Store by simp
  qed
qed

lemma serves_latest_from_empty:
  assumes "good s" "\<And>t. \<exists>y. look k t s = Some (None, y)" "exec store look es s = Some s'"
    "look k t s' = Some (Some v, x)"
  shows "\<exists>e. latest norm admit k es None = Some (v, e) \<and> t < e"
proof (rule serves_latest [OF assms(1,3) _ assms(4)])
  fix t v x
  assume "look k t s = Some (Some v, x)"
  then show "\<exists>e. None = Some (v, e) \<and> t < e"
    using assms(2) [of t] by simp
qed

end

text \<open>A table of entries with a key, a value and an expiry satisfies the contract.\<close>

locale keyed_table =
  fixes store :: "'k \<Rightarrow> 'v \<Rightarrow> u32 \<Rightarrow> instant \<Rightarrow> bool \<Rightarrow> 's \<Rightarrow> 's option"
    and look :: "'k \<Rightarrow> instant \<Rightarrow> 's \<Rightarrow> ('v option \<times> 's) option"
    and norm :: "'k \<Rightarrow> 'c"
    and admit :: "'k \<Rightarrow> 'v \<Rightarrow> u32 \<Rightarrow> ('v \<times> u32) option"
    and good :: "'s \<Rightarrow> bool"
    and entries :: "'s \<Rightarrow> 'e list"
    and key :: "'e \<Rightarrow> 'c"
    and expires :: "'e \<Rightarrow> instant"
    and content :: "'e \<Rightarrow> 'v"
  assumes refuse: "good s \<Longrightarrow> admit k v ttl = None \<Longrightarrow> store k v ttl now alloc_ok s = Some s"
    and accept: "good s \<Longrightarrow> admit k v ttl = Some (w, life) \<Longrightarrow>
      \<exists>s' e. store k v ttl now alloc_ok s = Some s' \<and> good s' \<and>
        key e = norm k \<and> content e = w \<and> expires e = expiry now life \<and>
        set (entries s') \<subseteq> insert e {x \<in> set (entries s). key x \<noteq> norm k} \<and>
        (alloc_ok \<longrightarrow> e \<in> set (entries s'))"
    and looked: "good s \<Longrightarrow>
      \<exists>r s'. look k t s = Some (r, s') \<and> good s' \<and> set (entries s') \<subseteq> set (entries s)"
    and hit: "good s \<Longrightarrow> (\<exists>y. look k t s = Some (Some v, y)) \<longleftrightarrow>
      (\<exists>e \<in> set (entries s). key e = norm k \<and> t < expires e \<and> content e = v)"
begin

lemma hit_mono:
  assumes "good s" "good s'" "look k t s' = Some (Some v, x)"
    "\<And>e. e \<in> set (entries s') \<Longrightarrow> key e = norm k \<Longrightarrow> e \<in> set (entries s)"
  shows "\<exists>y. look k t s = Some (Some v, y)"
proof -
  from hit [OF assms(2), of k t v] assms(3)
  obtain e where "e \<in> set (entries s')" "key e = norm k" "t < expires e" "content e = v"
    by blast
  then show ?thesis
    using hit [OF assms(1), of k t v] assms(4) by blast
qed

lemma store_cases:
  assumes "good s" "store k v ttl now alloc_ok s = Some s'"
  obtains "admit k v ttl = None" "s' = s"
  | w life e where "admit k v ttl = Some (w, life)" "good s'" "key e = norm k" "content e = w"
      "expires e = expiry now life"
      "set (entries s') \<subseteq> insert e {x \<in> set (entries s). key x \<noteq> norm k}"
      "alloc_ok \<longrightarrow> e \<in> set (entries s')"
proof (cases "admit k v ttl")
  case None
  then show thesis
    using refuse [OF assms(1) None] assms(2) that(1) by simp
next
  case (Some a)
  obtain w life where a: "admit k v ttl = Some (w, life)"
    using Some by (cases a) simp
  from accept [OF assms(1) a, of now alloc_ok] assms(2) show thesis
    using that(2) [OF a] by auto
qed

end

sublocale keyed_table \<subseteq> expiring_cache store look norm admit good
proof unfold_locales
  fix s k v ttl now alloc_ok
  assume "good s"
  then show "\<exists>s'. store k v ttl now alloc_ok s = Some s' \<and> good s'"
    using refuse [of s k v ttl now alloc_ok] accept [of s k v ttl _ _ now alloc_ok]
    by (cases "admit k v ttl") auto
next
  fix s k t
  assume "good s"
  then show "\<exists>r s'. look k t s = Some (r, s') \<and> good s'"
    using looked by blast
next
  fix s k u r s' k' t v x
  assume "good s" "look k u s = Some (r, s')" "look k' t s' = Some (Some v, x)"
  then show "\<exists>y. look k' t s = Some (Some v, y)"
    using looked [of s k u] hit_mono [of s s' k' t v x] by auto
next
  fix s k v ttl now alloc_ok s' k' t v' x
  assume "good s" "store k v ttl now alloc_ok s = Some s'" "admit k v ttl = None"
    "look k' t s' = Some (Some v', x)"
  then show "\<exists>y. look k' t s = Some (Some v', y)"
    using refuse by simp
next
  fix s k v ttl now alloc_ok s' k' t v' x
  assume *: "good s" "store k v ttl now alloc_ok s = Some s'" "norm k' \<noteq> norm k"
    "look k' t s' = Some (Some v', x)"
  from *(1,2) show "\<exists>y. look k' t s = Some (Some v', y)"
  proof (cases rule: store_cases)
    case 1
    with *(4) show ?thesis by blast
  next
    case (2 w life e)
    then have "e' \<in> set (entries s)" if "e' \<in> set (entries s')" "key e' = norm k'" for e'
      using that *(3) by auto
    then show ?thesis
      by (rule hit_mono [OF *(1) 2(2) *(4)])
  qed
next
  fix s k v ttl now alloc_ok s' w life k' t v' x
  assume *: "good s" "store k v ttl now alloc_ok s = Some s'" "admit k v ttl = Some (w, life)"
    "norm k' = norm k" "look k' t s' = Some (Some v', x)"
  from *(1,2) show "v' = w \<and> t < expiry now life"
    by (cases rule: store_cases) (use * hit [of s' k' t v'] in auto)
next
  fix s k v ttl now s' w life k' t
  assume *: "good s" "store k v ttl now True s = Some s'" "admit k v ttl = Some (w, life)"
    "norm k' = norm k" "t < expiry now life"
  from *(1,2) show "\<exists>y. look k' t s' = Some (Some w, y)"
    by (cases rule: store_cases) (use * hit [of s' k' t w] in auto)
qed

section \<open>The typed cache meets the contract\<close>

definition dns_store ::
  "bytes \<times> query_type \<Rightarrow> cache_value \<Rightarrow> u32 \<Rightarrow> instant \<Rightarrow> bool \<Rightarrow> dns_cache \<Rightarrow> dns_cache option" where
  "dns_store k v ttl now alloc_ok c =
     map_option fst
       (case v of
          PositiveValue addresses \<Rightarrow>
            dns_insert_positive alloc_ok (fst k) (snd k) addresses ttl now c
        | NegativeValue rcode \<Rightarrow> dns_insert_negative alloc_ok (fst k) (snd k) rcode now c)"

definition dns_look ::
  "bytes \<times> query_type \<Rightarrow> instant \<Rightarrow> dns_cache \<Rightarrow> (cache_value option \<times> dns_cache) option" where
  "dns_look k now c = Some (dns_get (fst k) (snd k) now c)"

definition dns_norm :: "bytes \<times> query_type \<Rightarrow> (dns_error + bytes) \<times> query_type" where
  "dns_norm k = (canonicalize_name (fst k), snd k)"

definition dns_admit ::
  "bytes \<times> query_type \<Rightarrow> cache_value \<Rightarrow> u32 \<Rightarrow> (cache_value \<times> u32) option" where
  "dns_admit k v ttl =
     (if \<not> is_ok (canonicalize_name (fst k)) then None
      else case v of
        PositiveValue addresses \<Rightarrow>
          if addresses \<noteq> [] \<and> length addresses \<le> MAX_ANSWERS \<and>
             list_all (family_matches (snd k)) addresses
          then Some (v, clamp_ttl ttl) else None
      | NegativeValue rcode \<Rightarrow> if rcode \<le> 0x0F then Some (v, NEGATIVE_TTL_SECS) else None)"

definition ce_key :: "cache_entry \<Rightarrow> (dns_error + bytes) \<times> query_type" where
  "ce_key e = (Inr (ce_name e), ce_type e)"

definition dns_cache_good :: "nat \<Rightarrow> dns_cache \<Rightarrow> bool" where
  "dns_cache_good mx c \<longleftrightarrow>
     dc_max_entries c = mx \<and> 0 < mx \<and> length (dc_entries c) \<le> mx \<and>
     distinct (map ce_key (dc_entries c))"

lemma dns_remove_expired_good: "dns_cache_good mx c \<Longrightarrow> dns_cache_good mx (dns_remove_expired now c)"
  by (auto simp: dns_cache_good_def dns_remove_expired_def distinct_map_filter
      intro: order_trans [OF length_filter_le])

lemma dns_insert_ok:
  assumes "dns_cache_good mx c" "canonicalize_name raw = Inr name"
  shows "\<exists>c' r e. dns_insert alloc_ok raw ty v ttl now c = Some (c', r) \<and> dns_cache_good mx c' \<and>
    ce_key e = (Inr name, ty) \<and> ce_value e = v \<and> ce_expires_at e = expiry now ttl \<and>
    set (dc_entries c') \<subseteq> insert e {x \<in> set (dc_entries c). ce_key x \<noteq> (Inr name, ty)} \<and>
    (alloc_ok \<longrightarrow> r = Inr () \<and> e \<in> set (dc_entries c'))"
proof -
  let ?c1 = "dns_remove_expired now c"
  let ?e = "\<lparr>ce_name = name, ce_type = ty, ce_value = v, ce_expires_at = expiry now ttl,
    ce_sequence = dc_next_sequence ?c1\<rparr>"
  have same: "(\<lambda>e. ce_name e = name \<and> ce_type e = ty) = (\<lambda>e. ce_key e = (Inr name, ty))"
    by (simp add: ce_key_def fun_eq_iff)
  have good: "dns_cache_good mx ?c1"
    by (rule dns_remove_expired_good [OF assms(1)])
  obtain ys r where ys: "bounded_insert (\<lambda>e. ce_key e = (Inr name, ty))
      (\<lambda>e. (ce_expires_at e, ce_sequence e)) (dc_max_entries ?c1) alloc_ok ?e
      (dc_entries ?c1) = Some (ys, r)"
    "distinct (map ce_key ys)" "length ys \<le> dc_max_entries ?c1"
    "set ys \<subseteq> insert ?e {x \<in> set (dc_entries ?c1). ce_key x \<noteq> (Inr name, ty)}"
    "alloc_ok \<Longrightarrow> r = Inr () \<and> ?e \<in> set ys"
    using good by (rule_tac bounded_insert_ok [of ce_key "dc_entries ?c1" "dc_max_entries ?c1"
          ?e "(Inr name, ty)"]) (auto simp: dns_cache_good_def ce_key_def)
  have "dns_insert alloc_ok raw ty v ttl now c =
      Some (?c1\<lparr>dc_next_sequence := dc_next_sequence ?c1 + 1, dc_entries := ys\<rparr>, r)"
    using assms(2) ys(1) by (simp add: dns_insert_def Let_def dns_take_sequence_def same)
  moreover have "set (dc_entries ?c1) \<subseteq> set (dc_entries c)"
    by (auto simp: dns_remove_expired_def)
  ultimately show ?thesis
    using ys(2-5) good
    by (intro exI [of _ "?c1\<lparr>dc_next_sequence := dc_next_sequence ?c1 + 1, dc_entries := ys\<rparr>"]
        exI [of _ r] exI [of _ ?e])
      (auto simp: dns_cache_good_def ce_key_def)
qed

lemma dns_get_with_ttl_hit:
  assumes "dns_cache_good mx c" "e \<in> set (dc_entries c)" "ce_key e = dns_norm (raw, ty)"
    "t < ce_expires_at e"
  shows "fst (dns_get_with_ttl raw ty t c) =
         Some (ce_value e, remaining_ttl (ce_expires_at e) t)"
proof -
  let ?es = "filter (\<lambda>e. t < ce_expires_at e) (dc_entries c)"
  have name: "canonicalize_name raw = Inr (ce_name e)" "ty = ce_type e"
    using assms(3) by (simp_all add: ce_key_def dns_norm_def)
  have "distinct (map ce_key ?es)"
    using assms(1) by (simp add: dns_cache_good_def distinct_map_filter)
  then have "find (\<lambda>x. ce_key x = ce_key e \<and> True) ?es = Some e"
    using find_distinct_key [of ce_key ?es "ce_key e" "\<lambda>_. True" e] assms by simp
  moreover have "(\<lambda>x. ce_name x = ce_name e \<and> ce_type x = ty) = (\<lambda>x. ce_key x = ce_key e)"
    using name by (simp add: ce_key_def fun_eq_iff)
  ultimately show ?thesis
    using name by (simp add: dns_get_with_ttl_def Let_def dns_remove_expired_def)
qed

lemma dns_get_hit:
  assumes "dns_cache_good mx c"
  shows "(\<exists>y. dns_look k t c = Some (Some v, y)) \<longleftrightarrow>
    (\<exists>e \<in> set (dc_entries c). ce_key e = dns_norm k \<and> t < ce_expires_at e \<and> ce_value e = v)"
proof (cases "canonicalize_name (fst k)")
  case (Inl err)
  then show ?thesis
    by (simp add: dns_look_def dns_get_def dns_get_with_ttl_def Let_def dns_norm_def ce_key_def)
next
  case (Inr name)
  let ?es = "filter (\<lambda>e. t < ce_expires_at e) (dc_entries c)"
  have "distinct (map ce_key ?es)"
    using assms by (simp add: dns_cache_good_def distinct_map_filter)
  then have "find (\<lambda>e. ce_key e = (Inr name, snd k)) ?es = Some e \<longleftrightarrow>
      e \<in> set ?es \<and> ce_key e = (Inr name, snd k)" for e
    using find_distinct_key [of ce_key ?es "(Inr name, snd k)" "\<lambda>_. True" e] by simp
  moreover have "(\<lambda>e. ce_name e = name \<and> ce_type e = snd k) =
      (\<lambda>e. ce_key e = (Inr name, snd k))"
    by (simp add: ce_key_def fun_eq_iff)
  ultimately show ?thesis
    using Inr
    by (auto simp: dns_look_def dns_get_def dns_get_with_ttl_def Let_def dns_norm_def
        dns_remove_expired_def)
qed

interpretation typed: keyed_table dns_store dns_look dns_norm dns_admit "dns_cache_good mx"
  dc_entries ce_key ce_expires_at ce_value
proof unfold_locales
  fix s k v ttl now alloc_ok
  assume "dns_cache_good mx s" "dns_admit k v ttl = None"
  then show "dns_store k v ttl now alloc_ok s = Some s"
    by (auto simp: dns_store_def dns_admit_def dns_insert_positive_def dns_insert_negative_def
        dns_insert_def list_all_iff list_ex_iff is_ok_iff
        split: cache_value.splits sum.splits if_splits)
next
  fix s k v ttl w life now alloc_ok
  assume *: "dns_cache_good mx s" "dns_admit k v ttl = Some (w, life)"
  then obtain name where name: "canonicalize_name (fst k) = Inr name"
    by (auto simp: dns_admit_def is_ok_iff split: if_splits)
  have "w = v" "dns_store k v ttl now alloc_ok s =
      map_option fst (dns_insert alloc_ok (fst k) (snd k) v life now s)"
    using *(2)
    by (auto simp: dns_store_def dns_admit_def dns_insert_positive_def dns_insert_negative_def
        list_all_iff list_ex_iff split: cache_value.splits if_splits)
  then show "\<exists>s' e. dns_store k v ttl now alloc_ok s = Some s' \<and> dns_cache_good mx s' \<and>
      ce_key e = dns_norm k \<and> ce_value e = w \<and> ce_expires_at e = expiry now life \<and>
      set (dc_entries s') \<subseteq> insert e {x \<in> set (dc_entries s). ce_key x \<noteq> dns_norm k} \<and>
      (alloc_ok \<longrightarrow> e \<in> set (dc_entries s'))"
    using dns_insert_ok [OF *(1) name, of alloc_ok "snd k" v life now] name
    by (auto simp: dns_norm_def)
next
  fix s k t
  assume "dns_cache_good mx s"
  then show "\<exists>r s'. dns_look k t s = Some (r, s') \<and> dns_cache_good mx s' \<and>
      set (dc_entries s') \<subseteq> set (dc_entries s)"
    using dns_remove_expired_good [of mx s t]
    by (auto simp: dns_look_def dns_get_def dns_get_with_ttl_def Let_def dns_remove_expired_def
        split: sum.split)
qed (rule dns_get_hit)

section \<open>The reverse hints meet the contract\<close>

definition redir_store ::
  "ip_addr \<Rightarrow> bytes \<Rightarrow> u32 \<Rightarrow> instant \<Rightarrow> bool \<Rightarrow> redir_hints \<Rightarrow> redir_hints option" where
  "redir_store address raw ttl now alloc_ok h =
     map_option fst (redir_insert alloc_ok address raw ttl now h)"

definition redir_admit :: "ip_addr \<Rightarrow> bytes \<Rightarrow> u32 \<Rightarrow> (bytes \<times> u32) option" where
  "redir_admit address raw ttl =
     (case canonicalize_name raw of Inl _ \<Rightarrow> None | Inr domain \<Rightarrow> Some (domain, clamp_ttl ttl))"

definition redir_good :: "nat \<Rightarrow> redir_hints \<Rightarrow> bool" where
  "redir_good mx h \<longleftrightarrow>
     rh_max_entries h = mx \<and> 0 < mx \<and> length (rh_entries h) \<le> mx \<and>
     distinct (map re_address (rh_entries h))"

lemma redir_insert_ok:
  assumes "redir_good mx h" "canonicalize_name raw = Inr domain"
  shows "\<exists>h' r e. redir_insert alloc_ok address raw ttl now h = Some (h', r) \<and> redir_good mx h' \<and>
    re_address e = address \<and> re_domain e = domain \<and>
    re_expires_at e = expiry now (clamp_ttl ttl) \<and>
    set (rh_entries h') \<subseteq> insert e {x \<in> set (rh_entries h). re_address x \<noteq> address} \<and>
    (alloc_ok \<longrightarrow> e \<in> set (rh_entries h'))"
proof -
  let ?h1 = "redir_remove_expired now h"
  let ?e = "\<lparr>re_address = address, re_domain = domain,
    re_expires_at = expiry now (clamp_ttl ttl), re_sequence = rh_next_sequence ?h1\<rparr>"
  have good: "redir_good mx ?h1"
    using assms(1) by (auto simp: redir_good_def redir_remove_expired_def distinct_map_filter
        intro: order_trans [OF length_filter_le])
  obtain ys r where ys: "bounded_insert (\<lambda>e. re_address e = address)
      (\<lambda>e. (re_expires_at e, re_sequence e)) (rh_max_entries ?h1) alloc_ok ?e
      (rh_entries ?h1) = Some (ys, r)"
    "distinct (map re_address ys)" "length ys \<le> rh_max_entries ?h1"
    "set ys \<subseteq> insert ?e {x \<in> set (rh_entries ?h1). re_address x \<noteq> address}"
    "alloc_ok \<Longrightarrow> r = Inr () \<and> ?e \<in> set ys"
    using good by (rule_tac bounded_insert_ok [of re_address "rh_entries ?h1"
          "rh_max_entries ?h1" ?e address]) (auto simp: redir_good_def)
  have "redir_insert alloc_ok address raw ttl now h =
      Some (?h1\<lparr>rh_next_sequence := rh_next_sequence ?h1 + 1, rh_entries := ys\<rparr>, r)"
    using assms(2) ys(1) by (simp add: redir_insert_def Let_def redir_take_sequence_def)
  moreover have "set (rh_entries ?h1) \<subseteq> set (rh_entries h)"
    by (auto simp: redir_remove_expired_def)
  ultimately show ?thesis
    using ys(2-5) good
    by (intro exI [of _ "?h1\<lparr>rh_next_sequence := rh_next_sequence ?h1 + 1, rh_entries := ys\<rparr>"]
        exI [of _ r] exI [of _ ?e])
      (auto simp: redir_good_def)
qed

lemma redir_get_cases:
  assumes "redir_good mx h"
  obtains (miss) "\<forall>e \<in> set (rh_entries h). re_address e \<noteq> address"
      "redir_get address now h = Some (None, h)"
  | (stale) i es where "i < length (rh_entries h)" "re_address (rh_entries h ! i) = address"
      "re_expires_at (rh_entries h ! i) \<le> now" "swap_remove (rh_entries h) i = Some es"
      "redir_get address now h = Some (None, h\<lparr>rh_entries := es\<rparr>)"
  | (live) i where "i < length (rh_entries h)" "re_address (rh_entries h ! i) = address"
      "now < re_expires_at (rh_entries h ! i)"
      "redir_get address now h = Some (Some (re_domain (rh_entries h ! i)), h)"
proof (cases "find_index (\<lambda>e. re_address e = address) (rh_entries h)")
  case None
  then show thesis
    using miss None by (simp add: redir_get_def) (simp add: find_index_None)
next
  case (Some i)
  note i = find_index_Some [OF Some]
  obtain es where "swap_remove (rh_entries h) i = Some es"
    using i swap_remove_ok by blast
  then show thesis
    using stale [of i es] live [of i] i Some
    by (cases "re_expires_at (rh_entries h ! i) \<le> now") (simp_all add: redir_get_def)
qed

lemma redir_unique:
  "redir_good mx h \<Longrightarrow> i < length (rh_entries h) \<Longrightarrow> e \<in> set (rh_entries h) \<Longrightarrow>
   re_address e = re_address (rh_entries h ! i) \<Longrightarrow> e = rh_entries h ! i"
  using inj_onD [of re_address "set (rh_entries h)" e "rh_entries h ! i"]
  by (simp add: redir_good_def distinct_map)

interpretation hints: keyed_table redir_store redir_get "\<lambda>address. address" redir_admit "redir_good mx"
  rh_entries re_address re_expires_at re_domain
proof unfold_locales
  fix s k v ttl now alloc_ok
  assume "redir_good mx s" "redir_admit k v ttl = None"
  then show "redir_store k v ttl now alloc_ok s = Some s"
    by (auto simp: redir_store_def redir_admit_def redir_insert_def split: sum.splits)
next
  fix s k v ttl w life now alloc_ok
  assume *: "redir_good mx s" "redir_admit k v ttl = Some (w, life)"
  then have "canonicalize_name v = Inr w" "life = clamp_ttl ttl"
    by (auto simp: redir_admit_def split: sum.splits)
  then show "\<exists>s' e. redir_store k v ttl now alloc_ok s = Some s' \<and> redir_good mx s' \<and>
      re_address e = k \<and> re_domain e = w \<and> re_expires_at e = expiry now life \<and>
      set (rh_entries s') \<subseteq> insert e {x \<in> set (rh_entries s). re_address x \<noteq> k} \<and>
      (alloc_ok \<longrightarrow> e \<in> set (rh_entries s'))"
    using redir_insert_ok [OF *(1), of v w alloc_ok k ttl now]
    by (auto simp: redir_store_def)
next
  fix s k t
  assume "redir_good mx s"
  then show "\<exists>r s'. redir_get k t s = Some (r, s') \<and> redir_good mx s' \<and>
      set (rh_entries s') \<subseteq> set (rh_entries s)"
  proof (cases rule: redir_get_cases [of mx s k t])
    case (stale i es)
    with \<open>redir_good mx s\<close> swap_remove_facts [OF stale(4)] show ?thesis
      by (auto simp: redir_good_def)
  qed (use \<open>redir_good mx s\<close> in auto)
next
  fix s k t v
  assume good: "redir_good mx s"
  then show "(\<exists>y. redir_get k t s = Some (Some v, y)) \<longleftrightarrow>
      (\<exists>e \<in> set (rh_entries s). re_address e = k \<and> t < re_expires_at e \<and> re_domain e = v)"
  proof (cases rule: redir_get_cases [of mx s k t])
    case (stale i es)
    then have "\<not> t < re_expires_at e" if "e \<in> set (rh_entries s)" "re_address e = k" for e
      using redir_unique [OF good stale(1) that(1)] that(2) by simp
    with stale(5) show ?thesis by auto
  next
    case (live i)
    then have "e = rh_entries s ! i" if "e \<in> set (rh_entries s)" "re_address e = k" for e
      using redir_unique [OF good live(1) that(1)] that(2) by simp
    then have "(\<exists>e \<in> set (rh_entries s). re_address e = k \<and> t < re_expires_at e \<and>
        re_domain e = v) \<longleftrightarrow> re_domain (rh_entries s ! i) = v"
      using live(2,3) nth_mem [OF live(1)] by metis
    with live(4) show ?thesis by simp
  qed auto
qed

section \<open>Properties\<close>

lemma dns_cache_new_good: "dns_cache_new = Some c \<Longrightarrow> dns_cache_good MAX_CACHE_ENTRIES c \<and> dc_entries c = []"
  by (auto simp: dns_cache_new_def dns_cache_with_max_entries_def dns_cache_good_def
      MAX_CACHE_ENTRIES_def split: if_splits)

lemma redir_new_good: "redir_new = Some h \<Longrightarrow> redir_good MAX_REDIR_HOST_ENTRIES h \<and> rh_entries h = []"
  by (auto simp: redir_new_def redir_with_max_entries_def redir_good_def
      MAX_REDIR_HOST_ENTRIES_def split: if_splits)

text \<open>
  Claim C3. Over any sequence of insertions and lookups, at any times and with any allocator
  failures, the typed DNS cache never panics, never holds more than 256 entries, and a lookup
  returns only the value last accepted for that name and type, and only before its expiry.
\<close>

theorem dns_cache_serves_latest:
  assumes "dns_cache_new = Some c0"
  shows "\<exists>c. exec dns_store dns_look events c0 = Some c \<and>
    length (dc_entries c) \<le> MAX_CACHE_ENTRIES \<and>
    (\<forall>raw ty t v. fst (dns_get raw ty t c) = Some v \<longrightarrow>
       (\<exists>e. latest dns_norm dns_admit (raw, ty) events None = Some (v, e) \<and> t < e))"
proof -
  note c0 = dns_cache_new_good [OF assms]
  obtain c where c: "exec dns_store dns_look events c0 = Some c"
    "dns_cache_good MAX_CACHE_ENTRIES c"
    using typed.exec_total [of MAX_CACHE_ENTRIES c0 events] c0 by auto
  moreover have "\<exists>e. latest dns_norm dns_admit (raw, ty) events None = Some (v, e) \<and> t < e"
    if v: "fst (dns_get raw ty t c) = Some v" for raw ty t v
  proof (rule typed.serves_latest_from_empty [of MAX_CACHE_ENTRIES c0, OF _ _ c(1)])
    show "dns_look (raw, ty) t c = Some (Some v, snd (dns_get raw ty t c))"
      using v by (cases "dns_get raw ty t c") (simp add: dns_look_def)
    show "\<exists>y. dns_look (raw, ty) t c0 = Some (None, y)" for t
      using c0 by (auto simp: dns_look_def dns_get_def dns_get_with_ttl_def Let_def
          dns_remove_expired_def split: sum.split)
  qed (use c0 in simp)
  ultimately show ?thesis
    by (auto simp: dns_cache_good_def)
qed

theorem dns_cache_serves_latest_witness:
  "\<exists>c0 c. dns_cache_new = Some c0 \<and>
     exec dns_store dns_look
       [Store (str ''a.b'', TypeA) (PositiveValue [IpV4 5]) 60 0 True, Lookup (str ''c'', TypeA) 3]
       c0 = Some c \<and> length (dc_entries c) \<le> MAX_CACHE_ENTRIES"
proof -
  obtain c0 where "dns_cache_new = Some c0"
    by (simp add: dns_cache_new_def dns_cache_with_max_entries_def MAX_CACHE_ENTRIES_def)
  with dns_cache_serves_latest [OF this, of "[Store (str ''a.b'', TypeA) (PositiveValue [IpV4 5])
      60 0 True, Lookup (str ''c'', TypeA) 3]"]
  show ?thesis by auto
qed

text \<open>
  Claim C34. Over any sequence of insertions and lookups the reverse-hint table never panics,
  never holds more than 256 entries, and maps an address only to the canonical form of the
  domain last inserted for it, before the expiry of that insertion.
\<close>

theorem redir_hints_serve_latest:
  assumes "redir_new = Some h0"
  shows "\<exists>h. exec redir_store redir_get events h0 = Some h \<and>
    length (rh_entries h) \<le> MAX_REDIR_HOST_ENTRIES \<and>
    (\<forall>address t domain y. redir_get address t h = Some (Some domain, y) \<longrightarrow>
       (\<exists>e. latest (\<lambda>a. a) redir_admit address events None = Some (domain, e) \<and> t < e))"
proof -
  note h0 = redir_new_good [OF assms]
  obtain h where h: "exec redir_store redir_get events h0 = Some h"
    "redir_good MAX_REDIR_HOST_ENTRIES h"
    using hints.exec_total [of MAX_REDIR_HOST_ENTRIES h0 events] h0 by auto
  moreover have "\<exists>e. latest (\<lambda>a. a) redir_admit address events None = Some (domain, e) \<and> t < e"
    if "redir_get address t h = Some (Some domain, y)" for address t domain y
    by (rule hints.serves_latest_from_empty [of MAX_REDIR_HOST_ENTRIES h0, OF _ _ h(1) that])
      (use h0 in \<open>simp_all add: redir_get_def\<close>)
  ultimately show ?thesis
    by (auto simp: redir_good_def)
qed

theorem redir_hints_serve_latest_witness:
  "\<exists>h0 h. redir_new = Some h0 \<and>
     exec redir_store redir_get [Store (IpV4 5) (str ''a.b'') 60 0 True, Lookup (IpV4 5) 3] h0 =
       Some h \<and> length (rh_entries h) \<le> MAX_REDIR_HOST_ENTRIES"
proof -
  obtain h0 where "redir_new = Some h0"
    by (simp add: redir_new_def redir_with_max_entries_def MAX_REDIR_HOST_ENTRIES_def)
  with redir_hints_serve_latest [OF this,
      of "[Store (IpV4 5) (str ''a.b'') 60 0 True, Lookup (IpV4 5) 3]"]
  show ?thesis by auto
qed

text \<open>
  Claim C35. A positive answer that was inserted is found, under any spelling of the same name,
  until its clamped time to live (between 30 and 3600 seconds) has passed, and the time to
  live handed to the client never reaches past the entry's own expiry.
\<close>

theorem dns_cache_insert_then_get:
  assumes "dns_cache_good mx c"
    and "dns_insert_positive True raw ty addresses ttl now c = Some (c', Inr ())"
    and "canonicalize_name raw' = canonicalize_name raw"
    and "t < expiry now (clamp_ttl ttl)"
  shows "\<exists>remaining. fst (dns_get_with_ttl raw' ty t c') =
           Some (PositiveValue addresses, remaining) \<and>
         t + unat remaining * 1000000000 \<le> expiry now (clamp_ttl ttl) \<and>
         30 \<le> unat (clamp_ttl ttl) \<and> unat (clamp_ttl ttl) \<le> 3600"
proof -
  have ins: "dns_insert True raw ty (PositiveValue addresses) (clamp_ttl ttl) now c =
      Some (c', Inr ())"
    using assms(2) by (auto simp: dns_insert_positive_def split: if_splits)
  then obtain name where name: "canonicalize_name raw = Inr name"
    by (auto simp: dns_insert_def split: sum.splits)
  from dns_insert_ok [OF assms(1) name, of True ty "PositiveValue addresses" "clamp_ttl ttl" now]
    ins
  obtain e where e: "dns_cache_good mx c'" "ce_key e = (Inr name, ty)"
    "ce_value e = PositiveValue addresses" "ce_expires_at e = expiry now (clamp_ttl ttl)"
    "e \<in> set (dc_entries c')"
    by auto
  then have "fst (dns_get_with_ttl raw' ty t c') =
      Some (PositiveValue addresses, remaining_ttl (expiry now (clamp_ttl ttl)) t)"
    using dns_get_with_ttl_hit [of mx c' e raw' ty t] assms(3,4) name by (simp add: dns_norm_def)
  moreover have "30 \<le> unat (clamp_ttl ttl) \<and> unat (clamp_ttl ttl) \<le> 3600"
    by (auto simp: clamp_ttl_def MIN_TTL_SECS_def MAX_TTL_SECS_def word_less_nat_alt)
  ultimately show ?thesis
    using remaining_ttl_bound [of t "expiry now (clamp_ttl ttl)"] assms(4) by auto
qed

theorem dns_cache_insert_then_get_witness:
  "\<exists>c c' remaining. dns_cache_new = Some c \<and>
     dns_insert_positive True (str ''a.b'') TypeA [IpV4 5] 60 0 c = Some (c', Inr ()) \<and>
     fst (dns_get_with_ttl (str ''a.b'') TypeA 59000000000 c') =
       Some (PositiveValue [IpV4 5], remaining)"
proof -
  obtain c where c: "dns_cache_new = Some c"
    by (simp add: dns_cache_new_def dns_cache_with_max_entries_def MAX_CACHE_ENTRIES_def)
  note good = conjunct1 [OF dns_cache_new_good [OF c]]
  have name: "canonicalize_name (str ''a.b'') = Inr (str ''a.b'')"
    using canonical_a_b by (simp add: canonical_def)
  have ttl: "clamp_ttl 60 = 60"
    by (simp add: clamp_ttl_def MIN_TTL_SECS_def MAX_TTL_SECS_def)
  from dns_insert_ok [OF good name, of True TypeA "PositiveValue [IpV4 5]" 60 0] ttl
  obtain c' where c': "dns_insert_positive True (str ''a.b'') TypeA [IpV4 5] 60 0 c =
      Some (c', Inr ())"
    by (auto simp: dns_insert_positive_def MAX_ANSWERS_def)
  have "59000000000 < expiry 0 (clamp_ttl 60)"
    by (simp add: ttl expiry_def INSTANT_MAX_def)
  from dns_cache_insert_then_get [OF good c' refl this] c c' show ?thesis by blast
qed

end
