(* ===== verification/Dns_Opaque_Cache.thy ===== *)
theory Dns_Opaque_Cache
  imports Dns_Cache
begin

text \<open>
  \<^verbatim>\<open>OpaqueDnsCache\<close> of \<^verbatim>\<open>src/dns/mod.rs\<close>: whole responses for questions other than A and AAAA, limited
  in number and in bytes, and rewritten on a hit. \<open>None\<close> is a panic: a slice or index out of
  range, or a byte count that would become negative.
\<close>

section \<open>State\<close>

definition MAX_OPAQUE_CACHE_ENTRIES :: nat where "MAX_OPAQUE_CACHE_ENTRIES = 64"
definition MAX_OPAQUE_CACHE_BYTES :: nat where "MAX_OPAQUE_CACHE_BYTES = 256 * 1024"
definition MAX_OPAQUE_CACHE_ENTRY_BYTES :: nat where
  "MAX_OPAQUE_CACHE_ENTRY_BYTES = MAX_MESSAGE_SIZE"

record opaque_entry =
  oe_question :: wire_question
  oe_digest :: bytes
  oe_wire :: bytes
  oe_ttl_offsets :: "u16 list"
  oe_accounted_bytes :: nat
  oe_expires_at :: instant
  oe_sequence :: u64

record opaque_cache =
  oc_entries :: "opaque_entry list"
  oc_retained_bytes :: nat
  oc_next_sequence :: u64

definition opaque_new :: opaque_cache where
  "opaque_new = \<lparr>oc_entries = [], oc_retained_bytes = 0, oc_next_sequence = 0\<rparr>"

definition opaque_clear :: "opaque_cache \<Rightarrow> opaque_cache" where
  "opaque_clear c = c\<lparr>oc_entries := [], oc_retained_bytes := 0\<rparr>"

definition checked_mul :: "nat \<Rightarrow> nat \<Rightarrow> nat option" where
  "checked_mul a b = (if a * b \<le> usize_max then Some (a * b) else None)"

definition opaque_entry_accounted_bytes :: "validated_response \<Rightarrow> nat option" where
  "opaque_entry_accounted_bytes response =
     Option.bind (checked_add (length (vr_wire response)) (length (wq_name (vr_question response))))
       (\<lambda>a. Option.bind (checked_add a 4)
       (\<lambda>b. Option.bind (checked_add b 32)
       (\<lambda>d. Option.bind (checked_mul (length (vr_ttl_offsets response)) 2)
       (\<lambda>offsets. checked_add d offsets))))"

section \<open>Operations\<close>

definition opaque_remove_index :: "nat \<Rightarrow> opaque_cache \<Rightarrow> opaque_cache option" where
  "opaque_remove_index i c =
     (case swap_remove (oc_entries c) i of
        None \<Rightarrow> None
      | Some entries \<Rightarrow>
          let removed = oc_entries c ! i in
          if oe_accounted_bytes removed \<le> oc_retained_bytes c
          then Some (c\<lparr>oc_entries := entries,
                       oc_retained_bytes := oc_retained_bytes c - oe_accounted_bytes removed\<rparr>)
          else None)"

lemma opaque_remove_index_length:
  "opaque_remove_index i c = Some c' \<Longrightarrow>
   i < length (oc_entries c) \<and> length (oc_entries c) = Suc (length (oc_entries c'))"
  by (auto simp: opaque_remove_index_def Let_def split: option.splits if_splits
      dest: swap_remove_facts swap_remove_mset(1))

function opaque_remove_expired_from ::
  "instant \<Rightarrow> nat \<Rightarrow> opaque_cache \<Rightarrow> opaque_cache option" where
  "opaque_remove_expired_from now index c =
     (if index < length (oc_entries c) then
        if oe_expires_at (oc_entries c ! index) \<le> now then
          (case opaque_remove_index index c of
             None \<Rightarrow> None
           | Some c' \<Rightarrow> opaque_remove_expired_from now index c')
        else opaque_remove_expired_from now (index + 1) c
      else Some c)"
  by pat_completeness auto

termination opaque_remove_expired_from
  by (relation "measure (\<lambda>(now, index, c). length (oc_entries c) - index)")
    (auto dest: opaque_remove_index_length)

declare opaque_remove_expired_from.simps [simp del]

definition opaque_remove_expired :: "instant \<Rightarrow> opaque_cache \<Rightarrow> opaque_cache option" where
  "opaque_remove_expired now c = opaque_remove_expired_from now 0 c"

definition opaque_full :: "nat \<Rightarrow> opaque_cache \<Rightarrow> bool" where
  "opaque_full entry_bytes c \<longleftrightarrow>
     MAX_OPAQUE_CACHE_ENTRIES \<le> length (oc_entries c) \<or>
     MAX_OPAQUE_CACHE_BYTES < saturating_add (oc_retained_bytes c) entry_bytes"

function opaque_make_room :: "nat \<Rightarrow> opaque_cache \<Rightarrow> opaque_cache option" where
  "opaque_make_room entry_bytes c =
     (if oc_entries c \<noteq> [] \<and> opaque_full entry_bytes c then
        (case opaque_remove_index
                (eviction_index (\<lambda>e. (oe_expires_at e, oe_sequence e)) (oc_entries c)) c of
           None \<Rightarrow> None
         | Some c' \<Rightarrow> opaque_make_room entry_bytes c')
      else Some c)"
  by pat_completeness auto

termination opaque_make_room
  by (relation "measure (\<lambda>(entry_bytes, c). length (oc_entries c))")
    (auto dest: opaque_remove_index_length)

declare opaque_make_room.simps [simp del]

definition opaque_remove_same :: "validated_response \<Rightarrow> opaque_cache \<Rightarrow> opaque_cache option" where
  "opaque_remove_same response c =
     (case find_index (\<lambda>e. oe_question e = vr_question response \<and>
                           oe_digest e = vr_digest response) (oc_entries c) of
        None \<Rightarrow> Some c
      | Some index \<Rightarrow> opaque_remove_index index c)"

text \<open>The end of \<^verbatim>\<open>insert\<close>, once room was made.\<close>

definition opaque_push ::
  "bool \<Rightarrow> validated_response \<Rightarrow> nat \<Rightarrow> u32 \<Rightarrow> instant \<Rightarrow> opaque_cache \<Rightarrow> bool \<times> opaque_cache" where
  "opaque_push alloc_ok response entry_bytes lifetime_secs now c =
     (if opaque_full entry_bytes c then (False, c)
      else
        (let sequence = oc_next_sequence c;
             c1 = c\<lparr>oc_next_sequence := oc_next_sequence c + 1\<rparr> in
         if \<not> is_ok (reserve_entry_slot alloc_ok (oc_entries c1) MAX_OPAQUE_CACHE_ENTRIES)
         then (False, c1)
         else
           (True,
            c1\<lparr>oc_entries := oc_entries c1 @
                 [\<lparr>oe_question = vr_question response, oe_digest = vr_digest response,
                   oe_wire = vr_wire response, oe_ttl_offsets = vr_ttl_offsets response,
                   oe_accounted_bytes = entry_bytes,
                   oe_expires_at = expiry now lifetime_secs, oe_sequence = sequence\<rparr>],
               oc_retained_bytes := oc_retained_bytes c1 + entry_bytes\<rparr>)))"

definition opaque_insert ::
  "bool \<Rightarrow> validated_response \<Rightarrow> instant \<Rightarrow> opaque_cache \<Rightarrow> (bool \<times> opaque_cache) option" where
  "opaque_insert alloc_ok response now c =
     (case policy_lifetime_secs (vr_cache_policy response) of
        None \<Rightarrow> Some (False, c)
      | Some lifetime_secs \<Rightarrow>
     (case opaque_entry_accounted_bytes response of
        None \<Rightarrow> Some (False, c)
      | Some entry_bytes \<Rightarrow>
          if MAX_OPAQUE_CACHE_ENTRY_BYTES < length (vr_wire response) \<or>
             MAX_OPAQUE_CACHE_BYTES < entry_bytes \<or>
             MAX_OPAQUE_RECORDS < length (vr_ttl_offsets response)
          then Some (False, c)
          else
            Option.bind (opaque_remove_expired now c) (\<lambda>c1.
            Option.bind (opaque_remove_same response c1) (\<lambda>c2.
            Option.bind (opaque_make_room entry_bytes c2) (\<lambda>c3.
            Some (opaque_push alloc_ok response entry_bytes lifetime_secs now c3))))))"

text \<open>\<^verbatim>\<open>wire[a..a + n].copy_from_slice(bytes)\<close>.\<close>

definition write_at :: "nat \<Rightarrow> bytes \<Rightarrow> bytes \<Rightarrow> bytes option" where
  "write_at offset bs wire =
     (if offset + length bs \<le> length wire
      then Some (take offset wire @ bs @ drop (offset + length bs) wire) else None)"

fun write_ttls :: "u16 list \<Rightarrow> bytes \<Rightarrow> bytes \<Rightarrow> bytes option" where
  "write_ttls [] ttl wire = Some wire"
| "write_ttls (offset # offsets) ttl wire =
     Option.bind (write_at (unat offset) ttl wire) (write_ttls offsets ttl)"

definition hit_flags :: "bool \<Rightarrow> u16 \<Rightarrow> u16" where
  "hit_flags recursion_desired flags =
     (if recursion_desired then flags OR 0x0100 else flags AND NOT 0x0100)"

definition opaque_hit_wire :: "classified_query \<Rightarrow> instant \<Rightarrow> opaque_entry \<Rightarrow> bytes option" where
  "opaque_hit_wire query now entry =
     Option.bind (write_at 0 (be16 (cq_id query)) (oe_wire entry)) (\<lambda>wire.
     if length wire < 4 then None
     else
       Option.bind (write_at 2 (be16 (hit_flags (cq_recursion_desired query)
                                        (u16_of [wire ! 2, wire ! 3]))) wire) (\<lambda>wire'.
       write_ttls (oe_ttl_offsets entry) (be32 (remaining_ttl (oe_expires_at entry) now)) wire'))"

definition opaque_get ::
  "classified_query \<Rightarrow> instant \<Rightarrow> opaque_cache \<Rightarrow> (bytes option \<times> opaque_cache) option" where
  "opaque_get query now c =
     (if \<not> is_opaque query then Some (None, c)
      else
        Option.bind (opaque_remove_expired now c) (\<lambda>c1.
        case find (\<lambda>e. oe_question e = cq_question query \<and> oe_digest e = cq_digest query)
               (oc_entries c1) of
          None \<Rightarrow> Some (None, c1)
        | Some entry \<Rightarrow>
            map_option (\<lambda>wire. (Some wire, c1)) (opaque_hit_wire query now entry)))"

section \<open>The invariant\<close>

definition opaque_entry_ok :: "opaque_entry \<Rightarrow> bool" where
  "opaque_entry_ok e \<longleftrightarrow>
     DNS_HEADER_LEN \<le> length (oe_wire e) \<and> length (oe_wire e) \<le> MAX_MESSAGE_SIZE \<and>
     ttl_offsets_ok (length (oe_wire e)) (oe_ttl_offsets e) \<and>
     length (oe_ttl_offsets e) \<le> MAX_OPAQUE_RECORDS \<and>
     oe_accounted_bytes e =
       length (oe_wire e) + length (wq_name (oe_question e)) + 36 + 2 * length (oe_ttl_offsets e)"

definition oe_key :: "opaque_entry \<Rightarrow> wire_question \<times> bytes" where
  "oe_key e = (oe_question e, oe_digest e)"

definition opaque_inv :: "opaque_cache \<Rightarrow> bool" where
  "opaque_inv c \<longleftrightarrow>
     (\<forall>e \<in> set (oc_entries c). opaque_entry_ok e) \<and>
     distinct (map oe_key (oc_entries c)) \<and>
     length (oc_entries c) \<le> MAX_OPAQUE_CACHE_ENTRIES \<and>
     oc_retained_bytes c = sum_list (map oe_accounted_bytes (oc_entries c)) \<and>
     oc_retained_bytes c \<le> MAX_OPAQUE_CACHE_BYTES"

lemma opaque_remove_index_ok:
  assumes "opaque_inv c" "i < length (oc_entries c)"
  obtains c' where "opaque_remove_index i c = Some c'" "opaque_inv c'"
    "swap_remove (oc_entries c) i = Some (oc_entries c')"
proof -
  obtain es where es: "swap_remove (oc_entries c) i = Some es"
    using swap_remove_ok [OF assms(2)] by blast
  have total: "sum_list (map oe_accounted_bytes (oc_entries c)) =
      oe_accounted_bytes (oc_entries c ! i) + sum_list (map oe_accounted_bytes es)"
    using arg_cong [OF swap_remove_mset(2) [OF es], of "\<lambda>m. sum_mset (image_mset oe_accounted_bytes m)"]
    by (simp flip: sum_mset_sum_list)
  let ?c = "c\<lparr>oc_entries := es,
    oc_retained_bytes := oc_retained_bytes c - oe_accounted_bytes (oc_entries c ! i)\<rparr>"
  have "opaque_inv ?c"
    using assms(1) total swap_remove_facts [OF es] by (auto simp: opaque_inv_def)
  moreover have "opaque_remove_index i c = Some ?c"
    using es total assms(1) by (simp add: opaque_remove_index_def opaque_inv_def)
  ultimately show thesis
    using that [of ?c] es by simp
qed

lemma swap_remove_prefix:
  "swap_remove xs i = Some ys \<Longrightarrow> j < i \<Longrightarrow> ys ! j = xs ! j"
  by (auto simp: swap_remove_def nth_butlast split: if_splits)

lemma opaque_remove_expired_from_ok:
  "opaque_inv c \<Longrightarrow> \<forall>j < index. now < oe_expires_at (oc_entries c ! j) \<Longrightarrow>
   index \<le> length (oc_entries c) \<Longrightarrow>
   \<exists>c'. opaque_remove_expired_from now index c = Some c' \<and> opaque_inv c' \<and>
     set (oc_entries c') \<subseteq> set (oc_entries c) \<and>
     (\<forall>e \<in> set (oc_entries c'). now < oe_expires_at e) \<and>
     (\<forall>e \<in> set (oc_entries c). now < oe_expires_at e \<longrightarrow> e \<in> set (oc_entries c'))"
proof (induction now index c rule: opaque_remove_expired_from.induct)
  case (1 now index c)
  consider (finished) "index = length (oc_entries c)"
    | (expired) "index < length (oc_entries c)" "oe_expires_at (oc_entries c ! index) \<le> now"
    | (live) "index < length (oc_entries c)" "\<not> oe_expires_at (oc_entries c ! index) \<le> now"
    using "1.prems"(3) by linarith
  then show ?case
  proof cases
    case finished
    then show ?thesis
      using "1.prems" by (simp add: opaque_remove_expired_from.simps all_set_conv_all_nth)
  next
    case expired
    obtain c' where c': "opaque_remove_index index c = Some c'" "opaque_inv c'"
      "swap_remove (oc_entries c) index = Some (oc_entries c')"
      using opaque_remove_index_ok [OF "1.prems"(1) expired(1)] by blast
    have "\<forall>j < index. now < oe_expires_at (oc_entries c' ! j)"
      using swap_remove_prefix [OF c'(3)] "1.prems"(2) by simp
    moreover have "index \<le> length (oc_entries c')"
      using swap_remove_facts(2) [OF c'(3)] expired(1) by simp
    ultimately have IH: "\<exists>c''. opaque_remove_expired_from now index c' = Some c'' \<and>
        opaque_inv c'' \<and> set (oc_entries c'') \<subseteq> set (oc_entries c') \<and>
        (\<forall>e \<in> set (oc_entries c''). now < oe_expires_at e) \<and>
        (\<forall>e \<in> set (oc_entries c'). now < oe_expires_at e \<longrightarrow> e \<in> set (oc_entries c''))"
      using "1.IH"(1) [OF expired c'(1,2)] by blast
    have "set (oc_entries c) = insert (oc_entries c ! index) (set (oc_entries c'))"
      using arg_cong [OF swap_remove_mset(2) [OF c'(3)], of set_mset] by simp
    moreover have "opaque_remove_expired_from now index c =
        opaque_remove_expired_from now index c'"
      using expired c'(1) by (subst opaque_remove_expired_from.simps) simp
    ultimately show ?thesis using IH expired(2) by auto
  next
    case live
    then have "\<forall>j < index + 1. now < oe_expires_at (oc_entries c ! j)"
      using "1.prems"(2) by (auto simp: less_Suc_eq)
    moreover have "opaque_remove_expired_from now index c =
        opaque_remove_expired_from now (index + 1) c"
      using live by (subst opaque_remove_expired_from.simps) simp
    ultimately show ?thesis using "1.IH"(2) [OF live "1.prems"(1)] live(1) by simp
  qed
qed

lemma opaque_remove_expired_ok:
  assumes "opaque_inv c"
  obtains c' where "opaque_remove_expired now c = Some c'" "opaque_inv c'"
    "set (oc_entries c') \<subseteq> set (oc_entries c)"
    "\<forall>e \<in> set (oc_entries c'). now < oe_expires_at e"
    "\<forall>e \<in> set (oc_entries c). now < oe_expires_at e \<longrightarrow> e \<in> set (oc_entries c')"
  using opaque_remove_expired_from_ok [OF assms, of 0 now] that
  by (auto simp: opaque_remove_expired_def)

lemma opaque_remove_same_ok:
  assumes "opaque_inv c"
  obtains c' where "opaque_remove_same v c = Some c'" "opaque_inv c'"
    "set (oc_entries c') \<subseteq> set (oc_entries c)"
    "(vr_question v, vr_digest v) \<notin> oe_key ` set (oc_entries c')"
proof (cases "find_index (\<lambda>e. oe_question e = vr_question v \<and> oe_digest e = vr_digest v)
    (oc_entries c)")
  case None
  then have "(vr_question v, vr_digest v) \<notin> oe_key ` set (oc_entries c)"
    by (auto simp: find_index_None oe_key_def)
  then show thesis
    using that [of c] assms None by (simp add: opaque_remove_same_def)
next
  case (Some i)
  note i = find_index_Some [OF Some]
  obtain c' where c': "opaque_remove_index i c = Some c'" "opaque_inv c'"
    "swap_remove (oc_entries c) i = Some (oc_entries c')"
    using opaque_remove_index_ok [OF assms] i by blast
  have "mset (map oe_key (oc_entries c)) = mset (map oe_key (oc_entries c ! i # oc_entries c'))"
    using swap_remove_mset(2) [OF c'(3)] by simp
  from mset_eq_imp_distinct_iff [OF this]
  have "distinct (map oe_key (oc_entries c ! i # oc_entries c'))"
    using assms by (simp add: opaque_inv_def)
  then have "(vr_question v, vr_digest v) \<notin> oe_key ` set (oc_entries c')"
    using i by (simp add: oe_key_def)
  then show thesis
    using that [of c'] c' swap_remove_facts(1) [OF c'(3)] Some by (simp add: opaque_remove_same_def)
qed

lemma opaque_make_room_ok:
  "opaque_inv c \<Longrightarrow> n \<le> MAX_OPAQUE_CACHE_BYTES \<Longrightarrow>
   \<exists>c'. opaque_make_room n c = Some c' \<and> opaque_inv c' \<and>
     set (oc_entries c') \<subseteq> set (oc_entries c) \<and> \<not> opaque_full n c'"
proof (induction n c rule: opaque_make_room.induct)
  case (1 n c)
  show ?case
  proof (cases "oc_entries c \<noteq> [] \<and> opaque_full n c")
    case True
    let ?i = "eviction_index (\<lambda>e. (oe_expires_at e, oe_sequence e)) (oc_entries c)"
    have "?i < length (oc_entries c)"
      using True by (simp add: eviction_index_less)
    then obtain c' where c': "opaque_remove_index ?i c = Some c'" "opaque_inv c'"
      "swap_remove (oc_entries c) ?i = Some (oc_entries c')"
      by (rule opaque_remove_index_ok [OF "1.prems"(1)])
    then have "opaque_make_room n c = opaque_make_room n c'"
      using True by (subst opaque_make_room.simps) simp
    with "1.IH" [OF True c'(1,2) "1.prems"(2)] swap_remove_facts(1) [OF c'(3)]
    show ?thesis by auto
  next
    case False
    have "\<not> opaque_full n c" if "oc_entries c = []"
      using "1.prems" that
      by (simp add: opaque_full_def opaque_inv_def saturating_add_def MAX_OPAQUE_CACHE_ENTRIES_def)
    with False have "\<not> opaque_full n c" by blast
    moreover from this have "opaque_make_room n c = Some c"
      by (subst opaque_make_room.simps) simp
    ultimately show ?thesis using "1.prems" by simp
  qed
qed

lemma accounted_bytes_Some:
  "validated_ok v \<Longrightarrow> opaque_entry_accounted_bytes v = Some n \<Longrightarrow>
   n = length (vr_wire v) + length (wq_name (vr_question v)) + 36 + 2 * length (vr_ttl_offsets v)"
  by (auto simp: opaque_entry_accounted_bytes_def checked_mul_def res_simps bind_eq_Some_conv
      split: if_splits)

lemma opaque_push_inv:
  assumes "opaque_inv c" "validated_ok v" "opaque_entry_accounted_bytes v = Some n"
    "n \<le> MAX_OPAQUE_CACHE_BYTES" "(vr_question v, vr_digest v) \<notin> oe_key ` set (oc_entries c)"
  shows "opaque_inv (snd (opaque_push alloc_ok v n life now c))"
proof (cases "opaque_full n c \<or>
    \<not> is_ok (reserve_entry_slot alloc_ok (oc_entries c) MAX_OPAQUE_CACHE_ENTRIES)")
  case True
  then show ?thesis
    using assms(1) by (auto simp: opaque_push_def opaque_inv_def Let_def)
next
  case False
  then have "oc_retained_bytes c + n \<le> MAX_OPAQUE_CACHE_BYTES"
    "length (oc_entries c) < MAX_OPAQUE_CACHE_ENTRIES"
    by (auto simp: opaque_full_def saturating_add_def min_def usize_max_def
        MAX_OPAQUE_CACHE_BYTES_def split: if_splits)
  moreover have "opaque_entry_ok \<lparr>oe_question = vr_question v, oe_digest = vr_digest v,
      oe_wire = vr_wire v, oe_ttl_offsets = vr_ttl_offsets v, oe_accounted_bytes = n,
      oe_expires_at = e, oe_sequence = s\<rparr>" for e s
    using assms(2) accounted_bytes_Some [OF assms(2,3)]
    by (simp add: opaque_entry_ok_def validated_ok_def)
  ultimately show ?thesis
    using False assms(1,5)
    by (auto simp: opaque_push_def opaque_inv_def Let_def oe_key_def)
qed

lemma opaque_insert_ok:
  assumes "opaque_inv c" "validated_ok v"
  shows "\<exists>ok c'. opaque_insert alloc_ok v now c = Some (ok, c') \<and> opaque_inv c'"
proof (cases "policy_lifetime_secs (vr_cache_policy v)")
  case (Some life)
  show ?thesis
  proof (cases "opaque_entry_accounted_bytes v")
    case (Some n)
    obtain c1 where c1: "opaque_remove_expired now c = Some c1" "opaque_inv c1"
      by (rule opaque_remove_expired_ok [OF assms(1)])
    obtain c2 where c2: "opaque_remove_same v c1 = Some c2" "opaque_inv c2"
      "(vr_question v, vr_digest v) \<notin> oe_key ` set (oc_entries c2)"
      by (rule opaque_remove_same_ok [OF c1(2)])
    show ?thesis
    proof (cases "n \<le> MAX_OPAQUE_CACHE_BYTES")
      case True
      obtain c3 where c3: "opaque_make_room n c2 = Some c3" "opaque_inv c3"
        "set (oc_entries c3) \<subseteq> set (oc_entries c2)"
        using opaque_make_room_ok [OF c2(2) True] by blast
      then have "opaque_inv (snd (opaque_push alloc_ok v n life now c3))"
        using opaque_push_inv [OF c3(2) assms(2) Some True] c2(3) by blast
      then show ?thesis
        using \<open>policy_lifetime_secs (vr_cache_policy v) = Some life\<close> Some c1 c2 c3 assms(1)
        by (cases "opaque_push alloc_ok v n life now c3") (auto simp: opaque_insert_def)
    qed (use \<open>policy_lifetime_secs (vr_cache_policy v) = Some life\<close> Some assms(1)
        in \<open>auto simp: opaque_insert_def\<close>)
  qed (use Some assms(1) in \<open>auto simp: opaque_insert_def\<close>)
qed (use assms(1) in \<open>auto simp: opaque_insert_def\<close>)

text \<open>A cacheable response that the allocator has room for is stored.\<close>

lemma accounted_bytes_small:
  assumes "validated_ok v"
  obtains n where "opaque_entry_accounted_bytes v = Some n" "n \<le> MAX_OPAQUE_CACHE_BYTES"
proof -
  let ?n = "length (vr_wire v) + length (wq_name (vr_question v)) + 4 + 32 +
    length (vr_ttl_offsets v) * 2"
  have n: "?n \<le> 100000"
    using assms by (simp add: validated_ok_def dns_limits)
  then have "?n \<le> usize_max" by (rule order_trans) (simp add: usize_max_def)
  then have "opaque_entry_accounted_bytes v = Some ?n"
    by (simp add: opaque_entry_accounted_bytes_def checked_add_def checked_mul_def)
  moreover have "?n \<le> MAX_OPAQUE_CACHE_BYTES"
    using n by (rule order_trans) (simp add: MAX_OPAQUE_CACHE_BYTES_def)
  ultimately show thesis by (rule that)
qed

lemma opaque_push_kept:
  "\<not> opaque_full n c \<Longrightarrow>
   \<exists>c' e. opaque_push True v n life now c = (True, c') \<and> e \<in> set (oc_entries c') \<and>
     oe_key e = (vr_question v, vr_digest v) \<and> oe_wire e = vr_wire v \<and>
     oe_ttl_offsets e = vr_ttl_offsets v \<and> oe_expires_at e = expiry now life"
  by (simp add: opaque_push_def Let_def reserve_entry_slot_def oe_key_def,
      simp add: opaque_full_def)
    (rule exI, rule conjI, rule disjI1, rule refl, simp)

lemma opaque_insert_kept:
  assumes "opaque_inv c" "validated_ok v" "policy_lifetime_secs (vr_cache_policy v) = Some life"
  shows "\<exists>c' e. opaque_insert True v now c = Some (True, c') \<and> e \<in> set (oc_entries c') \<and>
    oe_key e = (vr_question v, vr_digest v) \<and> oe_wire e = vr_wire v \<and>
    oe_ttl_offsets e = vr_ttl_offsets v \<and> oe_expires_at e = expiry now life"
proof -
  obtain n where n: "opaque_entry_accounted_bytes v = Some n" "n \<le> MAX_OPAQUE_CACHE_BYTES"
    by (rule accounted_bytes_small [OF assms(2)])
  obtain c1 where c1: "opaque_remove_expired now c = Some c1" "opaque_inv c1"
    by (rule opaque_remove_expired_ok [OF assms(1)])
  obtain c2 where c2: "opaque_remove_same v c1 = Some c2" "opaque_inv c2"
    by (rule opaque_remove_same_ok [OF c1(2)])
  obtain c3 where c3: "opaque_make_room n c2 = Some c3" "\<not> opaque_full n c3"
    using opaque_make_room_ok [OF c2(2) n(2)] by blast
  have small: "\<not> (MAX_OPAQUE_CACHE_ENTRY_BYTES < length (vr_wire v) \<or>
      MAX_OPAQUE_CACHE_BYTES < n \<or> MAX_OPAQUE_RECORDS < length (vr_ttl_offsets v))"
    using assms(2) n(2) by (simp add: validated_ok_def MAX_OPAQUE_CACHE_ENTRY_BYTES_def)
  have "opaque_insert True v now c = Some (opaque_push True v n life now c3)"
    unfolding opaque_insert_def assms(3) n(1) option.case if_not_P [OF small]
    by (simp add: c1(1) c2(1) c3(1))
  then show ?thesis
    using opaque_push_kept [OF c3(2), of v life now] by metis
qed

section \<open>Hits\<close>

lemma write_at_Some:
  assumes "write_at offset bs wire = Some w"
  shows "length w = length wire" "subslice w offset (offset + length bs) = bs"
    "i < offset \<or> offset + length bs \<le> i \<Longrightarrow> w ! i = wire ! i"
proof -
  have w: "w = take offset wire @ bs @ drop (offset + length bs) wire"
      "offset + length bs \<le> length wire"
    using assms by (auto simp: write_at_def split: if_splits)
  have off: "length (take offset wire) = offset"
    using w(2) by simp
  show "length w = length wire"
    using w by simp
  show "subslice w offset (offset + length bs) = bs"
    using slice_append_mid [of "take offset wire" bs "drop (offset + length bs) wire"] w off by simp
  show "i < offset \<or> offset + length bs \<le> i \<Longrightarrow> w ! i = wire ! i"
    using w(2) off unfolding w(1) by (auto simp: nth_append simp del: length_take)
qed

lemma write_ttls_ok:
  "sorted_wrt (\<lambda>a b. unat a + 4 \<le> unat b) offsets \<Longrightarrow> length ttl = 4 \<Longrightarrow>
   \<forall>offset \<in> set offsets. unat offset + 4 \<le> length wire \<Longrightarrow>
   \<exists>w. write_ttls offsets ttl wire = Some w \<and> length w = length wire \<and>
     (\<forall>offset \<in> set offsets. subslice w (unat offset) (unat offset + 4) = ttl) \<and>
     (\<forall>i. (\<forall>offset \<in> set offsets. i < unat offset \<or> unat offset + 4 \<le> i) \<longrightarrow> w ! i = wire ! i)"
proof (induction offsets arbitrary: wire)
  case (Cons offset offsets)
  obtain w1 where w1: "write_at (unat offset) ttl wire = Some w1"
    using Cons.prems by (simp add: write_at_def)
  note f = write_at_Some [OF w1]
  from Cons.IH [of w1] Cons.prems f(1)
  obtain w where w: "write_ttls offsets ttl w1 = Some w" "length w = length wire"
    "\<forall>k \<in> set offsets. subslice w (unat k) (unat k + 4) = ttl"
    "\<forall>i. (\<forall>k \<in> set offsets. i < unat k \<or> unat k + 4 \<le> i) \<longrightarrow> w ! i = w1 ! i"
    by auto
  have "w ! i = w1 ! i" if "i < unat offset + 4" for i
  proof -
    have "\<forall>k \<in> set offsets. i < unat k"
      using Cons.prems(1) that by (auto intro: less_le_trans)
    then show ?thesis using w(4) by blast
  qed
  then have "subslice w (unat offset) (unat offset + 4) =
      subslice w1 (unat offset) (unat offset + 4)"
    using w(2) f(1) Cons.prems(3) by (intro nth_equalityI) (auto simp: subslice_def)
  then show ?case
    using w w1 f Cons.prems(2) by auto
qed simp

text \<open>What a client receives on a hit.\<close>

definition hit_rewrites :: "classified_query \<Rightarrow> instant \<Rightarrow> opaque_entry \<Rightarrow> bytes \<Rightarrow> bool" where
  "hit_rewrites query now e wire \<longleftrightarrow>
     length wire = length (oe_wire e) \<and>
     subslice wire 0 2 = be16 (cq_id query) \<and>
     subslice wire 2 4 =
       be16 (hit_flags (cq_recursion_desired query) (u16_of [oe_wire e ! 2, oe_wire e ! 3])) \<and>
     (\<forall>offset \<in> set (oe_ttl_offsets e).
        subslice wire (unat offset) (unat offset + 4) =
          be32 (remaining_ttl (oe_expires_at e) now)) \<and>
     (\<forall>i. 4 \<le> i \<and> (\<forall>offset \<in> set (oe_ttl_offsets e). i < unat offset \<or> unat offset + 4 \<le> i) \<longrightarrow>
        wire ! i = oe_wire e ! i)"

lemma subslice_cong:
  "length u = length w \<Longrightarrow> b \<le> length w \<Longrightarrow> (\<And>i. i < b \<Longrightarrow> u ! i = w ! i) \<Longrightarrow>
   subslice u a b = subslice w a b"
  by (rule nth_equalityI) (auto simp: subslice_def)

lemma opaque_hit_wire_ok:
  assumes "opaque_entry_ok e"
  shows "\<exists>wire. opaque_hit_wire query now e = Some wire \<and> hit_rewrites query now e wire"
proof -
  let ?w = "oe_wire e"
  have len: "12 \<le> length ?w" and sorted: "sorted_wrt (\<lambda>a b. unat a + 4 \<le> unat b) (oe_ttl_offsets e)"
    and offs: "\<forall>k \<in> set (oe_ttl_offsets e). 12 \<le> unat k \<and> unat k + 4 \<le> length ?w"
    using assms by (auto simp: opaque_entry_ok_def ttl_offsets_ok_def DNS_HEADER_LEN_def)
  obtain w1 where w1: "write_at 0 (be16 (cq_id query)) ?w = Some w1"
    using len by (simp add: write_at_def)
  note f1 = write_at_Some [OF w1]
  have flags: "w1 ! 2 = ?w ! 2" "w1 ! 3 = ?w ! 3"
    using f1(3) by simp_all
  let ?f = "hit_flags (cq_recursion_desired query) (u16_of [?w ! 2, ?w ! 3])"
  obtain w2 where w2: "write_at 2 (be16 ?f) w1 = Some w2"
    using len f1(1) by (simp add: write_at_def)
  note f2 = write_at_Some [OF w2]
  obtain w where w: "write_ttls (oe_ttl_offsets e) (be32 (remaining_ttl (oe_expires_at e) now)) w2
      = Some w" "length w = length w2"
    "\<forall>k \<in> set (oe_ttl_offsets e). subslice w (unat k) (unat k + 4) =
      be32 (remaining_ttl (oe_expires_at e) now)"
    "\<forall>i. (\<forall>k \<in> set (oe_ttl_offsets e). i < unat k \<or> unat k + 4 \<le> i) \<longrightarrow> w ! i = w2 ! i"
    using write_ttls_ok [OF sorted, of "be32 (remaining_ttl (oe_expires_at e) now)" w2]
      offs f1(1) f2(1) by auto
  have head: "w ! i = w2 ! i" if "i < 12" for i
    using w(4) offs that by (auto intro: less_le_trans)
  have "subslice w 0 2 = be16 (cq_id query)"
    using f1(2) f1(1) f2(1) f2(3) w(2) len head subslice_cong [of w w1 2 0]
    by (simp add: numeral_2_eq_2)
  moreover have "subslice w 2 4 = be16 ?f"
    using f2(2) f2(1) f1(1) w(2) len head subslice_cong [of w w2 4 2] by simp
  moreover have "w ! i = ?w ! i" if "4 \<le> i"
    "\<forall>k \<in> set (oe_ttl_offsets e). i < unat k \<or> unat k + 4 \<le> i" for i
    using that w(4) f1(3) [of i] f2(3) [of i] by simp
  moreover have "opaque_hit_wire query now e = Some w"
    using w1 w2 w(1) len f1(1) flags by (simp add: opaque_hit_wire_def)
  ultimately show ?thesis
    using w(2,3) f1(1) f2(1) by (auto simp: hit_rewrites_def)
qed

lemma opaque_get_ok:
  assumes "opaque_inv c"
  shows "\<exists>found c'. opaque_get query now c = Some (found, c') \<and> opaque_inv c' \<and>
    (\<forall>wire. found = Some wire \<longrightarrow> is_opaque query \<and>
       (\<exists>e \<in> set (oc_entries c). oe_key e = (cq_question query, cq_digest query) \<and>
          now < oe_expires_at e \<and> hit_rewrites query now e wire))"
proof -
  obtain c1 where c1: "opaque_remove_expired now c = Some c1" "opaque_inv c1"
    "set (oc_entries c1) \<subseteq> set (oc_entries c)"
    "\<forall>e \<in> set (oc_entries c1). now < oe_expires_at e"
    by (rule opaque_remove_expired_ok [OF assms])
  show ?thesis
  proof (cases "find (\<lambda>e. oe_question e = cq_question query \<and> oe_digest e = cq_digest query)
      (oc_entries c1)")
    case None
    then show ?thesis
      using assms c1 by (simp add: opaque_get_def)
  next
    case (Some e)
    then have e: "e \<in> set (oc_entries c1)" "oe_key e = (cq_question query, cq_digest query)"
      by (auto simp: find_Some_iff oe_key_def)
    then have "opaque_entry_ok e"
      using c1(2) by (simp add: opaque_inv_def)
    from opaque_hit_wire_ok [OF this, of query now]
    obtain wire where "opaque_hit_wire query now e = Some wire" "hit_rewrites query now e wire"
      by blast
    then show ?thesis
      using Some e c1 assms by (auto simp: opaque_get_def)
  qed
qed

lemma opaque_get_hit:
  assumes "opaque_inv c" "e \<in> set (oc_entries c)" "now < oe_expires_at e"
    "oe_key e = (cq_question query, cq_digest query)" "is_opaque query"
  shows "\<exists>wire c'. opaque_get query now c = Some (Some wire, c')"
proof -
  obtain c1 where c1: "opaque_remove_expired now c = Some c1" "opaque_inv c1"
    "\<forall>e \<in> set (oc_entries c). now < oe_expires_at e \<longrightarrow> e \<in> set (oc_entries c1)"
    by (rule opaque_remove_expired_ok [OF assms(1)])
  have "(\<lambda>e. oe_question e = cq_question query \<and> oe_digest e = cq_digest query) =
      (\<lambda>x. oe_key x = oe_key e)"
    using assms(4) by (auto simp: oe_key_def fun_eq_iff)
  moreover have "find (\<lambda>x. oe_key x = oe_key e) (oc_entries c1) = Some e"
    using c1 assms(2,3) find_distinct_key [of oe_key "oc_entries c1" "oe_key e" "\<lambda>_. True" e]
    by (simp add: opaque_inv_def)
  moreover obtain wire where "opaque_hit_wire query now e = Some wire"
    using opaque_hit_wire_ok [of e query now] assms(1,2) by (auto simp: opaque_inv_def)
  ultimately show ?thesis
    using c1(1) assms(5) by (simp add: opaque_get_def)
qed

section \<open>Properties\<close>

text \<open>
  The life of the cache: responses enter only through \<^verbatim>\<open>validate_opaque_response\<close>, at any time and
  whether or not the allocator serves the call; lookups and \<^verbatim>\<open>clear\<close> may come in between.
\<close>

inductive opaque_reachable :: "opaque_cache \<Rightarrow> bool" where
  start: "opaque_reachable opaque_new"
| inserted: "opaque_reachable c \<Longrightarrow> validate_opaque_response query response = Inr v \<Longrightarrow>
    opaque_insert alloc_ok v now c = Some (ok, c') \<Longrightarrow> opaque_reachable c'"
| got: "opaque_reachable c \<Longrightarrow> opaque_get query now c = Some (found, c') \<Longrightarrow> opaque_reachable c'"
| cleared: "opaque_reachable c \<Longrightarrow> opaque_reachable (opaque_clear c)"

lemma opaque_reachable_inv: "opaque_reachable c \<Longrightarrow> opaque_inv c"
proof (induction rule: opaque_reachable.induct)
  case start
  show ?case by (simp add: opaque_inv_def opaque_new_def)
next
  case (inserted c query response v alloc_ok now ok c')
  then show ?case
    using opaque_insert_ok [of c v alloc_ok now] validate_opaque_response_sound(1) by auto
next
  case (got c query now found c')
  then show ?case
    using opaque_get_ok [of c query now] by auto
next
  case (cleared c)
  then show ?case by (simp add: opaque_inv_def opaque_clear_def)
qed





end
