(* ===== verification/Tuic_Wire.thy ===== *)
theory Tuic_Wire
  imports Session_Model
begin

text \<open>
  \<^verbatim>\<open>src/outbound/tuic/wire.rs\<close>: the commands of TUIC version 5. A datagram is cut into packet
  commands that fit the message limit; the first carries the address. \<^verbatim>\<open>Bytes\<close> is a byte list
  that is consumed from the front, and the asynchronous stream is the bytes it will deliver.
\<close>

section \<open>Addresses\<close>

definition tuic_address :: "destination \<Rightarrow> io_error + bytes" where
  "tuic_address peer =
     (if destination_port peer = 0 then Inl InvalidInput
      else
        and_then
          (case peer of
             DestIp address \<Rightarrow>
               Inr (case socket_ip address of
                      IpV4 ip \<Rightarrow> 1 # be32 ip
                    | IpV6 ip \<Rightarrow> 2 # be128 ip)
           | DestDomain host port \<Rightarrow>
               if host = [] \<or> 255 < length host \<or> list_ex is_ascii_control host
               then Inl InvalidInput
               else Inr ([0, of_nat (length host)] @ host))
          (\<lambda>out. Inr (out @ be16 (destination_port peer))))"

definition tuic_connect :: "destination \<Rightarrow> io_error + bytes" where
  "tuic_connect peer = and_then (tuic_address peer) (\<lambda>a. Inr ([5, 1] @ a))"

definition tuic_take :: "bytes \<Rightarrow> nat \<Rightarrow> io_error + bytes \<times> bytes" where
  "tuic_take bs count = (if length bs < count then Inl InvalidData else Inr (take count bs, drop count bs))"

definition tuic_host :: "u8 \<Rightarrow> bytes \<Rightarrow> io_error + bytes \<times> bytes" where
  "tuic_host kind bs =
     (if kind = 0 then and_then (tuic_take bs 1) (\<lambda>(n, rest). tuic_take rest (unat (n ! 0)))
      else if kind = 1 then tuic_take bs 4
      else if kind = 2 then tuic_take bs 16
      else Inl InvalidData)"

text \<open>The final \<^verbatim>\<open>match kind\<close>: other kinds were refused when the host was read.\<close>

definition tuic_peer :: "u8 \<Rightarrow> bytes \<Rightarrow> u16 \<Rightarrow> io_error + destination" where
  "tuic_peer kind host port =
     (if kind = 0 then
        if utf8_valid host then map_err (\<lambda>_. InvalidData) (destination_domain host port)
        else Inl InvalidData
      else if kind = 1 then Inr (DestIp (socket_new (IpV4 (u32_of host)) port))
      else Inr (DestIp (socket_new (IpV6 (u128_of host)) port)))"

definition tuic_parse_address :: "bytes \<Rightarrow> io_error + destination option \<times> bytes" where
  "tuic_parse_address bs =
     and_then (tuic_take bs 1) (\<lambda>(k, rest0).
     let kind = k ! 0 in
     if kind = 255 then Inr (None, rest0)
     else
       and_then (tuic_host kind rest0) (\<lambda>(host, rest1).
       and_then (tuic_take rest1 2) (\<lambda>(p, rest2).
       let port = u16_of p in
       if port = 0 then Inl InvalidData
       else and_then (tuic_peer kind host port) (\<lambda>d. Inr (Some d, rest2)))))"

section \<open>Packets\<close>

definition div_ceil :: "nat \<Rightarrow> nat \<Rightarrow> nat" where
  "div_ceil a b = a div b + (if a mod b = 0 then 0 else 1)"

definition tuic_body :: "bytes \<Rightarrow> nat \<Rightarrow> nat \<Rightarrow> bytes" where
  "tuic_body payload space index =
     subslice payload (min (index * space) (length payload)) (min ((index + 1) * space) (length payload))"

definition tuic_packet :: "u16 \<Rightarrow> u16 \<Rightarrow> nat \<Rightarrow> nat \<Rightarrow> bytes \<Rightarrow> bytes \<Rightarrow> bytes" where
  "tuic_packet association packet count index target body =
     [5, 2] @ be16 association @ be16 packet @ [of_nat count, of_nat index] @
     be16 (of_nat (length body)) @ (if index = 0 then target else [255]) @ body"

definition tuic_packets ::
  "u16 \<Rightarrow> u16 \<Rightarrow> destination \<Rightarrow> bytes \<Rightarrow> nat \<Rightarrow> io_error + bytes list" where
  "tuic_packets association packet peer payload limit =
     (if 65535 < length payload then Inl InvalidInput
      else and_then (tuic_address peer) (\<lambda>target.
        if limit < 10 + length target then Inl InvalidInput
        else
          (let space = limit - (10 + length target) in
           if space = 0 \<and> payload \<noteq> [] then Inl InvalidInput
           else
             (let count = div_ceil (max (length payload) 1) (max space 1) in
              if 255 < count then Inl InvalidInput
              else Inr (map (\<lambda>index. tuic_packet association packet count index target
                                       (tuic_body payload space index)) [0..<count])))))"

record tuic_fragment =
  tf_association :: u16
  tf_packet :: u16
  tf_count :: u8
  tf_index :: u8
  tf_peer :: "destination option"
  tf_payload :: bytes

definition tuic_decode :: "bytes \<Rightarrow> io_error + tuic_fragment" where
  "tuic_decode bs =
     and_then (tuic_take bs 10) (\<lambda>(head, rest).
     if head ! 0 \<noteq> 5 \<or> head ! 1 \<noteq> 2 then Inl InvalidData
     else
       (let association = u16_of (subslice head 2 4);
            packet = u16_of (subslice head 4 6);
            count = head ! 6;
            index = head ! 7;
            size_field = u16_of (subslice head 8 10) in
        if count = 0 \<or> count \<le> index then Inl InvalidData
        else
          and_then (tuic_parse_address rest) (\<lambda>(peer, payload).
          if (index = 0) \<noteq> (peer \<noteq> None) \<or> length payload \<noteq> unat size_field then Inl InvalidData
          else Inr \<lparr>tf_association = association, tf_packet = packet, tf_count = count,
                    tf_index = index, tf_peer = peer, tf_payload = payload\<rparr>)))"

text \<open>How many address bytes follow the kind (and, for a name, its length byte, which is read here).\<close>

definition tuic_address_rest :: "u8 \<Rightarrow> bytes \<Rightarrow> io_error + bytes \<times> nat \<times> bytes" where
  "tuic_address_rest kind stream =
     (if kind = 0 then and_then (read_u8 stream) (\<lambda>(len, stream'). Inr ([len], unat len + 2, stream'))
      else if kind = 1 then Inr ([], 6, stream)
      else if kind = 2 then Inr ([], 18, stream)
      else if kind = 255 then Inr ([], 0, stream)
      else Inl InvalidData)"

definition tuic_read_packet ::
  "(u16 \<Rightarrow> u16 option) \<Rightarrow> bytes \<Rightarrow> io_error + tuic_fragment" where
  "tuic_read_packet allowed stream =
     and_then (read_exact 10 stream) (\<lambda>(head, s1).
     if subslice head 0 2 \<noteq> [5, 2] \<or> head ! 6 = 0 \<or> head ! 6 \<le> head ! 7 then Inl InvalidData
     else and_then (ok_or InvalidData (allowed (u16_of [head ! 2, head ! 3]))) (\<lambda>budget.
       let size_field = unat (u16_of [head ! 8, head ! 9]) in
       if unat budget < size_field then Inl InvalidData
       else and_then (read_u8 s1) (\<lambda>(kind, s2).
         and_then (tuic_address_rest kind s2) (\<lambda>(len_byte, rest, s3).
         and_then (read_exact rest s3) (\<lambda>(addr, s4).
         let raw = head @ [kind] @ len_byte @ addr in
         and_then (tuic_parse_address (drop 10 raw)) (\<lambda>(target, _).
         if (head ! 7 = 0) \<noteq> (target \<noteq> None) then Inl InvalidData
         else and_then (read_exact size_field s4) (\<lambda>(body, s5).
           if s5 \<noteq> [] then Inl InvalidData
           else tuic_decode (raw @ body))))))))"

section \<open>The address codec\<close>

lemma tuic_take_Inr_iff [res_simps]:
  "tuic_take bs n = Inr (a, rest) \<longleftrightarrow> bs = a @ rest \<and> length a = n"
  by (auto simp: tuic_take_def append_eq_conv_conj)

definition tuic_encode_peer :: "destination option \<Rightarrow> io_error + bytes" where
  "tuic_encode_peer peer = (case peer of None \<Rightarrow> Inr [255] | Some d \<Rightarrow> tuic_address d)"

definition tuic_peer_valid :: "destination option \<Rightarrow> bool" where
  "tuic_peer_valid peer = (case peer of None \<Rightarrow> True | Some d \<Rightarrow> wire_destination d)"

lemma tuic_address_Inr:
  assumes "wire_destination d"
  shows "\<exists>w. tuic_address d = Inr w \<and> length w \<le> 259"
  using assms
  by (cases d) (auto simp: tuic_address_def wire_destination_port split: ip_addr.split)

lemma tuic_take_one [simp]: "tuic_take (b # bs) (Suc 0) = Inr ([b], bs)"
  by (simp add: tuic_take_def)

lemma tuic_parse_Cons:
  "tuic_parse_address (kind # rest0) =
     (if kind = 255 then Inr (None, rest0)
      else
        and_then (tuic_host kind rest0) (\<lambda>(host, rest1).
        and_then (tuic_take rest1 2) (\<lambda>(p, rest2).
        if u16_of p = 0 then Inl InvalidData
        else and_then (tuic_peer kind host (u16_of p)) (\<lambda>d. Inr (Some d, rest2)))))"
  by (simp add: tuic_parse_address_def Let_def cong: if_cong)

lemma tuic_parse_encode:
  assumes "tuic_peer_valid x" "tuic_encode_peer x = Inr w"
  shows "tuic_parse_address (w @ rest) = Inr (x, rest)"
proof (cases x)
  case None
  then show ?thesis
    using assms by (auto simp: tuic_encode_peer_def tuic_parse_Cons)
next
  case (Some d)
  then have d: "wire_destination d" "tuic_address d = Inr w"
    using assms by (simp_all add: tuic_peer_valid_def tuic_encode_peer_def)
  show ?thesis
  proof (cases d)
    case (DestIp a)
    then show ?thesis
      using d Some
      by (cases a)
        (auto simp: tuic_address_def tuic_parse_Cons tuic_take_def tuic_host_def
          tuic_peer_def)
  next
    case (DestDomain host port)
    then show ?thesis
      using d Some
      by (auto simp: tuic_address_def tuic_parse_Cons tuic_take_def tuic_host_def
          tuic_peer_def destination_domain_def)
  qed
qed

lemma tuic_parse_sound:
  assumes "tuic_parse_address bs = Inr (x, rest)"
  shows "tuic_peer_valid x \<and> (\<exists>w. tuic_encode_peer x = Inr w \<and> bs = w @ rest)"
proof -
  from assms obtain kind rest0 where b: "bs = kind # rest0"
    by (auto simp: tuic_parse_address_def res_simps length_Suc_conv)
  show ?thesis
  proof (cases "kind = 255")
    case True
    then show ?thesis
      using assms b
      by (auto simp: tuic_parse_Cons tuic_encode_peer_def tuic_peer_valid_def)
  next
    case False
    with assms b obtain host rest1 p d where h: "tuic_host kind rest0 = Inr (host, rest1)"
      "rest1 = p @ rest" "length p = 2" "u16_of p \<noteq> 0" "tuic_peer kind host (u16_of p) = Inr d"
      "x = Some d"
      by (auto simp: tuic_parse_Cons res_simps)
    have p: "p = be16 (u16_of p)" using h(3) by simp
    from h(1) consider (name) n where "kind = 0" "rest0 = n # host @ rest1" "length host = unat n"
      | (v4) "kind = 1" "rest0 = host @ rest1" "length host = 4"
      | (v6) "kind = 2" "rest0 = host @ rest1" "length host = 16"
      by (auto simp: tuic_host_def res_simps length_Suc_conv split: if_splits)
    then show ?thesis
      using h p b
      by cases (auto simp: tuic_peer_def tuic_peer_valid_def tuic_encode_peer_def
          tuic_address_def res_simps split: if_splits)
  qed
qed

text \<open>The optional address is a prefix codec like the others.\<close>

definition tuic_dec_peer :: "bytes \<Rightarrow> io_error + destination option \<times> nat" where
  "tuic_dec_peer bs =
     and_then (tuic_parse_address bs) (\<lambda>(x, rest). Inr (x, length bs - length rest))"

interpretation tuic_peer_codec: prefix_codec tuic_encode_peer tuic_dec_peer tuic_peer_valid
proof unfold_locales
  fix x assume "tuic_peer_valid x"
  then show "\<exists>w. tuic_encode_peer x = Inr w"
    using tuic_address_Inr by (auto simp: tuic_encode_peer_def tuic_peer_valid_def split: option.splits)
next
  fix x w rest assume "tuic_peer_valid x" "tuic_encode_peer x = Inr w"
  then show "tuic_dec_peer (w @ rest) = Inr (x, length w)"
    by (simp add: tuic_dec_peer_def tuic_parse_encode)
next
  fix bs x n assume "tuic_dec_peer bs = Inr (x, n)"
  then show "tuic_peer_valid x \<and> n \<le> length bs \<and> tuic_encode_peer x = Inr (take n bs)"
    by (auto simp: tuic_dec_peer_def res_simps dest: tuic_parse_sound)
qed


section \<open>Packets and fragments\<close>

lemma div_ceil_bounds:
  assumes "0 < b" "0 < a"
  shows "0 < div_ceil a b" "a \<le> div_ceil a b * b" "(div_ceil a b - 1) * b < a"
proof -
  have a: "a = a div b * b + a mod b" by simp
  show "a \<le> div_ceil a b * b"
  proof (cases "a mod b = 0")
    case True
    then show ?thesis using a by (simp add: div_ceil_def)
  next
    case False
    have "a mod b \<le> b"
      using mod_less_divisor [OF assms(1), of a] by simp
    then have "a \<le> a div b * b + b"
      using a by linarith
    with False show ?thesis by (simp add: div_ceil_def)
  qed
  show "0 < div_ceil a b"
    using a assms by (auto simp: div_ceil_def div_greater_zero_iff)
  show "(div_ceil a b - 1) * b < a"
  proof (cases "a mod b = 0")
    case True
    then show ?thesis
      using a assms by (simp add: div_ceil_def diff_mult_distrib)
  next
    case False
    then have "a div b * b < a" using a by linarith
    with False show ?thesis by (simp add: div_ceil_def)
  qed
qed

text \<open>The bodies cut at multiples of the space are the payload again.\<close>

lemma concat_bodies:
  "length payload \<le> n * space \<Longrightarrow> concat (map (tuic_body payload space) [0..<n]) = payload"
proof -
  have "concat (map (tuic_body payload space) [0..<n]) = take (min (n * space) (length payload)) payload" for n
  proof (induction n)
    case (Suc n)
    let ?a = "min (n * space) (length payload)" and ?b = "min (Suc n * space) (length payload)"
    have "?a \<le> ?b" by (simp add: min_le_iff_disj)
    then show ?case
      using Suc.IH take_slice [of ?a ?b payload] by (simp add: tuic_body_def)
  qed simp
  then show "length payload \<le> n * space \<Longrightarrow>
      concat (map (tuic_body payload space) [0..<n]) = payload" by simp
qed

lemma length_tuic_body: "length (tuic_body payload space i) \<le> space"
  by (simp add: tuic_body_def)

text \<open>What a successful call of \<^verbatim>\<open>packets\<close> produced.\<close>

lemma tuic_packets_Inr:
  assumes "tuic_packets association packet peer payload limit = Inr ws"
  obtains target space count where "tuic_address peer = Inr target"
    "0 < count" "count \<le> 255" "space + 10 + length target = limit"
    "length payload \<le> count * space" "length payload \<le> 65535"
    "ws = map (\<lambda>i. tuic_packet association packet count i target (tuic_body payload space i)) [0..<count]"
proof -
  from assms obtain target where t: "tuic_address peer = Inr target" "length payload \<le> 65535"
    "10 + length target \<le> limit"
    by (auto simp: tuic_packets_def res_simps not_less Let_def split: if_splits)
  let ?space = "limit - (10 + length target)"
  let ?count = "div_ceil (max (length payload) 1) (max ?space 1)"
  have c: "?count \<le> 255" "?space = 0 \<longrightarrow> payload = []"
    "ws = map (\<lambda>i. tuic_packet association packet ?count i target (tuic_body payload ?space i)) [0..<?count]"
    using assms t by (auto simp: tuic_packets_def res_simps Let_def split: if_splits)
  have "0 < ?count" "max (length payload) 1 \<le> ?count * max ?space 1"
    by (rule div_ceil_bounds; simp)+
  moreover have "length payload \<le> ?count * ?space"
  proof (cases "?space = 0")
    case False
    then have "max ?space 1 = ?space" by simp
    moreover have "length payload \<le> max (length payload) 1" by simp
    ultimately show ?thesis
      using \<open>max (length payload) 1 \<le> ?count * max ?space 1\<close> by simp
  qed (use c(2) in simp)
  ultimately have "0 < ?count" "length payload \<le> ?count * ?space"
    by simp_all
  then show thesis
    using that [OF t(1) _ c(1) _ _ t(2) c(3)] t(3) by simp
qed


lemma tuic_decode_packet:
  assumes "wire_destination peer" "tuic_address peer = Inr target"
    and "i < count" "count \<le> 255" "length body \<le> 65535"
  shows "tuic_decode (tuic_packet association packet count i target body) =
    Inr \<lparr>tf_association = association, tf_packet = packet, tf_count = of_nat count,
         tf_index = of_nat i, tf_peer = (if i = 0 then Some peer else None), tf_payload = body\<rparr>"
proof -
  define head :: bytes where "head = [5, 2] @ be16 association @ be16 packet @
    [of_nat count, of_nat i] @ be16 (of_nat (length body))"
  let ?peer = "if i = 0 then Some peer else None"
  have "tuic_packet association packet count i target body =
      head @ ((if i = 0 then target else [255]) @ body)"
    by (simp add: tuic_packet_def head_def)
  moreover have "length head = 10" by (simp add: head_def)
  ultimately have take: "tuic_take (tuic_packet association packet count i target body) 10 =
      Inr (head, (if i = 0 then target else [255]) @ body)"
    by (simp add: tuic_take_Inr_iff)
  have fields: "head ! 0 = 5" "head ! Suc 0 = 2" "head ! 6 = of_nat count" "head ! 7 = of_nat i"
    "subslice head 2 4 = be16 association" "subslice head 4 6 = be16 packet"
    "subslice head 8 10 = be16 (of_nat (length body))"
    by (simp_all add: head_def nth_append subslice_def)
  have small: "unat (of_nat count :: u8) = count" "unat (of_nat i :: u8) = i"
    using assms(3,4) by simp_all
  then have guard: "\<not> ((of_nat count :: u8) = 0 \<or> (of_nat count :: u8) \<le> of_nat i)"
    and first: "(of_nat i :: u8) = 0 \<longleftrightarrow> i = 0"
    using assms(3,4) by (auto simp: word_le_nat_alt unat_eq_zero [symmetric] simp del: unat_eq_zero)
  have "tuic_encode_peer ?peer = Inr (if i = 0 then target else [255])" "tuic_peer_valid ?peer"
    using assms(1,2) by (simp_all add: tuic_encode_peer_def tuic_peer_valid_def)
  then have "tuic_parse_address ((if i = 0 then target else [255]) @ body) = Inr (?peer, body)"
    using tuic_parse_encode by blast
  then show ?thesis
    using guard first assms(5) unfolding tuic_decode_def take
    by (simp add: fields Let_def)
qed

section \<open>The stream reader\<close>

lemma subslice_pair: "i + 2 \<le> length xs \<Longrightarrow> subslice xs i (i + 2) = [xs ! i, xs ! (i + 1)]"
proof -
  assume "i + 2 \<le> length xs"
  then have "subslice xs i (i + 2) = subslice xs i (Suc i) @ subslice xs (Suc i) (Suc (Suc i))"
    by (simp add: slice_append_slice)
  with \<open>i + 2 \<le> length xs\<close> show ?thesis by (simp add: slice_one)
qed

lemma tuic_decode_Inr_iff:
  "tuic_decode s = Inr f \<longleftrightarrow>
     10 \<le> length s \<and> s ! 0 = 5 \<and> s ! 1 = 2 \<and> s ! 6 \<noteq> 0 \<and> s ! 7 < s ! 6 \<and>
     tuic_parse_address (drop 10 s) = Inr (tf_peer f, tf_payload f) \<and>
     (s ! 7 = 0 \<longleftrightarrow> tf_peer f \<noteq> None) \<and>
     length (tf_payload f) = unat (u16_of [s ! 8, s ! 9]) \<and>
     tf_association f = u16_of [s ! 2, s ! 3] \<and> tf_packet f = u16_of [s ! 4, s ! 5] \<and>
     tf_count f = s ! 6 \<and> tf_index f = s ! 7"
proof (cases "10 \<le> length s")
  case True
  have pairs: "subslice (take 10 s) 2 4 = [s ! 2, s ! 3]"
    "subslice (take 10 s) 4 6 = [s ! 4, s ! 5]" "subslice (take 10 s) 8 10 = [s ! 8, s ! 9]"
    using True subslice_pair [of 2 "take 10 s"] subslice_pair [of 4 "take 10 s"]
      subslice_pair [of 8 "take 10 s"] by simp_all
  have "tuic_take s 10 = Inr (take 10 s, drop 10 s)"
    using True by (simp add: tuic_take_def)
  then show ?thesis
    using True
    by (cases f) (auto simp: tuic_decode_def pairs Let_def and_then_Inr_iff word_gt_0
        split: if_splits)
qed (simp add: tuic_decode_def tuic_take_def)

text \<open>An encoded address is read from the stream byte for byte.\<close>

lemma tuic_address_stream:
  assumes "tuic_peer_valid peer" "tuic_encode_peer peer = Inr w"
  obtains kind len_byte rest addr where "w = [kind] @ len_byte @ addr"
    "tuic_address_rest kind (len_byte @ addr @ tail) = Inr (len_byte, rest, addr @ tail)"
    "length addr = rest"
proof (cases peer)
  case None
  then show thesis
    using assms that [of 255 "[]" "[]" 0]
    by (simp add: tuic_encode_peer_def tuic_address_rest_def)
next
  case (Some d)
  then have d: "wire_destination d" "tuic_address d = Inr w"
    using assms by (simp_all add: tuic_peer_valid_def tuic_encode_peer_def)
  show thesis
  proof (cases d)
    case (DestIp a)
    then show thesis
      using d that [of 1 "[]" "tl w" 6] that [of 2 "[]" "tl w" 18]
      by (cases a) (auto simp: tuic_address_def tuic_address_rest_def)
  next
    case (DestDomain host port)
    then show thesis
      using d that [of 0 "[of_nat (length host)]" "host @ be16 port" "length host + 2"]
      by (auto simp: tuic_address_def tuic_address_rest_def)
  qed
qed

lemma tuic_read_packet_complete:
  assumes "tuic_decode s = Inr f" "allowed (tf_association f) = Some budget"
    "length (tf_payload f) \<le> unat budget"
  shows "tuic_read_packet allowed s = Inr f"
proof -
  define head where "head = take 10 s"
  from assms(1) have h: "s = head @ drop 10 s" "length head = 10" "head ! 0 = 5"
    "head ! 1 = 2" "head ! 6 \<noteq> 0" "head ! 7 < head ! 6"
    "tuic_parse_address (drop 10 s) = Inr (tf_peer f, tf_payload f)"
    "head ! 7 = 0 \<longleftrightarrow> tf_peer f \<noteq> None"
    "length (tf_payload f) = unat (u16_of [head ! 8, head ! 9])"
    "tf_association f = u16_of [head ! 2, head ! 3]"
    by (simp_all add: tuic_decode_Inr_iff head_def)
  from tuic_parse_sound [OF h(7)] obtain w where w: "tuic_peer_valid (tf_peer f)"
    "tuic_encode_peer (tf_peer f) = Inr w" "drop 10 s = w @ tf_payload f"
    by blast
  obtain kind len_byte n addr where a: "w = [kind] @ len_byte @ addr"
    "tuic_address_rest kind (len_byte @ addr @ tf_payload f) = Inr (len_byte, n, addr @ tf_payload f)"
    "length addr = n"
    by (rule tuic_address_stream [OF w(1,2)])
  have "tuic_parse_address w = Inr (tf_peer f, [])"
    using tuic_parse_encode [OF w(1,2), of "[]"] by simp
  moreover have "subslice head 0 2 = [5, 2]"
    using subslice_pair [of 0 head] h(2-4) by (simp add: numeral_2_eq_2)
  moreover have "s = head @ kind # len_byte @ addr @ tf_payload f"
    using h(1) w(3) a(1) by simp
  moreover have "read_exact (unat (u16_of [head ! 8, head ! 9])) (tf_payload f) =
      Inr (tf_payload f, [])"
    using h(9) by (simp add: read_exact_def)
  ultimately show ?thesis
    using h a assms w(3)
    by (simp add: tuic_read_packet_def linorder_not_le)
qed

lemma tuic_read_packet_sound:
  assumes "tuic_read_packet allowed s = Inr f"
  shows "tuic_decode s = Inr f \<and>
    (\<exists>budget. allowed (tf_association f) = Some budget \<and> length (tf_payload f) \<le> unat budget)"
proof -
  from assms obtain head s1 where "read_exact 10 s = Inr (head, s1)"
    by (auto simp: tuic_read_packet_def and_then_Inr_iff)
  then have head: "s = head @ s1" "length head = 10"
    by (simp_all add: read_exact_Inr_iff)
  with assms obtain budget kind s2 len_byte rest s3 addr s4 body where
    r: "allowed (u16_of [head ! 2, head ! 3]) = Some budget"
      "unat (u16_of [head ! 8, head ! 9]) \<le> unat budget"
      "s1 = kind # s2" "tuic_address_rest kind s2 = Inr (len_byte, rest, s3)"
      "s3 = addr @ s4" "s4 = body" "tuic_decode (head @ [kind] @ len_byte @ addr @ body) = Inr f"
    by (auto simp: tuic_read_packet_def res_simps Let_def not_less split: if_splits)
  then have s: "s = head @ [kind] @ len_byte @ addr @ body"
    using head(1)
    by (auto simp: tuic_address_rest_def res_simps split: if_splits)
  with r(7) have "tuic_decode s = Inr f" by simp
  moreover from this have "tf_association f = u16_of [s ! 2, s ! 3]"
    "length (tf_payload f) = unat (u16_of [s ! 8, s ! 9])"
    by (simp_all add: tuic_decode_Inr_iff)
  moreover have "s ! 2 = head ! 2" "s ! 3 = head ! 3" "s ! 8 = head ! 8" "s ! 9 = head ! 9"
    using head by (simp_all add: nth_append)
  ultimately show ?thesis using r(1,2) by simp
qed

section \<open>Properties\<close>

text \<open>
  The stream reader and the datagram decoder of TUIC agree: a stream is accepted
  exactly when its bytes decode as one packet command, its association is registered and the
  payload fits the budget of that association, and both give the same fragment.
\<close>

theorem tuic_read_packet_agrees:
  "tuic_read_packet allowed s = Inr f \<longleftrightarrow>
     tuic_decode s = Inr f \<and>
     (\<exists>budget. allowed (tf_association f) = Some budget \<and> length (tf_payload f) \<le> unat budget)"
  using tuic_read_packet_sound tuic_read_packet_complete by blast

end
