(* ===== verification/Tuic_Datagram.thy ===== *)
theory Tuic_Datagram
  imports Tuic_Wire "HOL-Library.AList" "HOL-Library.Multiset"
begin

text \<open>
  \<^verbatim>\<open>Reassembly\<close> of \<^verbatim>\<open>src/outbound/tuic/datagram.rs\<close>: the fragments of the datagrams a TUIC
  association has not yet completed. A hash map is an association list with distinct keys; \<open>None\<close>
  is a panic (an \<^verbatim>\<open>unwrap\<close> of nothing, an index out of range, a counter below zero, an instant
  past the last). Observation guards are not part of the state.
\<close>

section \<open>Pieces\<close>

definition filled :: "'a option list \<Rightarrow> nat" where
  "filled pieces = length (filter (\<lambda>p. p \<noteq> None) pieces)"

definition piece_bytes :: "bytes option list \<Rightarrow> nat" where
  "piece_bytes pieces = sum_list (map (\<lambda>p. case p of None \<Rightarrow> 0 | Some b \<Rightarrow> length b) pieces)"

text \<open>\<^verbatim>\<open>for piece in pieces { payload.extend_from_slice(&piece.unwrap()) }\<close>.\<close>

fun join_pieces :: "bytes option list \<Rightarrow> bytes option" where
  "join_pieces [] = Some []"
| "join_pieces (p # ps) =
     (case p of None \<Rightarrow> None | Some b \<Rightarrow> map_option (\<lambda>rest. b @ rest) (join_pieces ps))"

section \<open>Reassembly\<close>

definition TUIC_PENDING_PACKETS :: nat where "TUIC_PENDING_PACKETS = 64"
definition TUIC_PENDING_BYTES :: nat where "TUIC_PENDING_BYTES = 256 * 1024"
definition TUIC_FRAGMENT_TTL :: nat where "TUIC_FRAGMENT_TTL = 5 * 1000000000"

record tuic_pending =
  tp_peer :: "destination option"
  tp_pieces :: "bytes option list"
  tp_bytes :: nat
  tp_received :: nat
  tp_expires :: instant

record tuic_reassembly =
  tr_packets :: "(u16 \<times> tuic_pending) list"
  tr_bytes :: nat

definition tuic_reassembly_default :: tuic_reassembly where
  "tuic_reassembly_default = \<lparr>tr_packets = [], tr_bytes = 0\<rparr>"

definition tuic_remove ::
  "u16 \<Rightarrow> tuic_reassembly \<Rightarrow> (tuic_pending option \<times> tuic_reassembly) option" where
  "tuic_remove pid r =
     (case map_of (tr_packets r) pid of
        None \<Rightarrow> Some (None, r)
      | Some p \<Rightarrow>
          if tp_bytes p \<le> tr_bytes r
          then Some (Some p, r\<lparr>tr_packets := AList.delete pid (tr_packets r),
                               tr_bytes := tr_bytes r - tp_bytes p\<rparr>)
          else None)"

fun tuic_retain ::
  "instant \<Rightarrow> (u16 \<times> tuic_pending) list \<Rightarrow> nat \<Rightarrow> ((u16 \<times> tuic_pending) list \<times> nat) option" where
  "tuic_retain now [] held = Some ([], held)"
| "tuic_retain now ((pid, p) # es) held =
     (if tp_expires p \<le> now then
        if tp_bytes p \<le> held then tuic_retain now es (held - tp_bytes p) else None
      else map_option (\<lambda>(kept, held'). ((pid, p) # kept, held')) (tuic_retain now es held))"

definition tuic_expire :: "instant \<Rightarrow> tuic_reassembly \<Rightarrow> tuic_reassembly option" where
  "tuic_expire now r =
     map_option (\<lambda>(kept, held). \<lparr>tr_packets = kept, tr_bytes = held\<rparr>)
       (tuic_retain now (tr_packets r) (tr_bytes r))"

definition tuic_datagram :: "destination \<Rightarrow> bytes \<Rightarrow> datagram" where
  "tuic_datagram peer payload =
     \<lparr>dg_remote = peer, dg_payload = payload, dg_sniffed_domain = None\<rparr>"

text \<open>Removal of a packet whose fragments contradict each other or exceed a bound.\<close>

definition tuic_discard ::
  "u16 \<Rightarrow> tuic_reassembly \<Rightarrow> (datagram option \<times> tuic_reassembly) option" where
  "tuic_discard pid r = map_option (\<lambda>(_, r'). (None, r')) (tuic_remove pid r)"

text \<open>The end of \<^verbatim>\<open>push\<close>, when the last piece has arrived.\<close>

definition tuic_complete ::
  "u16 \<Rightarrow> tuic_reassembly \<Rightarrow> (datagram option \<times> tuic_reassembly) option" where
  "tuic_complete pid r =
     Option.bind (tuic_remove pid r) (\<lambda>(removed, r').
     Option.bind removed (\<lambda>p.
     Option.bind (join_pieces (tp_pieces p)) (\<lambda>payload.
     Some (map_option (\<lambda>peer. tuic_datagram peer payload) (tp_peer p), r'))))"

text \<open>The part of \<^verbatim>\<open>push\<close> after the packet has an entry.\<close>

definition tuic_add ::
  "tuic_fragment \<Rightarrow> nat \<Rightarrow> tuic_reassembly \<Rightarrow> (datagram option \<times> tuic_reassembly) option" where
  "tuic_add f budget r =
     (case map_of (tr_packets r) (tf_packet f) of
        None \<Rightarrow> None
      | Some p \<Rightarrow>
          if length (tp_pieces p) \<noteq> unat (tf_count f) \<or>
             (tf_index f = 0 \<and> tp_peer p \<noteq> None \<and> tp_peer p \<noteq> tf_peer f)
          then tuic_discard (tf_packet f) r
          else if length (tp_pieces p) \<le> unat (tf_index f) then None
          else
            (case tp_pieces p ! unat (tf_index f) of
               Some previous \<Rightarrow>
                 if previous \<noteq> tf_payload f then tuic_discard (tf_packet f) r else Some (None, r)
             | None \<Rightarrow>
                 if budget < tp_bytes p + length (tf_payload f) \<or>
                    TUIC_PENDING_BYTES < tr_bytes r + length (tf_payload f)
                 then tuic_discard (tf_packet f) r
                 else
                   (let p' = p\<lparr>tp_peer := (if tf_index f = 0 then tf_peer f else tp_peer p),
                               tp_bytes := tp_bytes p + length (tf_payload f),
                               tp_received := tp_received p + 1,
                               tp_pieces := (tp_pieces p)[unat (tf_index f) := Some (tf_payload f)]\<rparr>;
                        r' = \<lparr>tr_packets = AList.update (tf_packet f) p' (tr_packets r),
                              tr_bytes = tr_bytes r + length (tf_payload f)\<rparr> in
                    if tp_received p' \<noteq> length (tp_pieces p') then Some (None, r')
                    else tuic_complete (tf_packet f) r')))"

definition tuic_start ::
  "tuic_fragment \<Rightarrow> instant \<Rightarrow> tuic_reassembly \<Rightarrow> tuic_reassembly option" where
  "tuic_start f now r =
     (if INSTANT_MAX < now + TUIC_FRAGMENT_TTL then None
      else Some (r\<lparr>tr_packets :=
        AList.update (tf_packet f)
          \<lparr>tp_peer = None, tp_pieces = replicate (unat (tf_count f)) None, tp_bytes = 0,
           tp_received = 0, tp_expires = now + TUIC_FRAGMENT_TTL\<rparr> (tr_packets r)\<rparr>))"

definition tuic_push ::
  "tuic_fragment \<Rightarrow> instant \<Rightarrow> nat \<Rightarrow> tuic_reassembly \<Rightarrow>
   (datagram option \<times> tuic_reassembly) option" where
  "tuic_push f now budget r0 =
     Option.bind (tuic_expire now r0) (\<lambda>r.
     if budget < length (tf_payload f) then Some (None, r)
     else if tf_count f = 1 then
       Option.bind (tuic_remove (tf_packet f) r) (\<lambda>(_, r').
       Some (map_option (\<lambda>peer. tuic_datagram peer (tf_payload f)) (tf_peer f), r'))
     else if map_of (tr_packets r) (tf_packet f) \<noteq> None then tuic_add f budget r
     else if TUIC_PENDING_PACKETS \<le> length (tr_packets r) then Some (None, r)
     else Option.bind (tuic_start f now r) (tuic_add f budget))"

section \<open>Facts on pieces\<close>

lemma filled_Cons [simp]: "filled (p # ps) = (if p = None then 0 else 1) + filled ps"
  by (simp add: filled_def)

lemma filled_Nil [simp]: "filled [] = 0"
  by (simp add: filled_def)

lemma filled_replicate [simp]: "filled (replicate n None) = 0"
  by (induction n) simp_all

lemma filled_update:
  "i < length ps \<Longrightarrow> ps ! i = None \<Longrightarrow> filled (ps[i := Some b]) = filled ps + 1"
  by (induction ps arbitrary: i) (auto simp: nth_Cons split: nat.splits)

lemma filled_le: "filled ps \<le> length ps"
  by (simp add: filled_def)

lemma filled_full_iff: "filled ps = length ps \<longleftrightarrow> None \<notin> set ps"
proof (induction ps)
  case (Cons p ps)
  then show ?case
    using filled_le [of ps] by (cases p) auto
qed simp

lemma filled_pos: "i < length ps \<Longrightarrow> ps ! i \<noteq> None \<Longrightarrow> 0 < filled ps"
  by (induction ps arbitrary: i) (auto simp: nth_Cons split: nat.splits)

lemma piece_bytes_Cons [simp]:
  "piece_bytes (p # ps) = (case p of None \<Rightarrow> 0 | Some b \<Rightarrow> length b) + piece_bytes ps"
  by (simp add: piece_bytes_def)

lemma piece_bytes_Nil [simp]: "piece_bytes [] = 0"
  by (simp add: piece_bytes_def)

lemma piece_bytes_replicate [simp]: "piece_bytes (replicate n None) = 0"
  by (induction n) simp_all

lemma piece_bytes_update:
  "i < length ps \<Longrightarrow> ps ! i = None \<Longrightarrow> piece_bytes (ps[i := Some b]) = piece_bytes ps + length b"
  by (induction ps arbitrary: i) (auto simp: nth_Cons split: nat.splits option.split)

lemma join_pieces_full: "None \<notin> set ps \<Longrightarrow> \<exists>w. join_pieces ps = Some w \<and> length w = piece_bytes ps"
proof (induction ps)
  case (Cons p ps)
  then show ?case by (cases p) auto
qed simp

lemma join_pieces_map: "join_pieces (map (\<lambda>i. Some (g i)) is) = Some (concat (map g is))"
  by (induction "is") auto

section \<open>The invariant of one association\<close>

definition pending_ok :: "nat \<Rightarrow> tuic_pending \<Rightarrow> bool" where
  "pending_ok budget p \<longleftrightarrow>
     tp_received p = filled (tp_pieces p) \<and> tp_bytes p = piece_bytes (tp_pieces p) \<and>
     tp_bytes p \<le> budget \<and> 0 < length (tp_pieces p) \<and> length (tp_pieces p) \<le> 255 \<and>
     (tp_peer p \<noteq> None \<longleftrightarrow> tp_pieces p ! 0 \<noteq> None)"

definition packets_ok :: "nat \<Rightarrow> (u16 \<times> tuic_pending) list \<Rightarrow> bool" where
  "packets_ok budget es \<longleftrightarrow>
     distinct (map fst es) \<and> (\<forall>p \<in> snd ` set es. pending_ok budget p)"

definition packets_held :: "(u16 \<times> tuic_pending) list \<Rightarrow> nat" where
  "packets_held es = sum_list (map (\<lambda>e. tp_bytes (snd e)) es)"

definition reassembly_ok :: "nat \<Rightarrow> tuic_reassembly \<Rightarrow> bool" where
  "reassembly_ok budget r \<longleftrightarrow>
     packets_ok budget (tr_packets r) \<and> length (tr_packets r) \<le> TUIC_PENDING_PACKETS \<and>
     tr_bytes r = packets_held (tr_packets r) \<and> tr_bytes r \<le> TUIC_PENDING_BYTES"

lemma packets_held_delete:
  "distinct (map fst es) \<Longrightarrow> map_of es k = Some p \<Longrightarrow>
   packets_held es = tp_bytes p + packets_held (AList.delete k es)"
proof (induction es)
  case (Cons e es)
  show ?case
  proof (cases "fst e = k")
    case True
    then have "AList.delete k es = es"
      using Cons.prems(1) by (auto intro: delete_idem)
    with True Cons.prems show ?thesis
      by (cases e) (simp add: packets_held_def)
  next
    case False
    with Cons show ?thesis
      by (cases e) (simp add: packets_held_def)
  qed
qed simp

lemma packets_held_update:
  "distinct (map fst es) \<Longrightarrow>
   packets_held (AList.update k q es) + (case map_of es k of None \<Rightarrow> 0 | Some p \<Rightarrow> tp_bytes p) =
   packets_held es + tp_bytes q"
  by (induction es) (auto simp: packets_held_def split: option.split)

lemma length_update:
  "length (AList.update k q es) = length es + (if map_of es k = None then 1 else 0)"
  by (induction es) auto

lemma set_update_snd: "snd ` set (AList.update k q es) \<subseteq> insert q (snd ` set es)"
  by (induction es) auto

lemma packets_ok_update:
  assumes "packets_ok budget es" "pending_ok budget q"
  shows "packets_ok budget (AList.update k q es)"
proof -
  have "pending_ok budget p" if "p \<in> snd ` set (AList.update k q es)" for p
    using that assms set_update_snd [of k q es] unfolding packets_ok_def by blast
  then show ?thesis
    using assms(1) by (simp add: packets_ok_def distinct_update)
qed

lemma packets_ok_delete: "packets_ok budget es \<Longrightarrow> packets_ok budget (AList.delete k es)"
  using distinct_delete [of es k] by (auto simp: packets_ok_def AList.delete_eq)

lemma tuic_remove_ok:
  assumes "reassembly_ok budget r"
  shows "\<exists>r'. tuic_remove pid r = Some (map_of (tr_packets r) pid, r') \<and> reassembly_ok budget r' \<and>
    tr_packets r' = AList.delete pid (tr_packets r) \<and>
    tr_bytes r = tr_bytes r' + (case map_of (tr_packets r) pid of None \<Rightarrow> 0 | Some p \<Rightarrow> tp_bytes p)"
proof (cases "map_of (tr_packets r) pid")
  case None
  then have "AList.delete pid (tr_packets r) = tr_packets r"
    by (simp add: map_of_eq_None_iff)
  with None show ?thesis
    using assms by (simp add: tuic_remove_def)
next
  case (Some p)
  have held: "tr_bytes r = tp_bytes p + packets_held (AList.delete pid (tr_packets r))"
    using assms packets_held_delete [OF _ Some]
    by (auto simp: reassembly_ok_def packets_ok_def)
  then show ?thesis
    using Some assms packets_ok_delete [of budget "tr_packets r" pid]
      length_delete_le [of pid "tr_packets r"]
    by (auto simp: tuic_remove_def reassembly_ok_def)
qed

lemma tuic_retain_ok:
  "packets_ok budget es \<Longrightarrow>
   \<exists>kept. tuic_retain now es (packets_held es + base) = Some (kept, packets_held kept + base) \<and>
     kept = filter (\<lambda>e. now < tp_expires (snd e)) es"
proof (induction es arbitrary: base)
  case Nil
  then show ?case by (simp add: packets_held_def)
next
  case (Cons e es)
  obtain k p where e: "e = (k, p)" by (cases e)
  have "packets_ok budget es"
    using Cons.prems by (simp add: packets_ok_def)
  then have IH: "\<exists>kept. tuic_retain now es (packets_held es + b) = Some (kept, packets_held kept + b) \<and>
      kept = filter (\<lambda>e. now < tp_expires (snd e)) es" for b
    by (rule Cons.IH)
  show ?case
  proof (cases "tp_expires p \<le> now")
    case True
    then show ?thesis
      using IH [of base] e by (simp add: packets_held_def)
  next
    case False
    then show ?thesis
      using IH [of "tp_bytes p + base"] e by (simp add: packets_held_def algebra_simps)
  qed
qed

lemma tuic_expire_ok:
  assumes "reassembly_ok budget r"
  shows "\<exists>r'. tuic_expire now r = Some r' \<and> reassembly_ok budget r' \<and>
    tr_packets r' = filter (\<lambda>e. now < tp_expires (snd e)) (tr_packets r) \<and>
    tr_bytes r' \<le> tr_bytes r"
proof -
  let ?kept = "filter (\<lambda>e. now < tp_expires (snd e)) (tr_packets r)"
  have "packets_ok budget (tr_packets r)" and held: "tr_bytes r = packets_held (tr_packets r)"
    and n: "length (tr_packets r) \<le> TUIC_PENDING_PACKETS" "tr_bytes r \<le> TUIC_PENDING_BYTES"
    using assms by (auto simp: reassembly_ok_def)
  then have "tuic_expire now r = Some \<lparr>tr_packets = ?kept, tr_bytes = packets_held ?kept\<rparr>"
    using tuic_retain_ok [of budget "tr_packets r" now 0] by (auto simp: tuic_expire_def)
  moreover have "packets_held ?kept \<le> packets_held (tr_packets r)"
    by (induction "tr_packets r") (auto simp: packets_held_def intro: sum_list_filter_le_nat)
  moreover have "packets_ok budget ?kept"
    using \<open>packets_ok budget (tr_packets r)\<close>
    by (auto simp: packets_ok_def distinct_map_filter)
  ultimately show ?thesis
    using held n order_trans [OF length_filter_le n(1)] by (auto simp: reassembly_ok_def)
qed

lemma reassembly_entry_ok:
  assumes "reassembly_ok budget r" "map_of (tr_packets r) pid = Some p"
  shows "pending_ok budget p"
proof -
  have "p \<in> snd ` set (tr_packets r)"
    using map_of_SomeD [OF assms(2)] by (rule image_eqI [rotated]) simp
  with assms(1) show ?thesis
    by (simp only: reassembly_ok_def packets_ok_def)
qed

text \<open>What decoding guarantees of a fragment.\<close>

definition fragment_ok :: "tuic_fragment \<Rightarrow> bool" where
  "fragment_ok f \<longleftrightarrow>
     unat (tf_index f) < unat (tf_count f) \<and> (tf_index f = 0 \<longleftrightarrow> tf_peer f \<noteq> None)"

lemma tuic_decode_fragment_ok: "tuic_decode s = Inr f \<Longrightarrow> fragment_ok f"
  by (auto simp: tuic_decode_Inr_iff fragment_ok_def word_less_nat_alt)

definition within_budget :: "nat \<Rightarrow> datagram option \<Rightarrow> bool" where
  "within_budget budget found \<longleftrightarrow>
     (case found of None \<Rightarrow> True | Some dg \<Rightarrow> length (dg_payload dg) \<le> budget)"

lemma tuic_discard_ok:
  "reassembly_ok budget r \<Longrightarrow>
   \<exists>r'. tuic_discard pid r = Some (None, r') \<and> reassembly_ok budget r'"
  using tuic_remove_ok [of budget r pid] by (auto simp: tuic_discard_def)

lemma tuic_complete_ok:
  assumes "reassembly_ok budget r" "map_of (tr_packets r) pid = Some p"
    "None \<notin> set (tp_pieces p)"
  shows "\<exists>w peer r'. join_pieces (tp_pieces p) = Some w \<and> tp_peer p = Some peer \<and>
    tuic_complete pid r = Some (Some (tuic_datagram peer w), r') \<and> reassembly_ok budget r' \<and>
    tr_packets r' = AList.delete pid (tr_packets r) \<and> length w \<le> budget"
proof -
  have p: "pending_ok budget p"
    by (rule reassembly_entry_ok [OF assms(1,2)])
  obtain w where w: "join_pieces (tp_pieces p) = Some w" "length w = piece_bytes (tp_pieces p)"
    using join_pieces_full [OF assms(3)] by blast
  have "tp_pieces p ! 0 \<in> set (tp_pieces p)"
    using p by (intro nth_mem) (simp add: pending_ok_def)
  then obtain peer where "tp_peer p = Some peer"
    using p assms(3) by (cases "tp_peer p") (auto simp: pending_ok_def)
  then show ?thesis
    using w p tuic_remove_ok [OF assms(1), of pid] assms(2)
    by (auto simp: tuic_complete_def pending_ok_def)
qed

text \<open>The entry after a new piece was stored.\<close>

definition pending_with :: "tuic_fragment \<Rightarrow> tuic_pending \<Rightarrow> tuic_pending" where
  "pending_with f p =
     p\<lparr>tp_peer := (if tf_index f = 0 then tf_peer f else tp_peer p),
       tp_bytes := tp_bytes p + length (tf_payload f),
       tp_received := tp_received p + 1,
       tp_pieces := (tp_pieces p)[unat (tf_index f) := Some (tf_payload f)]\<rparr>"

definition reassembly_with :: "tuic_fragment \<Rightarrow> tuic_pending \<Rightarrow> tuic_reassembly \<Rightarrow> tuic_reassembly" where
  "reassembly_with f p r =
     \<lparr>tr_packets = AList.update (tf_packet f) (pending_with f p) (tr_packets r),
      tr_bytes = tr_bytes r + length (tf_payload f)\<rparr>"

lemma reassembly_with_ok:
  assumes "reassembly_ok budget r" "map_of (tr_packets r) (tf_packet f) = Some p" "fragment_ok f"
    "unat (tf_index f) < length (tp_pieces p)" "tp_pieces p ! unat (tf_index f) = None"
    "tp_bytes p + length (tf_payload f) \<le> budget"
    "tr_bytes r + length (tf_payload f) \<le> TUIC_PENDING_BYTES"
  shows "reassembly_ok budget (reassembly_with f p r)"
proof -
  have p: "pending_ok budget p"
    by (rule reassembly_entry_ok [OF assms(1,2)])
  have peer: "tp_peer (pending_with f p) \<noteq> None \<longleftrightarrow> tp_pieces (pending_with f p) ! 0 \<noteq> None"
    using p assms(3,4) by (auto simp: pending_with_def pending_ok_def fragment_ok_def
        nth_list_update unat_eq_zero)
  have "pending_ok budget (pending_with f p)"
    using p assms(4-6) peer
    by (simp add: pending_ok_def filled_update piece_bytes_update) (simp add: pending_with_def
        filled_update piece_bytes_update)
  then have "packets_ok budget (tr_packets (reassembly_with f p r))"
    using assms(1) by (simp add: reassembly_with_def reassembly_ok_def packets_ok_update)
  moreover have "packets_held (tr_packets (reassembly_with f p r)) =
      packets_held (tr_packets r) + length (tf_payload f)"
    using packets_held_update [of "tr_packets r" "tf_packet f" "pending_with f p"] assms(1,2)
    by (simp add: reassembly_with_def reassembly_ok_def packets_ok_def) (simp add: pending_with_def)
  ultimately show ?thesis
    using assms(1,2,7)
    by (simp add: reassembly_ok_def) (simp add: reassembly_with_def length_update)
qed

lemma tuic_add_unfold:
  assumes "map_of (tr_packets r) (tf_packet f) = Some p"
    "length (tp_pieces p) = unat (tf_count f)" "unat (tf_index f) < unat (tf_count f)"
    "\<not> (tf_index f = 0 \<and> tp_peer p \<noteq> None \<and> tp_peer p \<noteq> tf_peer f)"
    "tp_pieces p ! unat (tf_index f) = None"
    "tp_bytes p + length (tf_payload f) \<le> budget"
    "tr_bytes r + length (tf_payload f) \<le> TUIC_PENDING_BYTES"
  shows "tuic_add f budget r =
    (if tp_received (pending_with f p) \<noteq> length (tp_pieces (pending_with f p))
     then Some (None, reassembly_with f p r)
     else tuic_complete (tf_packet f) (reassembly_with f p r))"
  using assms by (auto simp: tuic_add_def pending_with_def reassembly_with_def Let_def)

lemma tuic_add_ok:
  assumes "reassembly_ok budget r" "map_of (tr_packets r) (tf_packet f) = Some p" "fragment_ok f"
  shows "\<exists>found r'. tuic_add f budget r = Some (found, r') \<and> reassembly_ok budget r' \<and>
    within_budget budget found"
proof -
  let ?discard = "tuic_discard (tf_packet f) r"
  have discard: "\<exists>found r'. ?discard = Some (found, r') \<and> reassembly_ok budget r' \<and>
      within_budget budget found"
    using tuic_discard_ok [OF assms(1), of "tf_packet f"] by (auto simp: within_budget_def)
  consider (discarded) "tuic_add f budget r = ?discard"
    | (same) "tuic_add f budget r = Some (None, r)"
    | (stored) "length (tp_pieces p) = unat (tf_count f)"
      "\<not> (tf_index f = 0 \<and> tp_peer p \<noteq> None \<and> tp_peer p \<noteq> tf_peer f)"
      "tp_pieces p ! unat (tf_index f) = None" "tp_bytes p + length (tf_payload f) \<le> budget"
      "tr_bytes r + length (tf_payload f) \<le> TUIC_PENDING_BYTES"
    using assms(2,3)
    by (fastforce simp: tuic_add_def fragment_ok_def split: option.splits if_splits)
  then show ?thesis
  proof cases
    case stored
    have i: "unat (tf_index f) < unat (tf_count f)"
      using assms(3) by (simp add: fragment_ok_def)
    have ok: "reassembly_ok budget (reassembly_with f p r)"
      using reassembly_with_ok [OF assms] stored i by simp
    have entry: "map_of (tr_packets (reassembly_with f p r)) (tf_packet f) =
        Some (pending_with f p)"
      by (simp add: reassembly_with_def update_conv')
    have "pending_ok budget (pending_with f p)"
      by (rule reassembly_entry_ok [OF ok entry])
    then have full: "None \<notin> set (tp_pieces (pending_with f p))"
      if "tp_received (pending_with f p) = length (tp_pieces (pending_with f p))"
      using that filled_full_iff [of "tp_pieces (pending_with f p)"] by (metis pending_ok_def)
    show ?thesis
      using tuic_add_unfold [OF assms(2) stored(1) i stored(2-5)] ok
        tuic_complete_ok [OF ok entry full]
      by (auto simp: within_budget_def tuic_datagram_def)
  qed (use discard assms(1) in \<open>auto simp: within_budget_def\<close>)
qed

lemma tuic_start_ok:
  assumes "reassembly_ok budget r" "map_of (tr_packets r) (tf_packet f) = None"
    "length (tr_packets r) < TUIC_PENDING_PACKETS" "now + TUIC_FRAGMENT_TTL \<le> INSTANT_MAX"
    "fragment_ok f"
  shows "\<exists>r' p. tuic_start f now r = Some r' \<and> reassembly_ok budget r' \<and>
    tr_bytes r' = tr_bytes r \<and> tr_packets r' = AList.update (tf_packet f) p (tr_packets r) \<and>
    p = \<lparr>tp_peer = None, tp_pieces = replicate (unat (tf_count f)) None, tp_bytes = 0,
         tp_received = 0, tp_expires = now + TUIC_FRAGMENT_TTL\<rparr>"
proof -
  let ?p = "\<lparr>tp_peer = None, tp_pieces = replicate (unat (tf_count f)) None, tp_bytes = 0,
    tp_received = 0, tp_expires = now + TUIC_FRAGMENT_TTL\<rparr>"
  have "pending_ok budget ?p"
    using assms(5) by (simp add: pending_ok_def fragment_ok_def)
  then have "packets_ok budget (AList.update (tf_packet f) ?p (tr_packets r))"
    using assms(1) by (simp add: reassembly_ok_def packets_ok_update)
  then show ?thesis
    using assms packets_held_update [of "tr_packets r" "tf_packet f" ?p]
    by (simp add: tuic_start_def reassembly_ok_def packets_ok_def length_update)
qed

lemma tuic_push_ok:
  assumes "reassembly_ok budget r0" "fragment_ok f" "now + TUIC_FRAGMENT_TTL \<le> INSTANT_MAX"
  shows "\<exists>found r'. tuic_push f now budget r0 = Some (found, r') \<and> reassembly_ok budget r' \<and>
    within_budget budget found"
proof -
  obtain r where r: "tuic_expire now r0 = Some r" "reassembly_ok budget r"
    using tuic_expire_ok [OF assms(1)] by blast
  show ?thesis
  proof (cases "length (tf_payload f) \<le> budget \<and> tf_count f \<noteq> 1")
    case False
    then show ?thesis
      using r tuic_remove_ok [OF r(2), of "tf_packet f"]
      by (cases "tf_peer f") (auto simp: tuic_push_def within_budget_def tuic_datagram_def not_le)
  next
    case True
    then have push: "tuic_push f now budget r0 =
        (if map_of (tr_packets r) (tf_packet f) \<noteq> None then tuic_add f budget r
         else if TUIC_PENDING_PACKETS \<le> length (tr_packets r) then Some (None, r)
         else Option.bind (tuic_start f now r) (tuic_add f budget))"
      using r(1) by (auto simp: tuic_push_def)
    show ?thesis
    proof (cases "map_of (tr_packets r) (tf_packet f)")
      case None
      then show ?thesis
      proof (cases "TUIC_PENDING_PACKETS \<le> length (tr_packets r)")
        case False
        then obtain r1 p where r1: "tuic_start f now r = Some r1" "reassembly_ok budget r1"
          "map_of (tr_packets r1) (tf_packet f) = Some p"
          using tuic_start_ok [OF r(2) None _ assms(3,2)] by (auto simp: update_conv')
        then show ?thesis
          using push None False tuic_add_ok [OF r1(2,3) assms(2)] by simp
      qed (use push r(2) in \<open>simp add: within_budget_def\<close>)
    next
      case (Some p)
      then show ?thesis
        using push tuic_add_ok [OF r(2) Some assms(2)] by simp
    qed
  qed
qed

section \<open>One datagram from its fragments\<close>

definition tuic_pieces :: "nat set \<Rightarrow> (nat \<Rightarrow> bytes) \<Rightarrow> nat list \<Rightarrow> bytes option list" where
  "tuic_pieces S g is = map (\<lambda>i. if i \<in> S then Some (g i) else None) is"

lemma piece_bytes_le: "piece_bytes (tuic_pieces S g is) \<le> length (concat (map g is))"
  by (induction "is") (auto simp: tuic_pieces_def)

lemma tuic_pieces_update:
  "i < n \<Longrightarrow> (tuic_pieces S g [0..<n])[i := Some (g i)] = tuic_pieces (insert i S) g [0..<n]"
  by (auto simp: tuic_pieces_def list_eq_iff_nth_eq nth_list_update)

lemma tuic_pieces_full: "{..<n} \<subseteq> S \<Longrightarrow> tuic_pieces S g [0..<n] = map (\<lambda>i. Some (g i)) [0..<n]"
  by (auto simp: tuic_pieces_def)

lemma tuic_pieces_None: "None \<in> set (tuic_pieces S g [0..<n]) \<longleftrightarrow> \<not> {..<n} \<subseteq> S"
  by (auto simp: tuic_pieces_def image_iff)

definition tuic_part :: "u16 \<Rightarrow> u16 \<Rightarrow> destination \<Rightarrow> nat \<Rightarrow> (nat \<Rightarrow> bytes) \<Rightarrow> nat \<Rightarrow> tuic_fragment" where
  "tuic_part aid pid peer n g i =
     \<lparr>tf_association = aid, tf_packet = pid, tf_count = of_nat n, tf_index = of_nat i,
      tf_peer = (if i = 0 then Some peer else None), tf_payload = g i\<rparr>"

text \<open>The pieces in \<open>S\<close> have arrived, the first at \<open>t0\<close>; other packets hold at most \<open>base\<close> bytes.\<close>

definition assembling ::
  "nat \<Rightarrow> u16 \<Rightarrow> destination \<Rightarrow> nat \<Rightarrow> (nat \<Rightarrow> bytes) \<Rightarrow> instant \<Rightarrow> nat \<Rightarrow> nat set \<Rightarrow> tuic_reassembly \<Rightarrow> bool" where
  "assembling budget pid peer n g t0 base S r \<longleftrightarrow>
     reassembly_ok budget r \<and>
     (\<exists>p. map_of (tr_packets r) pid = Some p \<and> tp_pieces p = tuic_pieces S g [0..<n] \<and>
        tp_peer p = (if 0 \<in> S then Some peer else None) \<and>
        tp_expires p = t0 + TUIC_FRAGMENT_TTL \<and> tr_bytes r \<le> base + tp_bytes p)"

lemma tuic_part_fields:
  assumes "i < n" "n \<le> 255"
  shows "tf_packet (tuic_part aid pid peer n g i) = pid"
    "unat (tf_count (tuic_part aid pid peer n g i)) = n"
    "unat (tf_index (tuic_part aid pid peer n g i)) = i"
    "tf_index (tuic_part aid pid peer n g i) = 0 \<longleftrightarrow> i = 0"
    "tf_peer (tuic_part aid pid peer n g i) = (if i = 0 then Some peer else None)"
    "tf_payload (tuic_part aid pid peer n g i) = g i"
    "fragment_ok (tuic_part aid pid peer n g i)"
  using assms by (simp_all add: tuic_part_def fragment_ok_def)

lemma assembling_store:
  assumes "assembling budget pid peer n g t0 base S r" "i < n" "i \<notin> S" "n \<le> 255"
    "length (concat (map g [0..<n])) \<le> budget"
    "base + length (concat (map g [0..<n])) \<le> TUIC_PENDING_BYTES"
    "f = tuic_part aid pid peer n g i"
  obtains p where "tp_pieces (pending_with f p) = tuic_pieces (insert i S) g [0..<n]"
    "tp_peer (pending_with f p) = (if 0 \<in> insert i S then Some peer else None)"
    "tp_expires (pending_with f p) = t0 + TUIC_FRAGMENT_TTL"
    "tr_bytes (reassembly_with f p r) \<le> base + tp_bytes (pending_with f p)"
    "reassembly_ok budget (reassembly_with f p r)"
    "map_of (tr_packets (reassembly_with f p r)) pid = Some (pending_with f p)"
    "tuic_add f budget r =
      (if tp_received (pending_with f p) \<noteq> length (tp_pieces (pending_with f p))
       then Some (None, reassembly_with f p r) else tuic_complete pid (reassembly_with f p r))"
proof -
  from assms(1) obtain p where p: "map_of (tr_packets r) pid = Some p"
      "tp_pieces p = tuic_pieces S g [0..<n]" "tp_peer p = (if 0 \<in> S then Some peer else None)"
      "tp_expires p = t0 + TUIC_FRAGMENT_TTL" "tr_bytes r \<le> base + tp_bytes p"
    and ok: "reassembly_ok budget r"
    by (auto simp: assembling_def)
  note f = tuic_part_fields [OF assms(2,4), of aid pid peer g, folded assms(7)]
  have len: "length (tp_pieces p) = n" and slot: "tp_pieces p ! i = None"
    using p(2) assms(2,3) by (simp_all add: tuic_pieces_def)
  have "tp_bytes p + length (g i) = piece_bytes (tuic_pieces (insert i S) g [0..<n])"
    using reassembly_entry_ok [OF ok p(1)] piece_bytes_update [of i "tp_pieces p" "g i"]
      assms(2) len slot p(2)
    by (simp add: pending_ok_def tuic_pieces_update)
  also have "\<dots> \<le> length (concat (map g [0..<n]))"
    by (rule piece_bytes_le)
  finally have fits: "tp_bytes p + length (g i) \<le> budget"
    "tr_bytes r + length (g i) \<le> TUIC_PENDING_BYTES"
    using assms(5,6) p(5) by simp_all
  show thesis
  proof (rule that)
    show "reassembly_ok budget (reassembly_with f p r)"
      using reassembly_with_ok [OF ok _ f(7)] p(1) f fits len slot assms(2) by simp
    show "tuic_add f budget r =
      (if tp_received (pending_with f p) \<noteq> length (tp_pieces (pending_with f p))
       then Some (None, reassembly_with f p r) else tuic_complete pid (reassembly_with f p r))"
      using tuic_add_unfold [of r f p budget] p(1,3) f fits len slot assms(2,3) by auto
  qed (use p f assms(2) in
      \<open>auto simp: pending_with_def reassembly_with_def tuic_pieces_update update_conv'\<close>)
qed

lemma assembling_add:
  assumes "assembling budget pid peer n g t0 base S r" "i < n" "i \<notin> S" "n \<le> 255"
    "length (concat (map g [0..<n])) \<le> budget"
    "base + length (concat (map g [0..<n])) \<le> TUIC_PENDING_BYTES"
  shows "if {..<n} \<subseteq> insert i S
    then \<exists>r'. tuic_add (tuic_part aid pid peer n g i) budget r =
           Some (Some (tuic_datagram peer (concat (map g [0..<n]))), r') \<and>
         map_of (tr_packets r') pid = None
    else \<exists>r'. tuic_add (tuic_part aid pid peer n g i) budget r = Some (None, r') \<and>
         assembling budget pid peer n g t0 base (insert i S) r'"
proof -
  define f where "f = tuic_part aid pid peer n g i"
  obtain p where new: "tp_pieces (pending_with f p) = tuic_pieces (insert i S) g [0..<n]"
    and peer: "tp_peer (pending_with f p) = (if 0 \<in> insert i S then Some peer else None)"
    and rest: "tp_expires (pending_with f p) = t0 + TUIC_FRAGMENT_TTL"
      "tr_bytes (reassembly_with f p r) \<le> base + tp_bytes (pending_with f p)"
    and ok: "reassembly_ok budget (reassembly_with f p r)"
    and entry: "map_of (tr_packets (reassembly_with f p r)) pid = Some (pending_with f p)"
    and add: "tuic_add f budget r =
      (if tp_received (pending_with f p) \<noteq> length (tp_pieces (pending_with f p))
       then Some (None, reassembly_with f p r) else tuic_complete pid (reassembly_with f p r))"
    by (rule assembling_store [OF assms f_def])
  have "tp_received (pending_with f p) = length (tp_pieces (pending_with f p)) \<longleftrightarrow>
      None \<notin> set (tp_pieces (pending_with f p))"
    using reassembly_entry_ok [OF ok entry] filled_full_iff [of "tp_pieces (pending_with f p)"]
    by (simp add: pending_ok_def)
  then have full: "tp_received (pending_with f p) = length (tp_pieces (pending_with f p)) \<longleftrightarrow>
      {..<n} \<subseteq> insert i S"
    unfolding new tuic_pieces_None by simp
  show ?thesis
  proof (cases "{..<n} \<subseteq> insert i S")
    case True
    then have "0 \<in> insert i S" using subsetD [OF True, of 0] assms(2) by simp
    then have w: "join_pieces (tp_pieces (pending_with f p)) = Some (concat (map g [0..<n]))"
      and none: "None \<notin> set (tp_pieces (pending_with f p))"
      and at: "tp_peer (pending_with f p) = Some peer"
      using True new peer by (simp_all add: tuic_pieces_full join_pieces_map image_iff)
    from tuic_complete_ok [OF ok entry none] w at
    obtain r' where "tuic_complete pid (reassembly_with f p r) =
        Some (Some (tuic_datagram peer (concat (map g [0..<n]))), r')"
      "map_of (tr_packets r') pid = None"
      by (auto simp: delete_conv')
    with add full True show ?thesis by (simp add: f_def)
  next
    case False
    have "assembling budget pid peer n g t0 base (insert i S) (reassembly_with f p r)"
      using ok entry new peer rest by (simp add: assembling_def)
    with False add full show ?thesis by (simp add: f_def)
  qed
qed

lemma map_of_filter:
  "distinct (map fst es) \<Longrightarrow> map_of es k = Some p \<Longrightarrow> Q (k, p) \<Longrightarrow> map_of (filter Q es) k = Some p"
  by (rule map_of_is_SomeI) (auto simp: distinct_map_filter dest: map_of_SomeD)

lemma map_of_filter_None: "map_of es k = None \<Longrightarrow> map_of (filter Q es) k = None"
  by (auto simp: map_of_eq_None_iff)

lemma assembling_expire:
  assumes "assembling budget pid peer n g t0 base S r" "t < t0 + TUIC_FRAGMENT_TTL"
  shows "\<exists>r'. tuic_expire t r = Some r' \<and> assembling budget pid peer n g t0 base S r'"
proof -
  from assms(1) obtain p where p: "map_of (tr_packets r) pid = Some p"
      "tp_pieces p = tuic_pieces S g [0..<n]" "tp_peer p = (if 0 \<in> S then Some peer else None)"
      "tp_expires p = t0 + TUIC_FRAGMENT_TTL" "tr_bytes r \<le> base + tp_bytes p"
    and ok: "reassembly_ok budget r"
    by (auto simp: assembling_def)
  obtain r' where r': "tuic_expire t r = Some r'" "reassembly_ok budget r'"
    "tr_packets r' = filter (\<lambda>e. t < tp_expires (snd e)) (tr_packets r)" "tr_bytes r' \<le> tr_bytes r"
    using tuic_expire_ok [OF ok] by blast
  have "map_of (tr_packets r') pid = Some p"
    unfolding r'(3)
    by (rule map_of_filter) (use ok p assms(2) in \<open>simp_all add: reassembly_ok_def packets_ok_def\<close>)
  then have "assembling budget pid peer n g t0 base S r'"
    unfolding assembling_def using r'(2,4) p(2-5) by (auto intro: order_trans)
  with r'(1) show ?thesis by blast
qed

text \<open>A fragment of a packet in assembly goes to \<open>tuic_add\<close>.\<close>

lemma tuic_push_add:
  assumes "tuic_expire t r = Some r1" "map_of (tr_packets r1) (tf_packet f) \<noteq> None"
    "length (tf_payload f) \<le> budget" "tf_count f \<noteq> 1"
  shows "tuic_push f t budget r = tuic_add f budget r1"
  using assms by (auto simp: tuic_push_def)

lemma tuic_push_first:
  assumes "tuic_expire t r = Some r1" "map_of (tr_packets r1) (tf_packet f) = None"
    "length (tf_payload f) \<le> budget" "tf_count f \<noteq> 1"
    "length (tr_packets r1) < TUIC_PENDING_PACKETS"
  shows "tuic_push f t budget r = Option.bind (tuic_start f t r1) (tuic_add f budget)"
  using assms by (auto simp: tuic_push_def)

lemma tuic_part_count: "1 < n \<Longrightarrow> n \<le> 255 \<Longrightarrow> tf_count (tuic_part aid pid peer n g i) \<noteq> 1"
  by (auto simp: tuic_part_def word_unat_eq_iff)

lemma length_part_le: "i < n \<Longrightarrow> length (g i) \<le> length (concat (map g [0..<n]))"
proof -
  assume "i < n"
  then have "length (g i) \<in> set (map (\<lambda>i. length (g i)) [0..<n])" by auto
  then show ?thesis
    using member_le_sum_list [of "length (g i)"] by (simp add: length_concat comp_def)
qed

text \<open>The receive loop in native mode: what does not decode is dropped.\<close>

fun tuic_push_all ::
  "(bytes \<times> instant) list \<Rightarrow> nat \<Rightarrow> tuic_reassembly \<Rightarrow> (datagram list \<times> tuic_reassembly) option" where
  "tuic_push_all [] budget r = Some ([], r)"
| "tuic_push_all ((raw, now) # es) budget r =
     (case tuic_decode raw of
        Inl _ \<Rightarrow> tuic_push_all es budget r
      | Inr f \<Rightarrow>
          Option.bind (tuic_push f now budget r) (\<lambda>(found, r1).
          map_option (\<lambda>(out, r2). (case found of None \<Rightarrow> out | Some dg \<Rightarrow> dg # out, r2))
            (tuic_push_all es budget r1)))"

lemma assembling_push_all:
  assumes "\<And>i. i < n \<Longrightarrow> tuic_decode (w i) = Inr (tuic_part aid pid peer n g i)"
    and "1 < n" "n \<le> 255" "length (concat (map g [0..<n])) \<le> budget"
    and "base + length (concat (map g [0..<n])) \<le> TUIC_PENDING_BYTES"
  shows "assembling budget pid peer n g t0 base S r \<Longrightarrow> js \<noteq> [] \<Longrightarrow> distinct js \<Longrightarrow>
    S \<inter> set js = {} \<Longrightarrow> S \<union> set js = {..<n} \<Longrightarrow> length ts = length js \<Longrightarrow>
    \<forall>t \<in> set ts. t < t0 + TUIC_FRAGMENT_TTL \<Longrightarrow>
    \<exists>r'. tuic_push_all (zip (map w js) ts) budget r =
      Some ([tuic_datagram peer (concat (map g [0..<n]))], r') \<and> map_of (tr_packets r') pid = None"
proof (induction "js" arbitrary: S r ts)
  case (Cons i js)
  obtain t ts' where ts: "ts = t # ts'" "t < t0 + TUIC_FRAGMENT_TTL"
    using Cons.prems(6,7) by (cases ts) auto
  have i: "i < n" "i \<notin> S" using Cons.prems(4,5) by auto
  note f = tuic_part_fields [OF i(1) assms(3), of aid pid peer g]
  obtain r1 where r1: "tuic_expire t r = Some r1" "assembling budget pid peer n g t0 base S r1"
    using assembling_expire [OF Cons.prems(1) ts(2)] by blast
  have "map_of (tr_packets r1) pid \<noteq> None"
    using r1(2) by (auto simp: assembling_def)
  then have push: "tuic_push (tuic_part aid pid peer n g i) t budget r =
      tuic_add (tuic_part aid pid peer n g i) budget r1"
    using tuic_push_add [OF r1(1)] f length_part_le [OF i(1), of g] assms(2-4)
    by (simp add: tuic_part_count)
  note add = assembling_add [OF r1(2) i assms(3-5), of aid]
  show ?case
  proof (cases "js = []")
    case True
    then have "{..<n} \<subseteq> insert i S" using Cons.prems(5) by auto
    with add push True ts assms(1) [OF i(1)] Cons.prems(6) show ?thesis by auto
  next
    case False
    then have "\<not> {..<n} \<subseteq> insert i S"
      using Cons.prems(3-5) by (cases "js") auto
    with add obtain r2 where r2: "tuic_add (tuic_part aid pid peer n g i) budget r1 = Some (None, r2)"
      "assembling budget pid peer n g t0 base (insert i S) r2"
      by auto
    have "\<exists>r'. tuic_push_all (zip (map w js) ts') budget r2 =
        Some ([tuic_datagram peer (concat (map g [0..<n]))], r') \<and> map_of (tr_packets r') pid = None"
      by (rule Cons.IH [OF r2(2) False]) (use Cons.prems ts in auto)
    with push r2(1) ts assms(1) [OF i(1)] show ?thesis by auto
  qed
qed simp

lemma tuic_first_push:
  assumes "\<And>i. i < n \<Longrightarrow> tuic_decode (w i) = Inr (tuic_part aid pid peer n g i)"
    and "1 < n" "n \<le> 255" "length (concat (map g [0..<n])) \<le> budget"
    and "tr_bytes r + length (concat (map g [0..<n])) \<le> TUIC_PENDING_BYTES"
    and "reassembly_ok budget r" "map_of (tr_packets r) pid = None"
    and "length (tr_packets r) < TUIC_PENDING_PACKETS" "t0 + TUIC_FRAGMENT_TTL \<le> INSTANT_MAX"
    and "i < n"
  shows "\<exists>r'. tuic_push (tuic_part aid pid peer n g i) t0 budget r = Some (None, r') \<and>
    assembling budget pid peer n g t0 (tr_bytes r) {i} r'"
proof -
  let ?f = "tuic_part aid pid peer n g i"
  note f = tuic_part_fields [OF assms(10,3), of aid pid peer g]
  obtain r1 where r1: "tuic_expire t0 r = Some r1" "reassembly_ok budget r1"
    "tr_packets r1 = filter (\<lambda>e. t0 < tp_expires (snd e)) (tr_packets r)" "tr_bytes r1 \<le> tr_bytes r"
    using tuic_expire_ok [OF assms(6)] by blast
  have none: "map_of (tr_packets r1) pid = None"
    unfolding r1(3) by (rule map_of_filter_None [OF assms(7)])
  have room: "length (tr_packets r1) < TUIC_PENDING_PACKETS"
    unfolding r1(3) by (rule le_less_trans [OF length_filter_le assms(8)])
  have push: "tuic_push ?f t0 budget r = Option.bind (tuic_start ?f t0 r1) (tuic_add ?f budget)"
    using tuic_push_first [OF r1(1)] none room f length_part_le [OF assms(10), of g] assms(2-4)
    by (simp add: tuic_part_count)
  obtain r2 where r2: "tuic_start ?f t0 r1 = Some r2" "reassembly_ok budget r2"
    "tr_bytes r2 = tr_bytes r1" "map_of (tr_packets r2) pid =
      Some \<lparr>tp_peer = None, tp_pieces = replicate n None, tp_bytes = 0, tp_received = 0,
            tp_expires = t0 + TUIC_FRAGMENT_TTL\<rparr>"
    using tuic_start_ok [OF r1(2) _ room assms(9) f(7)] none f(1,2) by (auto simp: update_conv')
  then have "assembling budget pid peer n g t0 (tr_bytes r) {} r2"
    using r1(4) by (simp add: assembling_def tuic_pieces_def map_replicate_const)
  from assembling_add [OF this assms(10) _ assms(3-5), of aid]
  have "\<exists>r'. tuic_add ?f budget r2 = Some (None, r') \<and>
      assembling budget pid peer n g t0 (tr_bytes r) {i} r'"
    using assms(2) subsetD [of "{..<n}" "{i}" 0] subsetD [of "{..<n}" "{i}" 1]
    by (auto split: if_splits)
  with push r2(1) show ?thesis by simp
qed

lemma mset_map_indices:
  "mset xs = image_mset w (mset js) \<Longrightarrow> \<exists>ks. xs = map w ks \<and> mset ks = mset js"
proof (induction xs arbitrary: js)
  case (Cons x xs)
  then have "x \<in># image_mset w (mset js)"
    by (metis list.set_intros(1) set_mset_mset)
  then obtain j where j: "j \<in> set js" "x = w j" by auto
  then have "mset js = add_mset j (mset (remove1 j js))" by simp
  then have "mset xs = image_mset w (mset (remove1 j js))"
    using Cons.prems j(2) by (metis add_mset_add_mset_same_iff image_mset_add_mset mset.simps(2))
  from Cons.IH [OF this] j \<open>mset js = _\<close> show ?case
    by (metis list.simps(9) mset.simps(2))
qed simp

text \<open>The fragments of one call of \<^verbatim>\<open>packets\<close>.\<close>

lemma tuic_packets_parts:
  assumes "wire_destination peer" "tuic_packets aid pid peer payload limit = Inr ws"
  obtains n g w where "0 < n" "n \<le> 255" "ws = map w [0..<n]" "concat (map g [0..<n]) = payload"
    "\<And>i. i < n \<Longrightarrow> tuic_decode (w i) = Inr (tuic_part aid pid peer n g i)"
proof -
  obtain target space n where t: "tuic_address peer = Inr target" and n: "0 < n" "n \<le> 255"
    and fit: "length payload \<le> n * space" "length payload \<le> 65535"
    and ws: "ws = map (\<lambda>i. tuic_packet aid pid n i target (tuic_body payload space i)) [0..<n]"
    by (rule tuic_packets_Inr [OF assms(2)])
  define g where "g = tuic_body payload space"
  have payload: "concat (map g [0..<n]) = payload"
    using concat_bodies [OF fit(1)] by (simp add: g_def)
  have "tuic_decode (tuic_packet aid pid n i target (g i)) = Inr (tuic_part aid pid peer n g i)"
    if "i < n" for i
    using tuic_decode_packet [OF assms(1) t that n(2), of "g i"] length_part_le [OF that, of g]
      payload fit(2) by (simp add: tuic_part_def)
  then show thesis
    using ws by (intro that [OF n _ payload, of "\<lambda>i. tuic_packet aid pid n i target (g i)"])
      (simp_all add: g_def)
qed

lemma tuic_single_push:
  assumes "reassembly_ok budget r" "map_of (tr_packets r) pid = None" "length (g 0) \<le> budget"
  shows "\<exists>r'. tuic_push (tuic_part aid pid peer 1 g 0) t budget r =
    Some (Some (tuic_datagram peer (g 0)), r') \<and> map_of (tr_packets r') pid = None"
proof -
  obtain r1 where r1: "tuic_expire t r = Some r1"
    "tr_packets r1 = filter (\<lambda>e. t < tp_expires (snd e)) (tr_packets r)"
    using tuic_expire_ok [OF assms(1)] by blast
  then have "map_of (tr_packets r1) pid = None"
    using map_of_filter_None [OF assms(2)] by simp
  with r1(1) assms(3) show ?thesis
    by (simp add: tuic_push_def tuic_part_def tuic_remove_def)
qed

text \<open>An arrival order is a sequence of the indices.\<close>

lemma arrivals_indices:
  assumes "mset (map fst arrivals) = mset (map w [0..<n])" "0 < n"
  obtains k ks t0 ts where "arrivals = (w k, t0) # zip (map w ks) ts" "length ts = length ks"
    "distinct (k # ks)" "set (k # ks) = {..<n}" "set ts \<subseteq> set (map snd arrivals)"
proof -
  have "mset (map fst arrivals) = image_mset w (mset [0..<n])"
    using assms(1) by (simp only: mset_map)
  from mset_map_indices [OF this]
  obtain js where js: "map fst arrivals = map w js" "mset js = mset [0..<n]"
    by blast
  have perm: "distinct js"
    using mset_eq_imp_distinct_iff [OF js(2)] by simp
  have range: "set js = {..<n}"
    using mset_eq_setD [OF js(2)] by (simp add: atLeast0LessThan)
  from range assms(2) obtain k ks where kk: "js = k # ks"
    by (cases js) auto
  then obtain t0 rest where a: "arrivals = (w k, t0) # rest" "map fst rest = map w ks"
    using js(1) by (cases arrivals) auto
  show thesis
  proof (rule that)
    show "arrivals = (w k, t0) # zip (map w ks) (map snd rest)"
      using a(1) zip_map_fst_snd [of rest] unfolding a(2) by simp
    show "length (map snd rest) = length ks"
      using arg_cong [OF a(2), of length] by simp
  qed (use perm range kk a(1) in \<open>simp_all add: subset_insertI\<close>)
qed

section \<open>Properties\<close>

text \<open>
  Claim C7. A datagram survives the TUIC native mode: cut into packet commands by the sender
  and fed to the receiver of an association with room for it, in any order, within the
  fragment lifetime, exactly that datagram is delivered, once, and nothing of it stays behind.
\<close>

theorem tuic_datagram_reassembled:
  assumes "wire_destination peer" "tuic_packets aid pid peer payload limit = Inr ws"
    and "length payload \<le> budget" "reassembly_ok budget r" "map_of (tr_packets r) pid = None"
    and "length (tr_packets r) < TUIC_PENDING_PACKETS"
    and "tr_bytes r + length payload \<le> TUIC_PENDING_BYTES"
    and "mset (map fst arrivals) = mset ws"
    and "\<forall>t \<in> set (map snd arrivals). t < snd (hd arrivals) + TUIC_FRAGMENT_TTL"
    and "snd (hd arrivals) + TUIC_FRAGMENT_TTL \<le> INSTANT_MAX"
  shows "\<exists>r'. tuic_push_all arrivals budget r = Some ([tuic_datagram peer payload], r') \<and>
    map_of (tr_packets r') pid = None"
proof -
  obtain n g w where n: "0 < n" "n \<le> 255" and ws: "ws = map w [0..<n]"
    and payload: "concat (map g [0..<n]) = payload"
    and dec: "\<And>i. i < n \<Longrightarrow> tuic_decode (w i) = Inr (tuic_part aid pid peer n g i)"
    by (rule tuic_packets_parts [OF assms(1,2)]) blast
  obtain k ks t0 ts where a: "arrivals = (w k, t0) # zip (map w ks) ts" "length ts = length ks"
    and perm: "distinct (k # ks)" "set (k # ks) = {..<n}" and ts: "set ts \<subseteq> set (map snd arrivals)"
    by (rule arrivals_indices [OF assms(8) [unfolded ws] n(1)])
  have k: "k < n" using perm(2) by auto
  show ?thesis
  proof (cases "1 < n")
    case True
    have "\<exists>r1. tuic_push (tuic_part aid pid peer n g k) t0 budget r = Some (None, r1) \<and>
      assembling budget pid peer n g t0 (tr_bytes r) {k} r1"
      by (rule tuic_first_push [OF dec True n(2)]) (use assms(3-7,10) payload a(1) k in simp_all)
    then obtain r1 where r1: "tuic_push (tuic_part aid pid peer n g k) t0 budget r = Some (None, r1)"
      "assembling budget pid peer n g t0 (tr_bytes r) {k} r1"
      by blast
    have "\<exists>r'. tuic_push_all (zip (map w ks) ts) budget r1 =
        Some ([tuic_datagram peer (concat (map g [0..<n]))], r') \<and> map_of (tr_packets r') pid = None"
    proof (rule assembling_push_all [OF dec True n(2) _ _ r1(2)])
      show "ks \<noteq> []" using arg_cong [OF perm(2), of card] True by (cases ks) simp_all
      show "\<forall>t \<in> set ts. t < t0 + TUIC_FRAGMENT_TTL" using assms(9) ts a(1) by auto
    qed (use perm assms(3,7) payload a(2) in simp_all)
    with r1(1) dec [OF k] a(1) payload show ?thesis by auto
  next
    case False
    then have one: "n = 1" "k = 0" using n(1) k by simp_all
    have "ks = []" using distinct_card [OF perm(1)] perm(2) one(1) by simp
    have p: "g 0 = payload" using payload one(1) by simp
    obtain r' where "tuic_push (tuic_part aid pid peer 1 g 0) t0 budget r =
        Some (Some (tuic_datagram peer payload), r')" "map_of (tr_packets r') pid = None"
      using tuic_single_push [OF assms(4,5), of g aid peer t0] p assms(3) by auto
    then show ?thesis
      using a(1) \<open>ks = []\<close> one dec [of 0] by simp
  qed
qed

theorem tuic_datagram_reassembled_witness:
  "\<exists>a b r'. tuic_packets 1 9 (DestDomain (str ''x'') 80) [1, 2, 3] 17 = Inr [a, b] \<and>
     tuic_push_all [(b, 0), (a, 4)] 100 tuic_reassembly_default =
       Some ([tuic_datagram (DestDomain (str ''x'') 80) [1, 2, 3]], r')"
proof -
  let ?peer = "DestDomain (str ''x'') 80"
  have "tuic_address ?peer = Inr ([0, 1, 120] @ be16 80)"
    by (simp add: tuic_address_def str_def is_ascii_control_def)
  moreover have "div_ceil (Suc (Suc (Suc 0))) (Suc (Suc 0)) = Suc (Suc 0)"
    by code_simp
  ultimately have "\<exists>a b. tuic_packets 1 9 ?peer [1, 2, 3] 17 = Inr [a, b]"
    by (simp add: tuic_packets_def upt_conv_Cons)
  then obtain a b where ws: "tuic_packets 1 9 ?peer [1, 2, 3] 17 = Inr [a, b]"
    by blast
  have peer: "wire_destination ?peer"
    by (simp add: str_def is_ascii_control_def)
  have "\<exists>r'. tuic_push_all [(b, 0), (a, 4)] 100 tuic_reassembly_default =
      Some ([tuic_datagram ?peer [1, 2, 3]], r') \<and> map_of (tr_packets r') 9 = None"
    by (rule tuic_datagram_reassembled [OF peer ws])
      (simp_all add: tuic_reassembly_default_def reassembly_ok_def packets_ok_def packets_held_def
        TUIC_PENDING_PACKETS_def TUIC_PENDING_BYTES_def TUIC_FRAGMENT_TTL_def INSTANT_MAX_def)
  with ws show ?thesis by blast
qed

end
