(* ===== verification/Tuic_Association.thy ===== *)
theory Tuic_Association
  imports Tuic_Datagram Datagram_Transport
begin

text \<open>
  \<^verbatim>\<open>Registry\<close> and \<^verbatim>\<open>Transport\<close> of \<^verbatim>\<open>src/outbound/tuic/datagram.rs\<close>: the associations of a TUIC
  connection and the datagram transport of one of them. The channel between the two ends is the
  list of datagrams it holds, kept by identifier: it survives the registration that feeds it.
  Whether the cancellation token is set, the largest QUIC datagram and the results of the writes
  are arguments. Leases, observation guards and the QUIC connection are not part of the state.
\<close>

section \<open>The registry\<close>

definition TUIC_UDP_QUEUE :: nat where "TUIC_UDP_QUEUE = 32"

datatype tuic_udp_mode = Native | Quic

record tuic_registration =
  rg_budget :: u16
  rg_pending :: tuic_reassembly

record tuic_registry =
  st_mode :: tuic_udp_mode
  st_next :: u32
  st_closed :: bool
  st_entries :: "(u16 \<times> tuic_registration) list"
  st_queues :: "(u16 \<times> datagram list) list"

record tuic_transport =
  tt_id :: u16
  tt_packet :: u16
  tt_budget :: datagram_budget
  tt_sent :: bool
  tt_closed :: bool

definition tuic_registry_new :: "tuic_udp_mode \<Rightarrow> tuic_registry" where
  "tuic_registry_new mode =
     \<lparr>st_mode = mode, st_next = 0, st_closed = False, st_entries = [], st_queues = []\<rparr>"

text \<open>\<^verbatim>\<open>open\<close>: \<open>Inr None\<close> says the identifiers are used up.\<close>

definition tuic_open ::
  "bool \<Rightarrow> datagram_budget \<Rightarrow> tuic_registry \<Rightarrow> (dispatch_error + tuic_transport option) \<times> tuic_registry" where
  "tuic_open cancelled limits st =
     (if st_closed st \<or> cancelled then (Inl NotAllowed, st)
      else if 65535 < st_next st then (Inr None, st)
      else
        (let aid = ucast (st_next st) in
         (Inr (Some \<lparr>tt_id = aid, tt_packet = 0, tt_budget = limits, tt_sent = False, tt_closed = False\<rparr>),
          st\<lparr>st_next := st_next st + 1,
             st_entries := AList.update aid
               \<lparr>rg_budget = db_receive limits, rg_pending = tuic_reassembly_default\<rparr> (st_entries st),
             st_queues := AList.update aid [] (st_queues st)\<rparr>)))"

definition tuic_exhausted :: "tuic_registry \<Rightarrow> bool" where
  "tuic_exhausted st \<longleftrightarrow> 65535 < st_next st"

definition tuic_close :: "tuic_registry \<Rightarrow> tuic_registry" where
  "tuic_close st = st\<lparr>st_closed := True, st_entries := []\<rparr>"

definition tuic_budget :: "tuic_registry \<Rightarrow> u16 \<Rightarrow> u16 option" where
  "tuic_budget st aid = map_option rg_budget (map_of (st_entries st) aid)"

text \<open>\<^verbatim>\<open>try_send\<close> on the bounded channel; a datagram that finds it full is dropped.\<close>

definition tuic_try_send :: "u16 \<Rightarrow> datagram \<Rightarrow> (u16 \<times> datagram list) list \<Rightarrow> (u16 \<times> datagram list) list" where
  "tuic_try_send aid dg queues =
     (case map_of queues aid of
        None \<Rightarrow> queues
      | Some q \<Rightarrow> if length q < TUIC_UDP_QUEUE then AList.update aid (q @ [dg]) queues else queues)"

definition tuic_deliver ::
  "tuic_fragment \<Rightarrow> instant \<Rightarrow> tuic_registry \<Rightarrow> tuic_registry option" where
  "tuic_deliver f now st =
     (case map_of (st_entries st) (tf_association f) of
        None \<Rightarrow> Some st
      | Some entry \<Rightarrow>
          map_option (\<lambda>(found, pending).
            st\<lparr>st_entries := AList.update (tf_association f) (entry\<lparr>rg_pending := pending\<rparr>) (st_entries st),
               st_queues := (case found of
                               None \<Rightarrow> st_queues st
                             | Some dg \<Rightarrow> tuic_try_send (tf_association f) dg (st_queues st))\<rparr>)
            (tuic_push f now (unat (rg_budget entry)) (rg_pending entry)))"

fun tuic_expire_entries ::
  "instant \<Rightarrow> (u16 \<times> tuic_registration) list \<Rightarrow> (u16 \<times> tuic_registration) list option" where
  "tuic_expire_entries now [] = Some []"
| "tuic_expire_entries now ((aid, entry) # es) =
     Option.bind (tuic_expire now (rg_pending entry)) (\<lambda>pending.
     map_option (\<lambda>es'. (aid, entry\<lparr>rg_pending := pending\<rparr>) # es') (tuic_expire_entries now es))"

definition tuic_registry_expire :: "instant \<Rightarrow> tuic_registry \<Rightarrow> tuic_registry option" where
  "tuic_registry_expire now st =
     map_option (\<lambda>es. st\<lparr>st_entries := es\<rparr>) (tuic_expire_entries now (st_entries st))"

section \<open>The transport\<close>

definition tuic_message_limit :: "tuic_udp_mode \<Rightarrow> nat option \<Rightarrow> nat" where
  "tuic_message_limit mode max_datagram =
     (case mode of
        Native \<Rightarrow> (case max_datagram of None \<Rightarrow> 0 | Some n \<Rightarrow> n)
      | Quic \<Rightarrow> 65535 + 10 + 259)"

definition tuic_payload_budget :: "nat \<Rightarrow> tuic_transport \<Rightarrow> destination \<Rightarrow> datagram_budget" where
  "tuic_payload_budget limit t peer =
     (let space = (case tuic_address peer of Inr target \<Rightarrow> limit - (10 + length target) | Inl _ \<Rightarrow> 0) in
      budget_intersect (budget_new (of_nat (min (space * 255) 65535)) 65535) (tt_budget t))"

text \<open>
  The loop of \<^verbatim>\<open>send\<close> over its packets: the result of each write, and the packets written. A write
  that is dropped drops the whole call.
\<close>

fun tuic_write_all :: "(nat \<Rightarrow> (dispatch_error + unit) poll) \<Rightarrow> nat \<Rightarrow> bytes list \<Rightarrow>
   (dispatch_error + unit) poll \<times> bytes list" where
  "tuic_write_all w i [] = (Ready (Inr ()), [])"
| "tuic_write_all w i (p # ps) =
     (case w i of
        Ready (Inr _) \<Rightarrow> (let (r, out) = tuic_write_all w (i + 1) ps in (r, p # out))
      | r \<Rightarrow> (r, []))"

definition tuic_send ::
  "bool \<Rightarrow> nat \<Rightarrow> (nat \<Rightarrow> (dispatch_error + unit) poll) \<Rightarrow> datagram \<Rightarrow> tuic_transport \<Rightarrow>
   (dispatch_error + unit) poll \<times> bytes list \<times> tuic_transport" where
  "tuic_send cancelled limit w dg t =
     (if tt_closed t \<or> cancelled then (Ready (Inl NotAllowed), [], t)
      else if unat (db_transmit (tuic_payload_budget limit t (dg_remote dg))) < length (dg_payload dg)
      then (Ready (Inl (dispatch_from_io InvalidInput)), [], t)
      else
        (case tuic_packets (tt_id t) (tt_packet t) (dg_remote dg) (dg_payload dg) limit of
           Inl e \<Rightarrow> (Ready (Inl (dispatch_from_io e)), [], t)
         | Inr packets \<Rightarrow>
             (let (r, out) = tuic_write_all w 0 packets in
              (r, out, t\<lparr>tt_packet := tt_packet t + 1, tt_sent := True\<rparr>))))"

text \<open>\<^verbatim>\<open>receive\<close>: an empty channel whose sender is gone is refused, otherwise the call waits.\<close>

definition tuic_receive ::
  "bool \<Rightarrow> tuic_transport \<Rightarrow> tuic_registry \<Rightarrow> (dispatch_error + datagram) poll \<times> tuic_registry" where
  "tuic_receive cancelled t st =
     (if tt_closed t \<or> cancelled then (Ready (Inl NotAllowed), st)
      else
        (case map_of (st_queues st) (tt_id t) of
           Some (dg # rest) \<Rightarrow>
             (Ready (Inr dg), st\<lparr>st_queues := AList.update (tt_id t) rest (st_queues st)\<rparr>)
         | _ \<Rightarrow>
             (if map_of (st_entries st) (tt_id t) = None then Ready (Inl DispatchRefused) else Pending, st)))"

text \<open>\<^verbatim>\<open>close_local\<close>, with the dissociation command it has a task send, if any.\<close>

definition tuic_close_local ::
  "bool \<Rightarrow> tuic_transport \<Rightarrow> tuic_registry \<Rightarrow> bytes option \<times> tuic_transport \<times> tuic_registry" where
  "tuic_close_local cancelled t st =
     (if tt_closed t then (None, t, st)
      else
        (let present = map_of (st_entries st) (tt_id t) \<noteq> None in
         (if present \<and> tt_sent t \<and> \<not> cancelled then Some ([5, 3] @ be16 (tt_id t)) else None,
          t\<lparr>tt_closed := True\<rparr>,
          st\<lparr>st_entries := AList.delete (tt_id t) (st_entries st),
             st_queues := AList.delete (tt_id t) (st_queues st)\<rparr>)))"

section \<open>The invariant of the registry\<close>

definition registration_ok :: "tuic_registration \<Rightarrow> bool" where
  "registration_ok e \<longleftrightarrow> reassembly_ok (unat (rg_budget e)) (rg_pending e)"

definition within_all :: "u16 \<Rightarrow> datagram list \<Rightarrow> bool" where
  "within_all limit q \<longleftrightarrow> (\<forall>dg \<in> set q. length (dg_payload dg) \<le> unat limit)"

definition registry_ok :: "tuic_registry \<Rightarrow> bool" where
  "registry_ok st \<longleftrightarrow>
     distinct (map fst (st_entries st)) \<and> unat (st_next st) \<le> 65536 \<and>
     (\<forall>aid e. map_of (st_entries st) aid = Some e \<longrightarrow>
        unat aid < unat (st_next st) \<and> registration_ok e \<and>
        (\<exists>q. map_of (st_queues st) aid = Some q \<and> within_all (rg_budget e) q)) \<and>
     (\<forall>aid q. map_of (st_queues st) aid = Some q \<longrightarrow>
        unat aid < unat (st_next st) \<and> length q \<le> TUIC_UDP_QUEUE)"

lemma registry_entry_ok:
  assumes "registry_ok st" "map_of (st_entries st) aid = Some e"
  obtains q where "unat aid < unat (st_next st)" "registration_ok e"
    "map_of (st_queues st) aid = Some q" "within_all (rg_budget e) q" "length q \<le> TUIC_UDP_QUEUE"
  using assms unfolding registry_ok_def by blast

lemma default_ok: "reassembly_ok budget tuic_reassembly_default"
  by (simp add: tuic_reassembly_default_def reassembly_ok_def packets_ok_def packets_held_def)

lemma registry_ok_fresh:
  assumes "registry_ok st" "unat aid = unat (st_next st)"
  shows "map_of (st_entries st) aid = None" "map_of (st_queues st) aid = None"
  using assms unfolding registry_ok_def by (metis less_irrefl not_Some_eq)+

lemma tuic_open_ok:
  assumes "registry_ok st" "tuic_open cancelled limits st = (res, st')"
  shows "registry_ok st' \<and>
    (\<forall>t. res = Inr (Some t) \<longrightarrow>
       unat (tt_id t) = unat (st_next st) \<and> unat (st_next st') = unat (st_next st) + 1 \<and>
       map_of (st_entries st) (tt_id t) = None \<and> map_of (st_queues st) (tt_id t) = None)"
proof (cases "st_closed st \<or> cancelled \<or> 65535 < st_next st")
  case True
  then show ?thesis
    using assms by (auto simp: tuic_open_def split: if_splits)
next
  case False
  let ?aid = "ucast (st_next st) :: u16"
  have small: "unat (st_next st) \<le> 65535"
    using False by (simp add: word_less_nat_alt)
  then have aid: "unat ?aid = unat (st_next st)" and inc: "unat (st_next st + 1) = unat (st_next st) + 1"
    by (simp_all add: unsigned_ucast_eq take_bit_nat_eq_self unat_word_ariths)
  note fresh = registry_ok_fresh [OF assms(1) aid]
  have "registry_ok st'"
    using assms False small fresh
    by (auto simp: tuic_open_def Let_def registry_ok_def inc aid distinct_update update_conv' default_ok
        registration_ok_def within_all_def less_Suc_eq split: if_splits)
  then show ?thesis
    using assms(2) False aid inc fresh by (auto simp: tuic_open_def Let_def)
qed

lemma try_send_ok:
  assumes "map_of queues aid = Some q" "length q \<le> TUIC_UDP_QUEUE" "within_all limit q"
    and "length (dg_payload dg) \<le> unat limit"
  obtains q' where "map_of (tuic_try_send aid dg queues) = (map_of queues)(aid \<mapsto> q')"
    "length q' \<le> TUIC_UDP_QUEUE" "within_all limit q'"
proof (cases "length q < TUIC_UDP_QUEUE")
  case True
  then show thesis
    using assms by (intro that [of "q @ [dg]"]) (auto simp: tuic_try_send_def update_conv' within_all_def)
next
  case False
  then show thesis
    using assms by (intro that [of q]) (auto simp: tuic_try_send_def map_upd_triv)
qed

lemma tuic_deliver_ok:
  assumes "registry_ok st" "fragment_ok f" "now + TUIC_FRAGMENT_TTL \<le> INSTANT_MAX"
  shows "\<exists>st'. tuic_deliver f now st = Some st' \<and> registry_ok st'"
proof (cases "map_of (st_entries st) (tf_association f)")
  case None
  then show ?thesis using assms(1) by (simp add: tuic_deliver_def)
next
  case (Some e)
  let ?aid = "tf_association f"
  obtain q where e: "unat ?aid < unat (st_next st)" "registration_ok e"
    "map_of (st_queues st) ?aid = Some q" "within_all (rg_budget e) q" "length q \<le> TUIC_UDP_QUEUE"
    using assms(1) Some by (rule registry_entry_ok)
  obtain found pending where p: "tuic_push f now (unat (rg_budget e)) (rg_pending e) =
      Some (found, pending)" "reassembly_ok (unat (rg_budget e)) pending"
    "within_budget (unat (rg_budget e)) found"
    using tuic_push_ok [OF _ assms(2,3)] e(2) unfolding registration_ok_def by blast
  let ?queues = "case found of None \<Rightarrow> st_queues st | Some dg \<Rightarrow> tuic_try_send ?aid dg (st_queues st)"
  obtain q' where q': "map_of ?queues = (map_of (st_queues st))(?aid \<mapsto> q')"
    "length q' \<le> TUIC_UDP_QUEUE" "within_all (rg_budget e) q'"
  proof (cases found)
    case None
    then show thesis using that [of q] e by (simp add: map_upd_triv)
  next
    case (Some dg)
    then have "length (dg_payload dg) \<le> unat (rg_budget e)"
      using p(3) by (simp add: within_budget_def)
    from try_send_ok [OF e(3,5,4) this] show thesis using that Some by auto
  qed
  have "registry_ok (st\<lparr>st_entries := AList.update ?aid (e\<lparr>rg_pending := pending\<rparr>) (st_entries st),
      st_queues := ?queues\<rparr>)"
    using assms(1) e(1) p(2) q'
    by (auto simp: registry_ok_def update_conv' distinct_update registration_ok_def)
  with p(1) Some show ?thesis
    by (simp add: tuic_deliver_def)
qed

lemma tuic_expire_entries_ok:
  "\<forall>(aid, e) \<in> set es. registration_ok e \<Longrightarrow>
   \<exists>es'. tuic_expire_entries now es = Some es' \<and> map fst es' = map fst es \<and>
     (\<forall>aid e'. map_of es' aid = Some e' \<longrightarrow>
        registration_ok e' \<and> (\<exists>e. map_of es aid = Some e \<and> rg_budget e' = rg_budget e))"
proof (induction es)
  case (Cons x es)
  obtain aid e where x: "x = (aid, e)" by (cases x)
  then have "registration_ok e" using Cons.prems by auto
  then obtain pending where "tuic_expire now (rg_pending e) = Some pending"
    "reassembly_ok (unat (rg_budget e)) pending"
    using tuic_expire_ok unfolding registration_ok_def by blast
  with Cons x show ?case
    by (auto simp: registration_ok_def)
qed simp

lemma tuic_registry_expire_ok:
  assumes "registry_ok st"
  shows "\<exists>st'. tuic_registry_expire now st = Some st' \<and> registry_ok st'"
proof -
  have "\<forall>(aid, e) \<in> set (st_entries st). registration_ok e"
    using assms by (auto simp: registry_ok_def)
  then obtain es where es: "tuic_expire_entries now (st_entries st) = Some es"
    "map fst es = map fst (st_entries st)"
    "\<And>aid e'. map_of es aid = Some e' \<Longrightarrow> registration_ok e' \<and>
       (\<exists>e. map_of (st_entries st) aid = Some e \<and> rg_budget e' = rg_budget e)"
    using tuic_expire_entries_ok by blast
  have "unat aid < unat (st_next st) \<and> registration_ok e' \<and>
      (\<exists>q. map_of (st_queues st) aid = Some q \<and> within_all (rg_budget e') q)"
    if "map_of es aid = Some e'" for aid e'
    using es(3) [OF that] registry_entry_ok [OF assms] by metis
  then have "registry_ok (st\<lparr>st_entries := es\<rparr>)"
    using assms es(2) by (simp add: registry_ok_def del: map_of_eq_Some_iff)
  with es(1) show ?thesis by (simp add: tuic_registry_expire_def)
qed

lemma registry_ok_pop:
  assumes "registry_ok st" "map_of (st_queues st) aid = Some (dg # rest)"
  shows "registry_ok (st\<lparr>st_queues := AList.update aid rest (st_queues st)\<rparr>)"
proof -
  have "\<exists>q. ((map_of (st_queues st))(aid \<mapsto> rest)) a = Some q \<and> within_all (rg_budget e) q"
    if e: "map_of (st_entries st) a = Some e" for a e
  proof -
    obtain q where "map_of (st_queues st) a = Some q" "within_all (rg_budget e) q"
      using assms(1) e by (rule registry_entry_ok)
    then show ?thesis using assms(2) by (cases "a = aid") (auto simp: within_all_def)
  qed
  moreover have "length (dg # rest) \<le> TUIC_UDP_QUEUE"
    using assms unfolding registry_ok_def by blast
  ultimately show ?thesis
    using assms by (auto simp: registry_ok_def update_conv' simp del: map_of_eq_Some_iff)
qed

lemma tuic_receive_ok:
  "registry_ok st \<Longrightarrow> tuic_receive cancelled t st = (r, st') \<Longrightarrow> registry_ok st'"
  using registry_ok_pop
  by (auto simp: tuic_receive_def split: if_splits option.splits list.splits)

lemma tuic_close_local_ok:
  "registry_ok st \<Longrightarrow> tuic_close_local cancelled t st = (cmd, t', st') \<Longrightarrow> registry_ok st'"
  by (auto simp: tuic_close_local_def Let_def registry_ok_def delete_conv' distinct_delete split: if_splits)

text \<open>
  The life of a connection: associations are opened and closed, decoded fragments arrive, the
  timer expires fragments, transports take datagrams from their channels, the connection ends.
\<close>

inductive tuic_reachable :: "tuic_registry \<Rightarrow> bool" where
  start: "tuic_reachable (tuic_registry_new mode)"
| opened: "tuic_reachable st \<Longrightarrow> tuic_open cancelled limits st = (res, st') \<Longrightarrow> tuic_reachable st'"
| delivered: "tuic_reachable st \<Longrightarrow> tuic_decode raw = Inr f \<Longrightarrow>
    now + TUIC_FRAGMENT_TTL \<le> INSTANT_MAX \<Longrightarrow> tuic_deliver f now st = Some st' \<Longrightarrow>
    tuic_reachable st'"
| expired: "tuic_reachable st \<Longrightarrow> tuic_registry_expire now st = Some st' \<Longrightarrow> tuic_reachable st'"
| taken: "tuic_reachable st \<Longrightarrow> tuic_receive cancelled t st = (r, st') \<Longrightarrow> tuic_reachable st'"
| left: "tuic_reachable st \<Longrightarrow> tuic_close_local cancelled t st = (cmd, t', st') \<Longrightarrow> tuic_reachable st'"
| ended: "tuic_reachable st \<Longrightarrow> tuic_reachable (tuic_close st)"

lemma tuic_reachable_ok: "tuic_reachable st \<Longrightarrow> registry_ok st"
proof (induction rule: tuic_reachable.induct)
  case (start mode)
  show ?case by (simp add: registry_ok_def tuic_registry_new_def)
next
  case (opened st cancelled limits res st')
  then show ?case using tuic_open_ok by blast
next
  case (delivered st raw f now st')
  then show ?case
    using tuic_deliver_ok [of st f now] tuic_decode_fragment_ok by fastforce
next
  case (expired st now st')
  then show ?case using tuic_registry_expire_ok [of st now] by auto
next
  case (taken st cancelled t r st')
  then show ?case using tuic_receive_ok by blast
next
  case (left st cancelled t cmd t' st')
  then show ?case using tuic_close_local_ok by blast
next
  case (ended st)
  then show ?case by (simp add: registry_ok_def tuic_close_def)
qed



section \<open>The transport keeps the contract\<close>

text \<open>One association as the dispatcher sees it, with the packets it has handed to the connection.\<close>

record tuic_assoc =
  as_transport :: tuic_transport
  as_registry :: tuic_registry
  as_limit :: nat
  as_cancelled :: bool
  as_sent :: "bytes list"

definition assoc_budget :: "tuic_assoc \<Rightarrow> destination \<Rightarrow> datagram_budget" where
  "assoc_budget s = tuic_payload_budget (as_limit s) (as_transport s)"

definition assoc_send :: "(nat \<Rightarrow> (dispatch_error + unit) poll, tuic_assoc) sender" where
  "assoc_send w dg s =
     (let (r, out, t) = tuic_send (as_cancelled s) (as_limit s) w dg (as_transport s) in
      Some (r, s\<lparr>as_transport := t, as_sent := as_sent s @ out\<rparr>))"

definition assoc_receive :: "tuic_assoc receiver" where
  "assoc_receive s =
     (let (r, st) = tuic_receive (as_cancelled s) (as_transport s) (as_registry s) in
      Some (r, s\<lparr>as_registry := st\<rparr>))"

text \<open>A datagram of the connection arrives, at an instant the clock can still extend.\<close>

definition assoc_arrive :: "bytes \<times> instant \<Rightarrow> tuic_assoc \<Rightarrow> tuic_assoc" where
  "assoc_arrive e s =
     (case tuic_decode (fst e) of
        Inl _ \<Rightarrow> s
      | Inr f \<Rightarrow>
          (case tuic_deliver f (snd e) (as_registry s) of
             Some st \<Rightarrow> if snd e + TUIC_FRAGMENT_TTL \<le> INSTANT_MAX then s\<lparr>as_registry := st\<rparr> else s
           | None \<Rightarrow> s))"

definition assoc_queue :: "tuic_assoc \<Rightarrow> datagram list" where
  "assoc_queue s =
     (case map_of (st_queues (as_registry s)) (tt_id (as_transport s)) of None \<Rightarrow> [] | Some q \<Rightarrow> q)"

definition assoc_good :: "tuic_assoc \<Rightarrow> bool" where
  "assoc_good s \<longleftrightarrow> registry_ok (as_registry s) \<and>
     within_all (db_receive (tt_budget (as_transport s))) (assoc_queue s) \<and>
     (\<forall>e. map_of (st_entries (as_registry s)) (tt_id (as_transport s)) = Some e \<longrightarrow>
        rg_budget e = db_receive (tt_budget (as_transport s)))"

lemma receive_budget: "db_receive (tuic_payload_budget limit t peer) = db_receive (tt_budget t)"
proof -
  have "w \<le> 65535" for w :: u16
    by (simp add: word_le_nat_alt)
  then have "min 65535 w = w" for w :: u16
    by (rule min_absorb2)
  then show ?thesis by (simp add: tuic_payload_budget_def Let_def budget_intersect_def)
qed

lemma try_send_other: "a \<noteq> aid \<Longrightarrow> map_of (tuic_try_send aid dg queues) a = map_of queues a"
  by (simp add: tuic_try_send_def update_conv' split: option.splits)

lemma deliver_cases:
  assumes "tuic_deliver f now st = Some st'"
  obtains (unknown) "map_of (st_entries st) (tf_association f) = None" "st' = st"
  | (known) entry found pending where "map_of (st_entries st) (tf_association f) = Some entry"
      "st_entries st' = AList.update (tf_association f) (entry\<lparr>rg_pending := pending\<rparr>) (st_entries st)"
      "st_queues st' = (case found of None \<Rightarrow> st_queues st
        | Some dg \<Rightarrow> tuic_try_send (tf_association f) dg (st_queues st))"
  using assms by (cases "map_of (st_entries st) (tf_association f)") (auto simp: tuic_deliver_def)

lemma deliver_frame:
  assumes "tuic_deliver f now st = Some st'"
  shows "map_of (st_entries st') aid = Some e' \<Longrightarrow>
      \<exists>e. map_of (st_entries st) aid = Some e \<and> rg_budget e' = rg_budget e"
    and "map_of (st_entries st) aid = None \<Longrightarrow> map_of (st_queues st') aid = map_of (st_queues st) aid"
    and "map_of (st_entries st) aid \<noteq> None \<Longrightarrow> map_of (st_entries st') aid \<noteq> None"
  using assms
proof (atomize (full), cases rule: deliver_cases)
  case (known entry found pending)
  have "map_of (st_entries st') = (map_of (st_entries st))(tf_association f \<mapsto> entry\<lparr>rg_pending := pending\<rparr>)"
    unfolding known(2) by (rule update_conv')
  moreover have "map_of (st_queues st') aid = map_of (st_queues st) aid" if "aid \<noteq> tf_association f"
    using that known(3) by (cases found) (simp_all add: try_send_other)
  ultimately show "(map_of (st_entries st') aid = Some e' \<longrightarrow>
        (\<exists>e. map_of (st_entries st) aid = Some e \<and> rg_budget e' = rg_budget e)) \<and>
      (map_of (st_entries st) aid = None \<longrightarrow> map_of (st_queues st') aid = map_of (st_queues st) aid) \<and>
      (map_of (st_entries st) aid \<noteq> None \<longrightarrow> map_of (st_entries st') aid \<noteq> None)"
    using known(1) by (cases "aid = tf_association f") auto
qed auto

lemma assoc_good_arrive:
  assumes "assoc_good s"
  shows "assoc_good (assoc_arrive e s)"
proof -
  let ?st = "as_registry s" and ?id = "tt_id (as_transport s)" and ?b = "db_receive (tt_budget (as_transport s))"
  consider "assoc_arrive e s = s" | f st' where "tuic_decode (fst e) = Inr f"
      "tuic_deliver f (snd e) ?st = Some st'" "snd e + TUIC_FRAGMENT_TTL \<le> INSTANT_MAX"
      "assoc_arrive e s = s\<lparr>as_registry := st'\<rparr>"
    by (cases "tuic_decode (fst e)"; cases "tuic_deliver (projr (tuic_decode (fst e))) (snd e) ?st";
        cases "snd e + TUIC_FRAGMENT_TTL \<le> INSTANT_MAX") (auto simp: assoc_arrive_def)
  then show ?thesis
  proof cases
    case 2
    have ok: "registry_ok st'"
      using tuic_deliver_ok [of ?st f "snd e"] tuic_decode_fragment_ok [OF 2(1)] 2(2,3) assms
      by (auto simp: assoc_good_def)
    have budget: "rg_budget e' = ?b" if "map_of (st_entries st') ?id = Some e'" for e'
      using deliver_frame(1) [OF 2(2) that] assms by (auto simp: assoc_good_def)
    have "within_all ?b (assoc_queue (s\<lparr>as_registry := st'\<rparr>))"
    proof (cases "map_of (st_entries st') ?id")
      case None
      then have "map_of (st_queues st') ?id = map_of (st_queues ?st) ?id"
        using deliver_frame(2,3) [OF 2(2)] by blast
      then show ?thesis using assms by (simp add: assoc_good_def assoc_queue_def)
    next
      case (Some e')
      obtain q where "map_of (st_queues st') ?id = Some q" "within_all (rg_budget e') q"
        using ok Some by (rule registry_entry_ok)
      then show ?thesis using budget [OF Some] by (simp add: assoc_queue_def)
    qed
    then show ?thesis
      using 2(4) ok budget by (simp add: assoc_good_def)
  qed (use assms in simp)
qed

lemma tuic_send_transport:
  "tuic_send cancelled limit w dg t = (r, out, t') \<Longrightarrow> tt_id t' = tt_id t \<and> tt_budget t' = tt_budget t"
  by (auto simp: tuic_send_def split: if_splits sum.splits prod.splits)

lemma assoc_receive_cases:
  assumes "assoc_receive s = Some (p, s')"
  obtains (taken) dg rest where "p = Ready (Inr dg)"
      "map_of (st_queues (as_registry s)) (tt_id (as_transport s)) = Some (dg # rest)"
      "s' = s\<lparr>as_registry := (as_registry s)\<lparr>st_queues :=
         AList.update (tt_id (as_transport s)) rest (st_queues (as_registry s))\<rparr>\<rparr>"
  | (nothing) "\<nexists>dg. p = Ready (Inr dg)" "s' = s"
proof (cases "tt_closed (as_transport s) \<or> as_cancelled s")
  case True
  then show thesis using assms by (intro that(2)) (auto simp: assoc_receive_def tuic_receive_def)
next
  case False
  show thesis
  proof (cases "assoc_queue s")
    case Nil
    then show thesis
      using assms False
      by (intro that(2)) (auto simp: assoc_receive_def tuic_receive_def assoc_queue_def split: option.splits if_splits)
  next
    case (Cons dg rest)
    then show thesis
      using assms False
      by (intro that(1)) (auto simp: assoc_receive_def tuic_receive_def assoc_queue_def split: option.splits)
  qed
qed

lemma assoc_good_receive:
  assumes "assoc_good s" "assoc_receive s = Some (p, s')"
  shows "assoc_good s'"
  using assms(2)
proof (cases rule: assoc_receive_cases)
  case (taken dg rest)
  then have "assoc_queue s = dg # rest" "assoc_queue s' = rest"
    by (simp_all add: assoc_queue_def update_conv')
  then show ?thesis
    using assms(1) registry_ok_pop taken by (auto simp: assoc_good_def within_all_def)
qed (use assms(1) in simp)

lemma assoc_good_send:
  assumes "assoc_good s" "assoc_send w dg s = Some (r, s')"
  shows "assoc_good s'"
proof -
  obtain out t where send: "tuic_send (as_cancelled s) (as_limit s) w dg (as_transport s) = (r, out, t)"
    and s': "s' = s\<lparr>as_transport := t, as_sent := as_sent s @ out\<rparr>"
    using assms(2) by (auto simp: assoc_send_def split: prod.splits)
  show ?thesis
    using assms(1) tuic_send_transport [OF send] by (simp add: s' assoc_good_def assoc_queue_def)
qed

interpretation tuic: datagram_transport assoc_budget assoc_send assoc_receive assoc_arrive assoc_good
  "\<lambda>s. length (assoc_queue s)"
proof
  fix s and dg :: datagram and w :: "nat \<Rightarrow> (dispatch_error + unit) poll"
  assume "unat (db_transmit (assoc_budget s (dg_remote dg))) < length (dg_payload dg)"
  then have "\<exists>e. tuic_send (as_cancelled s) (as_limit s) w dg (as_transport s) = (Ready (Inl e), [], as_transport s)"
    by (simp add: tuic_send_def assoc_budget_def)
  then show "\<exists>e. assoc_send w dg s = Some (Ready (Inl e), s)"
    by (auto simp: assoc_send_def)
next
  fix s s' and dg :: datagram
  assume good: "assoc_good s" and "assoc_receive s = Some (Ready (Inr dg), s')"
  from this(2) show "length (dg_payload dg) \<le> unat (db_receive (assoc_budget s' (dg_remote dg)))"
    "length (assoc_queue s') < length (assoc_queue s)"
    by (cases rule: assoc_receive_cases, use good in
        \<open>auto simp: assoc_good_def assoc_budget_def receive_budget assoc_queue_def within_all_def update_conv'\<close>)+
next
  fix s and dg :: datagram and w :: "nat \<Rightarrow> (dispatch_error + unit) poll"
  show "assoc_send w dg s \<noteq> None" "assoc_receive s \<noteq> None"
    by (simp_all add: assoc_send_def assoc_receive_def split: prod.split)
qed (rule assoc_good_send assoc_good_receive assoc_good_arrive; assumption)+

section \<open>What the budget promises\<close>

lemma tuic_address_length: "tuic_address peer = Inr target \<Longrightarrow> 0 < length target"
  by (cases peer) (auto simp: tuic_address_def split: if_splits ip_addr.splits)

lemma div_ceil_le:
  assumes "0 < b" "a \<le> n * b"
  shows "div_ceil a b \<le> n"
proof (cases "a = 0")
  case False
  then have "(div_ceil a b - 1) * b < n * b"
    using div_ceil_bounds(3) [OF assms(1)] assms(2) by (metis gr0I order_less_le_trans)
  then show ?thesis by auto
qed (simp add: div_ceil_def)

text \<open>A payload within the budget of the transport is cut into packets, each within the limit.\<close>

lemma budget_packets:
  assumes "dg_payload dg \<noteq> []"
    and "length (dg_payload dg) \<le> unat (db_transmit (tuic_payload_budget limit t (dg_remote dg)))"
  obtains ws where "tuic_packets aid pid (dg_remote dg) (dg_payload dg) limit = Inr ws"
proof -
  let ?n = "length (dg_payload dg)"
  have n: "0 < ?n" using assms(1) by simp
  obtain target where target: "tuic_address (dg_remote dg) = Inr target"
    using assms(2) n by (cases "tuic_address (dg_remote dg)") (auto simp: tuic_payload_budget_def)
  define space where "space = limit - (10 + length target)"
  have "unat (of_nat (min (space * 255) 65535) :: u16) = min (space * 255) 65535"
    by (simp add: unat_of_nat)
  then have le: "?n \<le> space * 255" "?n \<le> 65535"
    using assms(2) target by (simp_all add: tuic_payload_budget_def space_def)
  then have space: "0 < space" using n by (cases space) auto
  then have "div_ceil ?n space \<le> 255" by (intro div_ceil_le) (use le(1) in \<open>simp_all add: mult.commute\<close>)
  moreover have "max ?n 1 = ?n" "max space 1 = space" "\<not> limit < 10 + length target"
    using n space unfolding space_def by linarith+
  ultimately have "tuic_packets aid pid (dg_remote dg) (dg_payload dg) limit =
      Inr (map (\<lambda>i. tuic_packet aid pid (div_ceil ?n space) i target (tuic_body (dg_payload dg) space i))
        [0..<div_ceil ?n space])"
    using target le(2) space by (simp add: tuic_packets_def space_def [symmetric] Let_def)
  then show thesis by (rule that)
qed

lemma packets_within:
  assumes "tuic_packets aid pid peer payload limit = Inr ws" "p \<in> set ws"
  shows "length p \<le> limit"
proof -
  obtain target space count where "tuic_address peer = Inr target" "space + 10 + length target = limit"
    "ws = map (\<lambda>i. tuic_packet aid pid count i target (tuic_body payload space i)) [0..<count]"
    using assms(1) by (rule tuic_packets_Inr)
  then obtain i where "p = tuic_packet aid pid count i target (tuic_body payload space i)"
    using assms(2) by auto
  then show ?thesis
    using \<open>space + 10 + length target = limit\<close> length_tuic_body [of payload space i]
      tuic_address_length [OF \<open>tuic_address peer = Inr target\<close>]
    by (cases "i = 0") (simp_all add: tuic_packet_def Suc_le_eq flip: length_greater_0_conv)
qed

lemma write_all_ok: "(\<And>i. w i = Ready (Inr ())) \<Longrightarrow> tuic_write_all w i ps = (Ready (Inr ()), ps)"
  by (induction ps arbitrary: i) auto

lemma write_all_prefix: "\<exists>n. snd (tuic_write_all w i ps) = take n ps"
proof (induction ps arbitrary: i)
  case (Cons p ps)
  obtain n where n: "snd (tuic_write_all w (i + 1) ps) = take n ps" using Cons.IH by blast
  show ?case
  proof (cases "\<exists>u. w i = Ready (Inr u)")
    case True
    then show ?thesis using n by (intro exI [of _ "Suc n"]) (auto split: prod.split)
  next
    case False
    then show ?thesis by (intro exI [of _ 0]) (auto split: poll.splits sum.splits)
  qed
qed simp

text \<open>
  Claim C38. On an open TUIC association every nonempty payload within the advertised budget is
  sent: it is cut into at most 255 packets, none longer than the message limit, and the call uses up
  one packet identifier before it writes anything. If a write fails or the call is dropped, only a
  prefix of the packets has been written and the identifier is not used again by the next call.
\<close>

theorem tuic_send_fits:
  assumes "\<not> tt_closed t" "dg_payload dg \<noteq> []"
    and "length (dg_payload dg) \<le> unat (db_transmit (tuic_payload_budget limit t (dg_remote dg)))"
  shows "\<exists>packets. tuic_packets (tt_id t) (tt_packet t) (dg_remote dg) (dg_payload dg) limit = Inr packets \<and>
    length packets \<le> 255 \<and> (\<forall>p \<in> set packets. length p \<le> limit) \<and>
    (\<exists>r n. tuic_send False limit w dg t =
       (r, take n packets, t\<lparr>tt_packet := tt_packet t + 1, tt_sent := True\<rparr>)) \<and>
    ((\<forall>i. w i = Ready (Inr ())) \<longrightarrow> tuic_send False limit w dg t =
       (Ready (Inr ()), packets, t\<lparr>tt_packet := tt_packet t + 1, tt_sent := True\<rparr>))"
proof -
  obtain ws where ws: "tuic_packets (tt_id t) (tt_packet t) (dg_remote dg) (dg_payload dg) limit = Inr ws"
    using assms(2,3) by (rule budget_packets)
  have "length ws \<le> 255" using ws by (rule tuic_packets_Inr) simp
  obtain r out where out: "tuic_write_all w 0 ws = (r, out)" by (cases "tuic_write_all w 0 ws")
  have send: "tuic_send False limit w dg t = (r, out, t\<lparr>tt_packet := tt_packet t + 1, tt_sent := True\<rparr>)"
    using assms(1,3) ws out by (simp add: tuic_send_def)
  obtain n where "out = take n ws" using write_all_prefix [of w 0 ws] out by auto
  then show ?thesis
    using ws \<open>length ws \<le> 255\<close> packets_within [OF ws] send out write_all_ok [of w 0 ws] by auto
qed

theorem tuic_send_fits_witness:
  "\<exists>packets. length packets \<le> 255 \<and> (\<forall>p \<in> set packets. length p \<le> 20) \<and>
     tuic_send False 20 (\<lambda>_. Ready (Inr ()))
       \<lparr>dg_remote = DestIp (SocketV4 1 53), dg_payload = [1, 2, 3, 4], dg_sniffed_domain = None\<rparr>
       \<lparr>tt_id = 7, tt_packet = 65535, tt_budget = budget_new 1200 1200, tt_sent = False, tt_closed = False\<rparr> =
     (Ready (Inr ()), packets,
      \<lparr>tt_id = 7, tt_packet = 0, tt_budget = budget_new 1200 1200, tt_sent = True, tt_closed = False\<rparr>)"
proof -
  let ?t = "\<lparr>tt_id = 7, tt_packet = 65535, tt_budget = budget_new 1200 1200, tt_sent = False, tt_closed = False\<rparr>"
  let ?dg = "\<lparr>dg_remote = DestIp (SocketV4 1 53), dg_payload = [1, 2, 3, 4], dg_sniffed_domain = None\<rparr>"
  have "length (dg_payload ?dg) \<le> unat (db_transmit (tuic_payload_budget 20 ?t (dg_remote ?dg)))"
    by (simp add: tuic_payload_budget_def tuic_address_def)
  from tuic_send_fits [of ?t ?dg 20 "\<lambda>_. Ready (Inr ())", OF _ _ this] show ?thesis
    by auto
qed

end
