(* ===== verification/Byte_Stream.thy ===== *)
theory Byte_Stream
  imports Rust_Str
begin

text \<open>
  An asynchronous byte stream as the list of what its next reads find. A stream is read in pieces
  of any size; what a reader may depend on is only the bytes it delivers and how it ends. The
  abstraction \<open>flat\<close> keeps exactly that, and every reading loop of the HTTP inbound is specified
  by it.
\<close>

text \<open>
  One read finds bytes, or fails; no bytes are the end of the stream. After the last event a
  read waits.
\<close>

datatype read_event = Arrived bytes | ReadFailed io_error

fun event_bytes :: "read_event list \<Rightarrow> nat" where
  "event_bytes [] = 0"
| "event_bytes (Arrived bs # es) = length bs + event_bytes es"
| "event_bytes (ReadFailed e # es) = event_bytes es"

text \<open>What is left of a stream when \<open>n\<close> bytes of its first piece are consumed.\<close>

definition leftover :: "nat \<Rightarrow> bytes \<Rightarrow> read_event list \<Rightarrow> read_event list" where
  "leftover n bs es = (if n < length bs then Arrived (drop n bs) # es else es)"

lemma event_bytes_leftover:
  "n \<le> length bs \<Longrightarrow> event_bytes (leftover n bs es) + n = length bs + event_bytes es"
  by (simp add: leftover_def)

section \<open>What a stream delivers\<close>

datatype stream_end = EndOfInput | Stalled | Broken io_error

fun flat :: "read_event list \<Rightarrow> bytes \<times> stream_end" where
  "flat [] = ([], Stalled)"
| "flat (ReadFailed e # es) = ([], Broken e)"
| "flat (Arrived bs # es) =
     (if bs = [] then ([], EndOfInput) else (bs @ fst (flat es), snd (flat es)))"

text \<open>The error of a reader that needs more bytes than there are, under a time limit.\<close>

fun end_error :: "stream_end \<Rightarrow> io_error" where
  "end_error EndOfInput = UnexpectedEof"
| "end_error Stalled = IoTimedOut"
| "end_error (Broken e) = e"

lemma flat_leftover:
  "bs \<noteq> [] \<Longrightarrow> flat (leftover n bs es) = (drop n bs @ fst (flat es), snd (flat es))"
  by (auto simp: leftover_def)

lemma flat_Nil_iff:
  "fst (flat es) = [] \<longleftrightarrow> es = [] \<or> (\<exists>e es'. es = ReadFailed e # es') \<or> (\<exists>es'. es = Arrived [] # es')"
  by (cases es rule: flat.cases) auto

lemma event_bytes_flat: "length (fst (flat es)) \<le> event_bytes es"
  by (induction es rule: flat.induct) auto

text \<open>A stream with given bytes and end.\<close>

definition stream_of :: "bytes \<Rightarrow> stream_end \<Rightarrow> read_event list" where
  "stream_of bs fin =
     (if bs = [] then [] else [Arrived bs]) @
     (case fin of EndOfInput \<Rightarrow> [Arrived []] | Stalled \<Rightarrow> [] | Broken e \<Rightarrow> [ReadFailed e])"

lemma flat_stream_of [simp]: "flat (stream_of bs fin) = (bs, fin)"
  by (cases fin) (auto simp: stream_of_def)

section \<open>Written output\<close>

text \<open>
  A step that reads and writes returns what it has written, also when it fails: \<^verbatim>\<open>write_all\<close> is
  the concatenation of the written pieces.
\<close>

type_synonym 'a io = "bytes \<times> (io_error + 'a)"

definition io_bind :: "'a io \<Rightarrow> ('a \<Rightarrow> 'b io) \<Rightarrow> 'b io" where
  "io_bind m f =
     (case snd m of
        Inl e \<Rightarrow> (fst m, Inl e)
      | Inr x \<Rightarrow> (fst m @ fst (f x), snd (f x)))"

definition emit :: "bytes \<Rightarrow> unit io" where
  "emit bs = (bs, Inr ())"

definition quiet :: "io_error + 'a \<Rightarrow> 'a io" where
  "quiet r = ([], r)"

lemma io_bind_cong [fundef_cong]:
  "m = m' \<Longrightarrow> (\<And>x. snd m' = Inr x \<Longrightarrow> f x = g x) \<Longrightarrow> io_bind m f = io_bind m' g"
  by (auto simp: io_bind_def split: sum.splits)

lemma io_bind_simps [simp]:
  "io_bind (w, Inl e) f = (w, Inl e)"
  "io_bind (w, Inr x) f = (w @ fst (f x), snd (f x))"
  "io_bind (quiet (Inl e)) f = ([], Inl e)"
  "io_bind (quiet (Inr x)) f = f x"
  "io_bind (emit bs) g = (bs @ fst (g ()), snd (g ()))"
  by (simp_all add: io_bind_def quiet_def emit_def)

lemma io_bind_Inr_iff:
  "io_bind m f = (w, Inr y) \<longleftrightarrow> (\<exists>w1 x w2. m = (w1, Inr x) \<and> f x = (w2, Inr y) \<and> w = w1 @ w2)"
  by (cases m; cases "snd m"; cases "f (projr (snd m))") auto

lemma quiet_Inr_iff: "quiet r = (w, Inr y) \<longleftrightarrow> w = [] \<and> r = Inr y"
  by (auto simp: quiet_def)

lemma emit_Inr_iff: "emit bs = (w, Inr y) \<longleftrightarrow> w = bs"
  by (auto simp: emit_def)

end
