(* ===== verification/Xudp.thy ===== *)
theory Xudp
  imports Datagram_Transport Address_Codec Byte_Stream "HOL-Library.Sublist"
begin

text \<open>
  \<^verbatim>\<open>src/xudp.rs\<close>: XUDP frames over a multiplexed stream. The stream below the transport is the
  list of what its next reads find, and the bytes written so far; an empty list is a read that
  waits. A transport keeps what it has read in its buffer, so that a receive that is dropped loses
  nothing. Sums of lengths stay below the buffer ceiling and are written without overflow checks.
\<close>

unbundle bit_operations_syntax

section \<open>The stream\<close>

text \<open>What happens to a write: it completes, fails, or its future is dropped.\<close>

datatype write_outcome = Written | WriteFailed io_error | WriteDropped

record duplex =
  dx_input :: "read_event list"
  dx_output :: bytes

section \<open>The transport\<close>

definition STATUS_NEW :: u8 where "STATUS_NEW = 1"
definition STATUS_KEEP :: u8 where "STATUS_KEEP = 2"
definition STATUS_END :: u8 where "STATUS_END = 3"
definition STATUS_KEEP_ALIVE :: u8 where "STATUS_KEEP_ALIVE = 4"
definition OPTION_DATA :: u8 where "OPTION_DATA = 1"
definition OPTION_ERROR :: u8 where "OPTION_ERROR = 2"
definition NETWORK_UDP :: u8 where "NETWORK_UDP = 2"
definition MAX_METADATA_LENGTH :: nat where "MAX_METADATA_LENGTH = 512"

lemmas xudp_constants = STATUS_NEW_def STATUS_KEEP_def STATUS_END_def STATUS_KEEP_ALIVE_def
  OPTION_DATA_def OPTION_ERROR_def NETWORK_UDP_def MAX_METADATA_LENGTH_def

record xudp =
  xu_stream :: "duplex option"
  xu_global_id :: bytes
  xu_max_response :: u16
  xu_max_request :: u16
  xu_first_write :: bool
  xu_last_remote :: "destination option"
  xu_buffer :: bytes
  xu_max_buffer :: nat
  xu_closed :: bool

definition xudp_with_budget :: "duplex \<Rightarrow> bytes \<Rightarrow> datagram_budget \<Rightarrow> xudp" where
  "xudp_with_budget stream global_id limits =
     \<lparr>xu_stream = Some stream, xu_global_id = global_id, xu_max_response = db_receive limits,
      xu_max_request = db_transmit limits, xu_first_write = True, xu_last_remote = None,
      xu_buffer = [], xu_max_buffer = 2 + MAX_METADATA_LENGTH + 2 + unat (db_receive limits),
      xu_closed = False\<rparr>"

definition xudp_new :: "duplex \<Rightarrow> bytes \<Rightarrow> u16 \<Rightarrow> xudp" where
  "xudp_new stream global_id max_response = xudp_with_budget stream global_id (budget_new 65535 max_response)"

section \<open>Reading\<close>

text \<open>The loop of \<^verbatim>\<open>fill_receive_buffer\<close>: reads of at most 1024 bytes, none past what is required.\<close>

function xudp_fill :: "nat \<Rightarrow> bytes \<Rightarrow> read_event list \<Rightarrow> (io_error + unit) poll \<times> bytes \<times> read_event list" where
  "xudp_fill required buf input =
     (if required \<le> length buf then (Ready (Inr ()), buf, input)
      else
        (let chunk = min (required - length buf) 1024 in
         case input of
           [] \<Rightarrow> (Pending, buf, [])
         | ReadFailed e # es \<Rightarrow> (Ready (Inl e), buf, es)
         | Arrived bs # es \<Rightarrow>
             if bs = [] then (Ready (Inl UnexpectedEof), buf, input)
             else if chunk < length bs
             then xudp_fill required (buf @ take chunk bs) (Arrived (drop chunk bs) # es)
             else xudp_fill required (buf @ bs) es))"
  by pat_completeness auto

termination
  by (relation "measure (\<lambda>(required, buf, input). required - length buf)")
    (auto simp: neq_Nil_conv)

declare xudp_fill.simps [simp del]

definition xudp_fill_buffer :: "nat \<Rightarrow> xudp \<Rightarrow> ((io_error + unit) poll \<times> xudp) option" where
  "xudp_fill_buffer required t =
     (if xu_max_buffer t < required then Some (Ready (Inl InvalidData), t)
      else if required \<le> length (xu_buffer t) then Some (Ready (Inr ()), t)
      else
        map_option (\<lambda>dx.
          let (r, buf, input) = xudp_fill required (xu_buffer t) (dx_input dx) in
          (r, t\<lparr>xu_buffer := buf, xu_stream := Some (dx\<lparr>dx_input := input\<rparr>)\<rparr>))
          (xu_stream t))"

text \<open>The \<^verbatim>\<open>?\<close> operator after an \<^verbatim>\<open>await\<close>.\<close>

definition poll_then ::
  "(('e + 'a) poll \<times> 's) option \<Rightarrow> ('a \<Rightarrow> 's \<Rightarrow> (('e + 'b) poll \<times> 's) option) \<Rightarrow>
   (('e + 'b) poll \<times> 's) option" where
  "poll_then m k =
     (case m of
        None \<Rightarrow> None
      | Some (Pending, s) \<Rightarrow> Some (Pending, s)
      | Some (Ready (Inl e), s) \<Rightarrow> Some (Ready (Inl e), s)
      | Some (Ready (Inr x), s) \<Rightarrow> k x s)"

definition xudp_status :: "bytes \<Rightarrow> io_error + u8 \<times> u8" where
  "xudp_status metadata =
     (if subslice metadata 0 2 \<noteq> [0, 0] then Inl InvalidData
      else
        (let status = metadata ! 2; opt = metadata ! 3 in
         if opt AND NOT (OPTION_DATA OR OPTION_ERROR) \<noteq> 0 then Inl InvalidData
         else if opt AND OPTION_ERROR \<noteq> 0 then Inl ConnectionReset
         else if status = STATUS_END then Inl ConnectionAborted
         else if status = STATUS_KEEP \<or> status = STATUS_KEEP_ALIVE then Inr (status, opt)
         else Inl InvalidData))"

definition xudp_remote :: "destination option \<Rightarrow> bytes \<Rightarrow> io_error + destination" where
  "xudp_remote last_remote metadata =
     (if 4 < length metadata then
        if metadata ! 4 \<noteq> NETWORK_UDP then Inl InvalidData
        else and_then (decode_port_first (drop 5 metadata)) (\<lambda>(d, consumed).
          if length metadata < 5 + consumed then Inl InvalidData else Inr d)
      else ok_or InvalidData last_remote)"

text \<open>
  What the metadata says: an error, a frame without data (\<open>Inr None\<close>), or the status of a frame
  with data and, unless it is a keepalive, its remote address.
\<close>

definition xudp_meta :: "destination option \<Rightarrow> bytes \<Rightarrow> io_error + (u8 \<times> destination option) option" where
  "xudp_meta last_remote metadata =
     and_then (xudp_status metadata) (\<lambda>(status, opt).
     if opt AND OPTION_DATA = 0 then Inr None
     else if status \<noteq> STATUS_KEEP_ALIVE
     then and_then (xudp_remote last_remote metadata) (\<lambda>d. Inr (Some (status, Some d)))
     else Inr (Some (status, None)))"

definition buffer_u16 :: "bytes \<Rightarrow> nat \<Rightarrow> u16" where
  "buffer_u16 buf i = u16_of [buf ! i, buf ! (i + 1)]"

text \<open>
  One round of \<^verbatim>\<open>read_frame\<close>, cut at its reads; \<open>Inr None\<close> is \<^verbatim>\<open>continue\<close>. A frame with data that is not a
  keepalive has its remote, so the \<^verbatim>\<open>expect\<close> on it is the value \<open>None\<close>.
\<close>

definition xudp_finish ::
  "nat \<Rightarrow> nat \<Rightarrow> u8 \<Rightarrow> destination option \<Rightarrow> xudp \<Rightarrow> ((io_error + datagram option) poll \<times> xudp) option" where
  "xudp_finish payload_start frame_end status remote t =
     (if status = STATUS_KEEP_ALIVE then Some (Ready (Inr None), t\<lparr>xu_buffer := []\<rparr>)
      else
        map_option (\<lambda>d.
          (Ready (Inr (Some \<lparr>dg_remote = d, dg_payload = subslice (xu_buffer t) payload_start frame_end,
                            dg_sniffed_domain = None\<rparr>)), t\<lparr>xu_buffer := []\<rparr>)) remote)"

definition xudp_payload ::
  "nat \<Rightarrow> u8 \<Rightarrow> destination option \<Rightarrow> xudp \<Rightarrow> ((io_error + datagram option) poll \<times> xudp) option" where
  "xudp_payload metadata_end status remote t =
     (let payload_length = buffer_u16 (xu_buffer t) metadata_end in
      if xu_max_response t < payload_length then Some (Ready (Inl InvalidData), t\<lparr>xu_closed := True\<rparr>)
      else
        (let frame_end = metadata_end + 2 + unat payload_length in
         poll_then (xudp_fill_buffer frame_end t)
           (\<lambda>_. xudp_finish (metadata_end + 2) frame_end status remote)))"

definition xudp_metadata :: "nat \<Rightarrow> xudp \<Rightarrow> ((io_error + datagram option) poll \<times> xudp) option" where
  "xudp_metadata metadata_end t =
     (case xudp_meta (xu_last_remote t) (subslice (xu_buffer t) 2 metadata_end) of
        Inl e \<Rightarrow> Some (Ready (Inl e), t)
      | Inr None \<Rightarrow> Some (Ready (Inr None), t\<lparr>xu_buffer := []\<rparr>)
      | Inr (Some (status, remote)) \<Rightarrow>
          poll_then (xudp_fill_buffer (metadata_end + 2) t) (\<lambda>_. xudp_payload metadata_end status remote))"

definition xudp_header :: "xudp \<Rightarrow> ((io_error + datagram option) poll \<times> xudp) option" where
  "xudp_header t =
     (let metadata_length = unat (buffer_u16 (xu_buffer t) 0) in
      if \<not> (4 \<le> metadata_length \<and> metadata_length \<le> MAX_METADATA_LENGTH)
      then Some (Ready (Inl InvalidData), t)
      else poll_then (xudp_fill_buffer (2 + metadata_length) t) (\<lambda>_. xudp_metadata (2 + metadata_length)))"

definition xudp_frame :: "xudp \<Rightarrow> ((io_error + datagram option) poll \<times> xudp) option" where
  "xudp_frame t = poll_then (xudp_fill_buffer 2 t) (\<lambda>_. xudp_header)"

partial_function (option) xudp_read_frame :: "xudp \<Rightarrow> ((io_error + datagram) poll \<times> xudp) option" where
  "xudp_read_frame t =
     Option.bind (xudp_frame t) (\<lambda>(r, t').
       case r of
         Pending \<Rightarrow> Some (Pending, t')
       | Ready (Inl e) \<Rightarrow> Some (Ready (Inl e), t')
       | Ready (Inr None) \<Rightarrow> xudp_read_frame t'
       | Ready (Inr (Some dg)) \<Rightarrow> Some (Ready (Inr dg), t'))"

section \<open>Operations\<close>

definition xudp_budget :: "xudp \<Rightarrow> destination \<Rightarrow> datagram_budget" where
  "xudp_budget t peer = budget_new (xu_max_request t) (xu_max_response t)"

definition encode_data_frame :: "datagram \<Rightarrow> bool \<Rightarrow> bytes option \<Rightarrow> io_error + bytes" where
  "encode_data_frame dg first_frame global_id =
     (if dg_payload dg = [] then Inl InvalidInput
      else if 65535 < length (dg_payload dg) then Inl InvalidInput
      else and_then (encode_port_first (dg_remote dg) []) (\<lambda>target.
        let gid = (case global_id of None \<Rightarrow> [] | Some g \<Rightarrow> g);
            metadata_length = 2 + 1 + 1 + 1 + length target + length gid in
        Inr (be16 (of_nat metadata_length) @ be16 0 @
             [if first_frame then STATUS_NEW else STATUS_KEEP, OPTION_DATA, NETWORK_UDP] @ target @ gid @
             be16 (of_nat (length (dg_payload dg))) @ dg_payload dg)))"

definition xudp_send :: "write_outcome \<Rightarrow> datagram \<Rightarrow> xudp \<Rightarrow> ((dispatch_error + unit) poll \<times> xudp) option" where
  "xudp_send w dg t =
     (if xu_closed t then Some (Ready (Inl (DispatchOther AssociationClosed)), t)
      else if unat (xu_max_request t) < length (dg_payload dg)
      then Some (Ready (Inl (dispatch_from_io InvalidInput)), t)
      else
        (case encode_data_frame dg (xu_first_write t)
                (if xu_first_write t \<and> xu_global_id t \<noteq> replicate 8 0 then Some (xu_global_id t) else None) of
           Inl e \<Rightarrow> Some (Ready (Inl (dispatch_from_io e)), t)
         | Inr frame \<Rightarrow>
             map_option (\<lambda>dx.
               (let lost = t\<lparr>xu_closed := True, xu_stream := None\<rparr> in
                case w of
                  WriteDropped \<Rightarrow> (Pending, lost)
                | WriteFailed e \<Rightarrow> (Ready (Inl (dispatch_from_io e)), lost)
                | Written \<Rightarrow>
                    (Ready (Inr ()),
                     t\<lparr>xu_stream := Some (dx\<lparr>dx_output := dx_output dx @ frame\<rparr>), xu_closed := False,
                       xu_first_write := False, xu_last_remote := Some (dg_remote dg)\<rparr>)))
               (xu_stream t)))"

fun xudp_received ::
  "(io_error + datagram) poll \<times> xudp \<Rightarrow> (dispatch_error + datagram) poll \<times> xudp" where
  "xudp_received (Pending, t) = (Pending, t)"
| "xudp_received (Ready (Inl e), t) =
     (Ready (Inl (dispatch_from_io e)), t\<lparr>xu_closed := True, xu_stream := None\<rparr>)"
| "xudp_received (Ready (Inr dg), t) = (Ready (Inr dg), t)"

definition xudp_receive :: "xudp \<Rightarrow> ((dispatch_error + datagram) poll \<times> xudp) option" where
  "xudp_receive t =
     (if xu_closed t then Some (Ready (Inl (DispatchOther AssociationClosed)), t)
      else map_option xudp_received (xudp_read_frame t))"

text \<open>\<^verbatim>\<open>close\<close> also returns the last frame it writes.\<close>

definition xudp_close ::
  "write_outcome \<Rightarrow> xudp \<Rightarrow> ((dispatch_error + unit) poll \<times> bytes \<times> xudp) option" where
  "xudp_close w t =
     (if xu_closed t then Some (Ready (Inr ()), [], t)
      else
        map_option (\<lambda>dx.
          (case w of
             Written \<Rightarrow> Ready (Inr ())
           | WriteFailed e \<Rightarrow> Ready (Inl (dispatch_from_io e))
           | WriteDropped \<Rightarrow> Pending,
           [0, 4, 0, 0, STATUS_END, 0], t\<lparr>xu_closed := True, xu_stream := None\<rparr>))
          (xu_stream t))"

definition xudp_arrive :: "read_event list \<Rightarrow> xudp \<Rightarrow> xudp" where
  "xudp_arrive es t =
     t\<lparr>xu_stream := map_option (\<lambda>dx. dx\<lparr>dx_input := dx_input dx @ es\<rparr>) (xu_stream t)\<rparr>"

section \<open>Reading in pieces\<close>

text \<open>The reads of the loop as equations, and the induction they give.\<close>

definition chunk_size :: "nat \<Rightarrow> bytes \<Rightarrow> bytes \<Rightarrow> nat" where
  "chunk_size required buf bs = min (min (required - length buf) 1024) (length bs)"

lemma fill_enough: "required \<le> length buf \<Longrightarrow> xudp_fill required buf input = (Ready (Inr ()), buf, input)"
  by (subst xudp_fill.simps) simp

lemma fill_steps:
  assumes "\<not> required \<le> length buf"
  shows "xudp_fill required buf [] = (Pending, buf, [])"
    and "xudp_fill required buf (ReadFailed e # es) = (Ready (Inl e), buf, es)"
    and "xudp_fill required buf (Arrived [] # es) = (Ready (Inl UnexpectedEof), buf, Arrived [] # es)"
    and "bs \<noteq> [] \<Longrightarrow> xudp_fill required buf (Arrived bs # es) =
      xudp_fill required (buf @ take (chunk_size required buf bs) bs) (leftover (chunk_size required buf bs) bs es)"
proof -
  show "xudp_fill required buf [] = (Pending, buf, [])"
    "xudp_fill required buf (ReadFailed e # es) = (Ready (Inl e), buf, es)"
    "xudp_fill required buf (Arrived [] # es) = (Ready (Inl UnexpectedEof), buf, Arrived [] # es)"
    by (subst xudp_fill.simps, use assms in simp)+
  assume bs: "bs \<noteq> []"
  define n where "n = min (required - length buf) 1024"
  have "chunk_size required buf bs = (if n < length bs then n else length bs)"
    by (auto simp: chunk_size_def n_def min_def)
  then show "xudp_fill required buf (Arrived bs # es) =
      xudp_fill required (buf @ take (chunk_size required buf bs) bs) (leftover (chunk_size required buf bs) bs es)"
    by (subst xudp_fill.simps) (use assms bs in \<open>simp add: leftover_def n_def Let_def\<close>)
qed

lemma fill_induct [case_names enough waits failed ended reads]:
  assumes "\<And>buf input. required \<le> length buf \<Longrightarrow> P buf input"
    and "\<And>buf. \<not> required \<le> length buf \<Longrightarrow> P buf []"
    and "\<And>buf e es. \<not> required \<le> length buf \<Longrightarrow> P buf (ReadFailed e # es)"
    and "\<And>buf es. \<not> required \<le> length buf \<Longrightarrow> P buf (Arrived [] # es)"
    and "\<And>buf bs es. \<not> required \<le> length buf \<Longrightarrow> bs \<noteq> [] \<Longrightarrow>
      P (buf @ take (chunk_size required buf bs) bs) (leftover (chunk_size required buf bs) bs es) \<Longrightarrow>
      P buf (Arrived bs # es)"
  shows "P buf input"
proof (induction "required - length buf" arbitrary: buf input rule: less_induct)
  case (less buf input)
  show ?case
  proof (cases "required \<le> length buf")
    case False
    show ?thesis
    proof (cases input)
      case (Cons ev es)
      show ?thesis
      proof (cases "\<exists>bs. ev = Arrived bs \<and> bs \<noteq> []")
        case True
        then obtain bs where ev: "ev = Arrived bs" "bs \<noteq> []" by blast
        have "0 < chunk_size required buf bs" "chunk_size required buf bs \<le> length bs"
          using False ev(2) by (auto simp: chunk_size_def)
        then have "required - length (buf @ take (chunk_size required buf bs) bs) < required - length buf"
          using False by (simp only: length_append length_take min_absorb2)
        from less.hyps [OF this] show ?thesis
          using assms(5) [OF False ev(2)] Cons ev(1) by simp
      next
        case other: False
        then show ?thesis
          using assms(3,4) False Cons by (cases ev) auto
      qed
    qed (use assms(2) False in simp)
  qed (use assms(1) in simp)
qed

lemma leftover_append: "leftover n bs es @ later = leftover n bs (es @ later)"
  by (simp add: leftover_def)

lemma fill_pending:
  "xudp_fill required buf input = (Pending, buf', input') \<Longrightarrow>
   input' = [] \<and> length buf' < required \<and> prefix buf buf' \<and>
   xudp_fill required buf (input @ later) = xudp_fill required buf' later"
proof (induction buf input rule: fill_induct [of required])
  case (reads buf bs es)
  then show ?case
    by (auto simp: fill_steps(4) leftover_append dest: append_prefixD)
qed (auto simp: fill_enough fill_steps)

lemma fill_ready:
  "xudp_fill required buf input = (Ready r, buf', input') \<Longrightarrow>
   prefix buf buf' \<and> length buf' \<le> max required (length buf) \<and>
   xudp_fill required buf (input @ later) = (Ready r, buf', input' @ later)"
proof (induction buf input rule: fill_induct [of required])
  case (reads buf bs es)
  then show ?case
    by (auto simp: fill_steps(4) leftover_append chunk_size_def dest: append_prefixD)
qed (auto simp: fill_enough fill_steps)

lemma fill_done:
  "xudp_fill required buf input = (Ready (Inr u), buf', input') \<Longrightarrow>
   required \<le> length buf' \<and> length buf' + event_bytes input' = length buf + event_bytes input"
proof (induction buf input rule: fill_induct [of required])
  case (reads buf bs es)
  then show ?case
    using event_bytes_leftover [of "chunk_size required buf bs" bs es]
    by (auto simp: fill_steps chunk_size_def)
qed (auto simp: fill_enough fill_steps)

section \<open>Frames in pieces\<close>

definition xudp_good :: "xudp \<Rightarrow> bool" where
  "xudp_good t \<longleftrightarrow>
     (\<not> xu_closed t \<longrightarrow> xu_stream t \<noteq> None) \<and> length (xu_global_id t) = 8 \<and>
     xu_max_buffer t = 2 + MAX_METADATA_LENGTH + 2 + unat (xu_max_response t) \<and>
     length (xu_buffer t) \<le> xu_max_buffer t"

text \<open>The transport after a read: only its buffer and the unread input have changed.\<close>

definition xudp_at :: "xudp \<Rightarrow> duplex \<Rightarrow> bytes \<Rightarrow> read_event list \<Rightarrow> xudp" where
  "xudp_at t dx buf input = t\<lparr>xu_buffer := buf, xu_stream := Some (dx\<lparr>dx_input := input\<rparr>)\<rparr>"

lemma xudp_at_simps [simp]:
  "xu_stream (xudp_at t dx buf input) = Some (dx\<lparr>dx_input := input\<rparr>)"
  "xu_buffer (xudp_at t dx buf input) = buf"
  "xu_max_buffer (xudp_at t dx buf input) = xu_max_buffer t"
  "xu_max_response (xudp_at t dx buf input) = xu_max_response t"
  "xu_last_remote (xudp_at t dx buf input) = xu_last_remote t"
  "xu_closed (xudp_at t dx buf input) = xu_closed t"
  "xu_global_id (xudp_at t dx buf input) = xu_global_id t"
  by (simp_all add: xudp_at_def)

lemma xudp_at_at [simp]:
  "xudp_at (xudp_at t dx buf input) (dx\<lparr>dx_input := i\<rparr>) buf' input' = xudp_at t dx buf' input'"
  by (simp add: xudp_at_def)

lemma xudp_at_same: "xu_stream t = Some dx \<Longrightarrow> xudp_at t dx (xu_buffer t) (dx_input dx) = t"
  by (simp add: xudp_at_def)

lemma xudp_arrive_at:
  "xudp_arrive es (xudp_at t dx buf input) = xudp_at t dx buf (input @ es)"
  by (simp add: xudp_arrive_def xudp_at_def)

lemma fill_buffer_open:
  assumes "n \<le> xu_max_buffer t"
  shows "xudp_fill_buffer n (xudp_at t dx buf input) =
    (case xudp_fill n buf input of (r, buf', input') \<Rightarrow> Some (r, xudp_at t dx buf' input'))"
  using assms by (auto simp: xudp_fill_buffer_def fill_enough xudp_at_def split: prod.splits)

lemma fill_buffer_enough [simp]:
  "n \<le> length (xu_buffer t) \<Longrightarrow> length (xu_buffer t) \<le> xu_max_buffer t \<Longrightarrow>
   xudp_fill_buffer n t = Some (Ready (Inr ()), t)"
  by (simp add: xudp_fill_buffer_def)

lemma poll_then_simps [simp]:
  "poll_then None k = None" "poll_then (Some (Pending, s)) k = Some (Pending, s)"
  "poll_then (Some (Ready (Inl e), s)) k = Some (Ready (Inl e), s)"
  "poll_then (Some (Ready (Inr x), s)) k = k x s"
  by (simp_all add: poll_then_def)

lemma poll_then_cong:
  "(\<And>x s. m = Some (Ready (Inr x), s) \<Longrightarrow> k x s = k' x s) \<Longrightarrow> poll_then m k = poll_then m k'"
  by (auto simp: poll_then_def split: option.splits prod.splits poll.splits sum.splits)

lemma buffer_u16_prefix:
  "prefix a b \<Longrightarrow> i + 1 < length a \<Longrightarrow> buffer_u16 b i = buffer_u16 a i"
  by (auto simp: buffer_u16_def prefix_def nth_append)

lemma subslice_prefix: "prefix a b \<Longrightarrow> j \<le> length a \<Longrightarrow> subslice b i j = subslice a i j"
  by (auto simp: subslice_def prefix_def)

text \<open>How many buffered bytes the next step of a frame waits for, if it waits.\<close>

definition xudp_need :: "xudp \<Rightarrow> nat option" where
  "xudp_need t =
     (let buf = xu_buffer t; n = unat (buffer_u16 buf 0); p = buffer_u16 buf (2 + n) in
      if length buf < 2 then Some 2
      else if \<not> (4 \<le> n \<and> n \<le> MAX_METADATA_LENGTH) then None
      else if length buf < 2 + n then Some (2 + n)
      else
        (case xudp_meta (xu_last_remote t) (subslice buf 2 (2 + n)) of
           Inr (Some (status, remote)) \<Rightarrow>
             if length buf < 2 + n + 2 then Some (2 + n + 2)
             else if xu_max_response t < p then None
             else if length buf < 2 + n + 2 + unat p then Some (2 + n + 2 + unat p)
             else None
         | _ \<Rightarrow> None))"

lemma need_bounds:
  assumes "xudp_good t" "xudp_need t = Some n"
  shows "length (xu_buffer t) < n \<and> n \<le> xu_max_buffer t"
  using assms
  by (auto simp: xudp_need_def xudp_good_def Let_def word_less_nat_alt MAX_METADATA_LENGTH_def
      split: if_splits sum.splits option.splits)

lemma need_prefix:
  assumes "xudp_need t = Some n" "xu_stream t = Some dx" "prefix (xu_buffer t) buf" "length buf < n"
  shows "xudp_need (xudp_at t dx buf input) = Some n"
proof -
  have "length (xu_buffer t) \<le> length buf" using assms(3) by (rule prefix_length_le)
  moreover note pre = buffer_u16_prefix [OF assms(3)] subslice_prefix [OF assms(3)]
  ultimately show ?thesis
    using assms(1,4)
    by (auto simp: xudp_need_def Let_def pre split: if_splits sum.splits option.splits)
qed

lemma fill_buffer_filled:
  assumes "xudp_good t" "n \<le> xu_max_buffer t" "xudp_fill_buffer n t = Some (Ready (Inr u), t1)"
  shows "xudp_good t1 \<and> prefix (xu_buffer t) (xu_buffer t1) \<and> n \<le> length (xu_buffer t1) \<and>
    xu_last_remote t1 = xu_last_remote t \<and> xu_max_response t1 = xu_max_response t \<and>
    xu_max_buffer t1 = xu_max_buffer t"
proof (cases "n \<le> length (xu_buffer t)")
  case False
  then obtain dx buf input where dx: "xu_stream t = Some dx"
    and fill: "xudp_fill n (xu_buffer t) (dx_input dx) = (Ready (Inr u), buf, input)"
    and t1: "t1 = xudp_at t dx buf input"
    using assms(2,3)
    by (cases "xu_stream t"; cases "xudp_fill n (xu_buffer t) (dx_input (the (xu_stream t)))")
      (auto simp: xudp_fill_buffer_def xudp_at_def)
  with fill_ready [OF fill, of "[]"] fill_done [OF fill] assms(1,2) show ?thesis
    by (auto simp: xudp_good_def)
qed (use assms in \<open>auto simp: xudp_good_def\<close>)

lemma good_buffer: "xudp_good t \<Longrightarrow> length (xu_buffer t) \<le> xu_max_buffer t"
  by (simp add: xudp_good_def)

text \<open>The cases in which a frame waits, with the number of metadata bytes \<open>m\<close> and the payload length \<open>p\<close>.\<close>

lemma need_cases:
  assumes "xudp_need t = Some n"
  obtains (length_field) "length (xu_buffer t) < 2" "n = 2"
  | (metadata) m where "2 \<le> length (xu_buffer t)" "m = unat (buffer_u16 (xu_buffer t) 0)"
      "4 \<le> m" "m \<le> MAX_METADATA_LENGTH" "n = 2 + m"
  | (payload_length) m status remote where "2 + m \<le> length (xu_buffer t)"
      "m = unat (buffer_u16 (xu_buffer t) 0)" "4 \<le> m" "m \<le> MAX_METADATA_LENGTH"
      "xudp_meta (xu_last_remote t) (subslice (xu_buffer t) 2 (2 + m)) = Inr (Some (status, remote))"
      "n = 2 + m + 2"
  | (payload) m status remote p where "2 + m + 2 \<le> length (xu_buffer t)"
      "m = unat (buffer_u16 (xu_buffer t) 0)" "4 \<le> m" "m \<le> MAX_METADATA_LENGTH"
      "xudp_meta (xu_last_remote t) (subslice (xu_buffer t) 2 (2 + m)) = Inr (Some (status, remote))"
      "p = buffer_u16 (xu_buffer t) (2 + m)" "\<not> xu_max_response t < p" "n = 2 + m + 2 + unat p"
  using assms unfolding xudp_need_def Let_def
  by (auto split: if_splits sum.splits option.splits)

text \<open>
  A later state \<open>s\<close> of the same frame, whose buffer extends that of \<open>t\<close>, passes the reads \<open>t\<close> has passed.
\<close>

definition extends :: "xudp \<Rightarrow> xudp \<Rightarrow> bool" where
  "extends t s \<longleftrightarrow> xudp_good s \<and> prefix (xu_buffer t) (xu_buffer s) \<and>
     xu_last_remote s = xu_last_remote t \<and> xu_max_response s = xu_max_response t"

lemma extends_refl: "xudp_good t \<Longrightarrow> extends t t"
  by (simp add: extends_def)

lemma frame_passes: "xudp_good s \<Longrightarrow> 2 \<le> length (xu_buffer s) \<Longrightarrow> xudp_frame s = xudp_header s"
  by (simp add: xudp_frame_def good_buffer)

lemma header_passes:
  assumes "extends t s" "2 \<le> length (xu_buffer t)" "m = unat (buffer_u16 (xu_buffer t) 0)"
    and "4 \<le> m" "m \<le> MAX_METADATA_LENGTH"
  shows "xudp_frame s = poll_then (xudp_fill_buffer (2 + m) s) (\<lambda>_. xudp_metadata (2 + m))"
proof -
  have pre: "prefix (xu_buffer t) (xu_buffer s)" and s: "xudp_good s"
    using assms(1) by (simp_all add: extends_def)
  have "2 \<le> length (xu_buffer s)" "buffer_u16 (xu_buffer s) 0 = buffer_u16 (xu_buffer t) 0"
    using prefix_length_le [OF pre] buffer_u16_prefix [OF pre, of 0] assms(2) by simp_all
  then show ?thesis
    using frame_passes [OF s] assms(3-5) by (simp add: xudp_header_def Let_def)
qed

lemma metadata_passes:
  assumes "extends t s" "2 + m \<le> length (xu_buffer t)" "m = unat (buffer_u16 (xu_buffer t) 0)"
    and "4 \<le> m" "m \<le> MAX_METADATA_LENGTH"
    and "xudp_meta (xu_last_remote t) (subslice (xu_buffer t) 2 (2 + m)) = Inr (Some (status, remote))"
  shows "xudp_frame s = poll_then (xudp_fill_buffer (2 + m + 2) s) (\<lambda>_. xudp_payload (2 + m) status remote)"
proof -
  have pre: "prefix (xu_buffer t) (xu_buffer s)" and s: "xudp_good s"
    using assms(1) by (simp_all add: extends_def)
  have "xudp_frame s = xudp_metadata (2 + m) s"
    using header_passes [OF assms(1) _ assms(3-5)] prefix_length_le [OF pre] assms(2) good_buffer [OF s]
    by simp
  then show ?thesis
    using assms(1,2,6) subslice_prefix [OF pre] by (simp add: xudp_metadata_def extends_def)
qed

lemma payload_passes:
  assumes "extends t s" "2 + m + 2 \<le> length (xu_buffer t)" "m = unat (buffer_u16 (xu_buffer t) 0)"
    and "4 \<le> m" "m \<le> MAX_METADATA_LENGTH"
    and "xudp_meta (xu_last_remote t) (subslice (xu_buffer t) 2 (2 + m)) = Inr (Some (status, remote))"
    and "p = buffer_u16 (xu_buffer t) (2 + m)" "\<not> xu_max_response t < p" "n = 2 + m + 2 + unat p"
  shows "xudp_frame s = poll_then (xudp_fill_buffer n s) (\<lambda>_. xudp_finish (2 + m + 2) n status remote)"
proof -
  have pre: "prefix (xu_buffer t) (xu_buffer s)" and s: "xudp_good s"
    using assms(1) by (simp_all add: extends_def)
  have "xudp_frame s = xudp_payload (2 + m) status remote s"
    using metadata_passes [OF assms(1) _ assms(3-6)] prefix_length_le [OF pre] assms(2) good_buffer [OF s]
    by simp
  then show ?thesis
    using assms(1,2,7-9) buffer_u16_prefix [OF pre, of "2 + m"]
    by (simp add: xudp_payload_def extends_def Let_def)
qed

lemma frame_waits:
  assumes good: "xudp_good t" and need: "n \<le> xu_max_buffer t"
    and step: "\<And>s. extends t s \<Longrightarrow> xudp_frame s = poll_then (xudp_fill_buffer n s) (\<lambda>_. k)"
  shows "xudp_frame t = poll_then (xudp_fill_buffer n t) (\<lambda>_. xudp_frame)"
  unfolding step [OF extends_refl [OF good]]
proof (rule poll_then_cong)
  fix u s
  assume "xudp_fill_buffer n t = Some (Ready (Inr u), s)"
  from fill_buffer_filled [OF good need this]
  have s: "extends t s" "n \<le> length (xu_buffer s)" "length (xu_buffer s) \<le> xu_max_buffer s"
    using good_buffer [of s] by (simp_all add: extends_def)
  show "k s = xudp_frame s"
    using step [OF s(1)] s(2,3) by simp
qed

lemma frame_need:
  assumes good: "xudp_good t" and need: "xudp_need t = Some n"
  shows "xudp_frame t = poll_then (xudp_fill_buffer n t) (\<lambda>_. xudp_frame)"
proof -
  have "n \<le> xu_max_buffer t" using need_bounds [OF good need] by simp
  note waits = frame_waits [OF good this]
  from need show ?thesis
  proof (cases rule: need_cases)
    case length_field
    show ?thesis by (rule waits [of xudp_header]) (simp add: xudp_frame_def length_field)
  next
    case (metadata m)
    show ?thesis
      using waits [of "xudp_metadata (2 + m)"] header_passes [OF _ metadata(1-4)] metadata(5) by blast
  next
    case (payload_length m status remote)
    show ?thesis
      using waits [of "xudp_payload (2 + m) status remote"]
        metadata_passes [OF _ payload_length(1-5)] payload_length(6) by blast
  next
    case (payload m status remote p)
    show ?thesis
      using waits [of "xudp_finish (2 + m + 2) n status remote"] payload_passes [OF _ payload] by blast
  qed
qed

text \<open>A frame that does not wait takes nothing from the stream, and never panics.\<close>

lemma xudp_meta_remote:
  "xudp_meta last_remote metadata = Inr (Some (status, remote)) \<Longrightarrow> remote = None \<longleftrightarrow> status = STATUS_KEEP_ALIVE"
  by (auto simp: xudp_meta_def res_simps split: if_splits prod.splits)

definition settles :: "xudp \<Rightarrow> (io_error + datagram option) \<Rightarrow> bytes \<Rightarrow> bool \<Rightarrow> bool" where
  "settles t r buf c \<longleftrightarrow>
     (\<forall>d. xudp_frame (t\<lparr>xu_stream := d\<rparr>) =
        Some (Ready r, t\<lparr>xu_stream := d, xu_buffer := buf, xu_closed := c\<rparr>)) \<and>
     (is_ok r \<longrightarrow> buf = [] \<and> c = xu_closed t) \<and> (\<not> is_ok r \<longrightarrow> buf = xu_buffer t) \<and>
     (\<forall>dg. r = Inr (Some dg) \<longrightarrow> length (dg_payload dg) \<le> unat (xu_max_response t))"

lemma payload_settles:
  assumes frame: "\<And>d. xudp_frame (t\<lparr>xu_stream := d\<rparr>) = xudp_payload e status remote (t\<lparr>xu_stream := d\<rparr>)"
    and good: "length (xu_buffer t) \<le> xu_max_buffer t" and remote: "remote = None \<longleftrightarrow> status = STATUS_KEEP_ALIVE"
    and len: "xu_max_response t < buffer_u16 (xu_buffer t) e \<or>
      e + 2 + unat (buffer_u16 (xu_buffer t) e) \<le> length (xu_buffer t)"
  shows "\<exists>r buf c. settles t r buf c"
proof (cases "xu_max_response t < buffer_u16 (xu_buffer t) e")
  case True
  then have "settles t (Inl InvalidData) (xu_buffer t) True"
    using frame by (simp add: settles_def xudp_payload_def)
  then show ?thesis by blast
next
  case False
  let ?p = "unat (buffer_u16 (xu_buffer t) e)"
  have frame': "xudp_frame (t\<lparr>xu_stream := d\<rparr>) =
      xudp_finish (e + 2) (e + 2 + ?p) status remote (t\<lparr>xu_stream := d\<rparr>)" for d
    using frame False len good by (simp add: xudp_payload_def Let_def)
  have "?p \<le> unat (xu_max_response t)"
    using False by (simp add: word_less_nat_alt)
  then have "settles t (Inr (map_option (\<lambda>d. \<lparr>dg_remote = d,
      dg_payload = subslice (xu_buffer t) (e + 2) (e + 2 + ?p), dg_sniffed_domain = None\<rparr>) remote)) []
      (xu_closed t)"
    using frame' remote False len by (cases remote) (auto simp: settles_def xudp_finish_def)
  then show ?thesis by blast
qed

lemma metadata_settles:
  assumes frame: "\<And>d. xudp_frame (t\<lparr>xu_stream := d\<rparr>) = xudp_metadata e (t\<lparr>xu_stream := d\<rparr>)"
    and good: "length (xu_buffer t) \<le> xu_max_buffer t"
    and len: "\<And>status remote.
      xudp_meta (xu_last_remote t) (subslice (xu_buffer t) 2 e) = Inr (Some (status, remote)) \<Longrightarrow>
      e + 2 \<le> length (xu_buffer t) \<and>
      (xu_max_response t < buffer_u16 (xu_buffer t) e \<or>
       e + 2 + unat (buffer_u16 (xu_buffer t) e) \<le> length (xu_buffer t))"
  shows "\<exists>r buf c. settles t r buf c"
proof (cases "xudp_meta (xu_last_remote t) (subslice (xu_buffer t) 2 e)")
  case (Inl err)
  then have "settles t (Inl err) (xu_buffer t) (xu_closed t)"
    using frame by (simp add: settles_def xudp_metadata_def)
  then show ?thesis by blast
next
  case (Inr found)
  show ?thesis
  proof (cases found)
    case None
    then have "settles t (Inr None) [] (xu_closed t)"
      using frame Inr by (simp add: settles_def xudp_metadata_def)
    then show ?thesis by blast
  next
    case (Some x)
    obtain status remote where x: "x = (status, remote)" by (cases x)
    note meta = Inr [unfolded Some x]
    have "xudp_frame (t\<lparr>xu_stream := d\<rparr>) = xudp_payload e status remote (t\<lparr>xu_stream := d\<rparr>)" for d
      using frame meta len [OF meta] good by (simp add: xudp_metadata_def)
    from payload_settles [OF this good xudp_meta_remote [OF meta]] len [OF meta] show ?thesis by blast
  qed
qed

lemma frame_complete:
  assumes good: "length (xu_buffer t) \<le> xu_max_buffer t" and need: "xudp_need t = None"
  shows "2 \<le> length (xu_buffer t) \<and> (\<exists>r buf c. settles t r buf c)"
proof -
  define m where "m = unat (buffer_u16 (xu_buffer t) 0)"
  have len: "2 \<le> length (xu_buffer t)"
    using need by (auto simp: xudp_need_def Let_def split: if_splits)
  have frame: "xudp_frame (t\<lparr>xu_stream := d\<rparr>) =
      (if \<not> (4 \<le> m \<and> m \<le> MAX_METADATA_LENGTH) then Some (Ready (Inl InvalidData), t\<lparr>xu_stream := d\<rparr>)
       else xudp_metadata (2 + m) (t\<lparr>xu_stream := d\<rparr>))" for d
    using need good len
    by (auto simp: xudp_frame_def xudp_header_def xudp_need_def Let_def m_def split: if_splits)
  have "\<exists>r buf c. settles t r buf c"
  proof (cases "4 \<le> m \<and> m \<le> MAX_METADATA_LENGTH")
    case False
    then have "settles t (Inl InvalidData) (xu_buffer t) (xu_closed t)"
      using frame by (auto simp: settles_def)
    then show ?thesis by blast
  next
    case True
    then show ?thesis
      using frame need
      by (intro metadata_settles [of t "2 + m"] good)
        (auto simp: xudp_need_def Let_def m_def split: if_splits)
  qed
  with len show ?thesis by blast
qed

section \<open>Dropped and resumed reads\<close>

text \<open>
  What a reading step \<open>f\<close> does from a buffer and an input: when it waits, it has taken all input
  into its buffer and starting over gives what going on would give; when it ends, later input does not
  matter; when it succeeds, the buffer is empty again and bytes have been used up.
\<close>

definition reads ::
  "(xudp \<Rightarrow> ((io_error + 'a) poll \<times> xudp) option) \<Rightarrow> xudp \<Rightarrow> duplex \<Rightarrow> bytes \<Rightarrow> read_event list \<Rightarrow>
   (io_error + 'a) poll \<Rightarrow> bytes \<Rightarrow> read_event list \<Rightarrow> bool \<Rightarrow> bool" where
  "reads f t dx buf input r buf' input' c \<longleftrightarrow>
     f (xudp_at t dx buf input) = Some (r, (xudp_at t dx buf' input')\<lparr>xu_closed := c\<rparr>) \<and>
     length buf' \<le> xu_max_buffer t \<and>
     (case r of
        Pending \<Rightarrow> input' = [] \<and> c = xu_closed t \<and>
          (\<forall>later. f (xudp_at t dx buf (input @ later)) = f (xudp_at t dx buf' later))
      | Ready x \<Rightarrow>
          (\<forall>later. f (xudp_at t dx buf (input @ later)) =
             Some (r, (xudp_at t dx buf' (input' @ later))\<lparr>xu_closed := c\<rparr>)) \<and>
          (is_ok x \<longrightarrow> buf' = [] \<and> c = xu_closed t \<and> event_bytes input' < length buf + event_bytes input))"

lemma good_at:
  "xudp_good (xudp_at t dx buf input) \<longleftrightarrow> length (xu_global_id t) = 8 \<and>
     xu_max_buffer t = 2 + MAX_METADATA_LENGTH + 2 + unat (xu_max_response t) \<and> length buf \<le> xu_max_buffer t"
  by (auto simp: xudp_good_def)

lemma need_at: "xudp_need (xudp_at t dx buf input) = xudp_need (t\<lparr>xu_buffer := buf\<rparr>)"
  by (simp add: xudp_need_def Let_def xudp_at_def)

lemma at_closed [simp]: "(xudp_at t dx buf input)\<lparr>xu_closed := xu_closed t\<rparr> = xudp_at t dx buf input"
  by (simp add: xudp_at_def)

lemma frame_settled:
  assumes "length buf \<le> xu_max_buffer t" "xudp_need (t\<lparr>xu_buffer := buf\<rparr>) = None"
  shows "\<exists>r buf' c. reads xudp_frame t dx buf input (Ready r) buf' input c \<and>
    (\<forall>dg. r = Inr (Some dg) \<longrightarrow> length (dg_payload dg) \<le> unat (xu_max_response t))"
proof -
  let ?t = "t\<lparr>xu_buffer := buf\<rparr>"
  obtain r buf' c where len: "2 \<le> length buf" and s: "settles ?t r buf' c"
    using frame_complete [of ?t] assms by auto
  have "xudp_frame (xudp_at t dx buf i) = Some (Ready r, (xudp_at t dx buf' i)\<lparr>xu_closed := c\<rparr>)" for i
    using s by (auto simp: settles_def xudp_at_def)
  then have "reads xudp_frame t dx buf input (Ready r) buf' input c"
    using s len assms(1) by (cases r) (auto simp: reads_def settles_def)
  moreover have "\<forall>dg. r = Inr (Some dg) \<longrightarrow> length (dg_payload dg) \<le> unat (xu_max_response t)"
    using s by (simp add: settles_def)
  ultimately show ?thesis by blast
qed

lemma frame_at:
  assumes "xudp_good (xudp_at t dx buf input)" "xudp_need (t\<lparr>xu_buffer := buf\<rparr>) = Some n"
  shows "xudp_frame (xudp_at t dx buf input) = poll_then
    (case xudp_fill n buf input of (r, b, i) \<Rightarrow> Some (r, xudp_at t dx b i)) (\<lambda>_. xudp_frame)"
proof -
  have need: "xudp_need (xudp_at t dx buf input) = Some n" using assms(2) by (simp add: need_at)
  show ?thesis
    using frame_need [OF assms(1) need] need_bounds [OF assms(1) need] by (simp add: fill_buffer_open)
qed

lemma frame_reads_pending:
  assumes good: "xudp_good (xudp_at t dx buf input)" and need: "xudp_need (t\<lparr>xu_buffer := buf\<rparr>) = Some n"
    and fill: "xudp_fill n buf input = (Pending, b, i)"
  shows "reads xudp_frame t dx buf input Pending b [] (xu_closed t)"
proof -
  have size: "n \<le> xu_max_buffer t"
    using need_bounds [OF good] need by (simp add: need_at)
  note fp = fill_pending [OF fill]
  have later: "xudp_need (t\<lparr>xu_buffer := b\<rparr>) = Some n"
    using need_prefix [of "xudp_at t dx buf input" n "dx\<lparr>dx_input := input\<rparr>" b] need fp
    by (simp add: need_at)
  have goods: "xudp_good (xudp_at t dx b later)" "xudp_good (xudp_at t dx buf (input @ later))" for later
    using good fp [of "[]"] size by (auto simp: good_at)
  have "length b \<le> xu_max_buffer t" using fp [of "[]"] size by linarith
  then show ?thesis
    using frame_at [OF good need] frame_at [OF goods(1) later] frame_at [OF goods(2) need] fp fill
    by (simp add: reads_def)
qed

lemma reads_from:
  assumes "reads f t dx b i r buf' input' c" "length b + event_bytes i \<le> length buf + event_bytes input"
    and "\<And>later. f (xudp_at t dx buf (input @ later)) = f (xudp_at t dx b (i @ later))"
  shows "reads f t dx buf input r buf' input' c"
proof -
  have "f (xudp_at t dx buf input) = f (xudp_at t dx b i)"
    using assms(3) [of "[]"] by simp
  with assms show ?thesis by (cases r) (simp_all add: reads_def, metis less_le_trans)
qed

lemma frame_reads:
  "xudp_good (xudp_at t dx buf input) \<Longrightarrow>
   \<exists>r buf' input' c. reads xudp_frame t dx buf input r buf' input' c \<and>
     (\<forall>dg. r = Ready (Inr (Some dg)) \<longrightarrow> length (dg_payload dg) \<le> unat (xu_max_response t))"
proof (induction "event_bytes input" arbitrary: buf input rule: less_induct)
  case (less input buf)
  show ?case
  proof (cases "xudp_need (t\<lparr>xu_buffer := buf\<rparr>)")
    case None
    then show ?thesis
      using frame_settled [of buf t dx input] less.prems by (fastforce simp: good_at)
  next
    case (Some n)
    have size: "length buf < n" "n \<le> xu_max_buffer t"
      using need_bounds [OF less.prems] Some by (simp_all add: need_at)
    have good: "xudp_good (xudp_at t dx b i)" if "length b \<le> xu_max_buffer t" for b i
      using less.prems that by (simp add: good_at)
    have frame: "xudp_frame (xudp_at t dx buf i) =
        poll_then (case xudp_fill n buf i of (r, b, i') \<Rightarrow> Some (r, xudp_at t dx b i')) (\<lambda>_. xudp_frame)" for i
      by (rule frame_at [OF good Some]) (use size in simp)
    obtain r b i where fill: "xudp_fill n buf input = (r, b, i)" by (cases "xudp_fill n buf input")
    show ?thesis
    proof (cases r)
      case Pending
      then show ?thesis
        using frame_reads_pending [OF less.prems Some] fill by blast
    next
      case (Ready x)
      note fr = fill_ready [OF fill [unfolded Ready]]
      have b: "length b \<le> xu_max_buffer t" using fr [of "[]"] size by auto
      show ?thesis
      proof (cases x)
        case (Inl e)
        then have "reads xudp_frame t dx buf input (Ready (Inl e)) b i (xu_closed t)"
          using frame fill Ready fr b by (simp add: reads_def)
        then show ?thesis by blast
      next
        case (Inr u)
        then have same: "xudp_frame (xudp_at t dx buf (input @ later)) = xudp_frame (xudp_at t dx b (i @ later))" for later
          using frame fr Ready by simp
        have bytes: "n \<le> length b" "length b + event_bytes i = length buf + event_bytes input"
          using fill_done [OF fill [unfolded Ready Inr]] by simp_all
        then have "event_bytes i < event_bytes input" using size by simp
        from less.hyps [OF this good [OF b]] reads_from [OF _ eq_imp_le [OF bytes(2)] same]
        show ?thesis by blast
      qed
    qed
  qed
qed

text \<open>The loop of \<^verbatim>\<open>read_frame\<close> reads like one frame.\<close>

lemmas read_frame_step = xudp_read_frame.simps

fun loop_result :: "(io_error + datagram option) poll \<Rightarrow> (io_error + datagram) poll" where
  "loop_result Pending = Pending"
| "loop_result (Ready (Inl e)) = Ready (Inl e)"
| "loop_result (Ready (Inr d)) = Ready (Inr (the d))"

lemma read_frame_last:
  assumes "xudp_frame t = Some (r, t')" "r \<noteq> Ready (Inr None)"
  shows "xudp_read_frame t = Some (loop_result r, t')"
  using assms by (subst read_frame_step) (cases r rule: loop_result.cases; auto)

lemma reads_last:
  assumes "reads xudp_frame t dx buf input r b i c" "r \<noteq> Ready (Inr None)"
  shows "reads xudp_read_frame t dx buf input (loop_result r) b i c"
proof (cases r)
  case Pending
  have "xudp_read_frame (xudp_at t dx buf (input @ later)) = xudp_read_frame (xudp_at t dx b later)" for later
    using assms(1) Pending by (subst (1 2) read_frame_step) (simp add: reads_def)
  then show ?thesis
    using assms Pending read_frame_last [of "xudp_at t dx buf input"] by (simp add: reads_def)
next
  case (Ready x)
  then show ?thesis
    using assms read_frame_last by (cases x) (simp_all add: reads_def)
qed

lemma read_frame_reads:
  "xudp_good (xudp_at t dx buf input) \<Longrightarrow>
   \<exists>r buf' input' c. reads xudp_read_frame t dx buf input r buf' input' c \<and>
     (\<forall>dg. r = Ready (Inr dg) \<longrightarrow> length (dg_payload dg) \<le> unat (xu_max_response t))"
proof (induction "length buf + event_bytes input" arbitrary: buf input rule: less_induct)
  case (less buf input)
  obtain r b i c where r: "reads xudp_frame t dx buf input r b i c"
    and pay: "\<And>dg. r = Ready (Inr (Some dg)) \<Longrightarrow> length (dg_payload dg) \<le> unat (xu_max_response t)"
    using frame_reads [OF less.prems] by blast
  show ?case
  proof (cases "r = Ready (Inr None)")
    case True
    then have b: "b = []" "c = xu_closed t" "event_bytes i < length buf + event_bytes input"
      using r by (simp_all add: reads_def)
    have same: "xudp_read_frame (xudp_at t dx buf (input @ later)) = xudp_read_frame (xudp_at t dx [] (i @ later))" for later
      using r True b by (subst read_frame_step) (simp add: reads_def)
    have "xudp_good (xudp_at t dx [] i)" using less.prems by (simp add: good_at)
    from less.hyps [OF _ this] b(3) reads_from [OF _ _ same] show ?thesis by fastforce
  next
    case False
    have "length (dg_payload dg) \<le> unat (xu_max_response t)" if "loop_result r = Ready (Inr dg)" for dg
      using that pay False by (cases r rule: loop_result.cases) auto
    then show ?thesis using reads_last [OF r False] by blast
  qed
qed

section \<open>The contract\<close>

lemma xudp_open:
  assumes "xudp_good t" "\<not> xu_closed t"
  obtains dx where "xu_stream t = Some dx" "t = xudp_at t dx (xu_buffer t) (dx_input dx)"
  using assms xudp_at_same [of t] by (auto simp: xudp_good_def)

definition xudp_backlog :: "xudp \<Rightarrow> nat" where
  "xudp_backlog t = length (xu_buffer t) +
     (case xu_stream t of None \<Rightarrow> 0 | Some dx \<Rightarrow> event_bytes (dx_input dx))"

lemma receive_reads:
  assumes "xudp_good t" "\<not> xu_closed t" "xu_stream t = Some dx"
  shows "\<exists>r buf input c. reads xudp_read_frame t dx (xu_buffer t) (dx_input dx) r buf input c \<and>
    (\<forall>dg. r = Ready (Inr dg) \<longrightarrow> length (dg_payload dg) \<le> unat (xu_max_response t)) \<and>
    xudp_receive t = Some (xudp_received (r, (xudp_at t dx buf input)\<lparr>xu_closed := c\<rparr>))"
proof -
  have same: "xudp_at t dx (xu_buffer t) (dx_input dx) = t" using assms(3) by (rule xudp_at_same)
  then obtain r buf input c where
    r: "reads xudp_read_frame t dx (xu_buffer t) (dx_input dx) r buf input c"
    and "\<forall>dg. r = Ready (Inr dg) \<longrightarrow> length (dg_payload dg) \<le> unat (xu_max_response t)"
    using read_frame_reads [of t dx "xu_buffer t" "dx_input dx"] assms(1) by auto
  moreover have "xudp_receive t = Some (xudp_received (r, (xudp_at t dx buf input)\<lparr>xu_closed := c\<rparr>))"
    using r same assms(2) by (simp add: reads_def xudp_receive_def)
  ultimately show ?thesis by blast
qed

lemma xudp_receive_outcome:
  assumes "xudp_good t"
  shows "\<exists>p t'. xudp_receive t = Some (p, t') \<and> xudp_good t' \<and> xudp_budget t' = xudp_budget t \<and>
    (\<forall>dg. p = Ready (Inr dg) \<longrightarrow> length (dg_payload dg) \<le> unat (xu_max_response t) \<and>
       xudp_backlog t' < xudp_backlog t)"
proof (cases "xu_closed t")
  case False
  obtain dx where dx: "xu_stream t = Some dx" using assms False by (rule xudp_open)
  obtain r buf input c where r: "reads xudp_read_frame t dx (xu_buffer t) (dx_input dx) r buf input c"
    and pay: "\<forall>dg. r = Ready (Inr dg) \<longrightarrow> length (dg_payload dg) \<le> unat (xu_max_response t)"
    and rec: "xudp_receive t = Some (xudp_received (r, (xudp_at t dx buf input)\<lparr>xu_closed := c\<rparr>))"
    using receive_reads [OF assms False dx] by blast
  let ?s = "(xudp_at t dx buf input)\<lparr>xu_closed := c\<rparr>"
  have good: "xudp_good ?s" "xudp_good (?s\<lparr>xu_closed := True, xu_stream := None\<rparr>)"
    using assms r by (auto simp: reads_def xudp_good_def)
  have budget: "xudp_budget ?s = xudp_budget t" by (simp add: xudp_budget_def xudp_at_def fun_eq_iff)
  show ?thesis
  proof (cases "(r, ?s)" rule: xudp_received.cases)
    case (1 t')
    then show ?thesis using rec good budget by simp
  next
    case (2 e t')
    then show ?thesis using rec good budget by (auto simp: xudp_budget_def fun_eq_iff)
  next
    case (3 dg t')
    then have "r = Ready (Inr dg)" by simp
    then have "xudp_backlog ?s < xudp_backlog t"
      using r dx by (simp add: reads_def xudp_backlog_def)
    then show ?thesis using rec good budget \<open>r = Ready (Inr dg)\<close> pay by auto
  qed
qed (use assms in \<open>auto simp: xudp_receive_def\<close>)

lemma receive_arrive:
  assumes "\<not> xu_closed t" "xu_stream t = Some dx"
  shows "xudp_receive (xudp_arrive es t) =
    map_option xudp_received (xudp_read_frame (xudp_at t dx (xu_buffer t) (dx_input dx @ es)))"
proof -
  have "xudp_arrive es t = xudp_at t dx (xu_buffer t) (dx_input dx @ es)"
    using xudp_arrive_at [of es t dx "xu_buffer t" "dx_input dx"] xudp_at_same [OF assms(2)] by simp
  then show ?thesis using assms(1) by (simp add: xudp_receive_def)
qed

lemma xudp_receive_resumes:
  assumes "xudp_good t" "xudp_receive t = Some (Pending, t')"
  shows "xudp_receive (xudp_arrive es t') = xudp_receive (xudp_arrive es t)"
proof -
  have closed: "\<not> xu_closed t" using assms(2) by (auto simp: xudp_receive_def)
  obtain dx where dx: "xu_stream t = Some dx" using assms(1) closed by (rule xudp_open)
  obtain r buf input c where r: "reads xudp_read_frame t dx (xu_buffer t) (dx_input dx) r buf input c"
    and "xudp_receive t = Some (xudp_received (r, (xudp_at t dx buf input)\<lparr>xu_closed := c\<rparr>))"
    using receive_reads [OF assms(1) closed dx] by blast
  then have "r = Pending" "t' = (xudp_at t dx buf input)\<lparr>xu_closed := c\<rparr>"
    using assms(2) by (cases "(r, (xudp_at t dx buf input)\<lparr>xu_closed := c\<rparr>)" rule: xudp_received.cases; auto)+
  then have t': "t' = xudp_at t dx buf []"
    "xudp_read_frame (xudp_at t dx (xu_buffer t) (dx_input dx @ es)) = xudp_read_frame (xudp_at t dx buf es)"
    using r by (simp_all add: reads_def)
  show ?thesis
    using receive_arrive [OF closed dx, of es] receive_arrive [of t' "dx\<lparr>dx_input := []\<rparr>" es] closed t'
    by simp
qed

lemma xudp_receive_stable:
  assumes "xudp_good t" "xudp_receive t = Some (Ready p, t')"
  shows "xudp_receive (xudp_arrive es t) = Some (Ready p, xudp_arrive es t')"
proof (cases "xu_closed t")
  case True
  then show ?thesis using assms by (auto simp: xudp_receive_def xudp_arrive_def)
next
  case False
  obtain dx where dx: "xu_stream t = Some dx" using assms(1) False by (rule xudp_open)
  obtain r buf input c where r: "reads xudp_read_frame t dx (xu_buffer t) (dx_input dx) r buf input c"
    and rec: "xudp_receive t = Some (xudp_received (r, (xudp_at t dx buf input)\<lparr>xu_closed := c\<rparr>))"
    using receive_reads [OF assms(1) False dx] by blast
  let ?s = "\<lambda>i. (xudp_at t dx buf i)\<lparr>xu_closed := c\<rparr>"
  have "r \<noteq> Pending" using rec assms(2) by auto
  then have "xudp_receive (xudp_arrive es t) = Some (xudp_received (r, ?s (input @ es)))"
    using r receive_arrive [OF False dx, of es] by (cases r) (simp_all add: reads_def)
  moreover have "xudp_received (r, ?s (input @ es)) = (Ready p, xudp_arrive es t')"
    using rec assms(2) \<open>r \<noteq> Pending\<close>
    by (cases "(r, ?s input)" rule: xudp_received.cases) (auto simp: xudp_arrive_def xudp_at_def)
  ultimately show ?thesis by simp
qed

lemma xudp_send_outcome:
  assumes "xudp_good t"
  shows "\<exists>p t'. xudp_send w dg t = Some (p, t') \<and> xudp_good t'"
proof (cases "xu_closed t \<or> unat (xu_max_request t) < length (dg_payload dg)")
  case False
  then obtain dx where dx: "xu_stream t = Some dx" using assms by (auto elim: xudp_open)
  let ?enc = "encode_data_frame dg (xu_first_write t)
      (if xu_first_write t \<and> xu_global_id t \<noteq> replicate 8 0 then Some (xu_global_id t) else None)"
  show ?thesis
  proof (cases ?enc)
    case (Inl e)
    then show ?thesis using assms False by (simp add: xudp_send_def)
  next
    case (Inr frame)
    then show ?thesis
      using assms False dx by (cases w) (auto simp: xudp_send_def xudp_good_def)
  qed
qed (use assms in \<open>auto simp: xudp_send_def\<close>)

interpretation xudp: resumable_transport xudp_budget xudp_send xudp_receive xudp_arrive xudp_good xudp_backlog
proof
  fix t :: xudp and dg :: datagram and w
  assume "xudp_good t" "unat (db_transmit (xudp_budget t (dg_remote dg))) < length (dg_payload dg)"
  then show "\<exists>e. xudp_send w dg t = Some (Ready (Inl e), t)"
    by (simp add: xudp_send_def xudp_budget_def)
next
  fix t t' :: xudp and dg :: datagram
  assume "xudp_good t" "xudp_receive t = Some (Ready (Inr dg), t')"
  then show "length (dg_payload dg) \<le> unat (db_receive (xudp_budget t' (dg_remote dg)))"
    "xudp_backlog t' < xudp_backlog t"
    using xudp_receive_outcome [of t] by (auto simp: xudp_budget_def)
next
  fix t t' :: xudp and dg :: datagram and w p q e peer
  assume t: "xudp_good t"
  show "xudp_send w dg t \<noteq> None" "xudp_receive t \<noteq> None"
    using xudp_send_outcome [OF t, of w dg] xudp_receive_outcome [OF t] by auto
  show "xudp_send w dg t = Some (p, t') \<Longrightarrow> xudp_good t'" "xudp_receive t = Some (q, t') \<Longrightarrow> xudp_good t'"
    using xudp_send_outcome [OF t, of w dg] xudp_receive_outcome [OF t] by auto
  show "xudp_good (xudp_arrive e t)" "xudp_budget (xudp_arrive e t) peer = xudp_budget t peer"
    using t by (auto simp: xudp_arrive_def xudp_good_def xudp_budget_def)
qed (use xudp_receive_resumes xudp_receive_stable in blast)+

section \<open>Round trip\<close>

text \<open>With enough bytes on the way the loop reads exactly what is required, however they are cut.\<close>

lemma leftover_arrived: "\<exists>ds. leftover n c (map Arrived cs) = map Arrived ds \<and>
    ([] \<notin> set cs \<longrightarrow> [] \<notin> set ds) \<and> concat ds = drop n c @ concat cs"
proof (cases "n < length c")
  case True
  then show ?thesis
    by (intro exI [of _ "drop n c # cs"]) (auto simp: leftover_def)
qed (auto simp: leftover_def)

lemma fill_bytes:
  "input = map Arrived cs \<Longrightarrow> [] \<notin> set cs \<Longrightarrow> length buf \<le> n \<Longrightarrow> n \<le> length (buf @ concat cs) \<Longrightarrow>
   \<exists>ds. xudp_fill n buf input = (Ready (Inr ()), take n (buf @ concat cs), map Arrived ds) \<and>
     [] \<notin> set ds \<and> concat ds = drop n (buf @ concat cs)"
proof (induction buf input arbitrary: cs rule: fill_induct [of n])
  case (reads buf bs es)
  then obtain cs' where cs: "cs = bs # cs'" "es = map Arrived cs'" "[] \<notin> set cs'"
    by (cases cs) auto
  let ?k = "chunk_size n buf bs"
  obtain ds where ds: "leftover ?k bs es = map Arrived ds" "[] \<notin> set ds" "concat ds = drop ?k bs @ concat cs'"
    using leftover_arrived [of ?k bs cs'] cs by auto
  have "?k \<le> n - length buf" "?k \<le> length bs" by (simp_all add: chunk_size_def)
  then have whole: "(buf @ take ?k bs) @ concat ds = buf @ concat cs" and "length (buf @ take ?k bs) \<le> n"
    using ds(3) cs(1) reads.prems(3) by simp_all
  from reads.IH [OF ds(1,2) this(2), unfolded whole, OF reads.prems(4)] show ?case
    by (simp only: fill_steps(4) [OF reads.hyps])
qed (auto simp: fill_enough)

lemma fill_buffer_bytes:
  assumes "[] \<notin> set cs" "length buf \<le> n" "n \<le> length (buf @ concat cs)" "n \<le> xu_max_buffer t"
  obtains ds where "xudp_fill_buffer n (xudp_at t dx buf (map Arrived cs)) =
      Some (Ready (Inr ()), xudp_at t dx (take n (buf @ concat cs)) (map Arrived ds))"
    "[] \<notin> set ds" "take n (buf @ concat cs) @ concat ds = buf @ concat cs"
proof -
  obtain ds where "xudp_fill n buf (map Arrived cs) = (Ready (Inr ()), take n (buf @ concat cs), map Arrived ds)"
    "[] \<notin> set ds" "concat ds = drop n (buf @ concat cs)"
    using fill_bytes [OF refl assms(1-3)] by blast
  then show thesis
    by (intro that [of ds]) (simp_all only: fill_buffer_open [OF assms(4)] prod.case append_take_drop_id simp_thms)
qed

text \<open>One data frame of the wire format, with its metadata and its payload.\<close>

lemma encode_port_first_length:
  "encode_port_first d [] = Inr w \<Longrightarrow> length w \<le> 259"
  by (cases "(d, [] :: bytes)" rule: encode_port_first.cases) (auto split: if_splits)

lemma encode_data_frame_form:
  assumes "encode_data_frame dg False None = Inr frame"
  obtains target where "encode_port_first (dg_remote dg) [] = Inr target" "length target \<le> 259"
    "frame = be16 (of_nat (5 + length target)) @ ([0, 0, 2, 1, 2] @ target) @
       be16 (of_nat (length (dg_payload dg))) @ dg_payload dg"
    "length (dg_payload dg) \<le> 65535"
proof -
  have "be16 0 = [0, 0]" by (simp add: be16_def numeral_2_eq_2)
  then show thesis
    using assms that encode_port_first_length
    by (auto simp: encode_data_frame_def Let_def xudp_constants res_simps split: if_splits)
qed

lemma data_frame_meta:
  assumes "wire_destination d" "encode_port_first d [] = Inr target"
  shows "xudp_meta last_remote ([0, 0, 2, 1, 2] @ target) = Inr (Some (STATUS_KEEP, Some d))"
  using decode_encode_port_first [OF assms, of "[]"]
  by (simp add: xudp_meta_def xudp_status_def xudp_remote_def xudp_constants subslice_def)

lemma buffer_u16_at: "length a = i \<Longrightarrow> buffer_u16 (a @ be16 w @ b) i = w"
proof -
  assume "length a = i"
  moreover obtain x y where "be16 w = [x, y]"
    using length_be(1) [of w] by (metis (no_types, lifting) length_0_conv length_Suc_conv numeral_2_eq_2)
  moreover have "u16_of (be16 w) = w" by simp
  ultimately show ?thesis by (simp add: buffer_u16_def nth_append)
qed

lemma buffer_u16_take: "i + 1 < n \<Longrightarrow> n \<le> length buf \<Longrightarrow> buffer_u16 (take n buf) i = buffer_u16 buf i"
  by (simp add: buffer_u16_def)

lemma subslice_take: "j \<le> n \<Longrightarrow> subslice (take n xs) i j = subslice xs i j"
  by (cases "i \<le> j") (simp_all add: subslice_def take_drop)

lemma fill_buffer_upto:
  assumes "[] \<notin> set cs" "take k X @ concat cs = X" "k \<le> n" "n \<le> length X" "n \<le> xu_max_buffer t"
  obtains ds where "xudp_fill_buffer n (xudp_at t dx (take k X) (map Arrived cs)) =
      Some (Ready (Inr ()), xudp_at t dx (take n X) (map Arrived ds))"
    "[] \<notin> set ds" "take n X @ concat ds = X"
  using fill_buffer_bytes [OF assms(1), of "take k X" n t dx] assms(2-5) by auto

text \<open>Where the fields of a data frame lie.\<close>

lemma data_frame_fields:
  assumes "X = (be16 (of_nat m) @ metadata @ be16 (of_nat (length payload)) @ payload) @ rest"
    and "m = length metadata" "m \<le> 512" "length payload \<le> 65535"
  shows "unat (buffer_u16 X 0) = m" "subslice X 2 (2 + m) = metadata"
    "unat (buffer_u16 X (2 + m)) = length payload"
    "subslice X (2 + m + 2) (2 + m + 2 + length payload) = payload"
    "X = take (2 + m + 2 + length payload) X @ rest" "2 + m + 2 + length payload \<le> length X"
proof -
  have small: "unat (of_nat n :: u16) = n" if "n \<le> 65535" for n
    using that by (simp add: unat_of_nat)
  show "unat (buffer_u16 X 0) = m"
    using buffer_u16_at [of "[]" 0 "of_nat m" "metadata @ be16 (of_nat (length payload)) @ payload @ rest"]
      small [of m] assms by simp
  show "unat (buffer_u16 X (2 + m)) = length payload"
    using buffer_u16_at [of "be16 (of_nat m) @ metadata" "2 + m" "of_nat (length payload)" "payload @ rest"]
      small [of "length payload"] assms by simp
  show "subslice X 2 (2 + m) = metadata"
    "subslice X (2 + m + 2) (2 + m + 2 + length payload) = payload"
    "X = take (2 + m + 2 + length payload) X @ rest" "2 + m + 2 + length payload \<le> length X"
    using assms(1,2) by (simp_all add: subslice_def)
qed

lemma frame_of_fields:
  assumes X: "unat (buffer_u16 X 0) = m" "4 \<le> m" "m \<le> MAX_METADATA_LENGTH"
    and meta: "xudp_meta (xu_last_remote t) (subslice X 2 (2 + m)) = Inr (Some (status, remote))"
    and len: "n = 2 + m + 2 + unat (buffer_u16 X (2 + m))" "n \<le> length X" "n \<le> xu_max_buffer t"
      "\<not> xu_max_response t < buffer_u16 X (2 + m)"
    and input: "[] \<notin> set cs" "concat cs = X"
  obtains ds where "xudp_frame (xudp_at t dx [] (map Arrived cs)) =
      xudp_finish (2 + m + 2) n status remote (xudp_at t dx (take n X) (map Arrived ds))"
    "[] \<notin> set ds" "take n X @ concat ds = X"
proof -
  obtain c1 where c1: "xudp_fill_buffer 2 (xudp_at t dx [] (map Arrived cs)) =
      Some (Ready (Inr ()), xudp_at t dx (take 2 X) (map Arrived c1))" "[] \<notin> set c1" "take 2 X @ concat c1 = X"
    by (rule fill_buffer_upto [of cs 0 X 2 t dx]) (use input len in auto)
  obtain c2 where c2: "xudp_fill_buffer (2 + m) (xudp_at t dx (take 2 X) (map Arrived c1)) =
      Some (Ready (Inr ()), xudp_at t dx (take (2 + m) X) (map Arrived c2))" "[] \<notin> set c2"
      "take (2 + m) X @ concat c2 = X"
    by (rule fill_buffer_upto [OF c1(2,3), of "2 + m" t dx]) (use len in auto)
  obtain c3 where c3: "xudp_fill_buffer (2 + m + 2) (xudp_at t dx (take (2 + m) X) (map Arrived c2)) =
      Some (Ready (Inr ()), xudp_at t dx (take (2 + m + 2) X) (map Arrived c3))" "[] \<notin> set c3"
      "take (2 + m + 2) X @ concat c3 = X"
    by (rule fill_buffer_upto [OF c2(2,3), of "2 + m + 2" t dx]) (use len in auto)
  obtain c4 where c4: "xudp_fill_buffer n (xudp_at t dx (take (2 + m + 2) X) (map Arrived c3)) =
      Some (Ready (Inr ()), xudp_at t dx (take n X) (map Arrived c4))" "[] \<notin> set c4"
      "take n X @ concat c4 = X"
    by (rule fill_buffer_upto [OF c3(2,3), of n t dx]) (use len in auto)
  have fields: "buffer_u16 (take 2 X) 0 = buffer_u16 X 0"
    "buffer_u16 (take (2 + m + 2) X) (2 + m) = buffer_u16 X (2 + m)"
    "subslice (take (2 + m) X) 2 (2 + m) = subslice X 2 (2 + m)"
    using len(1,2) by (simp_all add: buffer_u16_take subslice_take)
  have "xudp_frame (xudp_at t dx [] (map Arrived cs)) =
      xudp_metadata (2 + m) (xudp_at t dx (take (2 + m) X) (map Arrived c2))"
    using c1(1) c2(1) fields(1) X by (simp add: xudp_frame_def xudp_header_def Let_def)
  moreover have "\<dots> = xudp_payload (2 + m) status remote (xudp_at t dx (take (2 + m + 2) X) (map Arrived c3))"
    using c3(1) fields(3) meta by (simp add: xudp_metadata_def)
  moreover have "\<dots> = xudp_finish (2 + m + 2) n status remote (xudp_at t dx (take n X) (map Arrived c4))"
    using c4(1) fields(2) len(1,4) by (simp add: xudp_payload_def Let_def)
  ultimately show thesis using that [of c4] c4(2,3) by simp
qed

lemma frame_of_bytes:
  assumes good: "xudp_good (xudp_at t dx [] (map Arrived cs))"
    and dg: "wire_destination (dg_remote dg)" "dg_sniffed_domain dg = None"
    and enc: "encode_data_frame dg False None = Inr frame"
    and fits: "length (dg_payload dg) \<le> unat (xu_max_response t)"
    and input: "[] \<notin> set cs" "concat cs = frame @ rest"
  shows "\<exists>ds. xudp_frame (xudp_at t dx [] (map Arrived cs)) =
      Some (Ready (Inr (Some dg)), xudp_at t dx [] (map Arrived ds)) \<and> concat ds = rest \<and> [] \<notin> set ds"
proof -
  obtain target where target: "encode_port_first (dg_remote dg) [] = Inr target" "length target \<le> 259"
    and frame: "frame = be16 (of_nat (5 + length target)) @ ([0, 0, 2, 1, 2] @ target) @
       be16 (of_nat (length (dg_payload dg))) @ dg_payload dg" and pay: "length (dg_payload dg) \<le> 65535"
    using enc by (rule encode_data_frame_form)
  define m where "m = 5 + length target"
  define X where "X = frame @ rest"
  let ?n = "2 + m + 2 + length (dg_payload dg)"
  have "X = (be16 (of_nat m) @ ([0, 0, 2, 1, 2] @ target) @ be16 (of_nat (length (dg_payload dg))) @ dg_payload dg) @ rest"
    by (simp only: X_def frame m_def)
  note X = data_frame_fields [OF this _ _ pay]
  have m: "m = length ([0, 0, 2, 1, 2 :: u8] @ target)" "m \<le> 512" "4 \<le> m"
    using target(2) by (simp_all add: m_def)
  have max: "?n \<le> xu_max_buffer t"
    using good fits target(2) by (simp add: good_at MAX_METADATA_LENGTH_def m_def)
  have "\<not> xu_max_response t < buffer_u16 X (2 + m)"
    using X(3) [OF m(1,2)] fits by (simp add: word_less_nat_alt)
  from frame_of_fields [of X m t STATUS_KEEP "Some (dg_remote dg)" ?n cs dx, OF _ _ _ _ _ _ max this input(1)]
  obtain ds where ds: "xudp_frame (xudp_at t dx [] (map Arrived cs)) =
      xudp_finish (2 + m + 2) ?n STATUS_KEEP (Some (dg_remote dg)) (xudp_at t dx (take ?n X) (map Arrived ds))"
    "[] \<notin> set ds" "take ?n X @ concat ds = X"
    using X [OF m(1,2)] m(3) data_frame_meta [OF dg(1) target(1)] input(2)
    by (metis MAX_METADATA_LENGTH_def X_def m(2))
  have "subslice (take ?n X) (2 + m + 2) ?n = dg_payload dg"
    using X(4) [OF m(1,2)] by (simp only: subslice_take order_refl)
  then have "xudp_frame (xudp_at t dx [] (map Arrived cs)) =
      Some (Ready (Inr (Some dg)), xudp_at t dx [] (map Arrived ds))"
    using ds(1) dg(2) by (simp add: xudp_finish_def STATUS_KEEP_def STATUS_KEEP_ALIVE_def xudp_at_def)
  moreover have "concat ds = rest" using ds(3) X(5) [OF m(1,2)] by (metis same_append_eq)
  ultimately show ?thesis using ds(2) by blast
qed

section \<open>The life of an association\<close>

inductive xudp_run :: "xudp \<Rightarrow> bool" where
  opened: "length global_id = 8 \<Longrightarrow> xudp_run (xudp_with_budget stream global_id limits)"
| sent: "xudp_run t \<Longrightarrow> xudp_send w dg t = Some (r, t') \<Longrightarrow> xudp_run t'"
| received: "xudp_run t \<Longrightarrow> xudp_receive t = Some (r, t') \<Longrightarrow> xudp_run t'"
| arrived: "xudp_run t \<Longrightarrow> xudp_run (xudp_arrive es t)"
| closed: "xudp_run t \<Longrightarrow> xudp_close w t = Some (r, bs, t') \<Longrightarrow> xudp_run t'"

lemma xudp_run_good: "xudp_run t \<Longrightarrow> xudp_good t"
proof (induction rule: xudp_run.induct)
  case (opened global_id stream limits)
  then show ?case by (simp add: xudp_good_def xudp_with_budget_def)
next
  case (closed t w r bs t')
  then show ?case by (auto simp: xudp_close_def xudp_good_def split: if_splits)
qed (auto intro: xudp.good_send xudp.good_receive xudp.good_arrive)

lemma xudp_closed_ops:
  assumes "xu_closed t"
  shows "xudp_send w dg t = Some (Ready (Inl (DispatchOther AssociationClosed)), t)"
    "xudp_receive t = Some (Ready (Inl (DispatchOther AssociationClosed)), t)"
  using assms by (simp_all add: xudp_send_def xudp_receive_def)



text \<open>
  Claim C40. A data frame of the wire format is received back as the datagram it was made from,
  however the stream cuts it into reads, and the bytes after it are left for the next call.
\<close>

theorem xudp_frame_roundtrip:
  assumes "xudp_run t" "\<not> xu_closed t" "xu_buffer t = []" "xu_stream t = Some dx"
    and "dx_input dx = map Arrived cs" "[] \<notin> set cs" "concat cs = frame @ rest"
    and "wire_destination (dg_remote dg)" "dg_sniffed_domain dg = None"
    and "encode_data_frame dg False None = Inr frame"
    and "length (dg_payload dg) \<le> unat (xu_max_response t)"
  shows "\<exists>ds. xudp_receive t =
      Some (Ready (Inr dg), t\<lparr>xu_stream := Some (dx\<lparr>dx_input := map Arrived ds\<rparr>)\<rparr>) \<and>
    concat ds = rest \<and> [] \<notin> set ds"
proof -
  have t: "xudp_at t dx [] (map Arrived cs) = t"
    using xudp_at_same [OF assms(4)] assms(3,5) by simp
  then obtain ds where ds: "xudp_frame t = Some (Ready (Inr (Some dg)), xudp_at t dx [] (map Arrived ds))"
    "concat ds = rest" "[] \<notin> set ds"
    using frame_of_bytes [of t dx cs dg frame rest] xudp_run_good [OF assms(1)] assms(6-11) by auto
  then have "xudp_receive t = Some (Ready (Inr dg), xudp_at t dx [] (map Arrived ds))"
    using assms(2) read_frame_last [OF ds(1)] by (simp add: xudp_receive_def)
  then show ?thesis
    using ds(2,3) assms(3) by (auto simp: xudp_at_def intro!: exI [of _ ds])
qed

theorem xudp_frame_roundtrip_witness:
  "\<exists>ds. xudp_receive (xudp_with_budget
        \<lparr>dx_input = [Arrived [0, 12, 0], Arrived [0, 2, 1, 2, 0, 53, 1, 1, 2, 3, 4, 0, 1, 7, 9]], dx_output = []\<rparr>
        (replicate 8 0) (budget_new 9 9)) =
      Some (Ready (Inr \<lparr>dg_remote = DestIp (SocketV4 0x01020304 53), dg_payload = [7], dg_sniffed_domain = None\<rparr>),
        (xudp_with_budget \<lparr>dx_input = map Arrived ds, dx_output = []\<rparr> (replicate 8 0) (budget_new 9 9))) \<and>
     concat ds = [9]"
proof -
  let ?dx = "\<lparr>dx_input = [Arrived [0, 12, 0], Arrived [0, 2, 1, 2, 0, 53, 1, 1, 2, 3, 4, 0, 1, 7, 9]],
      dx_output = []\<rparr>"
  let ?t = "xudp_with_budget ?dx (replicate 8 0) (budget_new 9 9)"
  let ?dg = "\<lparr>dg_remote = DestIp (SocketV4 0x01020304 53), dg_payload = [7], dg_sniffed_domain = None\<rparr>"
  have enc: "encode_data_frame ?dg False None =
      Inr [0, 12, 0, 0, 2, 1, 2, 0, 53, 1, 1, 2, 3, 4, 0, 1, 7]"
    by (simp add: encode_data_frame_def be16_def be32_def to_be_2 to_be_4 xudp_constants)
  have run: "xudp_run ?t" by (rule opened) simp
  show ?thesis
    using xudp_frame_roundtrip [OF run, of ?dx "[[0, 12, 0], [0, 2, 1, 2, 0, 53, 1, 1, 2, 3, 4, 0, 1, 7, 9]]",
        OF _ _ _ _ _ _ _ _ enc, of "[9]"]
    by (auto simp: xudp_with_budget_def)
qed

text \<open>A bounded XUDP transport: the contract of the wrapper on a transport of the program.\<close>

theorem bounded_transport_witness:
  "resumable_transport (bounded_budget xudp_budget) (bounded_send xudp_budget xudp_send)
     (bounded_receive xudp_budget xudp_receive) (bounded_arrive xudp_arrive)
     (\<lambda>b. xudp_good (bd_inner b)) (\<lambda>b. xudp_backlog (bd_inner b))"
  using bounded_transport [OF xudp.datagram_transport_axioms] xudp.resumable_transport_axioms by blast

end
