(* ===== verification/Geo_Proto.thy ===== *)
theory Geo_Proto
  imports Geo_Selectors
begin

text \<open>
  The protobuf reader of \<^verbatim>\<open>src/geodata/mod.rs\<close>. A file is the string of its bytes with the position
  of the next read; a read past its last byte is an input error. Positions and lengths are numbers
  with the bound of \<^verbatim>\<open>u64\<close> written out. The allocation ledger is accounting that never refuses, and
  is not part of the model; neither is a failing disk or allocator.
\<close>

unbundle bit_operations_syntax

lemma and_then_cong [fundef_cong]:
  "r = r' \<Longrightarrow> (\<And>x. r' = Inr x \<Longrightarrow> f x = f' x) \<Longrightarrow> and_then r f = and_then r' f'"
  by (cases r') simp_all

section \<open>Positions\<close>

definition u64_max :: nat where "u64_max = 2 ^ 64 - 1"

definition checked_end :: "geo_data_kind \<Rightarrow> nat \<Rightarrow> nat \<Rightarrow> nat \<Rightarrow> geo_data_error + nat" where
  "checked_end kind start len outer_end =
     (if u64_max < start + len then Inl (GeoMalformed kind)
      else if outer_end < start + len then Inl (GeoMalformed kind)
      else Inr (start + len))"

definition file_read :: "geo_data_kind \<Rightarrow> bytes \<Rightarrow> nat \<Rightarrow> nat \<Rightarrow> geo_data_error + bytes \<times> nat" where
  "file_read kind file len pos =
     (if pos + len \<le> length file then Inr (subslice file pos (pos + len), pos + len)
      else Inl (GeoIo kind UnexpectedEof))"

definition geo_read_exact :: "geo_data_kind \<Rightarrow> bytes \<Rightarrow> nat \<Rightarrow> nat \<Rightarrow> nat \<Rightarrow> geo_data_error + bytes \<times> nat" where
  "geo_read_exact kind file end len pos =
     and_then (checked_end kind pos len end) (\<lambda>_. file_read kind file len pos)"

section \<open>Fields\<close>

text \<open>The loop of \<^verbatim>\<open>read_varint\<close> with the bytes that are left, counted down from ten.\<close>

fun read_varint_loop ::
  "geo_data_kind \<Rightarrow> bytes \<Rightarrow> nat \<Rightarrow> nat \<Rightarrow> u64 \<Rightarrow> nat \<Rightarrow> geo_data_error + u64 \<times> nat" where
  "read_varint_loop kind file end 0 value pos = Inl (GeoMalformed kind)"
| "read_varint_loop kind file end (Suc n) value pos =
     (if end \<le> pos then Inl (GeoMalformed kind)
      else and_then (file_read kind file 1 pos) (\<lambda>(bs, pos').
        let byte = bs ! 0; index = 9 - n in
        if index = 9 \<and> 1 < byte then Inl (GeoMalformed kind)
        else
          (let value' = value OR push_bit (index * 7) (ucast (byte AND 0x7F)) in
           if byte AND 0x80 = 0 then Inr (value', pos')
           else read_varint_loop kind file end n value' pos')))"

definition read_varint :: "geo_data_kind \<Rightarrow> bytes \<Rightarrow> nat \<Rightarrow> nat \<Rightarrow> geo_data_error + u64 \<times> nat" where
  "read_varint kind file end pos = read_varint_loop kind file end 10 0 pos"

definition read_key :: "geo_data_kind \<Rightarrow> bytes \<Rightarrow> nat \<Rightarrow> nat \<Rightarrow> geo_data_error + u32 \<times> u8 \<times> nat" where
  "read_key kind file end pos =
     and_then (read_varint kind file end pos) (\<lambda>(key, pos').
     let field = drop_bit 3 key in
     if field = 0 \<or> 0xFFFFFFFF < field then Inl (GeoMalformed kind)
     else Inr (ucast field, ucast (key AND 7), pos'))"

definition read_length :: "geo_data_kind \<Rightarrow> bytes \<Rightarrow> nat \<Rightarrow> nat \<Rightarrow> geo_data_error + nat \<times> nat" where
  "read_length kind file end pos =
     and_then (read_varint kind file end pos) (\<lambda>(len, pos').
     and_then (checked_end kind pos' (unat len) end) (\<lambda>_. Inr (unat len, pos')))"

definition skip_bytes :: "geo_data_kind \<Rightarrow> nat \<Rightarrow> nat \<Rightarrow> nat \<Rightarrow> geo_data_error + nat" where
  "skip_bytes kind end len pos = checked_end kind pos len end"

definition skip_field_payload ::
  "geo_data_kind \<Rightarrow> bytes \<Rightarrow> nat \<Rightarrow> u8 \<Rightarrow> nat \<Rightarrow> geo_data_error + nat" where
  "skip_field_payload kind file end wire pos =
     (if wire = 0 then and_then (read_varint kind file end pos) (\<lambda>(_, pos'). Inr pos')
      else if wire = 1 then skip_bytes kind end 8 pos
      else if wire = 2 then
        and_then (read_length kind file end pos) (\<lambda>(len, pos'). skip_bytes kind end len pos')
      else if wire = 5 then skip_bytes kind end 4 pos
      else Inl (GeoMalformed kind))"

definition require_wire :: "geo_data_kind \<Rightarrow> u8 \<Rightarrow> u8 \<Rightarrow> geo_data_error + unit" where
  "require_wire kind actual expected = (if actual \<noteq> expected then Inl (GeoMalformed kind) else Inr ())"

definition read_code :: "geo_data_kind \<Rightarrow> bytes \<Rightarrow> nat \<Rightarrow> nat \<Rightarrow> geo_data_error + bytes \<times> nat" where
  "read_code kind file end pos =
     and_then (read_length kind file end pos) (\<lambda>(len, pos').
     if MAX_CODE_BYTES < len then Inl (InvalidCode kind (str ''<more than 64 bytes>''))
     else and_then (geo_read_exact kind file end len pos') (\<lambda>(raw, pos'').
       and_then (code_parse kind raw) (\<lambda>code. Inr (code, pos''))))"

text \<open>\<^verbatim>\<open>read_scratch\<close> returns the new contents of the buffer.\<close>

definition read_scratch ::
  "geo_data_kind \<Rightarrow> bytes \<Rightarrow> nat \<Rightarrow> nat \<Rightarrow> geo_data_error + bytes \<times> nat" where
  "read_scratch kind file offset len =
     (if u64_max < offset + len then Inl (GeoMalformed kind)
      else geo_read_exact kind file (offset + len) len offset)"

section \<open>Strings\<close>

text \<open>The state of \<^verbatim>\<open>validate_utf8_bytes\<close>: the continuation bytes due, and the bounds of the next one.\<close>

record utf8_state =
  us_continuation :: nat
  us_min :: u8
  us_max :: u8

definition utf8_start :: utf8_state where
  "utf8_start = \<lparr>us_continuation = 0, us_min = 0x80, us_max = 0xBF\<rparr>"

definition utf8_step :: "utf8_state \<Rightarrow> u8 \<Rightarrow> utf8_state option" where
  "utf8_step s b =
     (if us_continuation s \<noteq> 0 then
        if b < us_min s \<or> us_max s < b then None
        else Some \<lparr>us_continuation = us_continuation s - 1, us_min = 0x80, us_max = 0xBF\<rparr>
      else if b \<le> 0x7F then Some s
      else if 0xC2 \<le> b \<and> b \<le> 0xDF then Some (s\<lparr>us_continuation := 1\<rparr>)
      else if b = 0xE0 then Some (s\<lparr>us_continuation := 2, us_min := 0xA0\<rparr>)
      else if (0xE1 \<le> b \<and> b \<le> 0xEC) \<or> (0xEE \<le> b \<and> b \<le> 0xEF) then Some (s\<lparr>us_continuation := 2\<rparr>)
      else if b = 0xED then Some (s\<lparr>us_continuation := 2, us_max := 0x9F\<rparr>)
      else if b = 0xF0 then Some (s\<lparr>us_continuation := 3, us_min := 0x90\<rparr>)
      else if 0xF1 \<le> b \<and> b \<le> 0xF3 then Some (s\<lparr>us_continuation := 3\<rparr>)
      else if b = 0xF4 then Some (s\<lparr>us_continuation := 3, us_max := 0x8F\<rparr>)
      else None)"

fun utf8_steps :: "utf8_state \<Rightarrow> bytes \<Rightarrow> utf8_state option" where
  "utf8_steps s [] = Some s"
| "utf8_steps s (b # bs) = Option.bind (utf8_step s b) (\<lambda>s'. utf8_steps s' bs)"

text \<open>The outer loop reads the string in pieces of 256 bytes.\<close>

function validate_utf8_loop ::
  "geo_data_kind \<Rightarrow> bytes \<Rightarrow> utf8_state \<Rightarrow> nat \<Rightarrow> nat \<Rightarrow> geo_data_error + utf8_state \<times> nat" where
  "validate_utf8_loop kind file s remaining pos =
     (if remaining = 0 then Inr (s, pos)
      else
        (let n = min remaining 256 in
         and_then (file_read kind file n pos) (\<lambda>(chunk, pos').
         case utf8_steps s chunk of
           None \<Rightarrow> Inl (GeoMalformed kind)
         | Some s' \<Rightarrow> validate_utf8_loop kind file s' (remaining - n) pos')))"
  by pat_completeness auto

termination by (relation "measure (\<lambda>(kind, file, s, remaining, pos). remaining)") auto

declare validate_utf8_loop.simps [simp del]

definition validate_utf8_bytes ::
  "geo_data_kind \<Rightarrow> bytes \<Rightarrow> nat \<Rightarrow> nat \<Rightarrow> nat \<Rightarrow> geo_data_error + nat" where
  "validate_utf8_bytes kind file end len pos =
     and_then (checked_end kind pos len end) (\<lambda>_.
     and_then (validate_utf8_loop kind file utf8_start len pos) (\<lambda>(s, pos').
     if us_continuation s \<noteq> 0 then Inl (GeoMalformed kind) else Inr pos'))"

section \<open>Positions only move forward, inside the enclosing message\<close>

lemma checked_end_Inr_iff [res_simps]:
  "checked_end kind start len outer_end = Inr e \<longleftrightarrow>
     e = start + len \<and> start + len \<le> outer_end \<and> start + len \<le> u64_max"
  by (auto simp: checked_end_def)

lemma file_read_Inr_iff [res_simps]:
  "file_read kind file len pos = Inr (bs, p) \<longleftrightarrow>
     pos + len \<le> length file \<and> bs = subslice file pos (pos + len) \<and> p = pos + len"
  by (auto simp: file_read_def)

lemma geo_read_exact_Inr_iff [res_simps]:
  "geo_read_exact kind file end len pos = Inr (bs, p) \<longleftrightarrow>
     pos + len \<le> end \<and> pos + len \<le> u64_max \<and> pos + len \<le> length file \<and>
     bs = subslice file pos (pos + len) \<and> p = pos + len"
  by (auto simp: geo_read_exact_def res_simps)

lemma read_varint_loop_pos:
  "read_varint_loop kind file end n value pos = Inr (v, p) \<Longrightarrow> pos < p \<and> p \<le> end \<and> p \<le> length file"
  by (induction n arbitrary: "value" pos)
    (fastforce simp: res_simps Let_def split: if_splits)+

lemma read_varint_pos:
  "read_varint kind file end pos = Inr (v, p) \<Longrightarrow> pos < p \<and> p \<le> end \<and> p \<le> length file"
  by (auto simp: read_varint_def dest: read_varint_loop_pos)

lemma read_key_pos:
  "read_key kind file end pos = Inr (field, wire, p) \<Longrightarrow> pos < p \<and> p \<le> end"
  by (auto simp: read_key_def res_simps Let_def split: if_splits dest: read_varint_pos)

lemma read_length_pos:
  "read_length kind file end pos = Inr (len, p) \<Longrightarrow> pos < p \<and> p + len \<le> end \<and> p + len \<le> u64_max"
  by (auto simp: read_length_def res_simps dest: read_varint_pos)

lemma skip_field_payload_pos:
  "skip_field_payload kind file end wire pos = Inr p \<Longrightarrow> pos < p"
  by (auto simp: skip_field_payload_def skip_bytes_def res_simps split: if_splits
      dest: read_varint_pos dest!: read_length_pos)

lemma skip_field_payload_end:
  "skip_field_payload kind file end wire pos = Inr p \<Longrightarrow> p \<le> end"
  by (auto simp: skip_field_payload_def skip_bytes_def res_simps split: if_splits
      dest: read_varint_pos dest!: read_length_pos)

lemma read_code_pos:
  "read_code kind file end pos = Inr (code, p) \<Longrightarrow> pos < p \<and> p \<le> end"
  by (auto simp: read_code_def res_simps split: if_splits dest!: read_length_pos)

lemma require_wire_Inr_iff [res_simps]: "require_wire kind actual expected = Inr u \<longleftrightarrow> actual = expected"
  by (auto simp: require_wire_def)

section \<open>The streaming UTF-8 check\<close>

definition utf8_accepts :: "utf8_state \<Rightarrow> bytes \<Rightarrow> bool" where
  "utf8_accepts s bs = (case utf8_steps s bs of None \<Rightarrow> False | Some s' \<Rightarrow> us_continuation s' = 0)"

lemma utf8_accepts_Nil [simp]: "utf8_accepts s [] \<longleftrightarrow> us_continuation s = 0"
  by (simp add: utf8_accepts_def)

lemma utf8_accepts_Cons:
  "utf8_accepts s (b # bs) = (case utf8_step s b of None \<Rightarrow> False | Some s' \<Rightarrow> utf8_accepts s' bs)"
  by (auto simp: utf8_accepts_def split: option.splits)

lemma utf8_accepts_due [simp]:
  "utf8_accepts \<lparr>us_continuation = Suc n, us_min = lo, us_max = hi\<rparr> bs =
     (case bs of [] \<Rightarrow> False
      | c # rest \<Rightarrow> lo \<le> c \<and> c \<le> hi \<and> utf8_accepts \<lparr>us_continuation = n, us_min = 0x80, us_max = 0xBF\<rparr> rest)"
  by (cases bs) (auto simp: utf8_accepts_Cons utf8_step_def not_less)

lemma utf8_steps_append:
  "utf8_steps s (xs @ ys) = Option.bind (utf8_steps s xs) (\<lambda>s'. utf8_steps s' ys)"
  by (induction xs arbitrary: s) (auto split: option.splits)

text \<open>The first byte of a character, by the rows of the table that \<^const>\<open>utf8_valid\<close> follows.\<close>

lemma utf8_step_start:
  "utf8_step \<lparr>us_continuation = 0, us_min = 0x80, us_max = 0xBF\<rparr> b =
     (if b < 0x80 then Some \<lparr>us_continuation = 0, us_min = 0x80, us_max = 0xBF\<rparr>
      else if 0xC2 \<le> b \<and> b \<le> 0xDF then Some \<lparr>us_continuation = 1, us_min = 0x80, us_max = 0xBF\<rparr>
      else if 0xE0 \<le> b \<and> b \<le> 0xEF then
        Some \<lparr>us_continuation = 2, us_min = (if b = 0xE0 then 0xA0 else 0x80),
              us_max = (if b = 0xED then 0x9F else 0xBF)\<rparr>
      else if 0xF0 \<le> b \<and> b \<le> 0xF4 then
        Some \<lparr>us_continuation = 3, us_min = (if b = 0xF0 then 0x90 else 0x80),
              us_max = (if b = 0xF4 then 0x8F else 0xBF)\<rparr>
      else None)"
proof -
  have eq: "b = w \<longleftrightarrow> unat b = unat w" for w :: u8 by (simp add: word_unat_eq_iff)
  have "unat b < 256" by simp
  then consider "unat b \<le> 127" | "127 < unat b" "unat b < 194" | "194 \<le> unat b" "unat b \<le> 223"
    | "unat b = 224" | "225 \<le> unat b" "unat b \<le> 236" | "unat b = 237" | "238 \<le> unat b" "unat b \<le> 239"
    | "unat b = 240" | "241 \<le> unat b" "unat b \<le> 243" | "unat b = 244" | "244 < unat b"
    by linarith
  then show ?thesis
    unfolding utf8_step_def eq word_le_nat_alt word_less_nat_alt by cases simp_all
qed

lemma utf8_accepts_start:
  "utf8_accepts \<lparr>us_continuation = 0, us_min = 0x80, us_max = 0xBF\<rparr> bs = utf8_valid bs"
proof (induction bs rule: utf8_valid.induct)
  case (2 b bs)
  let ?s = "\<lparr>us_continuation = 0, us_min = 0x80, us_max = 0xBF\<rparr> :: utf8_state"
  note accepts = utf8_accepts_Cons [of ?s b bs, unfolded utf8_step_start]
  consider (one) "b < 0x80" | (two) "\<not> b < 0x80" "0xC2 \<le> b \<and> b \<le> 0xDF"
    | (three) "\<not> b < 0x80" "\<not> (0xC2 \<le> b \<and> b \<le> 0xDF)" "0xE0 \<le> b \<and> b \<le> 0xEF"
    | (four) "\<not> b < 0x80" "\<not> (0xC2 \<le> b \<and> b \<le> 0xDF)" "\<not> (0xE0 \<le> b \<and> b \<le> 0xEF)"
        "0xF0 \<le> b \<and> b \<le> 0xF4"
    | (bad) "\<not> b < 0x80" "\<not> (0xC2 \<le> b \<and> b \<le> 0xDF)" "\<not> (0xE0 \<le> b \<and> b \<le> 0xEF)"
        "\<not> (0xF0 \<le> b \<and> b \<le> 0xF4)"
    by blast
  then show ?case
  proof cases
    case one
    then show ?thesis unfolding accepts using 2(1) by simp
  next
    case two
    then show ?thesis unfolding accepts using 2(2)
      by (cases bs) (simp_all add: utf8_tail_def)
  next
    case three
    have due: "utf8_accepts \<lparr>us_continuation = 2, us_min = lo, us_max = hi\<rparr> bs \<longleftrightarrow>
        (case bs of c # d # rest \<Rightarrow> (lo \<le> c \<and> c \<le> hi) \<and> utf8_tail d \<and> utf8_valid rest | _ \<Rightarrow> False)"
      for lo hi using 2(3) [OF three]
      by (auto simp: numeral_2_eq_2 utf8_tail_def split: list.split)
    have bounds: "((if b = 0xE0 then 0xA0 else 0x80) \<le> c \<and> c \<le> (if b = 0xED then 0x9F else 0xBF)) =
        (if b = 0xE0 then 0xA0 \<le> c \<and> c \<le> 0xBF else if b = 0xED then 0x80 \<le> c \<and> c \<le> 0x9F else utf8_tail c)"
      for c :: u8 by (cases "b = 0xE0"; cases "b = 0xED") (simp_all add: utf8_tail_def)
    show ?thesis unfolding accepts utf8_valid.simps
      by (simp only: three simp_thms if_True if_False option.case due bounds)
  next
    case four
    have due: "utf8_accepts \<lparr>us_continuation = 3, us_min = lo, us_max = hi\<rparr> bs \<longleftrightarrow>
        (case bs of c # d # e # rest \<Rightarrow> (lo \<le> c \<and> c \<le> hi) \<and> utf8_tail d \<and> utf8_tail e \<and> utf8_valid rest | _ \<Rightarrow> False)"
      for lo hi using 2(4) [OF four]
      by (auto simp: numeral_3_eq_3 utf8_tail_def split: list.split)
    have bounds: "((if b = 0xF0 then 0x90 else 0x80) \<le> c \<and> c \<le> (if b = 0xF4 then 0x8F else 0xBF)) =
        (if b = 0xF0 then 0x90 \<le> c \<and> c \<le> 0xBF else if b = 0xF4 then 0x80 \<le> c \<and> c \<le> 0x8F else utf8_tail c)"
      for c :: u8 by (cases "b = 0xF0"; cases "b = 0xF4") (simp_all add: utf8_tail_def)
    show ?thesis unfolding accepts utf8_valid.simps
      by (simp only: four simp_thms if_True if_False option.case due bounds)
  next
    case bad
    then show ?thesis unfolding accepts utf8_valid.simps by (simp only: simp_thms if_False option.case)
  qed
qed simp

lemma validate_utf8_loop_Inr_iff:
  "validate_utf8_loop kind file s remaining pos = Inr (s', p) \<longleftrightarrow>
     (remaining = 0 \<or> pos + remaining \<le> length file) \<and> p = pos + remaining \<and>
     utf8_steps s (subslice file pos (pos + remaining)) = Some s'"
proof (induction kind "file" s remaining pos rule: validate_utf8_loop.induct)
  case (1 kind fl s remaining pos)
  show ?case
  proof (cases "remaining = 0")
    case True
    then show ?thesis by (subst validate_utf8_loop.simps) (auto simp: subslice_def)
  next
    case False
    define n where "n = min remaining 256"
    have n: "0 < n" "n \<le> remaining" using False by (auto simp: n_def)
    have split: "subslice fl pos (pos + remaining) =
        subslice fl pos (pos + n) @ subslice fl (pos + n) (pos + remaining)"
      using slice_append_slice [of pos "pos + n" "pos + remaining" fl] n by simp
    have ih: "validate_utf8_loop kind fl s2 (remaining - n) (pos + n) = Inr (s', p) \<longleftrightarrow>
        (remaining = n \<or> pos + remaining \<le> length fl) \<and> p = pos + remaining \<and>
        utf8_steps s2 (subslice fl (pos + n) (pos + remaining)) = Some s'"
      if "pos + n \<le> length fl" "utf8_steps s (subslice fl pos (pos + n)) = Some s2" for s2
      using 1 [OF False n_def _ refl, of "subslice fl pos (pos + n)" "pos + n" s2] that n
      by (simp add: res_simps)
    show ?thesis
      by (subst validate_utf8_loop.simps)
        (use False n ih in \<open>auto simp: n_def [symmetric] Let_def res_simps split utf8_steps_append
          split: option.splits\<close>)
  qed
qed

lemma validate_utf8_bytes_Inr_iff [res_simps]:
  "validate_utf8_bytes kind file end len pos = Inr p \<longleftrightarrow>
     pos + len \<le> end \<and> pos + len \<le> u64_max \<and> (len = 0 \<or> pos + len \<le> length file) \<and>
     utf8_valid (subslice file pos (pos + len)) \<and> p = pos + len"
proof -
  let ?bs = "subslice file pos (pos + len)"
  have "utf8_valid ?bs \<longleftrightarrow> (\<exists>s. utf8_steps utf8_start ?bs = Some s \<and> us_continuation s = 0)"
    by (simp add: utf8_accepts_start [symmetric] utf8_accepts_def utf8_start_def split: option.split)
  then show ?thesis
    by (auto simp: validate_utf8_bytes_def res_simps validate_utf8_loop_Inr_iff split: if_splits)
qed

section \<open>Attributes of a domain record\<close>

text \<open>One field of an attribute, then the loop over them.\<close>

definition attribute_field :: "geo_data_kind \<Rightarrow> bytes \<Rightarrow> nat \<Rightarrow> u32 \<Rightarrow> u8 \<Rightarrow> nat \<Rightarrow> geo_data_error + nat" where
  "attribute_field kind file end field wire pos =
     (if field = 1 then
        and_then (require_wire kind wire 2) (\<lambda>_.
        and_then (read_length kind file end pos) (\<lambda>(len, pos').
        validate_utf8_bytes kind file end len pos'))
      else if field = 2 \<or> field = 3 then
        and_then (require_wire kind wire 0) (\<lambda>_.
        and_then (read_varint kind file end pos) (\<lambda>(_, pos'). Inr pos'))
      else skip_field_payload kind file end wire pos)"

lemma attribute_field_pos [termination_simp]:
  "attribute_field kind file end field wire pos = Inr p \<Longrightarrow> pos < p \<and> p \<le> end"
  by (auto simp: attribute_field_def res_simps split: if_splits
      dest!: read_length_pos read_varint_pos dest: skip_field_payload_pos skip_field_payload_end)

function validate_attribute :: "geo_data_kind \<Rightarrow> bytes \<Rightarrow> nat \<Rightarrow> nat \<Rightarrow> geo_data_error + unit" where
  "validate_attribute kind file end pos =
     (if pos < end then
        and_then (read_key kind file end pos) (\<lambda>(field, wire, pos1).
        and_then (attribute_field kind file end field wire pos1) (\<lambda>pos2.
        validate_attribute kind file end pos2))
      else Inr ())"
  by pat_completeness auto

termination
  by (relation "measure (\<lambda>(kind, file, end, pos). end - pos)")
    (auto dest!: read_key_pos attribute_field_pos)

declare validate_attribute.simps [simp del]

section \<open>One-byte fields\<close>

lemma small_byte:
  assumes "(b :: u8) < 0x80"
  shows "b AND 0x7F = b" "b AND 0x80 = 0"
proof -
  have n: "unat b < 128" using assms by (simp add: word_less_nat_alt)
  have "b AND 0x7F = take_bit 7 b" by (simp add: take_bit_eq_mask mask_eq_exp_minus_1)
  also have "\<dots> = b" using n by (simp add: word_unat_eq_iff unsigned_take_bit_eq take_bit_nat_eq_self)
  finally show eq: "b AND 0x7F = b" .
  have "(0x7F :: u8) AND 0x80 = 0" by simp
  then show "b AND 0x80 = 0" by (metis eq and.assoc and_zero_eq)
qed

lemma unat_widen_byte [simp]: "unat (ucast (b :: u8) :: u64) = unat b"
  by (simp add: unsigned_ucast_eq take_bit_nat_eq_self order.strict_trans [OF unat_u8_less])

lemma read_varint_byte:
  assumes "pos < end" "pos < length file" "file ! pos < 0x80"
  shows "read_varint kind file end pos = Inr (ucast (file ! pos), Suc pos)"
proof -
  have ten: "(10 :: nat) = Suc 9" by simp
  show ?thesis unfolding read_varint_def ten read_varint_loop.simps
    using assms small_byte [OF assms(3)] by (simp add: file_read_def slice_one)
qed

lemma read_key_byte:
  assumes "pos < end" "pos < length file" "file ! pos < 0x80" "8 \<le> file ! pos"
  shows "read_key kind file end pos = Inr (ucast (drop_bit 3 (file ! pos)), file ! pos AND 7, Suc pos)"
proof -
  let ?b = "file ! pos"
  have u: "unat (drop_bit 3 (ucast ?b :: u64)) = unat ?b div 8"
    by (simp only: unsigned_drop_bit_eq) (simp add: drop_bit_eq_div take_bit_nat_eq_self order.strict_trans [OF unat_u8_less])
  have "8 \<le> unat ?b" "unat ?b < 128" using assms(3,4) by (simp_all add: word_le_nat_alt word_less_nat_alt)
  then have "drop_bit 3 (ucast ?b :: u64) \<noteq> 0" "\<not> 0xFFFFFFFF < drop_bit 3 (ucast ?b :: u64)"
    using u by (auto simp: word_unat_eq_iff word_less_nat_alt)
  moreover have "(ucast (drop_bit 3 (ucast ?b :: u64)) :: u32) = ucast (drop_bit 3 ?b)"
    by (rule bit_word_eqI) (auto simp: bit_simps)
  moreover have "(ucast (ucast ?b AND 7 :: u64) :: u8) = ?b AND 7"
    by (rule bit_word_eqI) (auto simp: bit_simps)
  ultimately show ?thesis using read_varint_byte [OF assms(1-3)] by (simp add: read_key_def)
qed

lemma read_length_byte:
  assumes "pos < end" "pos < length file" "file ! pos < 0x80"
  shows "read_length kind file end pos =
    (if Suc pos + unat (file ! pos) \<le> end \<and> Suc pos + unat (file ! pos) \<le> u64_max
     then Inr (unat (file ! pos), Suc pos) else Inl (GeoMalformed kind))"
  using assms by (auto simp: read_length_def read_varint_byte checked_end_def)

text \<open>Evaluation of the reader on a concrete file.\<close>

lemmas geo_eval = read_key_byte read_length_byte read_varint_byte checked_end_def u64_max_def file_read_def
  geo_read_exact_def require_wire_def skip_field_payload_def skip_bytes_def read_code_def MAX_CODE_BYTES_def code_parse_def
  subslice_def is_ascii_alphanumeric_def is_ascii_digit_def is_ascii_lowercase_def is_ascii_uppercase_def
  ascii_lowercase_def to_ascii_lowercase_def str_def

text \<open>
  Claim C23. Checking a protobuf string in pieces of 256 bytes accepts exactly what the whole string
  being UTF-8 means: the string lies inside the enclosing message and the file, it is a well-formed
  UTF-8 sequence, however its characters straddle the pieces, and the file is left right behind it.
\<close>

theorem validate_utf8_streaming:
  "validate_utf8_bytes kind file end len pos = Inr p \<longleftrightarrow>
     pos + len \<le> end \<and> pos + len \<le> u64_max \<and> (len = 0 \<or> pos + len \<le> length file) \<and>
     utf8_valid (subslice file pos (pos + len)) \<and> p = pos + len"
  by (rule validate_utf8_bytes_Inr_iff)

end
