(* ===== verification/Rust_Search.thy ===== *)
theory Rust_Search
  imports Wire_Prelude
begin

text \<open>
  \<^verbatim>\<open>slice::binary_search_by\<close> and \<^verbatim>\<open>slice::partition_point\<close> of Rust's standard library. The search is
  the branch-free loop of the library; the facts are what its documentation promises on a slice that
  the comparison orders.
\<close>

datatype ordering = Less | Equal | Greater

definition cmp :: "'a :: linorder \<Rightarrow> 'a \<Rightarrow> ordering" where
  "cmp a b = (if a < b then Less else if a = b then Equal else Greater)"

definition then_cmp :: "ordering \<Rightarrow> ordering \<Rightarrow> ordering" where
  "then_cmp a b = (if a = Equal then b else a)"

function search_base :: "('a \<Rightarrow> ordering) \<Rightarrow> 'a list \<Rightarrow> nat \<Rightarrow> nat \<Rightarrow> nat" where
  "search_base f xs base len =
     (if 1 < len then
        (let half = len div 2; mid = base + half in
         search_base f xs (if f (xs ! mid) = Greater then base else mid) (len - half))
      else base)"
  by pat_completeness auto

termination by (relation "measure (\<lambda>(f, xs, base, len). len)") (auto simp: Let_def)

declare search_base.simps [simp del]

definition binary_search_by :: "('a \<Rightarrow> ordering) \<Rightarrow> 'a list \<Rightarrow> nat + nat" where
  "binary_search_by f xs =
     (if xs = [] then Inl 0
      else
        (let base = search_base f xs 0 (length xs) in
         if f (xs ! base) = Equal then Inr base
         else Inl (base + (if f (xs ! base) = Less then 1 else 0))))"

definition partition_point :: "('a \<Rightarrow> bool) \<Rightarrow> 'a list \<Rightarrow> nat" where
  "partition_point pred xs =
     (case binary_search_by (\<lambda>x. if pred x then Less else Greater) xs of Inl i \<Rightarrow> i | Inr i \<Rightarrow> i)"

section \<open>Facts\<close>

text \<open>The slice is ordered by the comparison: first the smaller, then the equal, then the greater ones.\<close>

fun ordering_rank :: "ordering \<Rightarrow> nat" where
  "ordering_rank Less = 0"
| "ordering_rank Equal = 1"
| "ordering_rank Greater = 2"

definition ordered_by :: "('a \<Rightarrow> ordering) \<Rightarrow> 'a list \<Rightarrow> bool" where
  "ordered_by f xs \<longleftrightarrow> sorted (map (\<lambda>x. ordering_rank (f x)) xs)"

lemma ordered_byD:
  "ordered_by f xs \<Longrightarrow> i \<le> j \<Longrightarrow> j < length xs \<Longrightarrow> ordering_rank (f (xs ! i)) \<le> ordering_rank (f (xs ! j))"
  using sorted_nth_mono [of "map (\<lambda>x. ordering_rank (f x)) xs" i j] by (simp add: ordered_by_def)

lemma search_base_range:
  "0 < len \<Longrightarrow> search_base f xs base len < base + len"
  by (induction f xs base len rule: search_base.induct)
    (subst search_base.simps, force simp: Let_def)

text \<open>What the loop keeps: the part before the base is not greater, the part from base plus length on is.\<close>

lemma search_base_split:
  assumes "ordered_by f xs" "0 < len" "base + len \<le> length xs"
    and "\<forall>j < base. f (xs ! j) \<noteq> Greater" "base = 0 \<or> f (xs ! base) \<noteq> Greater"
    and "\<forall>j < length xs. base + len \<le> j \<longrightarrow> f (xs ! j) = Greater"
  defines "b \<equiv> search_base f xs base len"
  shows "(\<forall>j < b. f (xs ! j) \<noteq> Greater) \<and> (b = 0 \<or> f (xs ! b) \<noteq> Greater) \<and>
         (\<forall>j < length xs. b < j \<longrightarrow> f (xs ! j) = Greater)"
  using assms(1-6) unfolding b_def
proof (induction f xs base len rule: search_base.induct)
  case (1 f xs base len)
  show ?case
  proof (cases "1 < len")
    case True
    define mid where "mid = base + len div 2"
    have mid: "mid < length xs" "base < mid" "mid < base + len"
      using True 1(4) by (auto simp: mid_def)
    have step: "search_base f xs base len =
        search_base f xs (if f (xs ! mid) = Greater then base else mid) (len - len div 2)"
      using True by (subst search_base.simps) (simp add: mid_def Let_def)
    define nb where "nb = (if f (xs ! mid) = Greater then base else mid)"
    note ih = 1(1) [OF True refl refl, folded mid_def, folded nb_def]
    have left: "\<forall>j < nb. f (xs ! j) \<noteq> Greater" "nb = 0 \<or> f (xs ! nb) \<noteq> Greater"
    proof -
      have "f (xs ! j) \<noteq> Greater" if "j < mid" "f (xs ! mid) \<noteq> Greater" for j
        using ordered_byD [OF 1(2) less_imp_le [OF that(1)] mid(1)] that(2) by (cases "f (xs ! mid)") auto
      then show "\<forall>j < nb. f (xs ! j) \<noteq> Greater" "nb = 0 \<or> f (xs ! nb) \<noteq> Greater"
        using 1(5,6) by (simp_all add: nb_def)
    qed
    have right: "\<forall>j < length xs. nb + (len - len div 2) \<le> j \<longrightarrow> f (xs ! j) = Greater"
    proof (intro allI impI)
      fix j assume j: "j < length xs" "nb + (len - len div 2) \<le> j"
      show "f (xs ! j) = Greater"
      proof (cases "f (xs ! mid) = Greater")
        case g: True
        then have "mid \<le> j" using j by (simp add: nb_def mid_def)
        from ordered_byD [OF 1(2) this j(1)] g show ?thesis by (cases "f (xs ! j)") auto
      next
        case False
        then have "base + len \<le> j" using j by (simp add: nb_def mid_def)
        with 1(7) j(1) show ?thesis by simp
      qed
    qed
    have "0 < len - len div 2" "nb + (len - len div 2) \<le> length xs"
      using mid 1(4) by (auto simp: mid_def nb_def)
    from ih [OF 1(2) this left right] show ?thesis unfolding step nb_def [symmetric] .
  next
    case False
    with 1(3) have "len = 1" by simp
    moreover from this have "search_base f xs base len = base" by (subst search_base.simps) simp
    ultimately show ?thesis using 1(5-7) by simp
  qed
qed

lemma binary_search_by_Inr:
  "binary_search_by f xs = Inr i \<Longrightarrow> i < length xs \<and> f (xs ! i) = Equal"
  using search_base_range [of "length xs" f xs 0]
  by (auto simp: binary_search_by_def Let_def split: if_splits)

lemma binary_search_by_Inl:
  assumes "ordered_by f xs" "binary_search_by f xs = Inl i"
  shows "i \<le> length xs \<and> (\<forall>j < i. f (xs ! j) = Less) \<and> (\<forall>j < length xs. i \<le> j \<longrightarrow> f (xs ! j) = Greater)"
proof (cases "xs = []")
  case False
  define b where "b = search_base f xs 0 (length xs)"
  have b: "b < length xs" using False search_base_range [of "length xs" f xs 0] by (simp add: b_def)
  have s: "\<forall>j < b. f (xs ! j) \<noteq> Greater" "b = 0 \<or> f (xs ! b) \<noteq> Greater"
    "\<forall>j < length xs. b < j \<longrightarrow> f (xs ! j) = Greater"
    using search_base_split [OF assms(1), of "length xs" 0] False by (auto simp: b_def)
  have ne: "f (xs ! b) \<noteq> Equal" and i: "i = b + (if f (xs ! b) = Less then 1 else 0)"
    using assms(2) False by (auto simp: binary_search_by_def Let_def b_def split: if_splits)
  show ?thesis
  proof (cases "f (xs ! b)")
    case Less
    have "f (xs ! j) = Less" if "j \<le> b" for j
      using ordered_byD [OF assms(1) that b] Less by (cases "f (xs ! j)") auto
    then show ?thesis using i Less b s(3) by auto
  next
    case Greater
    then have "b = 0" using s(2) by auto
    with i Greater s(3) show ?thesis by (auto simp: le_less)
  qed (use ne in simp)
qed (use assms in \<open>simp add: binary_search_by_def\<close>)

lemma binary_search_by_is_ok:
  assumes "ordered_by f xs"
  shows "is_ok (binary_search_by f xs) \<longleftrightarrow> (\<exists>x \<in> set xs. f x = Equal)"
proof (cases "binary_search_by f xs")
  case (Inl i)
  then have "f x \<noteq> Equal" if "x \<in> set xs" for x
    using binary_search_by_Inl [OF assms Inl] that by (force simp: in_set_conv_nth not_less)
  with Inl show ?thesis by auto
next
  case (Inr i)
  with binary_search_by_Inr [OF Inr] show ?thesis by auto
qed

lemma partition_point_split:
  assumes "\<And>i j. i \<le> j \<Longrightarrow> j < length xs \<Longrightarrow> pred (xs ! j) \<Longrightarrow> pred (xs ! i)"
  shows "partition_point pred xs \<le> length xs \<and> (\<forall>j < partition_point pred xs. pred (xs ! j)) \<and>
         (\<forall>j < length xs. partition_point pred xs \<le> j \<longrightarrow> \<not> pred (xs ! j))"
proof -
  let ?f = "\<lambda>x. if pred x then Less else Greater"
  have o: "ordered_by ?f xs"
    unfolding ordered_by_def sorted_iff_nth_mono using assms by auto
  show ?thesis
  proof (cases "binary_search_by ?f xs")
    case (Inl i)
    then show ?thesis using binary_search_by_Inl [OF o Inl]
      by (auto simp: partition_point_def split: if_splits)
  next
    case (Inr i)
    then show ?thesis using binary_search_by_Inr [OF Inr] by (auto split: if_splits)
  qed
qed

lemma ordered_by_cmp:
  assumes "sorted (map key xs)"
  shows "ordered_by (\<lambda>x. cmp (key x) k) xs"
  unfolding ordered_by_def sorted_iff_nth_mono using sorted_nth_mono [OF assms]
  by (force simp: cmp_def)

lemma cmp_Equal_iff [simp]: "cmp a b = Equal \<longleftrightarrow> a = b"
  by (auto simp: cmp_def)

end
