(* ===== verification/Geo_Ip.thy ===== *)
theory Geo_Ip
  imports Geo_Proto Rust_Search Session_Model "HOL-Library.Product_Lexorder"
begin

text \<open>
  The GeoIP side of \<^verbatim>\<open>src/geodata/mod.rs\<close>: CIDR blocks, their compaction, the lookup of an address and
  the parser of a category. The code has every operation twice, for \<^verbatim>\<open>u32\<close> and \<^verbatim>\<open>u128\<close>; here one
  definition over the width serves both.
\<close>

section \<open>Blocks\<close>

record (overloaded) 'w geo_cidr =
  gc_network :: "'w word"
  gc_prefix :: u8

definition mask_to :: "'w :: len word \<Rightarrow> u8 \<Rightarrow> 'w word" where
  "mask_to address prefix =
     (if prefix = 0 then 0 else address AND push_bit (LENGTH('w) - unat prefix) (- 1))"

definition geo_cidr_contains :: "'w :: len geo_cidr \<Rightarrow> 'w word \<Rightarrow> bool" where
  "geo_cidr_contains c address \<longleftrightarrow> mask_to address (gc_prefix c) = gc_network c"

definition sibling :: "'w :: len geo_cidr \<Rightarrow> 'w geo_cidr \<Rightarrow> bool" where
  "sibling l r =
     (if gc_prefix l = 0 \<or> gc_prefix l \<noteq> gc_prefix r then False
      else
        (let parent = mask_to (gc_network l) (gc_prefix l - 1) in
         gc_network l = parent \<and>
         gc_network r = parent OR push_bit (LENGTH('w) - unat (gc_prefix l)) 1))"

text \<open>
  Compaction works in place. The written part of the vector is kept as a list with its last element
  first, so that a push and a pop act on the head.
\<close>

fun merge_siblings :: "'w :: len geo_cidr list \<Rightarrow> 'w geo_cidr list" where
  "merge_siblings (r # l # written) =
     (if sibling l r
      then merge_siblings (\<lparr>gc_network = gc_network l, gc_prefix = gc_prefix l - 1\<rparr> # written)
      else r # l # written)"
| "merge_siblings written = written"

definition compact_step :: "'w :: len geo_cidr \<Rightarrow> 'w geo_cidr list \<Rightarrow> 'w geo_cidr list" where
  "compact_step v written =
     (if written \<noteq> [] \<and> geo_cidr_contains (hd written) (gc_network v) then written
      else merge_siblings (v # written))"

definition compact :: "'w :: len geo_cidr list \<Rightarrow> 'w geo_cidr list" where
  "compact vs = rev (fold compact_step (sort_key (\<lambda>c. (gc_network c, gc_prefix c)) vs) [])"

definition cidrs_match :: "'w :: len geo_cidr list \<Rightarrow> 'w word \<Rightarrow> bool" where
  "cidrs_match cidrs address =
     (let at = partition_point (\<lambda>c. gc_network c \<le> address) cidrs in
      at \<noteq> 0 \<and> geo_cidr_contains (cidrs ! (at - 1)) address)"

section \<open>Categories\<close>

record ip_category =
  ic_code :: bytes
  ic_v4 :: "32 geo_cidr list"
  ic_v6 :: "128 geo_cidr list"
  ic_selectors :: "bytes list"

definition ip_has_selector :: "ip_category \<Rightarrow> bytes \<Rightarrow> bool" where
  "ip_has_selector category selector =
     list_ex (\<lambda>requested. eq_ignore_ascii_case requested selector) (ic_selectors category)"

fun ip_matches :: "ip_category \<Rightarrow> ip_addr \<Rightarrow> bool" where
  "ip_matches category (IpV4 address) = cidrs_match (ic_v4 category) address"
| "ip_matches category (IpV6 address) = cidrs_match (ic_v6 category) address"

text \<open>What a first pass over the file leaves: where a category lies, and its number of records.\<close>

record selected_range =
  sr_code :: bytes
  sr_offset :: nat
  sr_len :: nat
  sr_record_count :: nat

text \<open>The fields of a CIDR record: the address bytes once read, the prefix and whether it was seen.\<close>

record cidr_fields =
  cf_ip :: "bytes option"
  cf_prefix :: u64
  cf_seen_prefix :: bool

definition cidr_field ::
  "bytes \<Rightarrow> nat \<Rightarrow> bytes \<Rightarrow> u32 \<Rightarrow> u8 \<Rightarrow> cidr_fields \<Rightarrow> nat \<Rightarrow> geo_data_error + cidr_fields \<times> nat" where
  "cidr_field file end code field wire s pos =
     (if field = 1 then
        and_then (require_wire GeoIpKind wire 2) (\<lambda>_.
        if cf_ip s \<noteq> None then Inl (GeoInvalidCidr code)
        else and_then (read_length GeoIpKind file end pos) (\<lambda>(len, pos').
          if len \<noteq> 4 \<and> len \<noteq> 16 then Inl (GeoInvalidCidr code)
          else and_then (geo_read_exact GeoIpKind file end len pos') (\<lambda>(ip, pos'').
            Inr (s\<lparr>cf_ip := Some ip\<rparr>, pos''))))
      else if field = 2 then
        and_then (require_wire GeoIpKind wire 0) (\<lambda>_.
        if cf_seen_prefix s then Inl (GeoInvalidCidr code)
        else and_then (read_varint GeoIpKind file end pos) (\<lambda>(prefix, pos').
          Inr (s\<lparr>cf_prefix := prefix, cf_seen_prefix := True\<rparr>, pos')))
      else and_then (skip_field_payload GeoIpKind file end wire pos) (\<lambda>pos'. Inr (s, pos')))"

lemma cidr_field_pos:
  "cidr_field file end code field wire s pos = Inr (s', p) \<Longrightarrow> pos < p \<and> p \<le> end"
  by (auto simp: cidr_field_def res_simps split: if_splits
      dest!: read_length_pos read_varint_pos dest: skip_field_payload_pos skip_field_payload_end)

function scan_cidr :: "bytes \<Rightarrow> nat \<Rightarrow> bytes \<Rightarrow> cidr_fields \<Rightarrow> nat \<Rightarrow> geo_data_error + cidr_fields" where
  "scan_cidr file end code s pos =
     (if pos < end then
        and_then (read_key GeoIpKind file end pos) (\<lambda>(field, wire, pos1).
        and_then (cidr_field file end code field wire s pos1) (\<lambda>(s', pos2).
        scan_cidr file end code s' pos2))
      else Inr s)"
  by pat_completeness auto

termination
  by (relation "measure (\<lambda>(file, end, code, s, pos). end - pos)")
    (auto dest!: read_key_pos cidr_field_pos)

declare scan_cidr.simps [simp del]

text \<open>The blocks read so far, in file order.\<close>

type_synonym cidr_lists = "32 geo_cidr list \<times> 128 geo_cidr list"

definition parse_cidr_record ::
  "bytes \<Rightarrow> nat \<Rightarrow> bytes \<Rightarrow> cidr_lists \<Rightarrow> nat \<Rightarrow> geo_data_error + cidr_lists" where
  "parse_cidr_record file end code cl pos =
     and_then (scan_cidr file end code \<lparr>cf_ip = None, cf_prefix = 0, cf_seen_prefix = False\<rparr> pos) (\<lambda>s.
     let (v4, v6) = cl in
     case cf_ip s of
       None \<Rightarrow> Inl (GeoInvalidCidr code)
     | Some ip \<Rightarrow>
         if length ip = 4 \<and> cf_prefix s \<le> 32 then
           Inr (v4 @ [\<lparr>gc_network = mask_to (u32_of ip) (ucast (cf_prefix s)), gc_prefix = ucast (cf_prefix s)\<rparr>], v6)
         else if length ip = 16 \<and> cf_prefix s \<le> 128 then
           Inr (v4, v6 @ [\<lparr>gc_network = mask_to (u128_of ip) (ucast (cf_prefix s)), gc_prefix = ucast (cf_prefix s)\<rparr>])
         else Inl (GeoInvalidCidr code))"

record ip_scan =
  is_seen_code :: bool
  is_remaining :: nat
  is_lists :: cidr_lists

definition ip_category_field ::
  "bytes \<Rightarrow> nat \<Rightarrow> bytes \<Rightarrow> u32 \<Rightarrow> u8 \<Rightarrow> ip_scan \<Rightarrow> nat \<Rightarrow> geo_data_error + ip_scan \<times> nat" where
  "ip_category_field file end range_code field wire s pos =
     (if field = 1 then
        and_then (require_wire GeoIpKind wire 2) (\<lambda>_.
        if is_seen_code s then Inl (GeoMalformed GeoIpKind)
        else and_then (read_code GeoIpKind file end pos) (\<lambda>(code, pos').
          if code \<noteq> range_code then Inl (GeoMalformed GeoIpKind)
          else Inr (s\<lparr>is_seen_code := True\<rparr>, pos')))
      else if field = 2 then
        and_then (require_wire GeoIpKind wire 2) (\<lambda>_.
        if is_remaining s = 0 then Inl (GeoMalformed GeoIpKind)
        else and_then (read_length GeoIpKind file end pos) (\<lambda>(len, start).
          and_then (checked_end GeoIpKind start len end) (\<lambda>record_end.
          and_then (parse_cidr_record file record_end range_code (is_lists s) start) (\<lambda>cl.
          Inr (s\<lparr>is_remaining := is_remaining s - 1, is_lists := cl\<rparr>, record_end)))))
      else if field = 3 then
        and_then (require_wire GeoIpKind wire 0) (\<lambda>_.
        and_then (read_varint GeoIpKind file end pos) (\<lambda>(_, pos'). Inr (s, pos')))
      else and_then (skip_field_payload GeoIpKind file end wire pos) (\<lambda>pos'. Inr (s, pos')))"

lemma ip_category_field_pos:
  "ip_category_field file end code field wire s pos = Inr (s', p) \<Longrightarrow> pos < p \<and> p \<le> end"
  by (auto simp: ip_category_field_def res_simps split: if_splits
      dest!: read_length_pos read_varint_pos read_code_pos dest: skip_field_payload_pos skip_field_payload_end)

function scan_ip_category ::
  "bytes \<Rightarrow> nat \<Rightarrow> bytes \<Rightarrow> ip_scan \<Rightarrow> nat \<Rightarrow> geo_data_error + ip_scan" where
  "scan_ip_category file end code s pos =
     (if pos < end then
        and_then (read_key GeoIpKind file end pos) (\<lambda>(field, wire, pos1).
        and_then (ip_category_field file end code field wire s pos1) (\<lambda>(s', pos2).
        scan_ip_category file end code s' pos2))
      else Inr s)"
  by pat_completeness auto

termination
  by (relation "measure (\<lambda>(file, end, code, s, pos). end - pos)")
    (auto dest!: read_key_pos ip_category_field_pos)

declare scan_ip_category.simps [simp del]

definition parse_ip_category :: "bytes \<Rightarrow> selected_range \<Rightarrow> geo_data_error + ip_category" where
  "parse_ip_category file rg =
     and_then (checked_end GeoIpKind (sr_offset rg) (sr_len rg) u64_max) (\<lambda>end.
     and_then (scan_ip_category file end (sr_code rg)
       \<lparr>is_seen_code = False, is_remaining = sr_record_count rg, is_lists = ([], [])\<rparr>
       (sr_offset rg)) (\<lambda>s.
     if \<not> is_seen_code s then Inl (GeoMalformed GeoIpKind)
     else if is_remaining s \<noteq> 0 then Inl (GeoMalformed GeoIpKind)
     else Inr \<lparr>ic_code = sr_code rg, ic_v4 = compact (fst (is_lists s)),
               ic_v6 = compact (snd (is_lists s)), ic_selectors = []\<rparr>))"

section \<open>Blocks as ranges of addresses\<close>

definition cidr_low :: "'w :: len geo_cidr \<Rightarrow> nat" where
  "cidr_low c = unat (gc_network c)"

definition cidr_span :: "'w :: len geo_cidr \<Rightarrow> nat" where
  "cidr_span c = 2 ^ (LENGTH('w) - unat (gc_prefix c))"

definition cidr_block :: "'w :: len geo_cidr \<Rightarrow> nat set" where
  "cidr_block c = {cidr_low c ..< cidr_low c + cidr_span c}"

text \<open>A prefix that fits the width, and no bit set behind it.\<close>

definition cidr_ok :: "'w :: len geo_cidr \<Rightarrow> bool" where
  "cidr_ok c \<longleftrightarrow> unat (gc_prefix c) \<le> LENGTH('w) \<and> mask_to (gc_network c) (gc_prefix c) = gc_network c"

lemma cidr_span_pos [simp]: "0 < cidr_span c"
  by (simp add: cidr_span_def)

lemma unat_high_bits: "unat (a AND push_bit k (- 1)) = unat a div 2 ^ k * 2 ^ k" for a :: "'w :: len word"
proof -
  have "a AND push_bit k (- 1) = push_bit k (drop_bit k a)"
    by (rule bit_word_eqI) (auto simp: bit_simps)
  also have "unat \<dots> = take_bit LENGTH('w) (push_bit k (drop_bit k (unat a)))"
    by (simp add: unsigned_push_bit_eq unsigned_drop_bit_eq take_bit_nat_eq_self)
  also have "push_bit k (drop_bit k (unat a)) = unat a div 2 ^ k * 2 ^ k"
    by (simp add: push_bit_eq_mult drop_bit_eq_div)
  also have "take_bit LENGTH('w) (unat a div 2 ^ k * 2 ^ k) = unat a div 2 ^ k * 2 ^ k"
    by (rule take_bit_nat_eq_self) (metis div_times_less_eq_dividend order_le_less_trans unsigned_less)
  finally show ?thesis .
qed

lemma unat_mask_to:
  "unat p \<le> LENGTH('w) \<Longrightarrow>
   unat (mask_to a p) = unat a div 2 ^ (LENGTH('w) - unat p) * 2 ^ (LENGTH('w) - unat p)" for a :: "'w :: len word"
  by (cases "p = 0") (simp_all only: mask_to_def unat_high_bits if_True if_False, simp add: unsigned_less)

lemma cidr_ok_iff:
  "cidr_ok c \<longleftrightarrow> unat (gc_prefix c) \<le> LENGTH('w) \<and> cidr_span c dvd cidr_low c" for c :: "'w :: len geo_cidr"
  by (auto simp: cidr_ok_def word_unat_eq_iff unat_mask_to cidr_span_def cidr_low_def)
    (metis dvd_triv_right)

lemma mask_to_ok: "unat p \<le> LENGTH('w) \<Longrightarrow> cidr_ok \<lparr>gc_network = mask_to a p, gc_prefix = p\<rparr>"
  for a :: "'w :: len word"
  by (simp add: cidr_ok_iff cidr_span_def cidr_low_def unat_mask_to)

lemma contains_iff_block:
  assumes "cidr_ok c"
  shows "geo_cidr_contains c a \<longleftrightarrow> unat a \<in> cidr_block c"
proof -
  obtain q where q: "cidr_low c = cidr_span c * q" using assms by (auto simp: cidr_ok_iff)
  have "geo_cidr_contains c a \<longleftrightarrow> unat a div cidr_span c * cidr_span c = cidr_low c"
    using assms by (simp add: geo_cidr_contains_def word_unat_eq_iff unat_mask_to cidr_ok_iff cidr_span_def cidr_low_def)
  also have "\<dots> \<longleftrightarrow> unat a div cidr_span c = q"
    using q by (simp add: mult.commute) (metis cidr_span_pos less_not_refl)
  also have "\<dots> \<longleftrightarrow> unat a \<in> cidr_block c"
    using q dividend_less_div_times [OF cidr_span_pos, of "unat a" c]
    by (auto simp: cidr_block_def div_nat_eqI mult.commute)
  finally show ?thesis .
qed

lemma multiple_gap: "(s :: nat) dvd a \<Longrightarrow> s dvd b \<Longrightarrow> a < b \<Longrightarrow> a + s \<le> b"
  by (metis add_le_imp_le_diff dvd_diff_nat dvd_imp_le le_add_diff_inverse2 less_or_eq_imp_le
      ordered_cancel_comm_monoid_diff_class.le_diff_conv2 add.commute zero_less_diff)

lemma cidr_span_dvd:
  "gc_prefix c \<le> gc_prefix v \<Longrightarrow> cidr_span v dvd cidr_span c" for c v :: "'w :: len geo_cidr"
  by (simp add: cidr_span_def le_imp_power_dvd word_le_nat_alt)

text \<open>The order of the sort: by network, then the wider block first.\<close>

definition cidr_before :: "'w :: len geo_cidr \<Rightarrow> 'w geo_cidr \<Rightarrow> bool" where
  "cidr_before c v \<longleftrightarrow> cidr_low c < cidr_low v \<or> cidr_low c = cidr_low v \<and> gc_prefix c \<le> gc_prefix v"

lemma cidr_nested:
  assumes "cidr_ok c" "cidr_ok v" "cidr_before c v" "geo_cidr_contains c (gc_network v)"
  shows "cidr_block v \<subseteq> cidr_block c"
proof -
  have mem: "cidr_low c \<le> cidr_low v" "cidr_low v < cidr_low c + cidr_span c"
    using assms(4) contains_iff_block [OF assms(1)] by (auto simp: cidr_block_def cidr_low_def)
  have dvd: "cidr_span c dvd cidr_low c" "cidr_span v dvd cidr_low v"
    using assms(1,2) by (auto simp: cidr_ok_iff)
  show ?thesis
  proof (cases "gc_prefix c \<le> gc_prefix v")
    case True
    then have "cidr_span v dvd cidr_low c + cidr_span c"
      using dvd(1) cidr_span_dvd by (metis dvd_add dvd_trans)
    from multiple_gap [OF dvd(2) this mem(2)] mem(1) show ?thesis by (auto simp: cidr_block_def)
  next
    case False
    then have "cidr_span c dvd cidr_low v" using dvd(2) cidr_span_dvd by (metis dvd_trans linear)
    with False assms(3) mem(2) multiple_gap [OF dvd(1) this] show ?thesis by (auto simp: cidr_before_def)
  qed
qed

text \<open>Two siblings are the halves of their parent.\<close>

lemma sibling_parent:
  fixes l r :: "'w :: len geo_cidr"
  assumes "cidr_ok l" "sibling l r"
  defines "parent \<equiv> \<lparr>gc_network = gc_network l, gc_prefix = gc_prefix l - 1\<rparr>"
  shows "cidr_ok parent" "cidr_block parent = cidr_block l \<union> cidr_block r" "cidr_low l < cidr_low r"
    "cidr_low parent = cidr_low l"
proof -
  define k where "k = LENGTH('w) - unat (gc_prefix l)"
  have p: "gc_prefix l \<noteq> 0" "gc_prefix l = gc_prefix r" and n: "mask_to (gc_network l) (gc_prefix l - 1) = gc_network l"
    and r: "gc_network r = gc_network l OR push_bit k 1"
    using assms(2) by (auto simp: sibling_def Let_def k_def split: if_splits)
  have u: "unat (gc_prefix l - 1) = unat (gc_prefix l) - 1" "0 < unat (gc_prefix l)"
    using p(1) by (auto simp: unat_minus_one unat_gt_0)
  have le: "unat (gc_prefix l) \<le> LENGTH('w)" using assms(1) by (simp add: cidr_ok_iff)
  have k: "LENGTH('w) - unat (gc_prefix l - 1) = Suc k" using u le by (simp add: k_def)
  show ok: "cidr_ok parent" using n u le by (simp add: cidr_ok_def parent_def)
  then have dvd: "2 ^ Suc k dvd unat (gc_network l)"
    by (simp add: cidr_ok_iff cidr_span_def cidr_low_def parent_def k)
  have "k < LENGTH('w)" using u le by (simp add: k_def)
  then have "unat (push_bit k 1 :: 'w word) = 2 ^ k"
    by (simp only: unsigned_push_bit_eq) (simp add: push_bit_eq_mult take_bit_nat_eq_self)
  then have "unat (gc_network r) = unat (gc_network l) OR 2 ^ k"
    by (simp only: r unsigned_or_eq)
  also have "\<dots> = unat (gc_network l) + 2 ^ k"
  proof (rule disjunctive_add_eq_or [symmetric], rule bit_eqI)
    fix i
    have "bit (unat (gc_network l)) k = False" using dvd by (auto simp: bit_iff_odd elim!: dvdE)
    then show "bit (unat (gc_network l) AND 2 ^ k) i = bit (0 :: nat) i"
      by (auto simp: bit_simps)
  qed
  finally have low: "cidr_low r = cidr_low l + 2 ^ k" by (simp add: cidr_low_def)
  have span: "cidr_span l = 2 ^ k" "cidr_span r = 2 ^ k" "cidr_span parent = 2 * 2 ^ k"
    using p(2) k by (simp_all add: cidr_span_def k_def parent_def)
  show "cidr_low parent = cidr_low l" by (simp add: parent_def cidr_low_def)
  then show "cidr_block parent = cidr_block l \<union> cidr_block r" "cidr_low l < cidr_low r"
    using low span by (auto simp: cidr_block_def)
qed

section \<open>Compaction keeps the union of the blocks\<close>

definition cidrs_union :: "'w :: len geo_cidr list \<Rightarrow> nat set" where
  "cidrs_union cs = (\<Union>c \<in> set cs. cidr_block c)"

lemma cidrs_union_simps [simp]:
  "cidrs_union [] = {}" "cidrs_union (c # cs) = cidr_block c \<union> cidrs_union cs"
  by (simp_all add: cidrs_union_def)

text \<open>The written part, last block first: valid blocks, each one behind all that follow it in the list.\<close>

definition written_ok :: "'w :: len geo_cidr list \<Rightarrow> bool" where
  "written_ok ws \<longleftrightarrow> list_all cidr_ok ws \<and> sorted_wrt (\<lambda>c d. cidr_low d + cidr_span d \<le> cidr_low c) ws"

definition settled :: "'w :: len geo_cidr list \<Rightarrow> bool" where
  "settled ws \<longleftrightarrow> successively (\<lambda>r l. \<not> sibling l r) ws"

lemma settled_Cons: "settled (c # ws) \<longleftrightarrow> (ws = [] \<or> \<not> sibling (hd ws) c) \<and> settled ws"
  by (cases ws) (auto simp: settled_def)

lemma merge_siblings_ok:
  assumes "written_ok ws" "settled (tl ws)"
  shows "written_ok (merge_siblings ws) \<and> settled (merge_siblings ws) \<and>
         cidrs_union (merge_siblings ws) = cidrs_union ws \<and> (merge_siblings ws = [] \<longleftrightarrow> ws = []) \<and>
         (\<forall>v. ws \<noteq> [] \<longrightarrow> cidr_before (hd ws) v \<longrightarrow> cidr_before (hd (merge_siblings ws)) v)"
  using assms
proof (induction ws rule: merge_siblings.induct)
  case (1 r l written)
  show ?case
  proof (cases "sibling l r")
    case True
    let ?parent = "\<lparr>gc_network = gc_network l, gc_prefix = gc_prefix l - 1\<rparr>"
    have l: "cidr_ok l" using 1(2) by (simp add: written_ok_def)
    note par = sibling_parent [OF l True]
    have "written_ok (?parent # written)"
      using 1(2) par(1,4) by (auto simp: written_ok_def)
    moreover have "settled written" using 1(3) by (simp add: settled_Cons)
    moreover have "cidr_before r v \<Longrightarrow> cidr_before ?parent v" for v
      using par(3,4) by (auto simp: cidr_before_def)
    ultimately show ?thesis using 1(1) [OF True] True par(2) by (auto simp: Un_ac)
  qed (use 1(2,3) in \<open>auto simp: settled_Cons\<close>)
qed (auto simp: settled_def)

lemma compact_step_ok:
  assumes "written_ok ws" "settled ws" "cidr_ok v" "ws \<noteq> [] \<Longrightarrow> cidr_before (hd ws) v"
  shows "written_ok (compact_step v ws) \<and> settled (compact_step v ws) \<and>
         cidrs_union (compact_step v ws) = cidr_block v \<union> cidrs_union ws \<and>
         (\<forall>u. cidr_before v u \<longrightarrow> compact_step v ws \<noteq> [] \<longrightarrow> cidr_before (hd (compact_step v ws)) u)"
proof (cases "ws \<noteq> [] \<and> geo_cidr_contains (hd ws) (gc_network v)")
  case True
  then have "cidr_block v \<subseteq> cidrs_union ws"
    using cidr_nested [of "hd ws" v] assms(1,3,4) by (cases ws) (auto simp: written_ok_def)
  with True assms show ?thesis
    by (auto simp: compact_step_def cidr_before_def)
next
  case False
  have "written_ok (v # ws)"
  proof (cases ws)
    case (Cons w rest)
    then have "cidr_ok w" "cidr_low w \<le> cidr_low v" using assms(1,4) by (auto simp: written_ok_def cidr_before_def)
    with False Cons have "cidr_low w + cidr_span w \<le> cidr_low v"
      by (simp add: contains_iff_block cidr_block_def) (simp add: cidr_low_def)
    with Cons assms(1,3) show ?thesis by (fastforce simp: written_ok_def)
  qed (use assms(3) in \<open>simp add: written_ok_def\<close>)
  from merge_siblings_ok [OF this] assms(2) False show ?thesis
    by (auto simp: compact_step_def)
qed

lemma fold_compact_ok:
  assumes "written_ok ws" "settled ws" "list_all cidr_ok vs" "sorted_wrt cidr_before vs"
    and "ws \<noteq> [] \<Longrightarrow> \<forall>v \<in> set vs. cidr_before (hd ws) v"
  shows "written_ok (fold compact_step vs ws) \<and> settled (fold compact_step vs ws) \<and>
         cidrs_union (fold compact_step vs ws) = cidrs_union vs \<union> cidrs_union ws"
  using assms
proof (induction vs arbitrary: ws)
  case (Cons v vs)
  from compact_step_ok [of ws v] Cons(2-)
  have "written_ok (compact_step v ws)" "settled (compact_step v ws)"
    "cidrs_union (compact_step v ws) = cidr_block v \<union> cidrs_union ws"
    "compact_step v ws \<noteq> [] \<Longrightarrow> \<forall>u \<in> set vs. cidr_before (hd (compact_step v ws)) u"
    by auto
  from Cons(1) [OF this(1,2) _ _ this(4)] this(3) Cons(4,5) show ?case by auto
qed simp

lemma sorted_cidr_before:
  "sorted_wrt cidr_before (sort_key (\<lambda>c. (gc_network c, gc_prefix c)) vs)"
proof -
  have "sorted_wrt (\<lambda>c d. (gc_network c, gc_prefix c) \<le> (gc_network d, gc_prefix d))
      (sort_key (\<lambda>c. (gc_network c, gc_prefix c)) vs)"
    using sorted_sort_key [of "\<lambda>c. (gc_network c, gc_prefix c)" vs] by (simp add: sorted_map)
  then show ?thesis
    by (rule sorted_wrt_mono_rel [rotated])
      (auto simp: cidr_before_def cidr_low_def word_less_nat_alt word_le_nat_alt word_unat_eq_iff)
qed

lemma compact_ok:
  assumes "list_all cidr_ok vs"
  shows "list_all cidr_ok (compact vs) \<and>
         sorted_wrt (\<lambda>c d. cidr_low c + cidr_span c \<le> cidr_low d) (compact vs) \<and>
         successively (\<lambda>l r. \<not> sibling l r) (compact vs) \<and> cidrs_union (compact vs) = cidrs_union vs"
proof -
  let ?ws = "fold compact_step (sort_key (\<lambda>c. (gc_network c, gc_prefix c)) vs) []"
  have "written_ok ?ws" "settled ?ws" "cidrs_union ?ws = cidrs_union vs"
    using fold_compact_ok [of "[]" "sort_key (\<lambda>c. (gc_network c, gc_prefix c)) vs"] assms sorted_cidr_before
    by (auto simp: written_ok_def settled_def list_all_iff cidrs_union_def)
  then show ?thesis
    by (auto simp: compact_def written_ok_def settled_def sorted_wrt_rev successively_rev cidrs_union_def list_all_iff)
qed

lemma cidrs_match_disjoint:
  assumes "list_all cidr_ok cs" "sorted_wrt (\<lambda>c d. cidr_low c + cidr_span c \<le> cidr_low d) cs"
  shows "cidrs_match cs a \<longleftrightarrow> unat a \<in> cidrs_union cs"
proof -
  define at where "at = partition_point (\<lambda>c. gc_network c \<le> a) cs"
  have asc: "cidr_low (cs ! i) + cidr_span (cs ! i) \<le> cidr_low (cs ! j)" if "i < j" "j < length cs" for i j
    using assms(2) that by (simp add: sorted_wrt_iff_nth_less)
  have le: "gc_network c \<le> a \<longleftrightarrow> cidr_low c \<le> unat a" for c
    by (simp add: word_le_nat_alt cidr_low_def)
  have "gc_network (cs ! i) \<le> a" if "i \<le> j" "j < length cs" "gc_network (cs ! j) \<le> a" for i j
    using that asc [of i j] unfolding le by (cases "i = j") auto
  from partition_point_split [of cs "\<lambda>c. gc_network c \<le> a", OF this]
  have at: "at \<le> length cs" "\<And>j. j < at \<Longrightarrow> cidr_low (cs ! j) \<le> unat a"
    "\<And>j. j < length cs \<Longrightarrow> at \<le> j \<Longrightarrow> \<not> cidr_low (cs ! j) \<le> unat a"
    by (simp_all add: at_def le [symmetric])
  have ok: "geo_cidr_contains (cs ! i) a \<longleftrightarrow> unat a \<in> cidr_block (cs ! i)" if "i < length cs" for i
    using assms(1) that by (simp add: contains_iff_block list_all_length)
  have found: "i = at - 1 \<and> at \<noteq> 0" if i: "i < length cs" and mem: "unat a \<in> cidr_block (cs ! i)" for i
  proof -
    have "i < at" using at(3) [OF i] mem by (force simp: cidr_block_def)
    moreover have "\<not> i < at - 1"
    proof
      assume "i < at - 1"
      then have "at - 1 < length cs" using at(1) by simp
      from asc [OF \<open>i < at - 1\<close> this] at(2) [of "at - 1"] mem \<open>i < at\<close> show False by (simp add: cidr_block_def)
    qed
    ultimately show ?thesis by linarith
  qed
  have "cidrs_match cs a \<longleftrightarrow> at \<noteq> 0 \<and> geo_cidr_contains (cs ! (at - 1)) a"
    by (simp add: cidrs_match_def at_def Let_def)
  also have "\<dots> \<longleftrightarrow> (\<exists>i < length cs. unat a \<in> cidr_block (cs ! i))"
  proof
    assume *: "at \<noteq> 0 \<and> geo_cidr_contains (cs ! (at - 1)) a"
    then have "at - 1 < length cs" using at(1) by linarith
    with * ok show "\<exists>i < length cs. unat a \<in> cidr_block (cs ! i)" by blast
  next
    assume "\<exists>i < length cs. unat a \<in> cidr_block (cs ! i)"
    then obtain i where "i < length cs" "unat a \<in> cidr_block (cs ! i)" by blast
    with found ok show "at \<noteq> 0 \<and> geo_cidr_contains (cs ! (at - 1)) a" by blast
  qed
  also have "\<dots> \<longleftrightarrow> unat a \<in> cidrs_union cs" by (auto simp: cidrs_union_def set_conv_nth)
  finally show ?thesis .
qed

lemma cidrs_match_compact:
  assumes "list_all cidr_ok vs"
  shows "cidrs_match (compact vs) a \<longleftrightarrow> list_ex (\<lambda>c. geo_cidr_contains c a) vs"
proof -
  from compact_ok [OF assms]
  have "cidrs_match (compact vs) a \<longleftrightarrow> unat a \<in> cidrs_union vs" by (simp add: cidrs_match_disjoint)
  also have "\<dots> \<longleftrightarrow> list_ex (\<lambda>c. geo_cidr_contains c a) vs"
    using assms by (auto simp: cidrs_union_def list_ex_iff list_all_iff contains_iff_block)
  finally show ?thesis .
qed

section \<open>Parsed categories\<close>

definition lists_ok :: "cidr_lists \<Rightarrow> bool" where
  "lists_ok cl \<longleftrightarrow> list_all cidr_ok (fst cl) \<and> list_all cidr_ok (snd cl)"

lemma unat_small_prefix: "(w :: u64) \<le> 128 \<Longrightarrow> unat (ucast w :: u8) = unat w"
  by (simp add: unsigned_ucast_eq word_le_nat_alt take_bit_nat_eq_self)

lemma parse_cidr_record_ok:
  assumes "parse_cidr_record file end code cl pos = Inr cl'" "lists_ok cl"
  shows "lists_ok cl'"
proof -
  have "unat (ucast w :: u8) \<le> 32" if "w \<le> 32" for w :: u64
    using unat_small_prefix [of w] that by (simp add: word_le_nat_alt)
  moreover have "unat (ucast w :: u8) \<le> 128" if "w \<le> 128" for w :: u64
    using unat_small_prefix [of w] that by (simp add: word_le_nat_alt)
  ultimately show ?thesis
    using assms by (cases cl) (auto simp: parse_cidr_record_def res_simps lists_ok_def mask_to_ok
        split: option.splits if_splits)
qed

lemma ip_category_field_ok:
  "ip_category_field file end code field wire s pos = Inr (s', p) \<Longrightarrow> lists_ok (is_lists s) \<Longrightarrow>
   lists_ok (is_lists s')"
  by (auto simp: ip_category_field_def res_simps split: if_splits dest: parse_cidr_record_ok)

lemma scan_ip_category_ok:
  "scan_ip_category file end code s pos = Inr s' \<Longrightarrow> lists_ok (is_lists s) \<Longrightarrow> lists_ok (is_lists s')"
proof (induction "file" "end" code s pos rule: scan_ip_category.induct)
  case (1 fl e code s pos)
  from 1(2,3) show ?case
    by (subst (asm) scan_ip_category.simps)
      (auto simp: res_simps split: if_splits dest!: 1(1) dest: ip_category_field_ok)
qed

text \<open>
  Sorting, dropping covered blocks and merging siblings does not change which addresses a
  GeoIP category matches: after a category is parsed, the binary search over its compacted blocks
  answers yes exactly for the addresses that one of the category's records covers. The compacted
  blocks are in ascending order, disjoint, and hold no pair that would merge further.
\<close>

lemma ip_category_matches_records:
  assumes "parse_ip_category file rg = Inr category"
    and "scan_ip_category file (sr_offset rg + sr_len rg) (sr_code rg)
           \<lparr>is_seen_code = False, is_remaining = sr_record_count rg, is_lists = ([], [])\<rparr> (sr_offset rg) = Inr s"
  shows "ip_matches category (IpV4 a) = list_ex (\<lambda>c. geo_cidr_contains c a) (fst (is_lists s)) \<and>
         ip_matches category (IpV6 b) = list_ex (\<lambda>c. geo_cidr_contains c b) (snd (is_lists s)) \<and>
         sorted_wrt (\<lambda>c d. cidr_low c + cidr_span c \<le> cidr_low d) (ic_v4 category) \<and>
         sorted_wrt (\<lambda>c d. cidr_low c + cidr_span c \<le> cidr_low d) (ic_v6 category) \<and>
         successively (\<lambda>l r. \<not> sibling l r) (ic_v4 category) \<and>
         successively (\<lambda>l r. \<not> sibling l r) (ic_v6 category)"
proof -
  have ok: "list_all cidr_ok (fst (is_lists s))" "list_all cidr_ok (snd (is_lists s))"
    using scan_ip_category_ok [OF assms(2)] by (auto simp: lists_ok_def)
  have "ic_v4 category = compact (fst (is_lists s))" "ic_v6 category = compact (snd (is_lists s))"
    using assms by (auto simp: parse_ip_category_def res_simps split: if_splits)
  with compact_ok [OF ok(1)] compact_ok [OF ok(2)] cidrs_match_compact [OF ok(1)] cidrs_match_compact [OF ok(2)]
  show ?thesis by simp
qed

lemma ip_category_example:
  "\<exists>category. parse_ip_category
       ([0x0A, 2, 0x63, 0x6E] @ [0x12, 8, 0x0A, 4, 10, 128, 0, 0, 0x10, 9] @ [0x12, 8, 0x0A, 4, 10, 0, 0, 0, 0x10, 9])
       \<lparr>sr_code = str ''cn'', sr_offset = 0, sr_len = 24, sr_record_count = 2\<rparr> = Inr category \<and>
     ip_matches category (IpV4 0x0AFF0001) \<and> \<not> ip_matches category (IpV4 0x0B000000)"
proof -
  let ?file = "[0x0A, 2, 0x63, 0x6E, 0x12, 8, 0x0A, 4, 10, 128, 0, 0, 0x10, 9, 0x12, 8, 0x0A, 4, 10, 0, 0, 0, 0x10, 9] :: bytes"
  let ?range = "\<lparr>sr_code = str ''cn'', sr_offset = 0, sr_len = 24, sr_record_count = 2\<rparr>"
  let ?records = "[\<lparr>gc_network = 0x0A800000, gc_prefix = 9\<rparr>, \<lparr>gc_network = 0x0A000000, gc_prefix = 9\<rparr>]"
  have scan: "scan_ip_category ?file (sr_offset ?range + sr_len ?range) (sr_code ?range)
      \<lparr>is_seen_code = False, is_remaining = sr_record_count ?range, is_lists = ([], [])\<rparr> (sr_offset ?range) =
      Inr \<lparr>is_seen_code = True, is_remaining = 0, is_lists = (?records, [])\<rparr>"
    by (simp add: scan_ip_category.simps ip_category_field_def parse_cidr_record_def scan_cidr.simps cidr_field_def
        geo_eval mask_to_def u32_of_def from_be_def mask_eq_exp_minus_1)
  then obtain category where parse: "parse_ip_category ?file ?range = Inr category"
    by (simp add: parse_ip_category_def checked_end_def u64_max_def)
  from ip_category_matches_records [OF parse scan, of "0x0AFF0001"] ip_category_matches_records [OF parse scan, of "0x0B000000"]
  have "ip_matches category (IpV4 0x0AFF0001)" "\<not> ip_matches category (IpV4 0x0B000000)"
    by (simp_all add: geo_cidr_contains_def mask_to_def mask_eq_exp_minus_1)
  with parse show ?thesis by simp
qed

end
