(* ===== verification/Geo_Site.thy ===== *)
theory Geo_Site
  imports Geo_Proto Geo_Ip Rust_Search
begin

text \<open>
  The GeoSite side of \<^verbatim>\<open>src/geodata/mod.rs\<close>: the compact index of a category, the match of a domain
  against a selector, and the parser of a category. Outside the model are the regular expressions
  (\<^verbatim>\<open>compile\<close> builds one from its source or refuses it, \<^verbatim>\<open>is_match\<close> runs it), \<^verbatim>\<open>idna\<close>
  (\<^verbatim>\<open>idna::domain_to_ascii\<close>), \<^verbatim>\<open>lower_str\<close> (\<^verbatim>\<open>str::to_lowercase\<close>) and \<^verbatim>\<open>fold_start\<close> (see the selectors).
\<close>

section \<open>Patterns\<close>

datatype site_pattern_kind = SubstrPattern | DomainPattern | FullPattern

fun site_kind_rank :: "site_pattern_kind \<Rightarrow> nat" where
  "site_kind_rank SubstrPattern = 0"
| "site_kind_rank DomainPattern = 1"
| "site_kind_rank FullPattern = 2"

lemma site_kind_rank_inj [simp]: "site_kind_rank a = site_kind_rank b \<longleftrightarrow> a = b"
  by (cases a; cases b) simp_all

instantiation site_pattern_kind :: linorder
begin

definition less_eq_site_pattern_kind :: "site_pattern_kind \<Rightarrow> site_pattern_kind \<Rightarrow> bool" where
  "less_eq_site_pattern_kind a b \<longleftrightarrow> site_kind_rank a \<le> site_kind_rank b"

definition less_site_pattern_kind :: "site_pattern_kind \<Rightarrow> site_pattern_kind \<Rightarrow> bool" where
  "less_site_pattern_kind a b \<longleftrightarrow> site_kind_rank a < site_kind_rank b"

instance
  by standard (auto simp: less_eq_site_pattern_kind_def less_site_pattern_kind_def)

end

record site_pattern =
  sp_kind :: site_pattern_kind
  sp_start :: u32
  sp_len :: u32

definition pattern_value :: "bytes \<Rightarrow> site_pattern \<Rightarrow> bytes" where
  "pattern_value values p = subslice values (unat (sp_start p)) (unat (sp_start p) + unat (sp_len p))"

record site_filter =
  sf_attributes :: bytes
  sf_all_records :: bool
  sf_patterns :: "site_pattern list"
  sf_regex_indices :: "nat list"

record 'r site_category =
  sc_code :: bytes
  sc_patterns :: "site_pattern list"
  sc_values :: bytes
  sc_regexes :: "'r list"
  sc_selectors :: "bytes list"
  sc_filters :: "site_filter list"

section \<open>Matching\<close>

definition site_has_selector :: "'r site_category \<Rightarrow> bytes \<Rightarrow> bool" where
  "site_has_selector category selector =
     list_ex (\<lambda>requested. eq_ignore_ascii_case requested selector) (sc_selectors category)"

definition site_contains :: "bytes \<Rightarrow> site_pattern list \<Rightarrow> site_pattern_kind \<Rightarrow> bytes \<Rightarrow> bool" where
  "site_contains values patterns kind key =
     is_ok (binary_search_by (\<lambda>p. then_cmp (cmp (sp_kind p) kind) (cmp (pattern_value values p) key)) patterns)"

lemma dropWhile_shorter [termination_simp]: "dropWhile P xs = y # ys \<Longrightarrow> length ys < length xs"
  using length_dropWhile_le [of P xs] by simp

function contains_suffix :: "bytes \<Rightarrow> site_pattern list \<Rightarrow> bytes \<Rightarrow> bool" where
  "contains_suffix values patterns suffix =
     (if site_contains values patterns DomainPattern suffix then True
      else
        (case dropWhile (\<lambda>b. b \<noteq> 0x2E) suffix of
           [] \<Rightarrow> False
         | _ # suffix' \<Rightarrow> contains_suffix values patterns suffix'))"
  by pat_completeness auto

termination by (relation "measure (\<lambda>(values, patterns, suffix). length suffix)") (auto dest: dropWhile_shorter)

declare contains_suffix.simps [simp del]

text \<open>\<^verbatim>\<open>bytes.windows(value.len()).any(|window| window == value)\<close>; the length is never zero.\<close>

definition any_window :: "bytes \<Rightarrow> bytes \<Rightarrow> bool" where
  "any_window bs key = list_ex (\<lambda>i. take (length key) (drop i bs) = key) [0..<Suc (length bs) - length key]"

definition site_matches ::
  "('r \<Rightarrow> bytes \<Rightarrow> bool) \<Rightarrow> 'r site_category \<Rightarrow> bytes \<Rightarrow> site_pattern list \<Rightarrow> nat list option \<Rightarrow> bool" where
  "site_matches is_match category domain patterns regex_indices =
     (if site_contains (sc_values category) patterns FullPattern domain then True
      else if contains_suffix (sc_values category) patterns domain then True
      else if list_ex (\<lambda>p. any_window domain (pattern_value (sc_values category) p))
                (takeWhile (\<lambda>p. sp_kind p = SubstrPattern) patterns) then True
      else
        (case regex_indices of
           Some indices \<Rightarrow> list_ex (\<lambda>index. is_match (sc_regexes category ! index) domain) indices
         | None \<Rightarrow> list_ex (\<lambda>regex. is_match regex domain) (sc_regexes category)))"

definition starts_with_not :: "bytes \<Rightarrow> bool" where
  "starts_with_not selector = (case selector of [] \<Rightarrow> False | b # _ \<Rightarrow> b = 0x21)"

definition site_matches_selector ::
  "('r \<Rightarrow> bytes \<Rightarrow> bool) \<Rightarrow> 'r site_category \<Rightarrow> bytes \<Rightarrow> bytes \<Rightarrow> bool" where
  "site_matches_selector is_match category selector domain =
     (let attributes = selector_attributes selector;
          filter = find (\<lambda>f. eq_ignore_ascii_case (sf_attributes f) attributes) (sc_filters category);
          negated = starts_with_not selector in
      if attributes = [] then
        site_matches is_match category domain (sc_patterns category) None \<noteq> negated
      else
        (case filter of
           None \<Rightarrow> False
         | Some f \<Rightarrow>
             (if sf_all_records f then site_matches is_match category domain (sc_patterns category) None
              else site_matches is_match category domain (sf_patterns f) (Some (sf_regex_indices f))) \<noteq> negated))"

section \<open>Domain records\<close>

text \<open>
  \<^verbatim>\<open>has_unsupported_inline_regex_flag\<close>: the inner loop over the flags of a group, and the outer loop on
  the rest of the pattern with its two flags.
\<close>

fun unsupported_flag :: "bytes \<Rightarrow> bool" where
  "unsupported_flag [] = False"
| "unsupported_flag (flag # rest) =
     (if flag \<in> {0x75, 0x78, 0x52} then True
      else if flag \<in> {0x69, 0x6D, 0x73, 0x55, 0x2D} then unsupported_flag rest
      else False)"

fun inline_flag_loop :: "bool \<Rightarrow> bool \<Rightarrow> bytes \<Rightarrow> bool" where
  "inline_flag_loop escaped in_class [] = False"
| "inline_flag_loop escaped in_class (byte # rest) =
     (if escaped then inline_flag_loop False in_class rest
      else if byte = 0x5C then inline_flag_loop True in_class rest
      else if byte = 0x5B \<and> \<not> in_class then inline_flag_loop False True rest
      else if byte = 0x5D \<and> in_class then inline_flag_loop False False rest
      else if byte = 0x28 \<and> \<not> in_class \<and> rest \<noteq> [] \<and> hd rest = 0x3F \<and> unsupported_flag (tl rest) then True
      else inline_flag_loop False in_class rest)"

definition has_unsupported_inline_regex_flag :: "bytes \<Rightarrow> bool" where
  "has_unsupported_inline_regex_flag pat = inline_flag_loop False False pat"

definition validate_regex_source :: "bytes \<Rightarrow> bytes \<Rightarrow> geo_data_error + unit" where
  "validate_regex_source code pat =
     (if \<not> is_ascii pat then Inl (GeoInvalidRegex code)
      else if has_unsupported_inline_regex_flag pat then Inl (GeoInvalidRegex code)
      else Inr ())"

text \<open>The value of a record, before it is stored.\<close>

datatype site_rule = Literal site_pattern_kind bytes | RegexSource bytes

definition domain_rule ::
  "(bytes \<Rightarrow> bytes option) \<Rightarrow> (bytes \<Rightarrow> bytes) \<Rightarrow> bytes \<Rightarrow> u64 \<Rightarrow> bytes \<Rightarrow> geo_data_error + site_rule" where
  "domain_rule idna lower_str code domain_type scratch =
     (if \<not> utf8_valid scratch then Inl (GeoInvalidDomain code)
      else if domain_type = 0 then
        if scratch = [] \<or> \<not> is_ascii scratch then Inl (GeoInvalidDomain code)
        else Inr (Literal SubstrPattern (ascii_lowercase scratch))
      else if domain_type = 1 then
        and_then (validate_regex_source code scratch) (\<lambda>_. Inr (RegexSource scratch))
      else if domain_type = 2 \<or> domain_type = 3 then
        (let raw = unwrap_or (strip_suffix1 0x2E scratch) scratch in
         if raw = [] then Inl (GeoInvalidDomain code)
         else Inr (Literal (if domain_type = 2 then DomainPattern else FullPattern)
           (if is_ascii raw then ascii_lowercase raw
            else (case idna raw of
                    Some ascii \<Rightarrow> if ascii = [] then lower_str raw else ascii
                  | None \<Rightarrow> lower_str raw))))
      else Inl (GeoInvalidDomain code))"

record site_build =
  sb_patterns :: "site_pattern list"
  sb_values :: bytes
  sb_regex_bytes :: bytes
  sb_regex_ranges :: "(u32 \<times> u32) list"

definition u32_max :: nat where "u32_max = 2 ^ 32 - 1"

definition append_site_value :: "site_pattern_kind \<Rightarrow> bytes \<Rightarrow> site_build \<Rightarrow> geo_data_error + site_build" where
  "append_site_value kind key b =
     (if u32_max < length (sb_values b) then Inl GeoResourceLimit
      else if u32_max < length key then Inl GeoResourceLimit
      else Inr (b\<lparr>sb_values := sb_values b @ key,
          sb_patterns := sb_patterns b @
            [\<lparr>sp_kind = kind, sp_start = of_nat (length (sb_values b)), sp_len = of_nat (length key)\<rparr>]\<rparr>))"

definition append_regex :: "bytes \<Rightarrow> bytes \<Rightarrow> site_build \<Rightarrow> geo_data_error + site_build" where
  "append_regex code source b =
     (if u32_max < length (sb_regex_bytes b) then Inl (GeoInvalidDomain code)
      else if u32_max < length source then Inl (GeoInvalidDomain code)
      else Inr (b\<lparr>sb_regex_bytes := sb_regex_bytes b @ source,
          sb_regex_ranges := sb_regex_ranges b @ [(of_nat (length (sb_regex_bytes b)), of_nat (length source))]\<rparr>))"

fun append_rule :: "bytes \<Rightarrow> site_rule \<Rightarrow> site_build \<Rightarrow> geo_data_error + site_build" where
  "append_rule code (Literal kind key) b = append_site_value kind key b"
| "append_rule code (RegexSource source) b = append_regex code source b"

record domain_fields =
  df_type :: u64
  df_seen_type :: bool
  df_value :: "(nat \<times> nat) option"

definition domain_field ::
  "bytes \<Rightarrow> nat \<Rightarrow> bytes \<Rightarrow> u32 \<Rightarrow> u8 \<Rightarrow> domain_fields \<Rightarrow> nat \<Rightarrow> geo_data_error + domain_fields \<times> nat" where
  "domain_field file end code field wire s pos =
     (if field = 1 then
        and_then (require_wire GeoSiteKind wire 0) (\<lambda>_.
        if df_seen_type s then Inl (GeoInvalidDomain code)
        else and_then (read_varint GeoSiteKind file end pos) (\<lambda>(domain_type, pos').
          Inr (s\<lparr>df_type := domain_type, df_seen_type := True\<rparr>, pos')))
      else if field = 2 then
        and_then (require_wire GeoSiteKind wire 2) (\<lambda>_.
        if df_value s \<noteq> None then Inl (GeoInvalidDomain code)
        else and_then (read_length GeoSiteKind file end pos) (\<lambda>(len, start).
          and_then (checked_end GeoSiteKind start len end) (\<lambda>value_end.
          Inr (s\<lparr>df_value := Some (start, len)\<rparr>, value_end))))
      else if field = 3 then
        and_then (require_wire GeoSiteKind wire 2) (\<lambda>_.
        and_then (read_length GeoSiteKind file end pos) (\<lambda>(len, start).
        and_then (checked_end GeoSiteKind start len end) (\<lambda>attribute_end.
        and_then (validate_attribute GeoSiteKind file attribute_end start) (\<lambda>_.
        Inr (s, attribute_end)))))
      else and_then (skip_field_payload GeoSiteKind file end wire pos) (\<lambda>pos'. Inr (s, pos')))"

lemma domain_field_pos:
  "domain_field file end code field wire s pos = Inr (s', p) \<Longrightarrow> pos < p \<and> p \<le> end"
  by (auto simp: domain_field_def res_simps split: if_splits
      dest!: read_length_pos read_varint_pos dest: skip_field_payload_pos skip_field_payload_end)

function scan_domain :: "bytes \<Rightarrow> nat \<Rightarrow> bytes \<Rightarrow> domain_fields \<Rightarrow> nat \<Rightarrow> geo_data_error + domain_fields" where
  "scan_domain file end code s pos =
     (if pos < end then
        and_then (read_key GeoSiteKind file end pos) (\<lambda>(field, wire, pos1).
        and_then (domain_field file end code field wire s pos1) (\<lambda>(s', pos2).
        scan_domain file end code s' pos2))
      else Inr s)"
  by pat_completeness auto

termination
  by (relation "measure (\<lambda>(file, end, code, s, pos). end - pos)")
    (auto dest!: read_key_pos domain_field_pos)

declare scan_domain.simps [simp del]

definition read_domain_rule ::
  "(bytes \<Rightarrow> bytes option) \<Rightarrow> (bytes \<Rightarrow> bytes) \<Rightarrow> bytes \<Rightarrow> nat \<Rightarrow> bytes \<Rightarrow> nat \<Rightarrow> geo_data_error + site_rule" where
  "read_domain_rule idna lower_str file end code pos =
     and_then (scan_domain file end code \<lparr>df_type = 0, df_seen_type = False, df_value = None\<rparr> pos) (\<lambda>s.
     and_then (ok_or (GeoInvalidDomain code) (df_value s)) (\<lambda>(value_offset, value_len).
     and_then (read_scratch GeoSiteKind file value_offset value_len) (\<lambda>(scratch, _).
     domain_rule idna lower_str code (df_type s) scratch)))"

definition parse_domain_record ::
  "(bytes \<Rightarrow> bytes option) \<Rightarrow> (bytes \<Rightarrow> bytes) \<Rightarrow> bytes \<Rightarrow> nat \<Rightarrow> bytes \<Rightarrow> site_build \<Rightarrow> nat \<Rightarrow>
   geo_data_error + site_build" where
  "parse_domain_record idna lower_str file end code b pos =
     and_then (read_domain_rule idna lower_str file end code pos) (\<lambda>rule. append_rule code rule b)"

section \<open>Attributes of a record\<close>

text \<open>The inner loop of \<^verbatim>\<open>scan_domain_attributes\<close>: the range of the last key of one attribute.\<close>

definition attribute_key_field ::
  "bytes \<Rightarrow> nat \<Rightarrow> u32 \<Rightarrow> u8 \<Rightarrow> (nat \<times> nat) option \<Rightarrow> nat \<Rightarrow> geo_data_error + (nat \<times> nat) option \<times> nat" where
  "attribute_key_field file end field wire key_range pos =
     (if field = 1 then
        and_then (require_wire GeoSiteKind wire 2) (\<lambda>_.
        and_then (read_length GeoSiteKind file end pos) (\<lambda>(len, start).
        and_then (validate_utf8_bytes GeoSiteKind file end len start) (\<lambda>pos'.
        Inr (Some (start, len), pos'))))
      else if field = 2 \<or> field = 3 then
        and_then (require_wire GeoSiteKind wire 0) (\<lambda>_.
        and_then (read_varint GeoSiteKind file end pos) (\<lambda>(_, pos'). Inr (key_range, pos')))
      else and_then (skip_field_payload GeoSiteKind file end wire pos) (\<lambda>pos'. Inr (key_range, pos')))"

lemma attribute_key_field_pos:
  "attribute_key_field file end field wire kr pos = Inr (kr', p) \<Longrightarrow> pos < p \<and> p \<le> end"
  by (auto simp: attribute_key_field_def res_simps split: if_splits
      dest!: read_length_pos read_varint_pos dest: skip_field_payload_pos skip_field_payload_end)

function scan_attribute ::
  "bytes \<Rightarrow> nat \<Rightarrow> (nat \<times> nat) option \<Rightarrow> nat \<Rightarrow> geo_data_error + (nat \<times> nat) option" where
  "scan_attribute file end key_range pos =
     (if pos < end then
        and_then (read_key GeoSiteKind file end pos) (\<lambda>(field, wire, pos1).
        and_then (attribute_key_field file end field wire key_range pos1) (\<lambda>(key_range', pos2).
        scan_attribute file end key_range' pos2))
      else Inr key_range)"
  by pat_completeness auto

termination
  by (relation "measure (\<lambda>(file, end, key_range, pos). end - pos)")
    (auto dest!: read_key_pos attribute_key_field_pos)

declare scan_attribute.simps [simp del]

text \<open>Whether a requested attribute is the one with this key.\<close>

definition attribute_eq :: "(nat \<Rightarrow> nat) \<Rightarrow> bytes \<Rightarrow> bytes \<Rightarrow> bool" where
  "attribute_eq fold_start wanted key =
     (if is_ascii key then eq_ignore_ascii_case wanted key
      else wanted = concat (map utf8_char (fold_attribute fold_start (utf8_chars key))))"

definition mark_present :: "(nat \<Rightarrow> nat) \<Rightarrow> bytes list \<Rightarrow> bytes \<Rightarrow> bool list \<Rightarrow> bool list" where
  "mark_present fold_start requested key present =
     map2 (\<lambda>wanted p. p \<or> attribute_eq fold_start wanted key) requested present"

definition scan_attribute_field ::
  "(nat \<Rightarrow> nat) \<Rightarrow> bytes \<Rightarrow> nat \<Rightarrow> bytes list \<Rightarrow> u32 \<Rightarrow> u8 \<Rightarrow> bool list \<Rightarrow> nat \<Rightarrow>
   geo_data_error + bool list \<times> nat" where
  "scan_attribute_field fold_start file end requested field wire present pos =
     (if field \<noteq> 3 then
        and_then (skip_field_payload GeoSiteKind file end wire pos) (\<lambda>pos'. Inr (present, pos'))
      else
        and_then (require_wire GeoSiteKind wire 2) (\<lambda>_.
        and_then (read_length GeoSiteKind file end pos) (\<lambda>(len, start).
        and_then (checked_end GeoSiteKind start len end) (\<lambda>attribute_end.
        and_then (scan_attribute file attribute_end None start) (\<lambda>key_range.
        case key_range of
          None \<Rightarrow> Inr (present, attribute_end)
        | Some (offset, key_len) \<Rightarrow>
            and_then (read_scratch GeoSiteKind file offset key_len) (\<lambda>(key, _).
            Inr (mark_present fold_start requested key present, attribute_end)))))))"

lemma scan_attribute_field_pos:
  "scan_attribute_field fold_start file end requested field wire present pos = Inr (present', p) \<Longrightarrow> pos < p \<and> p \<le> end"
  by (auto simp: scan_attribute_field_def res_simps split: if_splits option.splits
      dest!: read_length_pos dest: skip_field_payload_pos skip_field_payload_end)

function scan_domain_attributes ::
  "(nat \<Rightarrow> nat) \<Rightarrow> bytes \<Rightarrow> nat \<Rightarrow> bytes list \<Rightarrow> bool list \<Rightarrow> nat \<Rightarrow> geo_data_error + bool list" where
  "scan_domain_attributes fold_start file end requested present pos =
     (if pos < end then
        and_then (read_key GeoSiteKind file end pos) (\<lambda>(field, wire, pos1).
        and_then (scan_attribute_field fold_start file end requested field wire present pos1) (\<lambda>(present', pos2).
        scan_domain_attributes fold_start file end requested present' pos2))
      else Inr present)"
  by pat_completeness auto

termination
  by (relation "measure (\<lambda>(fold_start, file, end, requested, present, pos). end - pos)")
    (auto dest!: read_key_pos scan_attribute_field_pos)

declare scan_domain_attributes.simps [simp del]

section \<open>Categories\<close>

text \<open>The selectors of a category share one filter for each set of attributes.\<close>

fun add_filter :: "bytes \<Rightarrow> site_filter list \<Rightarrow> site_filter list" where
  "add_filter selector filters =
     (let attributes = selector_attributes selector in
      if attributes \<noteq> [] \<and> \<not> list_ex (\<lambda>f. sf_attributes f = attributes) filters
      then filters @ [\<lparr>sf_attributes = attributes, sf_all_records = False, sf_patterns = [], sf_regex_indices = []\<rparr>]
      else filters)"

definition unfiltered :: "bytes list \<Rightarrow> bool" where
  "unfiltered selectors = list_ex (\<lambda>selector. selector_attributes selector = []) selectors"

definition site_filters :: "bytes list \<Rightarrow> site_filter list" where
  "site_filters selectors =
     (let filters = fold add_filter selectors [] in
      if length filters = 1 \<and> \<not> unfiltered selectors
      then [(hd filters)\<lparr>sf_all_records := True\<rparr>] else filters)"

definition add_key :: "bytes \<Rightarrow> bytes list \<Rightarrow> bytes list" where
  "add_key attribute keys = (if attribute \<in> set keys then keys else keys @ [attribute])"

definition attribute_keys :: "site_filter list \<Rightarrow> bytes list" where
  "attribute_keys filters = fold (\<lambda>f keys. fold add_key (split_on 0x40 (sf_attributes f)) keys) filters []"

fun key_position :: "bytes list \<Rightarrow> bytes \<Rightarrow> nat" where
  "key_position [] attribute = 0"
| "key_position (key # keys) attribute = (if key = attribute then 0 else Suc (key_position keys attribute))"

definition filter_matched :: "bytes list \<Rightarrow> bool list \<Rightarrow> site_filter \<Rightarrow> bool" where
  "filter_matched keys present f =
     list_all (\<lambda>attribute. present ! key_position keys attribute) (split_on 0x40 (sf_attributes f))"

text \<open>One stored record is added to every filter it matches.\<close>

definition extend_filter :: "site_build \<Rightarrow> site_build \<Rightarrow> bool \<Rightarrow> site_filter \<Rightarrow> site_filter" where
  "extend_filter before after matched f =
     (if \<not> matched \<or> sf_all_records f then f
      else
        (let f1 = (case get_at (sb_patterns after) (length (sb_patterns before)) of
                     Some p \<Rightarrow> f\<lparr>sf_patterns := sf_patterns f @ [p]\<rparr>
                   | None \<Rightarrow> f) in
         if length (sb_regex_ranges before) < length (sb_regex_ranges after)
         then f1\<lparr>sf_regex_indices := sf_regex_indices f1 @ [length (sb_regex_ranges before)]\<rparr> else f1))"

record site_scan =
  sx_seen_code :: bool
  sx_remaining :: nat
  sx_build :: site_build
  sx_filters :: "site_filter list"

definition match_record ::
  "(nat \<Rightarrow> nat) \<Rightarrow> bytes \<Rightarrow> nat \<Rightarrow> bytes list \<Rightarrow> site_filter list \<Rightarrow> nat \<Rightarrow> geo_data_error + bool list" where
  "match_record fold_start file record_end keys filters start =
     (if filters = [] then Inr []
      else and_then (scan_domain_attributes fold_start file record_end keys (replicate (length keys) False) start)
        (\<lambda>present. Inr (map (filter_matched keys present) filters)))"

definition store_record ::
  "(nat \<Rightarrow> nat) \<Rightarrow> (bytes \<Rightarrow> bytes option) \<Rightarrow> (bytes \<Rightarrow> bytes) \<Rightarrow> bytes \<Rightarrow> bytes \<Rightarrow> bool \<Rightarrow> bytes list \<Rightarrow> nat \<Rightarrow> nat \<Rightarrow>
   site_build \<times> site_filter list \<Rightarrow> geo_data_error + site_build \<times> site_filter list" where
  "store_record fold_start idna lower_str file code unfilt keys record_end start st =
     (let (b, filters) = st in
      and_then (match_record fold_start file record_end keys filters start) (\<lambda>filter_matches.
      if unfilt \<or> list_ex (\<lambda>matched. matched) filter_matches then
        and_then (parse_domain_record idna lower_str file record_end code b start) (\<lambda>b'.
        Inr (b', map2 (extend_filter b b') filter_matches filters))
      else Inr (b, filters)))"

definition site_category_field ::
  "(nat \<Rightarrow> nat) \<Rightarrow> (bytes \<Rightarrow> bytes option) \<Rightarrow> (bytes \<Rightarrow> bytes) \<Rightarrow> bytes \<Rightarrow> nat \<Rightarrow> bytes \<Rightarrow> bool \<Rightarrow> bytes list \<Rightarrow>
   u32 \<Rightarrow> u8 \<Rightarrow> site_scan \<Rightarrow> nat \<Rightarrow> geo_data_error + site_scan \<times> nat" where
  "site_category_field fold_start idna lower_str file end range_code unfilt keys field wire s pos =
     (if field = 1 then
        and_then (require_wire GeoSiteKind wire 2) (\<lambda>_.
        if sx_seen_code s then Inl (GeoMalformed GeoSiteKind)
        else and_then (read_code GeoSiteKind file end pos) (\<lambda>(code, pos').
          if code \<noteq> range_code then Inl (GeoMalformed GeoSiteKind)
          else Inr (s\<lparr>sx_seen_code := True\<rparr>, pos')))
      else if field = 2 then
        and_then (require_wire GeoSiteKind wire 2) (\<lambda>_.
        if sx_remaining s = 0 then Inl (GeoMalformed GeoSiteKind)
        else and_then (read_length GeoSiteKind file end pos) (\<lambda>(len, start).
          and_then (checked_end GeoSiteKind start len end) (\<lambda>record_end.
          and_then (store_record fold_start idna lower_str file range_code unfilt keys record_end start
            (sx_build s, sx_filters s)) (\<lambda>(b, filters).
          Inr (s\<lparr>sx_remaining := sx_remaining s - 1, sx_build := b, sx_filters := filters\<rparr>, record_end)))))
      else and_then (skip_field_payload GeoSiteKind file end wire pos) (\<lambda>pos'. Inr (s, pos')))"

lemma site_category_field_pos:
  "site_category_field fold_start idna lower_str file end code unfilt keys field wire s pos = Inr (s', p) \<Longrightarrow>
   pos < p \<and> p \<le> end"
  by (auto simp: site_category_field_def res_simps split: if_splits
      dest!: read_length_pos read_code_pos dest: skip_field_payload_pos skip_field_payload_end)

function scan_site_category ::
  "(nat \<Rightarrow> nat) \<Rightarrow> (bytes \<Rightarrow> bytes option) \<Rightarrow> (bytes \<Rightarrow> bytes) \<Rightarrow> bytes \<Rightarrow> nat \<Rightarrow> bytes \<Rightarrow> bool \<Rightarrow> bytes list \<Rightarrow>
   site_scan \<Rightarrow> nat \<Rightarrow> geo_data_error + site_scan" where
  "scan_site_category fold_start idna lower_str file end code unfilt keys s pos =
     (if pos < end then
        and_then (read_key GeoSiteKind file end pos) (\<lambda>(field, wire, pos1).
        and_then (site_category_field fold_start idna lower_str file end code unfilt keys field wire s pos1)
          (\<lambda>(s', pos2). scan_site_category fold_start idna lower_str file end code unfilt keys s' pos2))
      else Inr s)"
  by pat_completeness auto

termination
  by (relation "measure (\<lambda>(fold_start, idna, lower_str, file, end, code, unfilt, keys, s, pos). end - pos)")
    (auto dest!: read_key_pos site_category_field_pos)

declare scan_site_category.simps [simp del]

fun compile_regex_set :: "(bytes \<Rightarrow> 'r option) \<Rightarrow> bytes \<Rightarrow> bytes \<Rightarrow> (u32 \<times> u32) list \<Rightarrow> geo_data_error + 'r list" where
  "compile_regex_set compile code bs [] = Inr []"
| "compile_regex_set compile code bs ((start, len) # ranges) =
     and_then (ok_or (GeoInvalidRegex code) (compile (subslice bs (unat start) (unat start + unat len)))) (\<lambda>regex.
     and_then (compile_regex_set compile code bs ranges) (\<lambda>regexes. Inr (regex # regexes)))"

definition sort_patterns :: "bytes \<Rightarrow> site_pattern list \<Rightarrow> site_pattern list" where
  "sort_patterns values patterns = sort_key (\<lambda>p. (sp_kind p, pattern_value values p)) patterns"

definition empty_build :: site_build where
  "empty_build = \<lparr>sb_patterns = [], sb_values = [], sb_regex_bytes = [], sb_regex_ranges = []\<rparr>"

definition parse_site_category ::
  "(nat \<Rightarrow> nat) \<Rightarrow> (bytes \<Rightarrow> bytes option) \<Rightarrow> (bytes \<Rightarrow> bytes) \<Rightarrow> (bytes \<Rightarrow> 'r option) \<Rightarrow> bytes \<Rightarrow> selected_range \<Rightarrow>
   bytes list \<Rightarrow> geo_data_error + 'r site_category" where
  "parse_site_category fold_start idna lower_str compile file rg requested =
     and_then (checked_end GeoSiteKind (sr_offset rg) (sr_len rg) u64_max) (\<lambda>end.
     let filters = site_filters requested in
     and_then (scan_site_category fold_start idna lower_str file end (sr_code rg) (unfiltered requested)
       (attribute_keys filters)
       \<lparr>sx_seen_code = False, sx_remaining = sr_record_count rg, sx_build = empty_build, sx_filters = filters\<rparr>
       (sr_offset rg)) (\<lambda>s.
     if \<not> sx_seen_code s then Inl (GeoMalformed GeoSiteKind)
     else if sx_remaining s \<noteq> 0 then Inl (GeoMalformed GeoSiteKind)
     else
       (let b = sx_build s in
        and_then (compile_regex_set compile (sr_code rg) (sb_regex_bytes b) (sb_regex_ranges b)) (\<lambda>regexes.
        Inr \<lparr>sc_code = sr_code rg, sc_patterns = sort_patterns (sb_values b) (sb_patterns b),
             sc_values = sb_values b, sc_regexes = regexes, sc_selectors = requested,
             sc_filters = map (\<lambda>f. f\<lparr>sf_patterns := sort_patterns (sb_values b) (sf_patterns f)\<rparr>) (sx_filters s)\<rparr>))))"

end
