(* ===== verification/Geo_Site_Match.thy ===== *)
theory Geo_Site_Match
  imports Geo_Site
begin

text \<open>
  What a GeoSite category answers. The first part shows that the binary searches, the suffix loop and
  the prefix of substring patterns together are a linear scan over all patterns. The second part
  follows the parser and shows that a selector matches a domain exactly when a record of the file
  that carries the selector's attributes does.
\<close>

section \<open>The index is a linear scan\<close>

definition label_suffix :: "bytes \<Rightarrow> bytes \<Rightarrow> bool" where
  "label_suffix key domain \<longleftrightarrow> domain = key \<or> (\<exists>sub. domain = sub @ 0x2E # key)"

fun literal_matches :: "site_pattern_kind \<Rightarrow> bytes \<Rightarrow> bytes \<Rightarrow> bool" where
  "literal_matches FullPattern key domain = (domain = key)"
| "literal_matches DomainPattern key domain = label_suffix key domain"
| "literal_matches SubstrPattern key domain = (\<exists>a b. domain = a @ key @ b)"

abbreviation literal_of :: "bytes \<Rightarrow> site_pattern \<Rightarrow> site_pattern_kind \<times> bytes" where
  "literal_of values p \<equiv> (sp_kind p, pattern_value values p)"

lemma then_cmp_pair: "then_cmp (cmp a b) (cmp c d) = cmp (a, c) (b, d)"
  by (auto simp: then_cmp_def cmp_def)

lemma site_contains_iff:
  assumes "sorted (map (literal_of values) ps)"
  shows "site_contains values ps kind key \<longleftrightarrow> (kind, key) \<in> set (map (literal_of values) ps)"
  using binary_search_by_is_ok [OF ordered_by_cmp [OF assms], of "(kind, key)"]
  by (auto simp: site_contains_def then_cmp_pair)

lemma label_suffix_next:
  assumes "dropWhile (\<lambda>b. b \<noteq> 0x2E) domain = dot # rest"
  shows "label_suffix key domain \<longleftrightarrow> domain = key \<or> label_suffix key rest"
proof -
  define w where "w = takeWhile (\<lambda>b. b \<noteq> 0x2E) domain"
  have dot: "dot = 0x2E" using assms hd_dropWhile [of "\<lambda>b. b \<noteq> 0x2E" domain] by fastforce
  then have d: "domain = w @ 0x2E # rest" using assms by (metis takeWhile_dropWhile_id w_def)
  have w: "0x2E \<notin> set w" by (auto simp: w_def dest: set_takeWhileD)
  show ?thesis
  proof
    assume "label_suffix key domain"
    then consider "domain = key" | sub where "domain = sub @ 0x2E # key" by (auto simp: label_suffix_def)
    then show "domain = key \<or> label_suffix key rest"
    proof cases
      case (2 sub)
      then have "w @ 0x2E # rest = sub @ 0x2E # key" using d by simp
      with w show ?thesis by (auto simp: label_suffix_def append_eq_append_conv2 Cons_eq_append_conv append_eq_Cons_conv)
    qed simp
  next
    assume "domain = key \<or> label_suffix key rest"
    with d show "label_suffix key domain"
      by (auto simp: label_suffix_def)
  qed
qed

lemma label_suffix_last:
  "dropWhile (\<lambda>b. b \<noteq> 0x2E) domain = [] \<Longrightarrow> label_suffix key domain \<longleftrightarrow> domain = key"
  by (auto simp: label_suffix_def dropWhile_eq_Nil_conv)

lemma contains_suffix_iff:
  assumes "sorted (map (literal_of values) ps)"
  shows "contains_suffix values ps domain \<longleftrightarrow>
    (\<exists>key. (DomainPattern, key) \<in> set (map (literal_of values) ps) \<and> label_suffix key domain)"
  using assms
proof (induction "values" ps domain rule: contains_suffix.induct)
  case (1 vs ps suffix)
  show ?case
  proof (cases "dropWhile (\<lambda>b. b \<noteq> 0x2E) suffix")
    case Nil
    then show ?thesis
      by (subst contains_suffix.simps, subst Nil) (auto simp: site_contains_iff [OF 1(2)] label_suffix_last [OF Nil])
  next
    case (Cons dot rest)
    have "label_suffix suffix suffix" by (simp add: label_suffix_def)
    moreover have "\<not> site_contains vs ps DomainPattern suffix \<Longrightarrow> contains_suffix vs ps rest \<longleftrightarrow>
        (\<exists>key. (DomainPattern, key) \<in> set (map (literal_of vs) ps) \<and> label_suffix key rest)"
      using 1(1) [OF _ Cons] 1(2) by blast
    ultimately show ?thesis
      using site_contains_iff [OF 1(2), of DomainPattern suffix]
      by (subst contains_suffix.simps) (auto simp: Cons label_suffix_next [OF Cons])
  qed
qed

lemma any_window_iff: "any_window domain key \<longleftrightarrow> (\<exists>a b. domain = a @ key @ b)"
proof
  assume "any_window domain key"
  then obtain i where "take (length key) (drop i domain) = key" by (auto simp: any_window_def list_ex_iff)
  then have "domain = take i domain @ key @ drop (length key) (drop i domain)"
    by (metis append_take_drop_id)
  then show "\<exists>a b. domain = a @ key @ b" by blast
next
  assume "\<exists>a b. domain = a @ key @ b"
  then obtain a b where "domain = a @ key @ b" by blast
  then have "take (length key) (drop (length a) domain) = key" "length a < Suc (length domain) - length key" by auto
  then show "any_window domain key" unfolding any_window_def list_ex_iff by (intro bexI) auto
qed

lemma substr_prefix:
  assumes "sorted (map (literal_of values) ps)"
  shows "set (takeWhile (\<lambda>p. sp_kind p = SubstrPattern) ps) = {p \<in> set ps. sp_kind p = SubstrPattern}"
  using assms
proof (induction ps)
  case (Cons p ps)
  have "sp_kind q \<noteq> SubstrPattern" if "sp_kind p \<noteq> SubstrPattern" "q \<in> set ps" for q
  proof -
    have "literal_of values p \<le> literal_of values q" using Cons(2) that(2) by simp
    then have "sp_kind p \<le> sp_kind q" by (auto simp: less_le)
    with that(1) show ?thesis by (cases "sp_kind p"; cases "sp_kind q") (auto simp: less_eq_site_pattern_kind_def)
  qed
  with Cons show ?case by auto
qed simp

lemma site_matches_iff:
  assumes "sorted (map (literal_of (sc_values category)) ps)"
  shows "site_matches is_match category domain ps indices \<longleftrightarrow>
    (\<exists>(kind, key) \<in> set (map (literal_of (sc_values category)) ps). literal_matches kind key domain) \<or>
    (case indices of
       Some is \<Rightarrow> \<exists>i \<in> set is. is_match (sc_regexes category ! i) domain
     | None \<Rightarrow> \<exists>r \<in> set (sc_regexes category). is_match r domain)"
proof -
  let ?L = "set (map (literal_of (sc_values category)) ps)"
  have "(\<exists>(kind, key) \<in> ?L. literal_matches kind key domain) \<longleftrightarrow>
      (FullPattern, domain) \<in> ?L \<or> (\<exists>key. (DomainPattern, key) \<in> ?L \<and> label_suffix key domain) \<or>
      (\<exists>p \<in> set ps. sp_kind p = SubstrPattern \<and> any_window domain (pattern_value (sc_values category) p))"
    (is "?l \<longleftrightarrow> ?r")
  proof
    assume ?l
    then obtain p where "p \<in> set ps" "literal_matches (sp_kind p) (pattern_value (sc_values category) p) domain" by auto
    moreover from this(1) have "literal_of (sc_values category) p \<in> ?L" by simp
    ultimately show ?r unfolding any_window_iff by (cases "sp_kind p") (simp_all only: literal_matches.simps, blast+)
  next
    assume ?r
    then consider "(FullPattern, domain) \<in> ?L" | key where "(DomainPattern, key) \<in> ?L" "label_suffix key domain"
      | p where "p \<in> set ps" "sp_kind p = SubstrPattern" "any_window domain (pattern_value (sc_values category) p)"
      by blast
    then show ?l
    proof cases
      case 1
      then show ?thesis by (rule rev_bexI) simp
    next
      case (2 key)
      from 2(1) show ?thesis by (rule rev_bexI) (simp add: 2(2))
    next
      case (3 p)
      from 3(1) have "literal_of (sc_values category) p \<in> ?L" by simp
      then show ?thesis by (rule rev_bexI) (use 3(2,3) in \<open>simp add: any_window_iff\<close>)
    qed
  qed
  moreover have "list_ex (\<lambda>p. any_window domain (pattern_value (sc_values category) p))
        (takeWhile (\<lambda>p. sp_kind p = SubstrPattern) ps) \<longleftrightarrow>
      (\<exists>p \<in> set ps. sp_kind p = SubstrPattern \<and> any_window domain (pattern_value (sc_values category) p))"
    unfolding list_ex_iff substr_prefix [OF assms] by blast
  moreover have "(case indices of
       Some is \<Rightarrow> list_ex (\<lambda>i. is_match (sc_regexes category ! i) domain) is
     | None \<Rightarrow> list_ex (\<lambda>r. is_match r domain) (sc_regexes category)) \<longleftrightarrow>
    (case indices of
       Some is \<Rightarrow> \<exists>i \<in> set is. is_match (sc_regexes category ! i) domain
     | None \<Rightarrow> \<exists>r \<in> set (sc_regexes category). is_match r domain)"
    by (simp add: list_ex_iff split: option.split)
  ultimately show ?thesis
    unfolding site_matches_def site_contains_iff [OF assms] contains_suffix_iff [OF assms] by argo
qed

section \<open>Stored records\<close>

fun literals :: "site_rule list \<Rightarrow> (site_pattern_kind \<times> bytes) list" where
  "literals [] = []"
| "literals (Literal kind key # rules) = (kind, key) # literals rules"
| "literals (RegexSource source # rules) = literals rules"

fun sources :: "site_rule list \<Rightarrow> bytes list" where
  "sources [] = []"
| "sources (Literal kind key # rules) = sources rules"
| "sources (RegexSource source # rules) = source # sources rules"

lemma literals_append [simp]: "literals (xs @ ys) = literals xs @ literals ys"
  by (induction xs rule: literals.induct) simp_all

lemma sources_append [simp]: "sources (xs @ ys) = sources xs @ sources ys"
  by (induction xs rule: sources.induct) simp_all

lemma set_literals: "set (literals rules) = {(kind, key). Literal kind key \<in> set rules}"
  by (induction rules rule: literals.induct) auto

lemma set_sources: "set (sources rules) = {source. RegexSource source \<in> set rules}"
  by (induction rules rule: sources.induct) auto

abbreviation range_slice :: "bytes \<Rightarrow> u32 \<times> u32 \<Rightarrow> bytes" where
  "range_slice bs r \<equiv> subslice bs (unat (fst r)) (unat (fst r) + unat (snd r))"

text \<open>The arena holds the literals and the expression sources of the stored rules, in order.\<close>

definition build_holds :: "site_build \<Rightarrow> site_rule list \<Rightarrow> bool" where
  "build_holds b rules \<longleftrightarrow>
     map (literal_of (sb_values b)) (sb_patterns b) = literals rules \<and>
     list_all (\<lambda>p. unat (sp_start p) + unat (sp_len p) \<le> length (sb_values b)) (sb_patterns b) \<and>
     map (range_slice (sb_regex_bytes b)) (sb_regex_ranges b) = sources rules \<and>
     list_all (\<lambda>r. unat (fst r) + unat (snd r) \<le> length (sb_regex_bytes b)) (sb_regex_ranges b)"

lemma empty_build_holds: "build_holds empty_build []"
  by (simp add: build_holds_def empty_build_def)

lemma subslice_append_old: "b \<le> length xs \<Longrightarrow> subslice (xs @ ys) a b = subslice xs a b"
  by (simp add: subslice_def)

lemma subslice_append_new: "subslice (xs @ ys) (length xs) (length xs + length ys) = ys"
  by (simp add: subslice_def)

lemma unat_u32_small: "n \<le> u32_max \<Longrightarrow> unat (of_nat n :: u32) = n"
  by (simp add: u32_max_def unsigned_of_nat take_bit_nat_eq_self)

lemma literals_arena:
  "list_all (\<lambda>p. unat (sp_start p) + unat (sp_len p) \<le> length vs) ps \<Longrightarrow>
   map (literal_of (vs @ ys)) ps = map (literal_of vs) ps"
  by (simp add: list_all_iff pattern_value_def subslice_append_old)

lemma sources_arena:
  "list_all (\<lambda>r. unat (fst r) + unat (snd r) \<le> length bs) rs \<Longrightarrow>
   map (range_slice (bs @ ys)) rs = map (range_slice bs) rs"
  by (simp add: list_all_iff subslice_append_old)

lemma indices_arena:
  "list_all (\<lambda>r. unat (fst r) + unat (snd r) \<le> length bs) rs \<Longrightarrow> list_all (\<lambda>i. i < length rs) is \<Longrightarrow>
   map (\<lambda>i. range_slice (bs @ ys) ((rs @ [r]) ! i)) is = map (\<lambda>i. range_slice bs (rs ! i)) is"
  by (simp add: list_all_iff nth_append subslice_append_old)

lemma pattern_value_new:
  "length vs \<le> u32_max \<Longrightarrow> length key \<le> u32_max \<Longrightarrow>
   pattern_value (vs @ key) \<lparr>sp_kind = kind, sp_start = of_nat (length vs), sp_len = of_nat (length key)\<rparr> = key"
  by (simp add: pattern_value_def unat_u32_small subslice_append_new)

lemma append_rule_holds:
  assumes "append_rule code rule b = Inr b'" "build_holds b rules"
  shows "build_holds b' (rules @ [rule])"
proof (cases rule)
  case (Literal kind key)
  then have small: "length (sb_values b) \<le> u32_max" "length key \<le> u32_max"
    and b': "b' = b\<lparr>sb_values := sb_values b @ key, sb_patterns := sb_patterns b @
      [\<lparr>sp_kind = kind, sp_start = of_nat (length (sb_values b)), sp_len = of_nat (length key)\<rparr>]\<rparr>"
    using assms(1) by (auto simp: append_site_value_def split: if_splits)
  have "map (literal_of (sb_values b @ key)) (sb_patterns b) = literals rules"
    using assms(2) by (simp only: build_holds_def literals_arena)
  with assms(2) small show ?thesis
    by (auto simp: build_holds_def b' Literal pattern_value_new unat_u32_small list_all_iff)
next
  case (RegexSource source)
  then have small: "length (sb_regex_bytes b) \<le> u32_max" "length source \<le> u32_max"
    and b': "b' = b\<lparr>sb_regex_bytes := sb_regex_bytes b @ source, sb_regex_ranges := sb_regex_ranges b @
      [(of_nat (length (sb_regex_bytes b)), of_nat (length source))]\<rparr>"
    using assms(1) by (auto simp: append_regex_def split: if_splits)
  have "map (range_slice (sb_regex_bytes b @ source)) (sb_regex_ranges b) = sources rules"
    using assms(2) by (simp only: build_holds_def sources_arena)
  with assms(2) small show ?thesis
    by (auto simp: build_holds_def b' RegexSource unat_u32_small subslice_append_new list_all_iff)
qed

text \<open>A filter with its own index points at the rules of the records it matched.\<close>

definition filter_holds :: "site_build \<Rightarrow> site_filter \<Rightarrow> site_rule list \<Rightarrow> bool" where
  "filter_holds b f rules \<longleftrightarrow>
     map (literal_of (sb_values b)) (sf_patterns f) = literals rules \<and>
     list_all (\<lambda>p. unat (sp_start p) + unat (sp_len p) \<le> length (sb_values b)) (sf_patterns f) \<and>
     list_all (\<lambda>i. i < length (sb_regex_ranges b)) (sf_regex_indices f) \<and>
     map (\<lambda>i. range_slice (sb_regex_bytes b) (sb_regex_ranges b ! i)) (sf_regex_indices f) = sources rules"

lemma extend_filter_keeps [simp]:
  "sf_attributes (extend_filter b b' m f) = sf_attributes f"
  "sf_all_records (extend_filter b b' m f) = sf_all_records f"
  by (auto simp: extend_filter_def Let_def split: option.splits)

lemma extend_filter_holds:
  assumes "append_rule code rule b = Inr b'" "build_holds b stored" "filter_holds b f rules" "\<not> sf_all_records f"
  shows "filter_holds b' (extend_filter b b' m f) (if m then rules @ [rule] else rules)"
proof (cases rule)
  case (Literal kind key)
  let ?p = "\<lparr>sp_kind = kind, sp_start = of_nat (length (sb_values b)), sp_len = of_nat (length key)\<rparr>"
  have small: "length (sb_values b) \<le> u32_max" "length key \<le> u32_max"
    and b': "b' = b\<lparr>sb_values := sb_values b @ key, sb_patterns := sb_patterns b @ [?p]\<rparr>"
    using assms(1) Literal by (auto simp: append_site_value_def split: if_splits)
  have "map (literal_of (sb_values b @ key)) (sf_patterns f) = literals rules"
    using assms(3) by (simp only: filter_holds_def literals_arena)
  moreover have "extend_filter b b' m f = (if m then f\<lparr>sf_patterns := sf_patterns f @ [?p]\<rparr> else f)"
    using assms(4) by (simp add: extend_filter_def b' get_at_def)
  ultimately show ?thesis
    using assms(3) small
    by (auto simp: filter_holds_def b' Literal pattern_value_new unat_u32_small list_all_iff)
next
  case (RegexSource source)
  let ?r = "(of_nat (length (sb_regex_bytes b)), of_nat (length source)) :: u32 \<times> u32"
  have small: "length (sb_regex_bytes b) \<le> u32_max" "length source \<le> u32_max"
    and b': "b' = b\<lparr>sb_regex_bytes := sb_regex_bytes b @ source, sb_regex_ranges := sb_regex_ranges b @ [?r]\<rparr>"
    using assms(1) RegexSource by (auto simp: append_regex_def split: if_splits)
  have "map (\<lambda>i. range_slice (sb_regex_bytes b @ source) ((sb_regex_ranges b @ [?r]) ! i)) (sf_regex_indices f) =
      sources rules"
    using assms(2,3) by (simp only: filter_holds_def build_holds_def indices_arena)
  moreover have "extend_filter b b' m f =
      (if m then f\<lparr>sf_regex_indices := sf_regex_indices f @ [length (sb_regex_ranges b)]\<rparr> else f)"
    using assms(4) by (simp add: extend_filter_def b' get_at_def)
  ultimately show ?thesis
    using assms(3) small
    by (auto simp: filter_holds_def b' RegexSource unat_u32_small subslice_append_new list_all_iff)
qed

section \<open>The attributes of a record\<close>

text \<open>The keys of the attributes of a record, in file order.\<close>

definition attribute_names_field ::
  "bytes \<Rightarrow> nat \<Rightarrow> u32 \<Rightarrow> u8 \<Rightarrow> nat \<Rightarrow> geo_data_error + bytes list \<times> nat" where
  "attribute_names_field file end field wire pos =
     (if field \<noteq> 3 then
        and_then (skip_field_payload GeoSiteKind file end wire pos) (\<lambda>pos'. Inr ([], pos'))
      else
        and_then (require_wire GeoSiteKind wire 2) (\<lambda>_.
        and_then (read_length GeoSiteKind file end pos) (\<lambda>(len, start).
        and_then (checked_end GeoSiteKind start len end) (\<lambda>attribute_end.
        and_then (scan_attribute file attribute_end None start) (\<lambda>key_range.
        case key_range of
          None \<Rightarrow> Inr ([], attribute_end)
        | Some (offset, key_len) \<Rightarrow>
            and_then (read_scratch GeoSiteKind file offset key_len) (\<lambda>(key, _). Inr ([key], attribute_end)))))))"

lemma attribute_names_field_pos:
  "attribute_names_field file end field wire pos = Inr (ns, p) \<Longrightarrow> pos < p \<and> p \<le> end"
  by (auto simp: attribute_names_field_def res_simps split: if_splits option.splits
      dest!: read_length_pos dest: skip_field_payload_pos skip_field_payload_end)

function domain_attribute_names :: "bytes \<Rightarrow> nat \<Rightarrow> nat \<Rightarrow> geo_data_error + bytes list" where
  "domain_attribute_names file end pos =
     (if pos < end then
        and_then (read_key GeoSiteKind file end pos) (\<lambda>(field, wire, pos1).
        and_then (attribute_names_field file end field wire pos1) (\<lambda>(ns, pos2).
        and_then (domain_attribute_names file end pos2) (\<lambda>rest. Inr (ns @ rest))))
      else Inr [])"
  by pat_completeness auto

termination
  by (relation "measure (\<lambda>(file, end, pos). end - pos)")
    (auto dest!: read_key_pos attribute_names_field_pos)

declare domain_attribute_names.simps [simp del]

lemma and_then_assoc: "and_then (and_then r f) g = and_then r (\<lambda>x. and_then (f x) g)"
  by (cases r) simp_all

lemma scan_attribute_field_names:
  "scan_attribute_field fs file end req field wire present pos =
     and_then (attribute_names_field file end field wire pos) (\<lambda>(ns, p). Inr (fold (mark_present fs req) ns present, p))"
  by (auto simp: scan_attribute_field_def attribute_names_field_def and_then_assoc
      intro!: and_then_cong split: option.split)

lemma scan_domain_attributes_names:
  "scan_domain_attributes fs file end req present pos =
     and_then (domain_attribute_names file end pos) (\<lambda>ns. Inr (fold (mark_present fs req) ns present))"
proof (induction "file" "end" pos arbitrary: present rule: domain_attribute_names.induct)
  case (1 fl e pos)
  show ?case
    by (subst scan_domain_attributes.simps, subst domain_attribute_names.simps)
      (auto simp: scan_attribute_field_names and_then_assoc 1 intro!: and_then_cong)
qed

lemma fold_mark_present:
  "length present = length req \<Longrightarrow>
   fold (mark_present fs req) ns present = map2 (\<lambda>w p. p \<or> list_ex (attribute_eq fs w) ns) req present"
proof (induction ns arbitrary: present)
  case Nil
  then show ?case by (simp add: list_eq_iff_nth_eq)
next
  case (Cons n ns)
  then show ?case by (simp add: mark_present_def list_eq_iff_nth_eq disj_assoc)
qed

lemma key_position:
  "attribute \<in> set keys \<Longrightarrow> key_position keys attribute < length keys \<and> keys ! key_position keys attribute = attribute"
  by (induction keys) auto

lemma set_fold_add_key: "set (fold add_key as keys) = set keys \<union> set as"
  by (induction as arbitrary: keys) (auto simp: add_key_def)

lemma set_attribute_keys: "set (attribute_keys filters) = (\<Union>f \<in> set filters. set (split_on 0x40 (sf_attributes f)))"
proof -
  have "set (fold (\<lambda>f keys. fold add_key (split_on 0x40 (sf_attributes f)) keys) filters keys) =
      set keys \<union> (\<Union>f \<in> set filters. set (split_on 0x40 (sf_attributes f)))" for keys
    by (induction filters arbitrary: keys) (auto simp: set_fold_add_key)
  then show ?thesis by (simp add: attribute_keys_def)
qed

text \<open>A record, given by its range in the file, carries every attribute of a selector.\<close>

definition record_carries :: "(nat \<Rightarrow> nat) \<Rightarrow> bytes \<Rightarrow> bytes \<Rightarrow> nat \<times> nat \<Rightarrow> bool" where
  "record_carries fold_start file attributes r \<longleftrightarrow>
     (case domain_attribute_names file (snd r) (fst r) of
        Inl e \<Rightarrow> False
      | Inr ns \<Rightarrow> list_all (\<lambda>a. list_ex (attribute_eq fold_start a) ns) (split_on 0x40 attributes))"

lemma match_record_carries:
  assumes "match_record fs file e (attribute_keys filters0) filters start = Inr fm"
    and "map sf_attributes filters = map sf_attributes filters0"
  shows "fm = map (\<lambda>f. record_carries fs file (sf_attributes f) (start, e)) filters0"
proof (cases "filters0 = []")
  case False
  let ?keys = "attribute_keys filters0"
  have "filters \<noteq> []" using assms(2) False by auto
  then obtain ns where ns: "domain_attribute_names file e start = Inr ns"
    and fm: "fm = map (filter_matched ?keys (fold (mark_present fs ?keys) ns (replicate (length ?keys) False))) filters"
    using assms(1) by (auto simp: match_record_def scan_domain_attributes_names res_simps and_then_assoc)
  have present: "fold (mark_present fs ?keys) ns (replicate (length ?keys) False) =
      map (\<lambda>w. list_ex (attribute_eq fs w) ns) ?keys"
    by (simp add: fold_mark_present list_eq_iff_nth_eq)
  have "filter_matched ?keys (map (\<lambda>w. list_ex (attribute_eq fs w) ns) ?keys) f =
      record_carries fs file (sf_attributes f) (start, e)" if f: "f \<in> set filters0" for f
  proof -
    have "map (\<lambda>w. list_ex (attribute_eq fs w) ns) ?keys ! key_position ?keys a = list_ex (attribute_eq fs a) ns"
      if "a \<in> set (split_on 0x40 (sf_attributes f))" for a
    proof -
      have "a \<in> set ?keys" using that f by (auto simp: set_attribute_keys)
      from key_position [OF this] show ?thesis by simp
    qed
    then show ?thesis by (auto simp: filter_matched_def record_carries_def ns list_all_iff)
  qed
  moreover have "filter_matched keys present f = filter_matched keys present g"
    if "sf_attributes f = sf_attributes g" for keys present f g
    using that by (simp add: filter_matched_def)
  ultimately show ?thesis
    unfolding fm present using assms(2) by (auto simp: list_eq_iff_nth_eq) (metis nth_mem)+
qed (use assms in \<open>simp add: match_record_def\<close>)

section \<open>Following the parser\<close>

text \<open>
  What the two lists hold after some records: the kept ranges with their rules, the arena of all kept
  rules, and each filter's own index of those that carry its attributes.
\<close>

definition store_inv ::
  "(nat \<Rightarrow> nat) \<Rightarrow> bytes \<Rightarrow> site_filter list \<Rightarrow> ((nat \<times> nat) \<times> site_rule) list \<Rightarrow> site_build \<Rightarrow> site_filter list \<Rightarrow> bool" where
  "store_inv fs file filters0 kept b filters \<longleftrightarrow>
     build_holds b (map snd kept) \<and>
     list_all2 (\<lambda>f f0. sf_attributes f = sf_attributes f0 \<and> sf_all_records f = sf_all_records f0 \<and>
       (\<not> sf_all_records f0 \<longrightarrow>
          filter_holds b f (map snd (filter (\<lambda>(r, rule). record_carries fs file (sf_attributes f0) r) kept))))
       filters filters0"

lemma store_inv_attributes:
  "store_inv fs file filters0 kept b filters \<Longrightarrow> map sf_attributes filters = map sf_attributes filters0"
  by (auto simp: store_inv_def list_all2_conv_all_nth list_eq_iff_nth_eq)

definition record_kept :: "(nat \<Rightarrow> nat) \<Rightarrow> bytes \<Rightarrow> bool \<Rightarrow> site_filter list \<Rightarrow> nat \<times> nat \<Rightarrow> bool" where
  "record_kept fs file unfilt filters0 r \<longleftrightarrow>
     unfilt \<or> list_ex (\<lambda>f. record_carries fs file (sf_attributes f) r) filters0"

lemma store_record_inv:
  assumes "store_record fs idna lower_str file code unfilt (attribute_keys filters0) e start (b, filters) = Inr (b', filters')"
    and inv: "store_inv fs file filters0 kept b filters"
  shows "if record_kept fs file unfilt filters0 (start, e)
         then \<exists>rule. read_domain_rule idna lower_str file e code start = Inr rule \<and>
                store_inv fs file filters0 (kept @ [((start, e), rule)]) b' filters'
         else store_inv fs file filters0 kept b' filters'"
proof -
  let ?fm = "map (\<lambda>f. record_carries fs file (sf_attributes f) (start, e)) filters0"
  obtain fm where m: "match_record fs file e (attribute_keys filters0) filters start = Inr fm"
    and store: "(if unfilt \<or> list_ex (\<lambda>m. m) fm then
        and_then (parse_domain_record idna lower_str file e code b start) (\<lambda>b'. Inr (b', map2 (extend_filter b b') fm filters))
      else Inr (b, filters)) = Inr (b', filters')"
    using assms(1) by (auto simp: store_record_def res_simps)
  have fm: "fm = ?fm" by (rule match_record_carries [OF m store_inv_attributes [OF inv]])
  have kept: "unfilt \<or> list_ex (\<lambda>m. m) fm \<longleftrightarrow> record_kept fs file unfilt filters0 (start, e)"
    by (simp add: fm record_kept_def list_ex_iff)
  show ?thesis
  proof (cases "record_kept fs file unfilt filters0 (start, e)")
    case True
    then obtain rule where rule: "read_domain_rule idna lower_str file e code start = Inr rule"
      and add: "append_rule code rule b = Inr b'" and filters': "filters' = map2 (extend_filter b b') ?fm filters"
      using store [unfolded kept, unfolded fm] by (auto simp: parse_domain_record_def res_simps)
    have holds: "build_holds b (map snd kept)" using inv by (simp add: store_inv_def)
    have len: "length filters = length filters0" using inv by (auto simp: store_inv_def dest: list_all2_lengthD)
    have "store_inv fs file filters0 (kept @ [((start, e), rule)]) b' filters'"
      unfolding store_inv_def
    proof (intro conjI list_all2_all_nthI)
      show "build_holds b' (map snd (kept @ [((start, e), rule)]))"
        using append_rule_holds [OF add holds] by simp
      show "length filters' = length filters0" using len by (simp add: filters')
      fix i assume i: "i < length filters'"
      then have i0: "i < length filters0" "i < length filters" using len by (simp_all add: filters')
      have f': "filters' ! i = extend_filter b b' (record_carries fs file (sf_attributes (filters0 ! i)) (start, e)) (filters ! i)"
        using i0 by (simp add: filters')
      have old: "sf_attributes (filters ! i) = sf_attributes (filters0 ! i)"
        "sf_all_records (filters ! i) = sf_all_records (filters0 ! i)"
        "\<not> sf_all_records (filters0 ! i) \<Longrightarrow> filter_holds b (filters ! i)
          (map snd (filter (\<lambda>(r, rule). record_carries fs file (sf_attributes (filters0 ! i)) r) kept))"
        using inv i0 by (auto simp: store_inv_def list_all2_conv_all_nth)
      show "sf_attributes (filters' ! i) = sf_attributes (filters0 ! i)"
        "sf_all_records (filters' ! i) = sf_all_records (filters0 ! i)"
        using old by (simp_all add: f')
      show "\<not> sf_all_records (filters0 ! i) \<longrightarrow> filter_holds b' (filters' ! i)
          (map snd (filter (\<lambda>(r, rule). record_carries fs file (sf_attributes (filters0 ! i)) r) (kept @ [((start, e), rule)])))"
        using extend_filter_holds [OF add holds old(3), of "record_carries fs file (sf_attributes (filters0 ! i)) (start, e)"] old(2)
        by (auto simp: f' split: if_splits)
    qed
    with True rule show ?thesis by simp
  next
    case False
    with store inv show ?thesis unfolding kept by simp
  qed
qed

text \<open>The ranges of the records of a category: its fields with number 2.\<close>

function record_ranges :: "geo_data_kind \<Rightarrow> bytes \<Rightarrow> nat \<Rightarrow> nat \<Rightarrow> geo_data_error + (nat \<times> nat) list" where
  "record_ranges kind file end pos =
     (if pos < end then
        and_then (read_key kind file end pos) (\<lambda>(field, wire, pos1).
        if field = 2 then
          and_then (read_length kind file end pos1) (\<lambda>(len, start).
          and_then (record_ranges kind file end (start + len)) (\<lambda>rs. Inr ((start, start + len) # rs)))
        else
          and_then (skip_field_payload kind file end wire pos1) (\<lambda>pos2. record_ranges kind file end pos2))
      else Inr [])"
  by pat_completeness auto

termination
  by (relation "measure (\<lambda>(kind, file, end, pos). end - pos)")
    (auto dest!: read_key_pos read_length_pos skip_field_payload_pos)

declare record_ranges.simps [simp del]

lemma read_code_skip:
  "read_code kind file end pos = Inr (code, p) \<Longrightarrow> skip_field_payload kind file end 2 pos = Inr p"
  by (auto simp: read_code_def skip_field_payload_def skip_bytes_def res_simps split: if_splits)

lemma site_category_field_cases:
  assumes "site_category_field fs idna lower_str file end code unfilt keys field wire s pos = Inr (s', p)"
  shows "field \<noteq> 2 \<and> skip_field_payload GeoSiteKind file end wire pos = Inr p \<and>
         sx_build s' = sx_build s \<and> sx_filters s' = sx_filters s \<or>
         (\<exists>len start. field = 2 \<and> read_length GeoSiteKind file end pos = Inr (len, start) \<and> p = start + len \<and>
            store_record fs idna lower_str file code unfilt keys (start + len) start (sx_build s, sx_filters s) =
              Inr (sx_build s', sx_filters s'))"
  using assms by (auto simp: site_category_field_def res_simps dest: read_code_skip split: if_splits)

lemma scan_site_category_inv:
  assumes "scan_site_category fs idna lower_str file end code unfilt (attribute_keys filters0) s pos = Inr s'"
    and "store_inv fs file filters0 kept (sx_build s) (sx_filters s)"
  shows "\<exists>rs new. record_ranges GeoSiteKind file end pos = Inr rs \<and>
           store_inv fs file filters0 (kept @ new) (sx_build s') (sx_filters s') \<and>
           map fst new = filter (record_kept fs file unfilt filters0) rs \<and>
           list_all (\<lambda>(r, rule). read_domain_rule idna lower_str file (snd r) code (fst r) = Inr rule) new"
  using assms
proof (induction fs idna lower_str "file" "end" code unfilt "attribute_keys filters0" s pos
    arbitrary: kept rule: scan_site_category.induct)
  case (1 fs idna lower_str fl e code unfilt s pos)
  show ?case
  proof (cases "pos < e")
    case False
    with 1(2,3) have "record_ranges GeoSiteKind fl e pos = Inr []" "s' = s"
      by (subst record_ranges.simps, simp, subst (asm) scan_site_category.simps, simp)
    with 1(3) show ?thesis by (intro exI [of _ "[]"]) simp
  next
    case True
    with 1(2) obtain field wire pos1 s1 pos2 where key: "read_key GeoSiteKind fl e pos = Inr (field, wire, pos1)"
      and field: "site_category_field fs idna lower_str fl e code unfilt (attribute_keys filters0) field wire s pos1 = Inr (s1, pos2)"
      and rest: "scan_site_category fs idna lower_str fl e code unfilt (attribute_keys filters0) s1 pos2 = Inr s'"
      by (subst (asm) scan_site_category.simps) (auto simp: res_simps)
    note ih = 1(1) [OF True key refl refl field refl rest]
    from site_category_field_cases [OF field] consider
        (skip) "field \<noteq> 2" "skip_field_payload GeoSiteKind fl e wire pos1 = Inr pos2"
          "sx_build s1 = sx_build s" "sx_filters s1 = sx_filters s"
      | (domain) len start where "field = 2" "read_length GeoSiteKind fl e pos1 = Inr (len, start)" "pos2 = start + len"
          "store_record fs idna lower_str fl code unfilt (attribute_keys filters0) (start + len) start
             (sx_build s, sx_filters s) = Inr (sx_build s1, sx_filters s1)"
      by blast
    then show ?thesis
    proof cases
      case skip
      from ih [of kept] 1(3) show ?thesis
        by (subst record_ranges.simps) (simp add: True key skip)
    next
      case (domain len start)
      let ?r = "(start, start + len)"
      have ranges: "record_ranges GeoSiteKind fl e pos =
          and_then (record_ranges GeoSiteKind fl e pos2) (\<lambda>rs. Inr (?r # rs))"
        by (subst record_ranges.simps) (simp add: True key domain)
      show ?thesis
      proof (cases "record_kept fs fl unfilt filters0 ?r")
        case k: True
        with store_record_inv [OF domain(4) 1(3)] obtain rule where
          rule: "read_domain_rule idna lower_str fl (start + len) code start = Inr rule"
          and inv: "store_inv fs fl filters0 (kept @ [(?r, rule)]) (sx_build s1) (sx_filters s1)" by auto
        from ih [OF inv] obtain rs new where "record_ranges GeoSiteKind fl e pos2 = Inr rs"
          "store_inv fs fl filters0 (kept @ (?r, rule) # new) (sx_build s') (sx_filters s')"
          "map fst new = filter (record_kept fs fl unfilt filters0) rs"
          "list_all (\<lambda>(r, rule). read_domain_rule idna lower_str fl (snd r) code (fst r) = Inr rule) new" by auto
        then show ?thesis using k rule ranges
          by (intro exI [of _ "?r # rs"] exI [of _ "(?r, rule) # new"]) simp
      next
        case k: False
        with store_record_inv [OF domain(4) 1(3)]
        have "store_inv fs fl filters0 kept (sx_build s1) (sx_filters s1)" by simp
        from ih [OF this] obtain rs new where "record_ranges GeoSiteKind fl e pos2 = Inr rs"
          "store_inv fs fl filters0 (kept @ new) (sx_build s') (sx_filters s')"
          "map fst new = filter (record_kept fs fl unfilt filters0) rs"
          "list_all (\<lambda>(r, rule). read_domain_rule idna lower_str fl (snd r) code (fst r) = Inr rule) new" by auto
        then show ?thesis using k ranges by (intro exI [of _ "?r # rs"] exI [of _ new]) simp
      qed
    qed
  qed
qed

section \<open>The filters of a category\<close>

definition fresh_filter :: "site_filter \<Rightarrow> bool" where
  "fresh_filter f \<longleftrightarrow> sf_patterns f = [] \<and> sf_regex_indices f = []"

lemma fold_add_filter:
  "set (map sf_attributes (fold add_filter ss fl)) =
     set (map sf_attributes fl) \<union> {a \<in> selector_attributes ` set ss. a \<noteq> []} \<and>
   (list_all fresh_filter fl \<longrightarrow> list_all fresh_filter (fold add_filter ss fl)) \<and>
   (list_all (\<lambda>f. \<not> sf_all_records f) fl \<longrightarrow> list_all (\<lambda>f. \<not> sf_all_records f) (fold add_filter ss fl))"
proof (induction ss arbitrary: fl)
  case (Cons s ss)
  have "set (map sf_attributes (add_filter s fl)) =
      set (map sf_attributes fl) \<union> (if selector_attributes s = [] then {} else {selector_attributes s})"
    "list_all fresh_filter fl \<longrightarrow> list_all fresh_filter (add_filter s fl)"
    "list_all (\<lambda>f. \<not> sf_all_records f) fl \<longrightarrow> list_all (\<lambda>f. \<not> sf_all_records f) (add_filter s fl)"
    by (auto simp: Let_def list_ex_iff fresh_filter_def intro: rev_image_eqI)
  then show ?case using Cons [of "add_filter s fl"] by (auto simp del: add_filter.simps split: if_splits)
qed simp

lemma site_filters_facts:
  shows "sf_attributes ` set (site_filters ss) = {a \<in> selector_attributes ` set ss. a \<noteq> []}"
    and "f \<in> set (site_filters ss) \<Longrightarrow> fresh_filter f"
    and "f \<in> set (site_filters ss) \<Longrightarrow> sf_all_records f \<Longrightarrow> set (site_filters ss) = {f} \<and> \<not> unfiltered ss"
proof -
  let ?fl = "fold add_filter ss []"
  have facts: "sf_attributes ` set ?fl = {a \<in> selector_attributes ` set ss. a \<noteq> []}"
    "list_all fresh_filter ?fl" "list_all (\<lambda>f. \<not> sf_all_records f) ?fl"
    using fold_add_filter [of ss "[]"] by auto
  have "(\<exists>f. ?fl = [f] \<and> site_filters ss = [f\<lparr>sf_all_records := True\<rparr>] \<and> \<not> unfiltered ss) \<or> site_filters ss = ?fl"
    by (auto simp: site_filters_def Let_def length_Suc_conv)
  then consider g where "?fl = [g]" "site_filters ss = [g\<lparr>sf_all_records := True\<rparr>]" "\<not> unfiltered ss"
    | "site_filters ss = ?fl" by blast
  note shared = this
  show "sf_attributes ` set (site_filters ss) = {a \<in> selector_attributes ` set ss. a \<noteq> []}"
    by (rule shared) (use facts(1) in simp_all)
  show "f \<in> set (site_filters ss) \<Longrightarrow> fresh_filter f"
    by (rule shared) (use facts(2) in \<open>auto simp: list_all_iff fresh_filter_def\<close>)
  show "f \<in> set (site_filters ss) \<Longrightarrow> sf_all_records f \<Longrightarrow> set (site_filters ss) = {f} \<and> \<not> unfiltered ss"
    by (rule shared) (use facts(3) in \<open>auto simp: list_all_iff\<close>)
qed

lemma initial_store_inv: "store_inv fs file (site_filters ss) [] empty_build (site_filters ss)"
  using site_filters_facts(2) [of _ ss]
  by (auto simp: store_inv_def empty_build_holds filter_holds_def fresh_filter_def list_all2_conv_all_nth)

lemma set_selector_attributes: "set (selector_attributes s) \<subseteq> set s"
proof -
  have "set (positive_selector s) \<subseteq> set s" by (auto simp: positive_selector_def split: list.splits)
  then show ?thesis
    by (cases "split_once 0x40 (positive_selector s)") (auto simp: selector_attributes_def split_once_Some)
qed

definition lower_form :: "bytes \<Rightarrow> bool" where
  "lower_form s \<longleftrightarrow> ascii_lowercase s = s"

lemma lower_form_iff: "lower_form s \<longleftrightarrow> (\<forall>b \<in> set s. to_ascii_lowercase b = b)"
  unfolding lower_form_def ascii_lowercase_def by (induction s) auto

lemma lower_form_attributes: "lower_form s \<Longrightarrow> lower_form (selector_attributes s)"
  using set_selector_attributes [of s] by (auto simp: lower_form_iff)

lemma compile_regex_set_Inr:
  "compile_regex_set compile code bs ranges = Inr regexes \<Longrightarrow>
   list_all2 (\<lambda>r regex. compile (range_slice bs r) = Some regex) ranges regexes"
  by (induction ranges arbitrary: regexes) (auto simp: res_simps)

lemma sorted_sort_patterns: "sorted (map (literal_of vs) (sort_patterns vs ps))"
  unfolding sort_patterns_def by (rule sorted_sort_key)

lemma set_sort_patterns [simp]: "set (sort_patterns vs ps) = set ps"
  by (simp add: sort_patterns_def)

lemma set_literal_sort: "set (map (literal_of vs) (sort_patterns vs ps)) = set (map (literal_of vs) ps)"
  by simp

fun rule_matches :: "(bytes \<Rightarrow> 'r option) \<Rightarrow> ('r \<Rightarrow> bytes \<Rightarrow> bool) \<Rightarrow> site_rule \<Rightarrow> bytes \<Rightarrow> bool" where
  "rule_matches compile is_match (Literal kind key) domain = literal_matches kind key domain"
| "rule_matches compile is_match (RegexSource source) domain =
     (case compile source of None \<Rightarrow> False | Some regex \<Rightarrow> is_match regex domain)"

lemma rules_split:
  "(\<exists>rule \<in> set rules. rule_matches compile is_match rule domain) \<longleftrightarrow>
   (\<exists>(kind, key) \<in> set (literals rules). literal_matches kind key domain) \<or>
   (\<exists>source \<in> set (sources rules). \<exists>regex. compile source = Some regex \<and> is_match regex domain)"
proof
  assume "\<exists>rule \<in> set rules. rule_matches compile is_match rule domain"
  then obtain r where r: "r \<in> set rules" "rule_matches compile is_match r domain" by blast
  show "(\<exists>(kind, key) \<in> set (literals rules). literal_matches kind key domain) \<or>
    (\<exists>source \<in> set (sources rules). \<exists>regex. compile source = Some regex \<and> is_match regex domain)"
    by (cases r) (use r in \<open>auto simp: set_literals set_sources split: option.splits\<close>)
next
  assume "(\<exists>(kind, key) \<in> set (literals rules). literal_matches kind key domain) \<or>
    (\<exists>source \<in> set (sources rules). \<exists>regex. compile source = Some regex \<and> is_match regex domain)"
  then show "\<exists>rule \<in> set rules. rule_matches compile is_match rule domain"
    by (auto simp: set_literals set_sources intro: rev_bexI)
qed

section \<open>Selectors\<close>

definition record_matches ::
  "(bytes \<Rightarrow> bytes option) \<Rightarrow> (bytes \<Rightarrow> bytes) \<Rightarrow> (bytes \<Rightarrow> 'r option) \<Rightarrow> ('r \<Rightarrow> bytes \<Rightarrow> bool) \<Rightarrow> bytes \<Rightarrow> bytes \<Rightarrow>
   bytes \<Rightarrow> nat \<times> nat \<Rightarrow> bool" where
  "record_matches idna lower_str compile is_match file code domain r \<longleftrightarrow>
     (case read_domain_rule idna lower_str file (snd r) code (fst r) of
        Inl e \<Rightarrow> False
      | Inr rule \<Rightarrow> rule_matches compile is_match rule domain)"

lemma all_records_match:
  assumes "build_holds b rules" "compile_regex_set compile code (sb_regex_bytes b) (sb_regex_ranges b) = Inr (sc_regexes c)"
    and "sc_values c = sb_values b" "sc_patterns c = sort_patterns (sb_values b) (sb_patterns b)"
  shows "site_matches is_match c domain (sc_patterns c) None \<longleftrightarrow>
    (\<exists>rule \<in> set rules. rule_matches compile is_match rule domain)"
proof -
  have "set (map (literal_of (sc_values c)) (sc_patterns c)) = set (literals rules)"
    using assms(1) by (simp only: assms(3,4) build_holds_def set_literal_sort)
  moreover have "(\<exists>r \<in> set (sc_regexes c). is_match r domain) \<longleftrightarrow>
      (\<exists>source \<in> set (sources rules). \<exists>regex. compile source = Some regex \<and> is_match regex domain)"
  proof -
    have "list_all2 (\<lambda>r regex. compile (range_slice (sb_regex_bytes b) r) = Some regex) (sb_regex_ranges b) (sc_regexes c)"
      by (rule compile_regex_set_Inr [OF assms(2)])
    then have "list_all2 (\<lambda>source regex. compile source = Some regex)
        (map (range_slice (sb_regex_bytes b)) (sb_regex_ranges b)) (sc_regexes c)"
      by (simp add: list_all2_map1)
    then have "list_all2 (\<lambda>source regex. compile source = Some regex) (sources rules) (sc_regexes c)"
      using assms(1) by (simp only: build_holds_def)
    then show ?thesis by (induction rule: list_all2_induct) auto
  qed
  ultimately show ?thesis
    using site_matches_iff [of c "sc_patterns c" is_match domain None] sorted_sort_patterns [of "sb_values b" "sb_patterns b"]
    by (simp only: assms(3,4) rules_split option.case)
qed

lemma filter_records_match:
  assumes "filter_holds b f rules" "build_holds b stored"
    and "compile_regex_set compile code (sb_regex_bytes b) (sb_regex_ranges b) = Inr (sc_regexes c)"
    and "sc_values c = sb_values b"
  shows "site_matches is_match c domain (sort_patterns (sb_values b) (sf_patterns f)) (Some (sf_regex_indices f)) \<longleftrightarrow>
    (\<exists>rule \<in> set rules. rule_matches compile is_match rule domain)"
proof -
  let ?ps = "sort_patterns (sb_values b) (sf_patterns f)"
  have "set (map (literal_of (sc_values c)) ?ps) = set (literals rules)"
    using assms(1) by (simp only: assms(4) filter_holds_def set_literal_sort)
  moreover have "(\<exists>i \<in> set (sf_regex_indices f). is_match (sc_regexes c ! i) domain) \<longleftrightarrow>
      (\<exists>source \<in> set (sources rules). \<exists>regex. compile source = Some regex \<and> is_match regex domain)"
  proof -
    have "compile (range_slice (sb_regex_bytes b) (sb_regex_ranges b ! i)) = Some (sc_regexes c ! i)"
      if "i \<in> set (sf_regex_indices f)" for i
      using compile_regex_set_Inr [OF assms(3)] assms(1) that
      by (auto simp: list_all2_conv_all_nth filter_holds_def list_all_iff)
    moreover have "set (sources rules) =
        (\<lambda>i. range_slice (sb_regex_bytes b) (sb_regex_ranges b ! i)) ` set (sf_regex_indices f)"
      using assms(1) by (simp add: filter_holds_def flip: set_map)
    ultimately show ?thesis by auto
  qed
  ultimately show ?thesis
    using site_matches_iff [of c ?ps is_match domain "Some (sf_regex_indices f)"] sorted_sort_patterns [of "sb_values b" "sf_patterns f"]
    by (simp only: assms(4) rules_split option.case)
qed

text \<open>What a parsed category holds, in terms of the ranges of its records.\<close>

lemma parse_site_category_holds:
  assumes "parse_site_category fs idna lower_str compile file rg requested = Inr category"
  obtains rs kept b filters where
    "record_ranges GeoSiteKind file (sr_offset rg + sr_len rg) (sr_offset rg) = Inr rs"
    "store_inv fs file (site_filters requested) kept b filters"
    "map fst kept = filter (record_kept fs file (unfiltered requested) (site_filters requested)) rs"
    "list_all (\<lambda>(r, rule). read_domain_rule idna lower_str file (snd r) (sr_code rg) (fst r) = Inr rule) kept"
    "compile_regex_set compile (sr_code rg) (sb_regex_bytes b) (sb_regex_ranges b) = Inr (sc_regexes category)"
    "sc_values category = sb_values b" "sc_patterns category = sort_patterns (sb_values b) (sb_patterns b)"
    "sc_filters category = map (\<lambda>f. f\<lparr>sf_patterns := sort_patterns (sb_values b) (sf_patterns f)\<rparr>) filters"
proof -
  let ?s0 = "\<lparr>sx_seen_code = False, sx_remaining = sr_record_count rg, sx_build = empty_build,
    sx_filters = site_filters requested\<rparr>"
  obtain s where scan: "scan_site_category fs idna lower_str file (sr_offset rg + sr_len rg) (sr_code rg)
      (unfiltered requested) (attribute_keys (site_filters requested)) ?s0 (sr_offset rg) = Inr s"
    and category: "compile_regex_set compile (sr_code rg) (sb_regex_bytes (sx_build s)) (sb_regex_ranges (sx_build s)) =
        Inr (sc_regexes category)"
      "sc_values category = sb_values (sx_build s)"
      "sc_patterns category = sort_patterns (sb_values (sx_build s)) (sb_patterns (sx_build s))"
      "sc_filters category =
        map (\<lambda>f. f\<lparr>sf_patterns := sort_patterns (sb_values (sx_build s)) (sf_patterns f)\<rparr>) (sx_filters s)"
    using assms by (auto simp: parse_site_category_def res_simps Let_def split: if_splits)
  from scan_site_category_inv [OF scan, of "[]"] initial_store_inv category show ?thesis
    by (auto intro: that)
qed

lemma kept_rules:
  assumes "map fst kept = filter K rs"
    and "list_all (\<lambda>(r, rule). read_domain_rule idna lower_str file (snd r) code (fst r) = Inr rule) kept"
  shows "(\<exists>rule \<in> set (map snd (filter (\<lambda>(r, rule). P r) kept)). rule_matches compile is_match rule domain) \<longleftrightarrow>
    (\<exists>r \<in> set rs. K r \<and> P r \<and> record_matches idna lower_str compile is_match file code domain r)"
proof -
  have "fst ` set kept = {r \<in> set rs. K r}" using arg_cong [OF assms(1), of set] by simp
  then have "(\<exists>r \<in> set rs. K r \<and> P r \<and> record_matches idna lower_str compile is_match file code domain r) \<longleftrightarrow>
      (\<exists>r \<in> fst ` set kept. P r \<and> record_matches idna lower_str compile is_match file code domain r)" by auto
  also have "\<dots> \<longleftrightarrow> (\<exists>(r, rule) \<in> set kept. P r \<and> rule_matches compile is_match rule domain)"
    using assms(2) by (force simp: record_matches_def list_all_iff)
  also have "\<dots> \<longleftrightarrow> (\<exists>rule \<in> set (map snd (filter (\<lambda>(r, rule). P r) kept)). rule_matches compile is_match rule domain)"
    by force
  finally show ?thesis by simp
qed

text \<open>The filter that a requested selector finds.\<close>

lemma selector_filter:
  assumes "selector \<in> set requested" "list_all lower_form requested" "selector_attributes selector \<noteq> []"
    and inv: "store_inv fs file (site_filters requested) kept b filters"
  obtains f f0 where
    "find (\<lambda>f. eq_ignore_ascii_case (sf_attributes f) (selector_attributes selector)) filters = Some f"
    "f0 \<in> set (site_filters requested)" "sf_attributes f0 = selector_attributes selector"
    "sf_all_records f = sf_all_records f0"
    "\<not> sf_all_records f0 \<longrightarrow>
       filter_holds b f (map snd (filter (\<lambda>(r, rule). record_carries fs file (selector_attributes selector) r) kept))"
proof -
  let ?P = "\<lambda>f. eq_ignore_ascii_case (sf_attributes f) (selector_attributes selector)"
  have attrs: "map sf_attributes filters = map sf_attributes (site_filters requested)" by (rule store_inv_attributes [OF inv])
  have "selector_attributes selector \<in> sf_attributes ` set (site_filters requested)"
    using assms(1,3) by (auto simp: site_filters_facts(1))
  then have "selector_attributes selector \<in> set (map sf_attributes filters)" by (simp only: attrs set_map)
  then obtain g where "g \<in> set filters" "sf_attributes g = selector_attributes selector" by auto
  then have "find ?P filters \<noteq> None" by (auto simp: find_None_iff)
  then obtain f where f: "find ?P filters = Some f" by blast
  then obtain i where i: "i < length filters" "f = filters ! i" "?P f" by (auto simp: find_Some_iff)
  let ?f0 = "site_filters requested ! i"
  have len: "length filters = length (site_filters requested)" using attrs by (metis length_map)
  then have f0: "?f0 \<in> set (site_filters requested)" using i(1) by simp
  have at: "sf_attributes f = sf_attributes ?f0" using attrs i(1,2) len by (metis nth_map)
  have "sf_attributes ?f0 \<in> selector_attributes ` set requested"
    using f0 site_filters_facts(1) [of requested] by blast
  then have "lower_form (sf_attributes ?f0)" "lower_form (selector_attributes selector)"
    using assms(1,2) lower_form_attributes by (auto simp: list_all_iff)
  with i(3) at have eq: "sf_attributes ?f0 = selector_attributes selector"
    by (simp add: eq_ignore_ascii_case_def lower_form_def)
  show ?thesis
  proof (rule that [OF f f0 eq])
    show "sf_all_records f = sf_all_records ?f0"
      using list_all2_nthD [OF conjunct2 [OF inv [unfolded store_inv_def]] i(1)] i(2) by simp
    show "\<not> sf_all_records ?f0 \<longrightarrow>
        filter_holds b f (map snd (filter (\<lambda>(r, rule). record_carries fs file (selector_attributes selector) r) kept))"
      using list_all2_nthD [OF conjunct2 [OF inv [unfolded store_inv_def]] i(1)] i(2) eq by simp
  qed
qed

lemma find_map_filter:
  "find (\<lambda>f. P (sf_attributes f)) (map (\<lambda>f. f\<lparr>sf_patterns := g f\<rparr>) fl) =
     map_option (\<lambda>f. f\<lparr>sf_patterns := g f\<rparr>) (find (\<lambda>f. P (sf_attributes f)) fl)"
  by (induction fl) auto

text \<open>
  A GeoSite selector means what the file says. Once a category is parsed for its requested
  selectors, a requested selector matches a domain exactly when some record of the category carries all
  of the selector's attributes and its full name, domain suffix, substring or regular expression matches;
  a selector that starts with an exclamation mark is the negation. This holds whatever other
  selectors share the category and its index.
\<close>

lemma site_selector_matches_records:
  assumes "parse_site_category fs idna lower_str compile file rg requested = Inr category"
    and "list_all lower_form requested" "selector \<in> set requested"
  shows "\<exists>rs. record_ranges GeoSiteKind file (sr_offset rg + sr_len rg) (sr_offset rg) = Inr rs \<and>
    site_matches_selector is_match category selector domain =
      (list_ex (\<lambda>r. (selector_attributes selector = [] \<or> record_carries fs file (selector_attributes selector) r) \<and>
         record_matches idna lower_str compile is_match file (sr_code rg) domain r) rs \<noteq> starts_with_not selector)"
proof -
  obtain rs kept b filters where
    ranges: "record_ranges GeoSiteKind file (sr_offset rg + sr_len rg) (sr_offset rg) = Inr rs"
    and inv: "store_inv fs file (site_filters requested) kept b filters"
    and kept: "map fst kept = filter (record_kept fs file (unfiltered requested) (site_filters requested)) rs"
    and rules: "list_all (\<lambda>(r, rule). read_domain_rule idna lower_str file (snd r) (sr_code rg) (fst r) = Inr rule) kept"
    and regexes: "compile_regex_set compile (sr_code rg) (sb_regex_bytes b) (sb_regex_ranges b) = Inr (sc_regexes category)"
    and vals: "sc_values category = sb_values b" and pats: "sc_patterns category = sort_patterns (sb_values b) (sb_patterns b)"
    and filts: "sc_filters category = map (\<lambda>f. f\<lparr>sf_patterns := sort_patterns (sb_values b) (sf_patterns f)\<rparr>) filters"
    by (rule parse_site_category_holds [OF assms(1)])
  let ?K = "record_kept fs file (unfiltered requested) (site_filters requested)"
  let ?C = "record_carries fs file (selector_attributes selector)"
  let ?M = "record_matches idna lower_str compile is_match file (sr_code rg) domain"
  have holds: "build_holds b (map snd kept)" using inv by (simp add: store_inv_def)
  note all = all_records_match [OF holds regexes vals pats, of is_match domain]
  have all: "site_matches is_match category domain (sc_patterns category) None \<longleftrightarrow> (\<exists>r \<in> set rs. ?K r \<and> ?M r)"
    using kept_rules [OF kept rules, of "\<lambda>r. True" compile is_match domain] unfolding all by simp
  show ?thesis
  proof (cases "selector_attributes selector = []")
    case True
    then have "?K r" for r using assms(3) by (auto simp: record_kept_def unfiltered_def list_ex_iff)
    with True all ranges show ?thesis by (simp add: site_matches_selector_def list_ex_iff)
  next
    case False
    obtain f f0 where f: "find (\<lambda>f. eq_ignore_ascii_case (sf_attributes f) (selector_attributes selector)) filters = Some f"
      and f0: "f0 \<in> set (site_filters requested)" "sf_attributes f0 = selector_attributes selector"
      "sf_all_records f = sf_all_records f0"
      and own: "\<not> sf_all_records f0 \<longrightarrow> filter_holds b f (map snd (filter (\<lambda>(r, rule). ?C r) kept))"
      by (rule selector_filter [OF assms(3,2) False inv])
    have sel: "site_matches_selector is_match category selector domain =
        ((if sf_all_records f then site_matches is_match category domain (sc_patterns category) None
          else site_matches is_match category domain (sort_patterns (sb_values b) (sf_patterns f)) (Some (sf_regex_indices f)))
          \<noteq> starts_with_not selector)"
      using False f find_map_filter [of "\<lambda>a. eq_ignore_ascii_case a (selector_attributes selector)"
        "\<lambda>f. sort_patterns (sb_values b) (sf_patterns f)" filters]
      by (simp add: site_matches_selector_def filts)
    have "(if sf_all_records f then site_matches is_match category domain (sc_patterns category) None
        else site_matches is_match category domain (sort_patterns (sb_values b) (sf_patterns f)) (Some (sf_regex_indices f)))
        \<longleftrightarrow> (\<exists>r \<in> set rs. ?C r \<and> ?M r)"
    proof (cases "sf_all_records f0")
      case True
      from site_filters_facts(3) [OF f0(1) True] f0(2) have "?K r \<longleftrightarrow> ?C r" for r
        by (simp add: record_kept_def list_ex_iff)
      with all True f0(3) show ?thesis by simp
    next
      case all: False
      have "?C r \<Longrightarrow> ?K r" for r using f0(1,2) by (auto simp: record_kept_def list_ex_iff intro: bexI [of _ f0])
      then have "(\<exists>r \<in> set rs. ?K r \<and> ?C r \<and> ?M r) \<longleftrightarrow> (\<exists>r \<in> set rs. ?C r \<and> ?M r)" by blast
      with filter_records_match [OF own [rule_format, OF all] holds regexes vals, of is_match domain] all f0(3)
        kept_rules [OF kept rules, of ?C compile is_match domain]
      show ?thesis by simp
    qed
    with False ranges sel show ?thesis by (simp add: list_ex_iff)
  qed
qed

lemma site_selector_example:
  "\<exists>category. parse_site_category (\<lambda>c. c) (\<lambda>d. None) (\<lambda>d. d) Some
       ([0x0A, 1, 0x61] @ [0x12, 12] @ [8, 2] @ [0x12, 3, 0x62, 0x2E, 0x63] @ [0x1A, 3, 0x0A, 1, 0x78])
       \<lparr>sr_code = str ''a'', sr_offset = 0, sr_len = 17, sr_record_count = 1\<rparr> [str ''a'', str ''!a@x''] = Inr category \<and>
     \<not> site_matches_selector (=) category (str ''!a@x'') (str ''w.b.c'')"
proof -
  let ?file = "[0x0A, 1, 0x61, 0x12, 12, 8, 2, 0x12, 3, 0x62, 0x2E, 0x63, 0x1A, 3, 0x0A, 1, 0x78] :: bytes"
  let ?start = "Suc (Suc (Suc (Suc (Suc 0))))"
  let ?range = "\<lparr>sr_code = [0x61], sr_offset = 0, sr_len = 17, sr_record_count = 1\<rparr>"
  let ?requested = "[[0x61], [0x21, 0x61, 0x40, 0x78]] :: bytes list"
  note eval = geo_eval validate_utf8_bytes_def validate_utf8_loop.simps utf8_start_def utf8_step_def
    validate_attribute.simps attribute_field_def read_scratch_def scan_domain.simps domain_field_def
    read_domain_rule_def domain_rule_def scan_attribute.simps attribute_key_field_def is_ascii_def strip_suffix1_def
  note selectors = selector_attributes_def positive_selector_def split_once_def
  have names: "domain_attribute_names ?file 17 ?start = Inr [[0x78]]"
    by (simp add: domain_attribute_names.simps attribute_names_field_def eval)
  have rule: "read_domain_rule (\<lambda>d. None) (\<lambda>d. d) ?file 17 [0x61] ?start = Inr (Literal DomainPattern [0x62, 0x2E, 0x63])"
    by (simp add: eval)
  have ranges: "record_ranges GeoSiteKind ?file (sr_offset ?range + sr_len ?range) (sr_offset ?range) = Inr [(?start, 17)]"
    by (simp add: record_ranges.simps geo_eval)
  have filters: "site_filters ?requested = [\<lparr>sf_attributes = [0x78], sf_all_records = False, sf_patterns = [], sf_regex_indices = []\<rparr>]"
    "unfiltered ?requested" "attribute_keys (site_filters ?requested) = [[0x78]]"
    by (simp_all add: site_filters_def unfiltered_def attribute_keys_def selectors add_key_def)
  have "\<exists>category. parse_site_category (\<lambda>c. c) (\<lambda>d. None) (\<lambda>d. d) Some ?file ?range ?requested = Inr category"
    using names rule
    by (simp add: parse_site_category_def filters scan_site_category.simps site_category_field_def store_record_def
        match_record_def Let_def scan_domain_attributes_names parse_domain_record_def append_site_value_def empty_build_def u32_max_def
        geo_eval)
  then obtain category where parse: "parse_site_category (\<lambda>c. c) (\<lambda>d. None) (\<lambda>d. d) Some ?file ?range ?requested = Inr category"
    by blast
  have "list_all lower_form ?requested"
    by (simp add: lower_form_def ascii_lowercase_def to_ascii_lowercase_def is_ascii_uppercase_def)
  moreover have "label_suffix [0x62, 0x2E, 0x63] [0x77, 0x2E, 0x62, 0x2E, 0x63]"
    unfolding label_suffix_def by (intro disjI2 exI [of _ "[0x77]"]) simp
  ultimately have "\<not> site_matches_selector (=) category [0x21, 0x61, 0x40, 0x78] [0x77, 0x2E, 0x62, 0x2E, 0x63]"
    using site_selector_matches_records [OF parse, of "[0x21, 0x61, 0x40, 0x78]" "(=)" "[0x77, 0x2E, 0x62, 0x2E, 0x63]"] ranges
    by (simp add: record_carries_def names record_matches_def rule selectors starts_with_not_def attribute_eq_def
        is_ascii_def eq_ignore_ascii_case_def)
  with parse show ?thesis by (simp add: str_def)
qed

end
