(* ===== verification/Geo_Index.thy ===== *)
theory Geo_Index
  imports Geo_Site_Match Routing_Rules
begin

text \<open>
  The loader of \<^verbatim>\<open>src/geodata/mod.rs\<close>: the selectors a configuration asks for, the first pass over an
  asset that finds their categories, the second pass that parses them, and the matcher that
  routing queries. The bytes of an asset file are an argument, \<^verbatim>\<open>Inl\<close> when opening it failed.
\<close>

section \<open>Requested selectors\<close>

record code_set =
  cs_values :: "bytes list"
  cs_selectors :: "bytes list"

definition code_set_empty :: code_set where
  "code_set_empty = \<lparr>cs_values = [], cs_selectors = []\<rparr>"

definition code_set_insert ::
  "(nat \<Rightarrow> nat) \<Rightarrow> (nat \<Rightarrow> nat) \<Rightarrow> geo_data_kind \<Rightarrow> bytes \<Rightarrow> code_set \<Rightarrow> geo_data_error + code_set" where
  "code_set_insert lower fold_start kind raw cs =
     and_then (normalize_selector lower fold_start kind raw) (\<lambda>selector.
     if selector \<in> set (cs_selectors cs) then Inr cs
     else and_then (code_parse kind (selector_code selector)) (\<lambda>code.
       let cs = cs\<lparr>cs_selectors := cs_selectors cs @ [selector]\<rparr> in
       if code \<in> set (cs_values cs) then Inr cs
       else Inr (cs\<lparr>cs_values := cs_values cs @ [code]\<rparr>)))"

record requested_codes =
  rc_sites :: code_set
  rc_ips :: code_set

fun collect_rules ::
  "(nat \<Rightarrow> nat) \<Rightarrow> (nat \<Rightarrow> nat) \<Rightarrow> rule_spec list \<Rightarrow> requested_codes \<Rightarrow> geo_data_error + requested_codes" where
  "collect_rules lower fold_start [] rc = Inr rc"
| "collect_rules lower fold_start (spec # specs) rc =
     and_then
       (case rule_kind spec of
          GeoSite code \<Rightarrow>
            and_then (code_set_insert lower fold_start GeoSiteKind code (rc_sites rc)) (\<lambda>cs. Inr (rc\<lparr>rc_sites := cs\<rparr>))
        | GeoIp code \<Rightarrow>
            and_then (code_set_insert lower fold_start GeoIpKind code (rc_ips rc)) (\<lambda>cs. Inr (rc\<lparr>rc_ips := cs\<rparr>))
        | _ \<Rightarrow> Inr rc)
       (\<lambda>rc. collect_rules lower fold_start specs rc)"

text \<open>A nameserver policy is given by its GeoSite codes.\<close>

fun collect_codes ::
  "(nat \<Rightarrow> nat) \<Rightarrow> (nat \<Rightarrow> nat) \<Rightarrow> bytes list \<Rightarrow> requested_codes \<Rightarrow> geo_data_error + requested_codes" where
  "collect_codes lower fold_start [] rc = Inr rc"
| "collect_codes lower fold_start (code # codes) rc =
     and_then (code_set_insert lower fold_start GeoSiteKind code (rc_sites rc)) (\<lambda>cs.
     collect_codes lower fold_start codes (rc\<lparr>rc_sites := cs\<rparr>))"

definition requested_collect ::
  "(nat \<Rightarrow> nat) \<Rightarrow> (nat \<Rightarrow> nat) \<Rightarrow> rule_spec list \<Rightarrow> bytes list list \<Rightarrow> geo_data_error + requested_codes" where
  "requested_collect lower fold_start specs policies =
     and_then (collect_rules lower fold_start specs \<lparr>rc_sites = code_set_empty, rc_ips = code_set_empty\<rparr>) (\<lambda>rc.
     collect_codes lower fold_start (concat policies) rc)"

definition requested_total :: "requested_codes \<Rightarrow> nat" where
  "requested_total rc = length (cs_selectors (rc_sites rc)) + length (cs_selectors (rc_ips rc))"

section \<open>The first pass\<close>

text \<open>\<^verbatim>\<open>Code\<close> is the zero-padded array and its length, and is ordered in that way.\<close>

definition code_key :: "bytes \<Rightarrow> bytes \<times> nat" where
  "code_key code = (code @ replicate (MAX_CODE_BYTES - length code) 0, length code)"

definition cmp_str :: "bytes \<Rightarrow> bytes \<Rightarrow> ordering" where
  "cmp_str code other = cmp code (ascii_lowercase other)"

record header_scan =
  hs_code :: "bytes option"
  hs_record_count :: nat

definition header_field ::
  "geo_data_kind \<Rightarrow> bytes \<Rightarrow> nat \<Rightarrow> u32 \<Rightarrow> u8 \<Rightarrow> header_scan \<Rightarrow> nat \<Rightarrow> geo_data_error + header_scan \<times> nat" where
  "header_field kind file end field wire s pos =
     (if field = 1 then
        and_then (require_wire kind wire 2) (\<lambda>_.
        if hs_code s \<noteq> None then Inl (GeoMalformed kind)
        else and_then (read_length kind file end pos) (\<lambda>(len, pos').
          if MAX_CODE_BYTES < len then Inl (InvalidCode kind (str ''<more than 64 bytes>''))
          else and_then (geo_read_exact kind file end len pos') (\<lambda>(raw, pos'').
            and_then (code_parse kind raw) (\<lambda>code. Inr (s\<lparr>hs_code := Some code\<rparr>, pos'')))))
      else if field = 2 then
        and_then (require_wire kind wire 2) (\<lambda>_.
        and_then (skip_field_payload kind file end wire pos) (\<lambda>pos'.
        and_then (ok_or (GeoMalformed kind) (checked_add (hs_record_count s) 1)) (\<lambda>record_count.
        Inr (s\<lparr>hs_record_count := record_count\<rparr>, pos'))))
      else if field = 3 \<and> kind = GeoIpKind then
        and_then (require_wire kind wire 0) (\<lambda>_.
        and_then (read_varint kind file end pos) (\<lambda>(_, pos'). Inr (s, pos')))
      else and_then (skip_field_payload kind file end wire pos) (\<lambda>pos'. Inr (s, pos')))"

lemma header_field_pos:
  "header_field kind file end field wire s pos = Inr (s', p) \<Longrightarrow> pos < p \<and> p \<le> end"
  by (auto simp: header_field_def res_simps split: if_splits
      dest!: read_length_pos read_varint_pos dest: skip_field_payload_pos skip_field_payload_end)

function scan_header :: "geo_data_kind \<Rightarrow> bytes \<Rightarrow> nat \<Rightarrow> header_scan \<Rightarrow> nat \<Rightarrow> geo_data_error + header_scan" where
  "scan_header kind file end s pos =
     (if pos < end then
        and_then (read_key kind file end pos) (\<lambda>(field, wire, pos1).
        and_then (header_field kind file end field wire s pos1) (\<lambda>(s', pos2).
        scan_header kind file end s' pos2))
      else Inr s)"
  by pat_completeness auto

termination
  by (relation "measure (\<lambda>(kind, file, end, s, pos). end - pos)")
    (auto dest!: read_key_pos header_field_pos)

declare scan_header.simps [simp del]

definition scan_category_header ::
  "geo_data_kind \<Rightarrow> bytes \<Rightarrow> nat \<Rightarrow> nat \<Rightarrow> geo_data_error + bytes \<times> nat" where
  "scan_category_header kind file end pos =
     and_then (scan_header kind file end \<lparr>hs_code = None, hs_record_count = 0\<rparr> pos) (\<lambda>s.
     and_then (ok_or (GeoMalformed kind) (hs_code s)) (\<lambda>code. Inr (code, hs_record_count s)))"

text \<open>\<^verbatim>\<open>IndexEntry\<close> and \<^verbatim>\<open>SelectedRange\<close> have the same fields; one entry of the top-level loop.\<close>

definition index_entry :: "geo_data_kind \<Rightarrow> bytes \<Rightarrow> nat \<Rightarrow> geo_data_error + selected_range \<times> nat" where
  "index_entry kind file pos =
     and_then (read_key kind file (length file) pos) (\<lambda>(field, wire, pos1).
     if field \<noteq> 1 \<or> wire \<noteq> 2 then Inl (GeoMalformed kind)
     else and_then (read_length kind file (length file) pos1) (\<lambda>(entry_len, offset).
       and_then (checked_end kind offset entry_len (length file)) (\<lambda>end.
       and_then (scan_category_header kind file end offset) (\<lambda>(code, record_count).
       Inr (\<lparr>sr_code = code, sr_offset = offset, sr_len = entry_len, sr_record_count = record_count\<rparr>, end)))))"

lemma index_entry_pos:
  "index_entry kind file pos = Inr (entry, p) \<Longrightarrow> pos < p \<and> p \<le> length file"
  by (auto simp: index_entry_def res_simps split: if_splits dest!: read_key_pos read_length_pos)

function index_entries :: "geo_data_kind \<Rightarrow> bytes \<Rightarrow> nat \<Rightarrow> geo_data_error + selected_range list" where
  "index_entries kind file pos =
     (if pos < length file then
        and_then (index_entry kind file pos) (\<lambda>(entry, pos1).
        and_then (index_entries kind file pos1) (\<lambda>rest. Inr (entry # rest)))
      else Inr [])"
  by pat_completeness auto

termination
  by (relation "measure (\<lambda>(kind, file, pos). length file - pos)") (auto dest!: index_entry_pos)

declare index_entries.simps [simp del]

fun duplicate_code :: "selected_range list \<Rightarrow> bytes option" where
  "duplicate_code (a # b # rest) = (if sr_code a = sr_code b then Some (sr_code a) else duplicate_code (b # rest))"
| "duplicate_code xs = None"

fun select_codes :: "geo_data_kind \<Rightarrow> selected_range list \<Rightarrow> bytes list \<Rightarrow> geo_data_error + selected_range list" where
  "select_codes kind index [] = Inr []"
| "select_codes kind index (code # codes) =
     (case binary_search_by (\<lambda>entry. cmp (code_key (sr_code entry)) (code_key code)) index of
        Inl i \<Rightarrow> Inl (MissingCode kind code)
      | Inr at \<Rightarrow> and_then (select_codes kind index codes) (\<lambda>selected. Inr (index ! at # selected)))"

definition index_selected :: "geo_data_kind \<Rightarrow> bytes \<Rightarrow> code_set \<Rightarrow> geo_data_error + selected_range list" where
  "index_selected kind file requested =
     and_then (index_entries kind file 0) (\<lambda>entries.
     let index = sort_key (\<lambda>entry. code_key (sr_code entry)) entries in
     case duplicate_code index of
       Some code \<Rightarrow> Inl (DuplicateCode kind code)
     | None \<Rightarrow> select_codes kind index (cs_values requested))"

section \<open>The second pass\<close>

definition same_code :: "bytes \<Rightarrow> bytes \<Rightarrow> bool" where
  "same_code code selector \<longleftrightarrow> cmp_str code (selector_code selector) = Equal"

fun parse_all :: "(selected_range \<Rightarrow> geo_data_error + 'a) \<Rightarrow> selected_range list \<Rightarrow> geo_data_error + 'a list" where
  "parse_all parse [] = Inr []"
| "parse_all parse (rg # rgs) =
     and_then (parse rg) (\<lambda>category. and_then (parse_all parse rgs) (\<lambda>categories. Inr (category # categories)))"

definition sort_ranges :: "selected_range list \<Rightarrow> selected_range list" where
  "sort_ranges = sort_key (\<lambda>rg. code_key (sr_code rg))"

text \<open>The parameters of the GeoSite parser that are outside the model.\<close>

record 'r geo_env =
  ge_lower :: "nat \<Rightarrow> nat"
  ge_fold_start :: "nat \<Rightarrow> nat"
  ge_idna :: "bytes \<Rightarrow> bytes option"
  ge_lower_str :: "bytes \<Rightarrow> bytes"
  ge_compile :: "bytes \<Rightarrow> 'r option"
  ge_is_match :: "'r \<Rightarrow> bytes \<Rightarrow> bool"

definition load_site_file :: "'r geo_env \<Rightarrow> geo_data_error + bytes \<Rightarrow> code_set \<Rightarrow> geo_data_error + 'r site_category list" where
  "load_site_file env asset requested =
     and_then asset (\<lambda>file.
     and_then (index_selected GeoSiteKind file requested) (\<lambda>selected.
     parse_all (\<lambda>rg. parse_site_category (ge_fold_start env) (ge_idna env) (ge_lower_str env) (ge_compile env) file rg
       (filter (same_code (sr_code rg)) (cs_selectors requested))) (sort_ranges selected)))"

definition load_selected_file ::
  "geo_data_kind \<Rightarrow> geo_data_error + bytes \<Rightarrow> code_set \<Rightarrow> (bytes \<Rightarrow> selected_range \<Rightarrow> geo_data_error + 'a) \<Rightarrow>
   geo_data_error + 'a list" where
  "load_selected_file kind asset requested parse =
     and_then asset (\<lambda>file.
     and_then (index_selected kind file requested) (\<lambda>selected. parse_all (parse file) (sort_ranges selected)))"

definition load_ip_file :: "geo_data_error + bytes \<Rightarrow> code_set \<Rightarrow> geo_data_error + ip_category list" where
  "load_ip_file asset requested =
     and_then (load_selected_file GeoIpKind asset requested parse_ip_category) (\<lambda>categories.
     Inr (map (\<lambda>category. category\<lparr>ic_selectors :=
       ic_selectors category @ filter (same_code (ic_code category)) (cs_selectors requested)\<rparr>) categories))"

record 'r geo_data =
  gd_sites :: "'r site_category list"
  gd_ips :: "ip_category list"

definition geo_data_empty :: "'r geo_data" where
  "geo_data_empty = \<lparr>gd_sites = [], gd_ips = []\<rparr>"

definition from_loaded :: "'r site_category list \<Rightarrow> ip_category list \<Rightarrow> 'r geo_data" where
  "from_loaded sites ips =
     \<lparr>gd_sites = sort_key (\<lambda>category. code_key (sc_code category)) sites,
      gd_ips = sort_key (\<lambda>category. code_key (ic_code category)) ips\<rparr>"

definition load_with_dns_policies ::
  "'r geo_env \<Rightarrow> geo_data_error + bytes \<Rightarrow> geo_data_error + bytes \<Rightarrow> rule_spec list \<Rightarrow> bytes list list \<Rightarrow>
   geo_data_error + 'r geo_data" where
  "load_with_dns_policies env site_asset ip_asset specs policies =
     and_then (requested_collect (ge_lower env) (ge_fold_start env) specs policies) (\<lambda>requested.
     if requested_total requested = 0 then Inr geo_data_empty
     else
       and_then (if cs_values (rc_ips requested) \<noteq> [] then load_ip_file ip_asset (rc_ips requested) else Inr []) (\<lambda>ips.
       and_then (if cs_values (rc_sites requested) \<noteq> [] then load_site_file env site_asset (rc_sites requested) else Inr [])
         (\<lambda>sites. Inr (from_loaded sites ips))))"

definition site_category_of :: "'r geo_data \<Rightarrow> bytes \<Rightarrow> 'r site_category option" where
  "site_category_of geo code =
     (case binary_search_by (\<lambda>category. cmp_str (sc_code category) (selector_code code)) (gd_sites geo) of
        Inl i \<Rightarrow> None
      | Inr i \<Rightarrow> if site_has_selector (gd_sites geo ! i) code then Some (gd_sites geo ! i) else None)"

definition ip_category_of :: "'r geo_data \<Rightarrow> bytes \<Rightarrow> ip_category option" where
  "ip_category_of geo code =
     (case binary_search_by (\<lambda>category. cmp_str (ic_code category) (selector_code code)) (gd_ips geo) of
        Inl i \<Rightarrow> None
      | Inr i \<Rightarrow> if ip_has_selector (gd_ips geo ! i) code then Some (gd_ips geo ! i) else None)"

definition geo_data_matcher :: "'r geo_env \<Rightarrow> 'r geo_data \<Rightarrow> geo_matcher" where
  "geo_data_matcher env geo =
     \<lparr>geosite_available = \<lambda>code. site_category_of geo code \<noteq> None,
      geoip_available = \<lambda>code. ip_category_of geo code \<noteq> None,
      matches_geosite = \<lambda>code domain.
        (case site_category_of geo code of
           None \<Rightarrow> False
         | Some category \<Rightarrow> domain \<noteq> [] \<and> site_matches_selector (ge_is_match env) category code domain),
      matches_geoip = \<lambda>code address.
        (case ip_category_of geo code of
           None \<Rightarrow> False
         | Some category \<Rightarrow> ip_matches category address \<noteq> starts_with_not code)\<rparr>"

section \<open>Codes and their order\<close>

definition code_ok :: "bytes \<Rightarrow> bool" where
  "code_ok code \<longleftrightarrow> length code \<le> MAX_CODE_BYTES \<and> 0 \<notin> set code \<and> lower_form code"

lemma code_byte_nonzero:
  "is_ascii_alphanumeric b \<or> b \<in> set (str ''._+!-'') \<Longrightarrow> to_ascii_lowercase b \<noteq> 0"
proof -
  assume "is_ascii_alphanumeric b \<or> b \<in> set (str ''._+!-'')"
  then have "0x20 < b \<and> b < 0x80"
    by (auto simp: is_ascii_alphanumeric_def is_ascii_digit_def is_ascii_uppercase_def is_ascii_lowercase_def str_def
        word_le_nat_alt word_less_nat_alt)
  then have "b \<noteq> 0" "unat b < 128" by (auto simp: word_less_nat_alt)
  moreover from this(2) have "b + 32 \<noteq> 0" by (auto simp: word_unat_eq_iff unat_word_ariths)
  ultimately show ?thesis by (simp add: to_ascii_lowercase_def)
qed

lemma code_parse_ok: "code_parse kind raw = Inr code \<Longrightarrow> code_ok code \<and> code = ascii_lowercase raw"
proof -
  assume "code_parse kind raw = Inr code"
  then have raw: "raw \<noteq> []" "length raw \<le> MAX_CODE_BYTES" "is_ascii_alphanumeric (hd raw)"
    "list_all (\<lambda>b. is_ascii_alphanumeric b \<or> b \<in> set (str ''._+!-'')) (tl raw)" "code = ascii_lowercase raw"
    by (auto simp: code_parse_def split: if_splits)
  then have "is_ascii_alphanumeric b \<or> b \<in> set (str ''._+!-'')" if "b \<in> set raw" for b
    using that by (cases raw) (auto simp: list_all_iff)
  then have "to_ascii_lowercase b \<noteq> 0" if "b \<in> set raw" for b using code_byte_nonzero that by blast
  then have "0 \<notin> set code" using raw(5) by (force simp: ascii_lowercase_def)
  then show ?thesis using raw by (simp add: code_ok_def lower_form_def)
qed

lemma pad_less:
  "0 \<notin> set c \<Longrightarrow> 0 \<notin> set d \<Longrightarrow> length c \<le> n \<Longrightarrow> length d \<le> n \<Longrightarrow>
   c @ replicate (n - length c) (0 :: u8) < d @ replicate (n - length d) 0 \<longleftrightarrow> c < d"
proof (induction c arbitrary: d n)
  case Nil
  show ?case
  proof (cases d)
    case (Cons y ys)
    then obtain m where "n = Suc m" using Nil(4) by (cases n) auto
    moreover have "0 < y" using Nil(2) Cons by (auto simp: word_neq_0_conv)
    ultimately show ?thesis using Cons by simp
  qed simp
next
  case (Cons x xs)
  then obtain m where n: "n = Suc m" by (cases n) auto
  show ?case
  proof (cases d)
    case Nil
    have "\<not> x < 0" "x \<noteq> 0" using Cons(2) by auto
    with Nil n show ?thesis by simp
  next
    case d: (Cons y ys)
    show ?thesis using Cons(1) [of ys m] Cons(2-) by (simp add: d n)
  qed
qed

lemma code_key_inj [simp]: "code_key c = code_key d \<longleftrightarrow> c = d"
  by (auto simp: code_key_def)

lemma code_key_less: "code_ok c \<Longrightarrow> code_ok d \<Longrightarrow> code_key c < code_key d \<longleftrightarrow> c < d"
  using pad_less [of c d MAX_CODE_BYTES] pad_less [of d c MAX_CODE_BYTES]
  by (auto simp: code_key_def code_ok_def)

lemma code_key_le: "code_ok c \<Longrightarrow> code_ok d \<Longrightarrow> code_key c \<le> code_key d \<longleftrightarrow> c \<le> d"
  using code_key_less by (auto simp: le_less)

lemma sorted_codes:
  "list_all code_ok codes \<Longrightarrow> sorted (map code_key codes) \<longleftrightarrow> sorted codes"
  by (induction codes) (auto simp: code_key_le list_all_iff)

section \<open>The index\<close>

definition entry_ok :: "geo_data_kind \<Rightarrow> bytes \<Rightarrow> selected_range \<Rightarrow> bool" where
  "entry_ok kind file entry \<longleftrightarrow> code_ok (sr_code entry) \<and> sr_offset entry + sr_len entry \<le> length file \<and>
     sr_offset entry + sr_len entry \<le> u64_max \<and>
     scan_category_header kind file (sr_offset entry + sr_len entry) (sr_offset entry) =
       Inr (sr_code entry, sr_record_count entry)"

lemma header_field_code:
  "header_field kind file end field wire s pos = Inr (s', p) \<Longrightarrow> pred_option code_ok (hs_code s) \<Longrightarrow>
   pred_option code_ok (hs_code s')"
  by (auto simp: header_field_def res_simps split: if_splits dest: code_parse_ok)

lemma scan_header_code:
  "scan_header kind file end s pos = Inr s' \<Longrightarrow> pred_option code_ok (hs_code s) \<Longrightarrow> pred_option code_ok (hs_code s')"
proof (induction kind "file" "end" s pos rule: scan_header.induct)
  case (1 kind fl e s pos)
  from 1(2,3) show ?case
    by (subst (asm) scan_header.simps) (auto simp: res_simps split: if_splits dest!: 1(1) dest: header_field_code)
qed

lemma index_entry_ok: "index_entry kind file pos = Inr (entry, p) \<Longrightarrow> entry_ok kind file entry"
  by (auto simp: index_entry_def entry_ok_def res_simps scan_category_header_def split: if_splits dest: scan_header_code)

lemma index_entries_ok: "index_entries kind file pos = Inr entries \<Longrightarrow> list_all (entry_ok kind file) entries"
proof (induction kind "file" pos arbitrary: entries rule: index_entries.induct)
  case (1 kind fl pos)
  from 1(2) show ?case
    by (subst (asm) index_entries.simps) (auto simp: res_simps split: if_splits dest: index_entry_ok 1(1))
qed

lemma duplicate_code_None:
  "sorted (map (\<lambda>e. code_key (sr_code e)) es) \<Longrightarrow> duplicate_code es = None \<longleftrightarrow> distinct (map sr_code es)"
proof (induction es rule: duplicate_code.induct)
  case (1 a b rest)
  have "sr_code a \<noteq> sr_code e" if "sr_code a \<noteq> sr_code b" "e \<in> set rest" for e
  proof
    assume "sr_code a = sr_code e"
    with 1(2) that(2) have "code_key (sr_code b) \<le> code_key (sr_code a)" "code_key (sr_code a) \<le> code_key (sr_code b)"
      by auto
    with that(1) show False by (metis antisym code_key_inj)
  qed
  with 1 show ?case by (auto split: if_splits)
qed simp_all

lemma find_unique:
  "distinct (map f xs) \<Longrightarrow> x \<in> set xs \<Longrightarrow> find (\<lambda>y. f y = f x) xs = Some x"
  by (induction xs) auto

lemma select_codes_exact:
  assumes "sorted (map (\<lambda>e. code_key (sr_code e)) index)" "distinct (map sr_code index)"
  shows "select_codes kind index codes = Inr sel \<longleftrightarrow>
    set codes \<subseteq> sr_code ` set index \<and> sel = map (\<lambda>code. the (find (\<lambda>e. sr_code e = code) index)) codes"
proof (induction codes arbitrary: sel)
  case (Cons code codes)
  let ?f = "\<lambda>e. cmp (code_key (sr_code e)) (code_key code)"
  have o: "ordered_by ?f index" by (rule ordered_by_cmp [OF assms(1)])
  show ?case
  proof (cases "binary_search_by ?f index")
    case (Inl i)
    then have "\<not> is_ok (binary_search_by ?f index)" by simp
    then have "code \<notin> sr_code ` set index" using binary_search_by_is_ok [OF o] by auto
    with Inl show ?thesis by simp
  next
    case (Inr i)
    from binary_search_by_Inr [OF Inr] have i: "index ! i \<in> set index" "sr_code (index ! i) = code" by auto
    with find_unique [OF assms(2) i(1)] Inr show ?thesis by (auto simp: Cons res_simps)
  qed
qed auto

lemma find_sort_key:
  assumes "distinct (map f xs)" "x \<in> f ` set xs"
  shows "find (\<lambda>y. f y = x) (sort_key g xs) = find (\<lambda>y. f y = x) xs"
proof -
  obtain y where y: "y \<in> set xs" "x = f y" using assms(2) by blast
  have "distinct (map f (sort_key g xs))" using assms(1) by (simp add: distinct_map)
  then show ?thesis using find_unique [OF assms(1) y(1)] find_unique [of f "sort_key g xs" y] y by simp
qed

lemma index_selected_Inr_iff:
  assumes "index_entries kind file 0 = Inr entries"
  shows "index_selected kind file requested = Inr selected \<longleftrightarrow>
    distinct (map sr_code entries) \<and> set (cs_values requested) \<subseteq> sr_code ` set entries \<and>
    selected = map (\<lambda>code. the (find (\<lambda>entry. sr_code entry = code) entries)) (cs_values requested)"
proof -
  let ?index = "sort_key (\<lambda>entry. code_key (sr_code entry)) entries"
  have sorted: "sorted (map (\<lambda>e. code_key (sr_code e)) ?index)" by (rule sorted_sort_key)
  have distinct: "distinct (map sr_code ?index) \<longleftrightarrow> distinct (map sr_code entries)"
    by (simp add: distinct_map)
  have "index_selected kind file requested = Inr selected \<longleftrightarrow>
      distinct (map sr_code entries) \<and> select_codes kind ?index (cs_values requested) = Inr selected"
    using duplicate_code_None [OF sorted] distinct assms
    by (auto simp: index_selected_def Let_def split: option.splits)
  also have "\<dots> \<longleftrightarrow> distinct (map sr_code entries) \<and> set (cs_values requested) \<subseteq> sr_code ` set entries \<and>
      selected = map (\<lambda>code. the (find (\<lambda>entry. sr_code entry = code) ?index)) (cs_values requested)"
    using select_codes_exact [OF sorted] distinct by auto
  also have "\<dots> \<longleftrightarrow> distinct (map sr_code entries) \<and> set (cs_values requested) \<subseteq> sr_code ` set entries \<and>
      selected = map (\<lambda>code. the (find (\<lambda>entry. sr_code entry = code) entries)) (cs_values requested)"
    by (auto simp: find_sort_key subset_iff)
  finally show ?thesis .
qed

lemma index_selected_entries:
  assumes "index_selected kind file requested = Inr selected"
  obtains entries where "index_entries kind file 0 = Inr entries" "distinct (map sr_code entries)"
    "set selected \<subseteq> set entries" "map sr_code selected = cs_values requested" "list_all (entry_ok kind file) entries"
proof -
  obtain entries where entries: "index_entries kind file 0 = Inr entries"
    using assms by (auto simp: index_selected_def res_simps)
  from assms have sel: "distinct (map sr_code entries)" "set (cs_values requested) \<subseteq> sr_code ` set entries"
    "selected = map (\<lambda>code. the (find (\<lambda>entry. sr_code entry = code) entries)) (cs_values requested)"
    by (simp_all add: index_selected_Inr_iff [OF entries])
  have "\<exists>entry \<in> set entries. sr_code entry = code \<and> find (\<lambda>e. sr_code e = code) entries = Some entry"
    if "code \<in> set (cs_values requested)" for code
    using sel(2) that find_unique [OF sel(1)] by fastforce
  then have "the (find (\<lambda>e. sr_code e = code) entries) \<in> set entries \<and>
      sr_code (the (find (\<lambda>e. sr_code e = code) entries)) = code" if "code \<in> set (cs_values requested)" for code
    using that by fastforce
  then have "set selected \<subseteq> set entries" "map sr_code selected = cs_values requested"
    unfolding sel(3) by (auto simp: map_idI)
  then show ?thesis by (intro that [OF entries sel(1) _ _ index_entries_ok [OF entries]])
qed

section \<open>The requested selectors\<close>

definition code_set_ok :: "code_set \<Rightarrow> bool" where
  "code_set_ok cs \<longleftrightarrow> distinct (cs_values cs) \<and> list_all code_ok (cs_values cs) \<and>
     list_all (\<lambda>s. lower_form s \<and> ascii_lowercase (selector_code s) \<in> set (cs_values cs)) (cs_selectors cs) \<and>
     (cs_selectors cs = [] \<longleftrightarrow> cs_values cs = [])"

text \<open>The case-folding table yields Unicode scalars.\<close>

definition scalars :: "(nat \<Rightarrow> nat) \<Rightarrow> bool" where
  "scalars f \<longleftrightarrow> (\<forall>c. f c < 0x110000)"

lemma high_bytes: "list_all (\<lambda>n. 0x80 \<le> n \<and> n < 256) ns \<Longrightarrow> lower_form (map of_nat ns)"
  by (auto simp: lower_form_iff list_all_iff to_ascii_lowercase_def is_ascii_uppercase_def word_le_nat_alt unsigned_of_nat take_bit_nat_eq_self)

lemma mod_64_less: "n mod 64 < (128 :: nat)"
  by (rule order_less_trans [OF mod_less_divisor]) simp_all

lemma utf8_char_canonical:
  assumes "c < 0x110000"
  shows "lower_form (utf8_char (char_to_ascii_lowercase c))"
proof -
  define d where "d = char_to_ascii_lowercase c"
  have d: "d < 0x110000" "\<not> (65 \<le> d \<and> d \<le> 90)" using assms by (auto simp: d_def char_to_ascii_lowercase_def)
  show ?thesis
  proof (cases "d < 0x80")
    case True
    then have "to_ascii_lowercase (of_nat d :: u8) = of_nat d"
      using d(2) by (simp add: to_ascii_lowercase_def is_ascii_uppercase_def word_le_nat_alt unsigned_of_nat take_bit_nat_eq_self)
    with True show ?thesis by (simp add: utf8_char_def lower_form_iff d_def [symmetric])
  next
    case False
    then consider "d < 0x800" | "0x800 \<le> d" "d < 0x10000" | "0x10000 \<le> d" by linarith
    then obtain ns where "utf8_char d = map of_nat ns" "list_all (\<lambda>n. 0x80 \<le> n \<and> n < 256) ns"
    proof cases
      case 1
      then have "d div 64 < 32" by (simp_all add: less_mult_imp_div_less)
      with 1 False show ?thesis by (intro that [of "[0xC0 + d div 64, 0x80 + d mod 64]"]) (simp_all add: utf8_char_def mod_64_less)
    next
      case 2
      then have "d div 4096 < 16" by (simp_all add: less_mult_imp_div_less)
      with 2 False show ?thesis
        by (intro that [of "[0xE0 + d div 4096, 0x80 + d div 64 mod 64, 0x80 + d mod 64]"]) (simp_all add: utf8_char_def mod_64_less)
    next
      case 3
      have "d div 262144 < 5"
        using d(1) by (simp_all add: less_mult_imp_div_less)
      with 3 False show ?thesis
        by (intro that [of "[0xF0 + d div 262144, 0x80 + d div 4096 mod 64, 0x80 + d div 64 mod 64, 0x80 + d mod 64]"])
          (simp_all add: utf8_char_def mod_64_less)
    qed
    then show ?thesis by (simp add: d_def [symmetric] high_bytes)
  qed
qed

lemma lower_form_append [simp]: "lower_form (a @ b) \<longleftrightarrow> lower_form a \<and> lower_form b"
  by (auto simp: lower_form_iff)

lemma lower_form_concat: "lower_form (concat bss) \<longleftrightarrow> (\<forall>bs \<in> set bss. lower_form bs)"
  by (auto simp: lower_form_iff)

lemma attribute_form_canonical: "scalars fold_start \<Longrightarrow> lower_form (attribute_form lower fold_start a)"
  by (auto simp: attribute_form_def lower_form_concat fold_attribute_def scalars_def intro: utf8_char_canonical)

lemma normalize_selector_canonical:
  assumes "normalize_selector lower fold_start kind raw = Inr s" "scalars fold_start"
  shows "lower_form s"
proof -
  obtain code attributes where code: "code_parse kind (hd (split_on 0x40 (positive_selector raw))) = Inr code"
    and attributes: "normalize_attributes lower fold_start kind raw (tl (split_on 0x40 (positive_selector raw))) = Inr attributes"
    and s: "s = (if positive_selector raw = raw then [] else [0x21]) @ code @
             concat (map (\<lambda>attribute. 0x40 # attribute) (remdups_adj (sort attributes)))"
    using assms(1) by (auto simp: normalize_selector_alt Let_def res_simps)
  have "lower_form code" using code_parse_ok [OF code] unfolding code_ok_def by blast
  moreover have "lower_form a" if "a \<in> set attributes" for a
    using attributes that attribute_form_canonical [OF assms(2)] by (auto simp: res_simps)
  moreover have "lower_form [0x21]" "lower_form [0x40]"
    by (simp_all add: lower_form_iff to_ascii_lowercase_def is_ascii_uppercase_def)
  ultimately show ?thesis
    unfolding s using lower_form_append [of "[0x40]"] by (auto simp: lower_form_concat)
qed

lemma code_set_insert_ok:
  assumes "code_set_insert lower fold_start kind raw cs = Inr cs'" "scalars fold_start" "code_set_ok cs"
  shows "code_set_ok cs'"
proof -
  obtain s where s: "normalize_selector lower fold_start kind raw = Inr s"
    using assms(1) by (auto simp: code_set_insert_def res_simps)
  note lower_form = normalize_selector_canonical [OF s assms(2)]
  show ?thesis
  proof (cases "s \<in> set (cs_selectors cs)")
    case False
    then obtain code where "code_parse kind (selector_code s) = Inr code"
      and "cs' = (if code \<in> set (cs_values cs) then cs\<lparr>cs_selectors := cs_selectors cs @ [s]\<rparr>
        else cs\<lparr>cs_selectors := cs_selectors cs @ [s], cs_values := cs_values cs @ [code]\<rparr>)"
      using assms(1) s by (auto simp: code_set_insert_def Let_def res_simps split: if_splits)
    with code_parse_ok [OF this(1)] lower_form assms(3) show ?thesis
      by (auto simp: code_set_ok_def list_all_iff)
  qed (use assms s in \<open>auto simp: code_set_insert_def\<close>)
qed

lemma collect_rules_ok:
  "collect_rules lower fold_start specs rc = Inr rc' \<Longrightarrow> scalars fold_start \<Longrightarrow>
   code_set_ok (rc_sites rc) \<Longrightarrow> code_set_ok (rc_ips rc) \<Longrightarrow> code_set_ok (rc_sites rc') \<and> code_set_ok (rc_ips rc')"
proof (induction specs arbitrary: rc)
  case (Cons spec specs)
  from Cons(2) obtain rc1 where first: "(case rule_kind spec of
          GeoSite code \<Rightarrow>
            and_then (code_set_insert lower fold_start GeoSiteKind code (rc_sites rc)) (\<lambda>cs. Inr (rc\<lparr>rc_sites := cs\<rparr>))
        | GeoIp code \<Rightarrow>
            and_then (code_set_insert lower fold_start GeoIpKind code (rc_ips rc)) (\<lambda>cs. Inr (rc\<lparr>rc_ips := cs\<rparr>))
        | _ \<Rightarrow> Inr rc) = Inr rc1"
    and rest: "collect_rules lower fold_start specs rc1 = Inr rc'" by (auto simp: res_simps)
  have "code_set_ok (rc_sites rc1) \<and> code_set_ok (rc_ips rc1)"
    using first Cons(3-5) by (cases "rule_kind spec") (auto simp: res_simps dest: code_set_insert_ok)
  with Cons(1) [OF rest Cons(3)] show ?case by blast
qed simp

lemma collect_codes_ok:
  "collect_codes lower fold_start codes rc = Inr rc' \<Longrightarrow> scalars fold_start \<Longrightarrow>
   code_set_ok (rc_sites rc) \<Longrightarrow> code_set_ok (rc_ips rc) \<Longrightarrow> code_set_ok (rc_sites rc') \<and> code_set_ok (rc_ips rc')"
  by (induction codes arbitrary: rc) (auto simp: res_simps dest: code_set_insert_ok)

lemma requested_collect_ok:
  "requested_collect lower fold_start specs policies = Inr rc \<Longrightarrow> scalars fold_start \<Longrightarrow>
   code_set_ok (rc_sites rc) \<and> code_set_ok (rc_ips rc)"
proof -
  have "code_set_ok code_set_empty" by (simp add: code_set_ok_def code_set_empty_def)
  then show "requested_collect lower fold_start specs policies = Inr rc \<Longrightarrow> scalars fold_start \<Longrightarrow> ?thesis"
    using collect_rules_ok collect_codes_ok by (fastforce simp: requested_collect_def res_simps)
qed

section \<open>From the file to the matcher\<close>

lemma parse_all_Inr: "parse_all parse rgs = Inr cs \<Longrightarrow> list_all2 (\<lambda>rg c. parse rg = Inr c) rgs cs"
  by (induction rgs arbitrary: cs) (auto simp: res_simps)

lemma parse_site_category_fields:
  "parse_site_category fs idna lower_str compile file rg requested = Inr c \<Longrightarrow>
   sc_code c = sr_code rg \<and> sc_selectors c = requested"
  by (auto simp: parse_site_category_def res_simps Let_def split: if_splits)

lemma parse_ip_category_fields:
  "parse_ip_category file rg = Inr c \<Longrightarrow> ic_code c = sr_code rg \<and> ic_selectors c = []"
  by (auto simp: parse_ip_category_def res_simps split: if_splits)

text \<open>A lookup by code in a sorted list of categories with distinct codes.\<close>

lemma lookup_code:
  assumes "distinct (map code_of cs)" "\<forall>c \<in> set cs. code_ok (code_of c)" "c \<in> set cs"
    and "code_of c = ascii_lowercase key"
  defines "sorted_cs \<equiv> sort_key (\<lambda>c. code_key (code_of c)) cs"
  shows "\<exists>i. binary_search_by (\<lambda>c. cmp_str (code_of c) key) sorted_cs = Inr i \<and> sorted_cs ! i = c"
proof -
  have "sorted (map code_key (map code_of sorted_cs))"
    unfolding sorted_cs_def using sorted_sort_key [of "\<lambda>c. code_key (code_of c)" cs] by (simp add: comp_def)
  then have "sorted (map code_of sorted_cs)"
    using sorted_codes [of "map code_of sorted_cs"] assms(2) by (simp add: list_all_iff sorted_cs_def)
  then have ord: "ordered_by (\<lambda>c. cmp_str (code_of c) key) sorted_cs"
    unfolding cmp_str_def by (rule ordered_by_cmp)
  have mem: "c \<in> set sorted_cs" using assms(3) by (simp add: sorted_cs_def)
  then have "is_ok (binary_search_by (\<lambda>c. cmp_str (code_of c) key) sorted_cs)"
    unfolding binary_search_by_is_ok [OF ord] using assms(4) by (auto simp: cmp_str_def)
  then obtain i where i: "binary_search_by (\<lambda>c. cmp_str (code_of c) key) sorted_cs = Inr i"
    by (auto simp: is_ok_iff)
  from binary_search_by_Inr [OF i] have "i < length sorted_cs" "code_of (sorted_cs ! i) = code_of c"
    using assms(4) by (auto simp: cmp_str_def)
  moreover have "inj_on code_of (set sorted_cs)" using assms(1) by (simp add: distinct_map sorted_cs_def)
  ultimately have "sorted_cs ! i = c" using mem by (meson inj_onD nth_mem)
  with i show ?thesis by blast
qed

lemma list_all2_left: "list_all2 P xs ys \<Longrightarrow> x \<in> set xs \<Longrightarrow> \<exists>y \<in> set ys. P x y"
  by (induction rule: list_all2_induct) auto

lemma selected_category:
  assumes "index_selected kind file requested = Inr selected" "code_set_ok requested"
    and "list_all2 (\<lambda>rg c. P rg c \<and> code_of c = sr_code rg) (sort_ranges selected) cs"
    and "code \<in> set (cs_values requested)"
  obtains entries rg c where "index_entries kind file 0 = Inr entries" "rg \<in> set entries" "sr_code rg = code" "P rg c"
    "c \<in> set cs" "code_of c = code" "distinct (map code_of cs)" "\<forall>c \<in> set cs. code_ok (code_of c)"
proof -
  obtain entries where entries: "index_entries kind file 0 = Inr entries"
    and sel: "set selected \<subseteq> set entries" "map sr_code selected = cs_values requested"
    by (rule index_selected_entries [OF assms(1)])
  have codes: "map code_of cs = map sr_code (sort_ranges selected)"
    using assms(3) by (auto simp: list_all2_conv_all_nth list_eq_iff_nth_eq)
  have set: "set (sort_ranges selected) = set selected" by (simp add: sort_ranges_def)
  have "distinct (map sr_code selected)" using sel(2) assms(2) by (simp add: code_set_ok_def)
  then have distinct: "distinct (map code_of cs)" unfolding codes by (simp add: distinct_map sort_ranges_def)
  have "set (map code_of cs) = sr_code ` set selected" by (simp only: codes set_map set)
  also have "\<dots> = set (cs_values requested)" using arg_cong [OF sel(2), of set] by simp
  finally have codes_set: "code_of ` set cs = set (cs_values requested)" by simp
  have "\<forall>code \<in> set (cs_values requested). code_ok code"
    using assms(2) by (simp add: code_set_ok_def list_all_iff)
  then have ok: "\<forall>c \<in> set cs. code_ok (code_of c)" using codes_set by blast
  have "code \<in> sr_code ` set selected" using assms(4) arg_cong [OF sel(2), of set] by simp
  then obtain rg where rg: "rg \<in> set selected" "sr_code rg = code" by blast
  with list_all2_left [OF assms(3), of rg] set obtain c where "c \<in> set cs" "P rg c" "code_of c = code" by auto
  with entries sel(1) rg distinct ok show ?thesis by (intro that [of entries rg c]) blast+
qed

lemma load_collects:
  assumes "load_with_dns_policies env site_asset ip_asset specs policies = Inr geo"
    and "requested_collect (ge_lower env) (ge_fold_start env) specs policies = Inr requested" "scalars (ge_fold_start env)"
  shows "cs_selectors (rc_sites requested) \<noteq> [] \<Longrightarrow>
           \<exists>sites. load_site_file env site_asset (rc_sites requested) = Inr sites \<and>
             gd_sites geo = sort_key (\<lambda>c. code_key (sc_code c)) sites"
    and "cs_selectors (rc_ips requested) \<noteq> [] \<Longrightarrow>
           \<exists>ips. load_ip_file ip_asset (rc_ips requested) = Inr ips \<and>
             gd_ips geo = sort_key (\<lambda>c. code_key (ic_code c)) ips"
proof -
  have "code_set_ok (rc_sites requested)" "code_set_ok (rc_ips requested)"
    using requested_collect_ok [OF assms(2,3)] by auto
  then have vals: "cs_selectors (rc_sites requested) = [] \<longleftrightarrow> cs_values (rc_sites requested) = []"
    "cs_selectors (rc_ips requested) = [] \<longleftrightarrow> cs_values (rc_ips requested) = []" by (simp_all add: code_set_ok_def)
  show "cs_selectors (rc_sites requested) \<noteq> [] \<Longrightarrow> \<exists>sites. load_site_file env site_asset (rc_sites requested) = Inr sites \<and>
      gd_sites geo = sort_key (\<lambda>c. code_key (sc_code c)) sites"
    using assms(1,2) vals by (auto simp: load_with_dns_policies_def requested_total_def res_simps from_loaded_def)
  show "cs_selectors (rc_ips requested) \<noteq> [] \<Longrightarrow> \<exists>ips. load_ip_file ip_asset (rc_ips requested) = Inr ips \<and>
      gd_ips geo = sort_key (\<lambda>c. code_key (ic_code c)) ips"
    using assms(1,2) vals by (auto simp: load_with_dns_policies_def requested_total_def res_simps from_loaded_def)
qed

text \<open>
  Claim C22. The first pass over an asset hands the second pass exactly the requested categories: it
  succeeds if and only if no code occurs twice in the file and every requested code occurs, and then
  returns, for each requested code in order, the file's entry with that code. Each entry's range lies
  inside the file, and scanning that range again yields its code and number of records.
\<close>

theorem index_selected_exact:
  assumes "index_entries kind file 0 = Inr entries"
  shows "(index_selected kind file requested = Inr selected \<longleftrightarrow>
      distinct (map sr_code entries) \<and> set (cs_values requested) \<subseteq> sr_code ` set entries \<and>
      selected = map (\<lambda>code. the (find (\<lambda>entry. sr_code entry = code) entries)) (cs_values requested)) \<and>
    list_all (\<lambda>entry. sr_offset entry + sr_len entry \<le> length file \<and>
      scan_category_header kind file (sr_offset entry + sr_len entry) (sr_offset entry) =
        Inr (sr_code entry, sr_record_count entry)) entries"
  using index_selected_Inr_iff [OF assms] index_entries_ok [OF assms] by (simp add: entry_ok_def list_all_iff)

theorem index_selected_exact_witness:
  "index_selected GeoIpKind ([0x0A, 3, 0x0A, 1, 0x61] @ [0x0A, 3, 0x0A, 1, 0x62]) \<lparr>cs_values = [[0x62]], cs_selectors = []\<rparr> =
     Inr [\<lparr>sr_code = [0x62], sr_offset = 7, sr_len = 3, sr_record_count = 0\<rparr>]"
proof -
  let ?file = "[0x0A, 3, 0x0A, 1, 0x61, 0x0A, 3, 0x0A, 1, 0x62] :: bytes"
  have "index_entries GeoIpKind ?file 0 =
      Inr [\<lparr>sr_code = [0x61], sr_offset = 2, sr_len = 3, sr_record_count = 0\<rparr>,
           \<lparr>sr_code = [0x62], sr_offset = 7, sr_len = 3, sr_record_count = 0\<rparr>]"
    by (simp add: index_entries.simps index_entry_def scan_category_header_def scan_header.simps header_field_def geo_eval)
  from index_selected_exact [OF this] show ?thesis by simp
qed

text \<open>
  Claim C1. A GeoSite rule means what the asset file says, from the configuration to the answer the
  routing rules get. After a load succeeds, every GeoSite selector that the rules or the nameserver policies ask
  for is available, and it matches a domain exactly when the domain is not empty and some record of the
  one category with the selector's code carries all of its attributes and matches the domain (or,
  for a selector that starts with an exclamation mark, when no such record does), whatever other
  selectors and categories were loaded along with it.
\<close>

theorem geosite_means_records:
  fixes env :: "'r geo_env"
  assumes "load_with_dns_policies env site_asset ip_asset specs policies = Inr geo"
    and "requested_collect (ge_lower env) (ge_fold_start env) specs policies = Inr requested"
    and "scalars (ge_fold_start env)" "selector \<in> set (cs_selectors (rc_sites requested))"
  shows "\<exists>file entries rg rs. site_asset = Inr file \<and> index_entries GeoSiteKind file 0 = Inr entries \<and>
    rg \<in> set entries \<and> sr_code rg = ascii_lowercase (selector_code selector) \<and>
    record_ranges GeoSiteKind file (sr_offset rg + sr_len rg) (sr_offset rg) = Inr rs \<and>
    geosite_available (geo_data_matcher env geo) selector \<and>
    matches_geosite (geo_data_matcher env geo) selector domain =
      (domain \<noteq> [] \<and>
       list_ex (\<lambda>r. (selector_attributes selector = [] \<or>
           record_carries (ge_fold_start env) file (selector_attributes selector) r) \<and>
         record_matches (ge_idna env) (ge_lower_str env) (ge_compile env) (ge_is_match env) file (sr_code rg) domain r) rs
       \<noteq> starts_with_not selector)"
proof -
  let ?cs = "rc_sites requested"
  let ?parse = "\<lambda>file rg. parse_site_category (ge_fold_start env) (ge_idna env) (ge_lower_str env) (ge_compile env) file rg
    (filter (same_code (sr_code rg)) (cs_selectors ?cs))"
  have ok: "code_set_ok ?cs" using requested_collect_ok [OF assms(2,3)] by simp
  then have code: "ascii_lowercase (selector_code selector) \<in> set (cs_values ?cs)"
    and lower_form: "list_all lower_form (cs_selectors ?cs)"
    using assms(4) by (auto simp: code_set_ok_def list_all_iff)
  have "cs_selectors ?cs \<noteq> []" using assms(4) by auto
  from load_collects(1) [OF assms(1-3) this] obtain sites where
    load: "load_site_file env site_asset ?cs = Inr sites" and gd: "gd_sites geo = sort_key (\<lambda>c. code_key (sc_code c)) sites" by blast
  from load obtain fl selected where asset: "site_asset = Inr fl" and selected: "index_selected GeoSiteKind fl ?cs = Inr selected"
    and "parse_all (?parse fl) (sort_ranges selected) = Inr sites"
    by (auto simp: load_site_file_def res_simps)
  from parse_all_Inr [OF this(3)] have
    "list_all2 (\<lambda>rg c. ?parse fl rg = Inr c \<and> sc_code c = sr_code rg) (sort_ranges selected) sites"
    by (rule list_all2_mono) (auto dest: parse_site_category_fields)
  from selected_category [OF selected ok this code] obtain entries rg c where
    entries: "index_entries GeoSiteKind fl 0 = Inr entries" "rg \<in> set entries"
      "sr_code rg = ascii_lowercase (selector_code selector)"
    and parse: "?parse fl rg = Inr c" and c: "c \<in> set sites" "sc_code c = ascii_lowercase (selector_code selector)"
    and sites: "distinct (map sc_code sites)" "\<forall>c \<in> set sites. code_ok (sc_code c)" .
  have mem: "selector \<in> set (filter (same_code (sr_code rg)) (cs_selectors ?cs))"
    using assms(4) entries(3) by (simp add: same_code_def cmp_str_def)
  have can: "list_all lower_form (filter (same_code (sr_code rg)) (cs_selectors ?cs))"
    using lower_form by (auto simp: list_all_iff)
  obtain i where "binary_search_by (\<lambda>c. cmp_str (sc_code c) (selector_code selector)) (gd_sites geo) = Inr i" "gd_sites geo ! i = c"
    using lookup_code [OF sites c] unfolding gd by blast
  moreover have "site_has_selector c selector"
    using mem parse_site_category_fields [OF parse] by (auto simp: site_has_selector_def list_ex_iff intro: bexI [of _ selector])
  ultimately have "site_category_of geo selector = Some c" by (simp add: site_category_of_def)
  with site_selector_matches_records [OF parse can mem, of "ge_is_match env" domain] asset entries show ?thesis
    by (auto simp: geo_data_matcher_def)
qed

text \<open>A file with one category, whose only record is the domain \<^verbatim>\<open>b.c\<close> with the attribute \<^verbatim>\<open>x\<close>.\<close>

definition sample_geo_env :: "bytes geo_env" where
  "sample_geo_env = \<lparr>ge_lower = \<lambda>c. c, ge_fold_start = \<lambda>c. if c < 0x110000 then c else 0, ge_idna = \<lambda>d. None,
     ge_lower_str = \<lambda>d. d, ge_compile = Some, ge_is_match = (=)\<rparr>"

definition sample_site_file :: bytes where
  "sample_site_file = [0x0A, 17, 0x0A, 1, 0x61, 0x12, 12, 8, 2, 0x12, 3, 0x62, 0x2E, 0x63, 0x1A, 3, 0x0A, 1, 0x78]"

definition sample_ip_file :: bytes where
  "sample_ip_file = [0x0A, 13, 0x0A, 1, 0x61, 0x12, 8, 0x0A, 4, 10, 0, 0, 0, 0x10, 8]"

lemmas sample_eval = geo_eval validate_utf8_bytes_def validate_utf8_loop.simps utf8_start_def utf8_step_def
  validate_attribute.simps attribute_field_def read_scratch_def scan_domain.simps domain_field_def
  read_domain_rule_def domain_rule_def is_ascii_def strip_suffix1_def

lemma sample_site_index:
  "index_entries GeoSiteKind sample_site_file 0 = Inr [\<lparr>sr_code = [0x61], sr_offset = 2, sr_len = 17, sr_record_count = 1\<rparr>]"
  by (simp add: sample_site_file_def index_entries.simps index_entry_def scan_category_header_def scan_header.simps
      header_field_def checked_add_def usize_max_def geo_eval)

lemma sample_collect:
  "requested_collect (ge_lower sample_geo_env) (ge_fold_start sample_geo_env)
     [\<lparr>rule_kind = GeoIp [0x21, 0x61], rule_action = RuleDirect, no_resolve = False\<rparr>] [[[0x41]]] =
     Inr \<lparr>rc_sites = \<lparr>cs_values = [[0x61]], cs_selectors = [[0x61]]\<rparr>,
          rc_ips = \<lparr>cs_values = [[0x61]], cs_selectors = [[0x21, 0x61]]\<rparr>\<rparr>"
  by (simp add: requested_collect_def code_set_insert_def code_set_empty_def normalize_selector_def selector_code_def
      positive_selector_def geo_eval)

lemma sample_site_records:
  "record_ranges GeoSiteKind sample_site_file 19 2 = Inr [(7, 19)]"
  "read_domain_rule (\<lambda>d. None) (\<lambda>d. d) sample_site_file 19 [0x61] 7 = Inr (Literal DomainPattern [0x62, 0x2E, 0x63])"
  by (simp_all add: sample_site_file_def record_ranges.simps sample_eval)

lemma sample_site_load:
  "\<exists>sites. load_site_file sample_geo_env (Inr sample_site_file) \<lparr>cs_values = [[0x61]], cs_selectors = [[0x61]]\<rparr> = Inr sites"
proof -
  have "parse_site_category (ge_fold_start sample_geo_env) (\<lambda>d. None) (\<lambda>d. d) Some sample_site_file
      \<lparr>sr_code = [0x61], sr_offset = 2, sr_len = 17, sr_record_count = 1\<rparr> [[0x61]] = Inr
      \<lparr>sc_code = [0x61], sc_patterns = sort_patterns [0x62, 0x2E, 0x63] [\<lparr>sp_kind = DomainPattern, sp_start = 0, sp_len = 3\<rparr>],
       sc_values = [0x62, 0x2E, 0x63], sc_regexes = [], sc_selectors = [[0x61]], sc_filters = []\<rparr>"
    by (simp add: sample_site_file_def parse_site_category_def site_filters_def unfiltered_def
        selector_attributes_def positive_selector_def split_once_def scan_site_category.simps site_category_field_def
        store_record_def match_record_def parse_domain_record_def append_site_value_def empty_build_def u32_max_def sample_eval)
  then show ?thesis
    by (simp add: load_site_file_def index_selected_Inr_iff [OF sample_site_index] and_then_Inr_iff)
      (simp add: sort_ranges_def same_code_def cmp_str_def selector_code_def positive_selector_def sample_geo_env_def
        ascii_lowercase_def to_ascii_lowercase_def is_ascii_uppercase_def)
qed

lemma sample_ip_index:
  "index_entries GeoIpKind sample_ip_file 0 = Inr [\<lparr>sr_code = [0x61], sr_offset = 2, sr_len = 13, sr_record_count = 1\<rparr>]"
  by (simp add: sample_ip_file_def index_entries.simps index_entry_def scan_category_header_def scan_header.simps
      header_field_def checked_add_def usize_max_def geo_eval)

lemma sample_ip_scan:
  "scan_ip_category sample_ip_file 15 [0x61] \<lparr>is_seen_code = False, is_remaining = Suc 0, is_lists = ([], [])\<rparr> 2 =
     Inr \<lparr>is_seen_code = True, is_remaining = 0, is_lists = ([\<lparr>gc_network = 0x0A000000, gc_prefix = 8\<rparr>], [])\<rparr>"
  by (simp add: sample_ip_file_def scan_ip_category.simps ip_category_field_def parse_cidr_record_def scan_cidr.simps
      cidr_field_def geo_eval mask_to_def u32_of_def from_be_def mask_eq_exp_minus_1)

lemma sample_ip_load:
  "\<exists>ips. load_ip_file (Inr sample_ip_file) \<lparr>cs_values = [[0x61]], cs_selectors = [[0x21, 0x61]]\<rparr> = Inr ips"
  using sample_ip_scan
  by (simp add: load_ip_file_def load_selected_file_def index_selected_Inr_iff [OF sample_ip_index] and_then_Inr_iff)
    (simp add: sort_ranges_def parse_ip_category_def checked_end_def u64_max_def)

lemma sample_load:
  "\<exists>geo. load_with_dns_policies sample_geo_env (Inr sample_site_file) (Inr sample_ip_file)
     [\<lparr>rule_kind = GeoIp [0x21, 0x61], rule_action = RuleDirect, no_resolve = False\<rparr>] [[[0x41]]] = Inr geo"
  using sample_site_load sample_ip_load
  by (auto simp: load_with_dns_policies_def sample_collect requested_total_def)

lemma sample_scalars: "scalars (ge_fold_start sample_geo_env)"
  by (simp add: scalars_def sample_geo_env_def)

theorem geosite_means_records_witness:
  "\<exists>geo. load_with_dns_policies sample_geo_env (Inr sample_site_file) (Inr sample_ip_file)
     [\<lparr>rule_kind = GeoIp [0x21, 0x61], rule_action = RuleDirect, no_resolve = False\<rparr>] [[[0x41]]] = Inr geo \<and>
     matches_geosite (geo_data_matcher sample_geo_env geo) [0x61] [0x77, 0x2E, 0x62, 0x2E, 0x63]"
proof -
  obtain geo where geo: "load_with_dns_policies sample_geo_env (Inr sample_site_file) (Inr sample_ip_file)
     [\<lparr>rule_kind = GeoIp [0x21, 0x61], rule_action = RuleDirect, no_resolve = False\<rparr>] [[[0x41]]] = Inr geo"
    using sample_load by blast
  have "label_suffix [0x62, 0x2E, 0x63] [0x77, 0x2E, 0x62, 0x2E, 0x63]"
    unfolding label_suffix_def by (intro disjI2 exI [of _ "[0x77]"]) simp
  then have "record_matches (ge_idna sample_geo_env) (ge_lower_str sample_geo_env) (ge_compile sample_geo_env)
      (ge_is_match sample_geo_env) sample_site_file [0x61] [0x77, 0x2E, 0x62, 0x2E, 0x63] (7, 19)"
    by (simp add: record_matches_def sample_geo_env_def sample_site_records)
  with geosite_means_records [OF geo sample_collect sample_scalars, of "[0x61]" "[0x77, 0x2E, 0x62, 0x2E, 0x63]"]
  have "matches_geosite (geo_data_matcher sample_geo_env geo) [0x61] [0x77, 0x2E, 0x62, 0x2E, 0x63]"
    by (auto simp: sample_site_index sample_site_records selector_attributes_def positive_selector_def split_once_def
        starts_with_not_def)
  with geo show ?thesis by blast
qed

text \<open>
  Claim C9. A GeoIP rule means what the asset file says. After a load succeeds, every GeoIP selector that
  the rules ask for is available, and it matches an address exactly when a CIDR record of the one category
  with the selector's code covers the address, or when none does for a selector that starts with an
  exclamation mark, although the records were sorted, merged and dropped in between.
\<close>

theorem geoip_means_records:
  fixes env :: "'r geo_env"
  assumes "load_with_dns_policies env site_asset ip_asset specs policies = Inr geo"
    and "requested_collect (ge_lower env) (ge_fold_start env) specs policies = Inr requested"
    and "scalars (ge_fold_start env)" "selector \<in> set (cs_selectors (rc_ips requested))"
  shows "\<exists>file entries rg s. ip_asset = Inr file \<and> index_entries GeoIpKind file 0 = Inr entries \<and>
    rg \<in> set entries \<and> sr_code rg = ascii_lowercase (selector_code selector) \<and>
    scan_ip_category file (sr_offset rg + sr_len rg) (sr_code rg)
      \<lparr>is_seen_code = False, is_remaining = sr_record_count rg, is_lists = ([], [])\<rparr> (sr_offset rg) = Inr s \<and>
    geoip_available (geo_data_matcher env geo) selector \<and>
    matches_geoip (geo_data_matcher env geo) selector (IpV4 a) =
      (list_ex (\<lambda>c. geo_cidr_contains c a) (fst (is_lists s)) \<noteq> starts_with_not selector) \<and>
    matches_geoip (geo_data_matcher env geo) selector (IpV6 b) =
      (list_ex (\<lambda>c. geo_cidr_contains c b) (snd (is_lists s)) \<noteq> starts_with_not selector)"
proof -
  let ?cs = "rc_ips requested"
  let ?named = "\<lambda>c. c\<lparr>ic_selectors := ic_selectors c @ filter (same_code (ic_code c)) (cs_selectors ?cs)\<rparr>"
  have ok: "code_set_ok ?cs" using requested_collect_ok [OF assms(2,3)] by simp
  then have code: "ascii_lowercase (selector_code selector) \<in> set (cs_values ?cs)"
    using assms(4) by (auto simp: code_set_ok_def list_all_iff)
  have "cs_selectors ?cs \<noteq> []" using assms(4) by auto
  from load_collects(2) [OF assms(1-3) this] obtain ips where
    load: "load_ip_file ip_asset ?cs = Inr ips" and gd: "gd_ips geo = sort_key (\<lambda>c. code_key (ic_code c)) ips" by blast
  from load obtain fl selected parsed where asset: "ip_asset = Inr fl"
    and selected: "index_selected GeoIpKind fl ?cs = Inr selected"
    and parsed: "parse_all (parse_ip_category fl) (sort_ranges selected) = Inr parsed" and ips: "ips = map ?named parsed"
    by (auto simp: load_ip_file_def load_selected_file_def res_simps)
  from parse_all_Inr [OF parsed] have
    "list_all2 (\<lambda>rg c. (\<exists>c0. parse_ip_category fl rg = Inr c0 \<and> c = ?named c0) \<and> ic_code c = sr_code rg) (sort_ranges selected) ips"
    unfolding ips list_all2_map2 by (rule list_all2_mono) (auto dest: parse_ip_category_fields)
  from selected_category [OF selected ok this code] obtain entries rg c where
    entries: "index_entries GeoIpKind fl 0 = Inr entries" "rg \<in> set entries"
      "sr_code rg = ascii_lowercase (selector_code selector)"
    and "\<exists>c0. parse_ip_category fl rg = Inr c0 \<and> c = ?named c0" and c: "c \<in> set ips" "ic_code c = ascii_lowercase (selector_code selector)"
    and cats: "distinct (map ic_code ips)" "\<forall>c \<in> set ips. code_ok (ic_code c)" .
  then obtain c0 where parse: "parse_ip_category fl rg = Inr c0" and c0: "c = ?named c0" by blast
  obtain s where scan: "scan_ip_category fl (sr_offset rg + sr_len rg) (sr_code rg)
      \<lparr>is_seen_code = False, is_remaining = sr_record_count rg, is_lists = ([], [])\<rparr> (sr_offset rg) = Inr s"
    using parse by (auto simp: parse_ip_category_def res_simps)
  obtain i where "binary_search_by (\<lambda>c. cmp_str (ic_code c) (selector_code selector)) (gd_ips geo) = Inr i" "gd_ips geo ! i = c"
    using lookup_code [OF cats c] unfolding gd by blast
  moreover have "ip_has_selector c selector"
    using assms(4) c(2) by (auto simp: c0 ip_has_selector_def list_ex_iff same_code_def cmp_str_def intro!: bexI [of _ selector])
  ultimately have "ip_category_of geo selector = Some c" by (simp add: ip_category_of_def)
  moreover have "ip_matches c (IpV4 a) = ip_matches c0 (IpV4 a)" "ip_matches c (IpV6 b) = ip_matches c0 (IpV6 b)"
    by (simp_all add: c0)
  ultimately show ?thesis
    using ip_category_matches_records [OF parse scan, of a b] asset entries scan by (auto simp: geo_data_matcher_def)
qed

theorem geoip_means_records_witness:
  "\<exists>geo. load_with_dns_policies sample_geo_env (Inr sample_site_file) (Inr sample_ip_file)
     [\<lparr>rule_kind = GeoIp [0x21, 0x61], rule_action = RuleDirect, no_resolve = False\<rparr>] [[[0x41]]] = Inr geo \<and>
     \<not> matches_geoip (geo_data_matcher sample_geo_env geo) [0x21, 0x61] (IpV4 0x0A000001) \<and>
     matches_geoip (geo_data_matcher sample_geo_env geo) [0x21, 0x61] (IpV6 1)"
proof -
  obtain geo where geo: "load_with_dns_policies sample_geo_env (Inr sample_site_file) (Inr sample_ip_file)
     [\<lparr>rule_kind = GeoIp [0x21, 0x61], rule_action = RuleDirect, no_resolve = False\<rparr>] [[[0x41]]] = Inr geo"
    using sample_load by blast
  from geoip_means_records [OF geo sample_collect sample_scalars, of "[0x21, 0x61]" "0x0A000001" 1]
  have "\<not> matches_geoip (geo_data_matcher sample_geo_env geo) [0x21, 0x61] (IpV4 0x0A000001)"
    "matches_geoip (geo_data_matcher sample_geo_env geo) [0x21, 0x61] (IpV6 1)"
    by (auto simp: sample_ip_index sample_ip_scan starts_with_not_def geo_cidr_contains_def mask_to_def mask_eq_exp_minus_1)
  with geo show ?thesis by blast
qed

end
