(* ===== verification/Rust_Net.thy ===== *)
theory Rust_Net
  imports Session_Model Rust_Str
begin

text \<open>
  The text form of numbers and addresses as Rust's standard library has it: \<^verbatim>\<open>to_string\<close> and
  \<^verbatim>\<open>{:x}\<close> of unsigned integers, \<^verbatim>\<open>from_str_radix\<close>, the address parser behind
  \<^verbatim>\<open>str::parse::<IpAddr>\<close> and \<^verbatim>\<open>str::parse::<SocketAddr>\<close>, and the \<^verbatim>\<open>Display\<close> of both; then
  the authority form of a destination, \<^verbatim>\<open>Destination::authority\<close> and \<^verbatim>\<open>Destination::from_authority\<close>
  of \<^verbatim>\<open>src/session.rs\<close>. A parser takes the remaining bytes and returns what it read with what is
  left; None restores the position.
\<close>

section \<open>Digits\<close>

definition digit_value :: "u8 \<Rightarrow> nat" where
  "digit_value b =
     (if is_ascii_digit b then unat b - 48
      else if 97 \<le> b \<and> b \<le> 122 then unat b - 87
      else if 65 \<le> b \<and> b \<le> 90 then unat b - 55 else 36)"

definition to_digit :: "nat \<Rightarrow> u8 \<Rightarrow> nat option" where
  "to_digit radix b = (if digit_value b < radix then Some (digit_value b) else None)"

definition is_digit_of :: "nat \<Rightarrow> u8 \<Rightarrow> bool" where
  "is_digit_of radix b \<longleftrightarrow> to_digit radix b \<noteq> None"

definition radix_value :: "nat \<Rightarrow> bytes \<Rightarrow> nat" where
  "radix_value radix ds = foldl (\<lambda>v d. v * radix + the (to_digit radix d)) 0 ds"

definition digit_char :: "nat \<Rightarrow> u8" where
  "digit_char n = (if n < 10 then of_nat (48 + n) else of_nat (87 + n))"

text \<open>\<^verbatim>\<open>n.to_string()\<close> for radix 10 and \<^verbatim>\<open>format!("{n:x}")\<close> for radix 16.\<close>

function radix_str :: "nat \<Rightarrow> nat \<Rightarrow> bytes" where
  "radix_str radix n =
     (if radix < 2 \<or> n < radix then [digit_char n]
      else radix_str radix (n div radix) @ [digit_char (n mod radix)])"
  by pat_completeness auto
termination
  by (relation "measure snd") auto

declare radix_str.simps [simp del]

section \<open>The address parser\<close>

definition read_given_char :: "u8 \<Rightarrow> bytes \<Rightarrow> bytes option" where
  "read_given_char c p = (case p of b # rest \<Rightarrow> if b = c then Some rest else None | [] \<Rightarrow> None)"

definition read_separator ::
  "u8 \<Rightarrow> nat \<Rightarrow> (bytes \<Rightarrow> ('a \<times> bytes) option) \<Rightarrow> bytes \<Rightarrow> ('a \<times> bytes) option" where
  "read_separator sep index inner p =
     (if 0 < index then Option.bind (read_given_char sep p) inner else inner p)"

text \<open>
  The digit loop stops with an error after one digit too many, and a value that does not fit its
  type is an error at the end or, with checked arithmetic, as soon as it is reached.
\<close>

definition read_number :: "nat \<Rightarrow> nat option \<Rightarrow> bool \<Rightarrow> nat \<Rightarrow> bytes \<Rightarrow> (nat \<times> bytes) option" where
  "read_number radix max_digits allow_zero_prefix bound p =
     (let ds = takeWhile (is_digit_of radix) p in
      if (case max_digits of Some m \<Rightarrow> m < length ds | None \<Rightarrow> False) then None
      else if ds = [] then None
      else if \<not> allow_zero_prefix \<and> hd ds = 48 \<and> 1 < length ds then None
      else if radix_value radix ds \<le> bound then Some (radix_value radix ds, drop (length ds) p)
      else None)"

definition read_octet :: "nat \<Rightarrow> bytes \<Rightarrow> (nat \<times> bytes) option" where
  "read_octet = (\<lambda>i. read_separator 46 i (read_number 10 (Some 3) False 255))"

definition read_ipv4_addr :: "bytes \<Rightarrow> (u32 \<times> bytes) option" where
  "read_ipv4_addr p0 =
     Option.bind (read_octet 0 p0) (\<lambda>(a, p1).
     Option.bind (read_octet 1 p1) (\<lambda>(b, p2).
     Option.bind (read_octet 2 p2) (\<lambda>(c, p3).
     Option.bind (read_octet 3 p3) (\<lambda>(d, p4).
     Some (u32_of [of_nat a, of_nat b, of_nat c, of_nat d], p4)))))"

definition read_group :: "nat \<Rightarrow> bytes \<Rightarrow> (nat \<times> bytes) option" where
  "read_group i = read_separator 58 i (read_number 16 (Some 4) True 65535)"

fun read_groups :: "nat \<Rightarrow> nat \<Rightarrow> bytes \<Rightarrow> u16 list \<times> bool \<times> bytes" where
  "read_groups 0 i p = ([], False, p)"
| "read_groups (Suc left) i p =
     (case (if 0 < left then read_separator 58 i read_ipv4_addr p else None) of
        Some (v4, rest) \<Rightarrow> ([u16_of (take 2 (be32 v4)), u16_of (drop 2 (be32 v4))], True, rest)
      | None \<Rightarrow>
          (case read_group i p of
             None \<Rightarrow> ([], False, p)
           | Some (g, rest) \<Rightarrow>
               (case read_groups left (Suc i) rest of
                  (gs, v4, rest') \<Rightarrow> (of_nat g # gs, v4, rest'))))"

definition u128_of_segments :: "u16 list \<Rightarrow> u128" where
  "u128_of_segments gs = u128_of (concat (map be16 gs))"

definition read_ipv6_addr :: "bytes \<Rightarrow> (u128 \<times> bytes) option" where
  "read_ipv6_addr p =
     (case read_groups 8 0 p of
        (head, head_ipv4, p1) \<Rightarrow>
          if length head = 8 then Some (u128_of_segments head, p1)
          else if head_ipv4 then None
          else
            Option.bind (read_given_char 58 p1) (\<lambda>p2.
            Option.bind (read_given_char 58 p2) (\<lambda>p3.
            case read_groups (8 - (length head + 1)) 0 p3 of
              (tail, _, p4) \<Rightarrow>
                Some (u128_of_segments (head @ replicate (8 - length head - length tail) 0 @ tail), p4))))"

definition read_ip_addr :: "bytes \<Rightarrow> (ip_addr \<times> bytes) option" where
  "read_ip_addr p =
     (case read_ipv4_addr p of
        Some (ip, rest) \<Rightarrow> Some (IpV4 ip, rest)
      | None \<Rightarrow> map_option (\<lambda>(ip, rest). (IpV6 ip, rest)) (read_ipv6_addr p))"

definition read_port :: "bytes \<Rightarrow> (nat \<times> bytes) option" where
  "read_port p = Option.bind (read_given_char 58 p) (read_number 10 None True 65535)"

definition read_scope_id :: "bytes \<Rightarrow> (nat \<times> bytes) option" where
  "read_scope_id p = Option.bind (read_given_char 37 p) (read_number 10 None True (2 ^ 32 - 1))"

definition read_socket_addr_v4 :: "bytes \<Rightarrow> (socket_addr \<times> bytes) option" where
  "read_socket_addr_v4 p =
     Option.bind (read_ipv4_addr p) (\<lambda>(ip, p1).
     Option.bind (read_port p1) (\<lambda>(port, p2).
     Some (SocketV4 ip (of_nat port), p2)))"

definition read_socket_addr_v6 :: "bytes \<Rightarrow> (socket_addr \<times> bytes) option" where
  "read_socket_addr_v6 p =
     Option.bind (read_given_char 91 p) (\<lambda>p1.
     Option.bind (read_ipv6_addr p1) (\<lambda>(ip, p2).
     let (scope, p3) = (case read_scope_id p2 of Some r \<Rightarrow> r | None \<Rightarrow> (0, p2)) in
     Option.bind (read_given_char 93 p3) (\<lambda>p4.
     Option.bind (read_port p4) (\<lambda>(port, p5).
     Some (SocketV6 ip (of_nat port) 0 (of_nat scope), p5)))))"

definition read_socket_addr :: "bytes \<Rightarrow> (socket_addr \<times> bytes) option" where
  "read_socket_addr p =
     (case read_socket_addr_v4 p of Some r \<Rightarrow> Some r | None \<Rightarrow> read_socket_addr_v6 p)"

text \<open>\<^verbatim>\<open>parse_with\<close>: the whole string is read.\<close>

definition parse_with :: "(bytes \<Rightarrow> ('a \<times> bytes) option) \<Rightarrow> bytes \<Rightarrow> 'a option" where
  "parse_with inner s = (case inner s of Some (v, []) \<Rightarrow> Some v | _ \<Rightarrow> None)"

definition parse_ip_addr :: "bytes \<Rightarrow> ip_addr option" where
  "parse_ip_addr = parse_with read_ip_addr"

definition parse_socket_addr :: "bytes \<Rightarrow> socket_addr option" where
  "parse_socket_addr = parse_with read_socket_addr"

section \<open>Printing addresses\<close>

definition ipv4_str :: "u32 \<Rightarrow> bytes" where
  "ipv4_str ip = join 46 (map (\<lambda>b. radix_str 10 (unat b)) (be32 ip))"

definition segments :: "u128 \<Rightarrow> u16 list" where
  "segments ip = map (\<lambda>i. u16_of (subslice (be128 ip) (2 * i) (2 * i + 2))) [0..<8]"

text \<open>The scan for the longest run of zero segments: start and length of the longest and of the
  current run.\<close>

fun zero_span :: "u16 list \<Rightarrow> nat \<Rightarrow> nat \<times> nat \<Rightarrow> nat \<times> nat \<Rightarrow> nat \<times> nat" where
  "zero_span [] i longest current = longest"
| "zero_span (g # gs) i longest current =
     (if g = 0 then
        let current' = (if snd current = 0 then i else fst current, snd current + 1) in
        zero_span gs (Suc i) (if snd longest < snd current' then current' else longest) current'
      else zero_span gs (Suc i) longest (0, 0))"

definition fmt_subslice :: "u16 list \<Rightarrow> bytes" where
  "fmt_subslice gs = join 58 (map (\<lambda>g. radix_str 16 (unat g)) gs)"

definition ipv6_str :: "u128 \<Rightarrow> bytes" where
  "ipv6_str ip =
     (let gs = segments ip in
      if take 6 gs = [0, 0, 0, 0, 0, 0xFFFF]
      then str ''::ffff:'' @ ipv4_str (u32_of (drop 12 (be128 ip)))
      else let (start, len) = zero_span gs 0 (0, 0) (0, 0) in
        if 1 < len then fmt_subslice (take start gs) @ str ''::'' @ fmt_subslice (drop (start + len) gs)
        else fmt_subslice gs)"

fun socket_str :: "socket_addr \<Rightarrow> bytes" where
  "socket_str (SocketV4 ip port) = ipv4_str ip @ 58 # radix_str 10 (unat port)"
| "socket_str (SocketV6 ip port flow scope) =
     91 # ipv6_str ip @ (if scope = 0 then [] else 37 # radix_str 10 (unat scope)) @
     93 # 58 # radix_str 10 (unat port)"

section \<open>The authority form\<close>

definition rsplit_once :: "u8 \<Rightarrow> bytes \<Rightarrow> (bytes \<times> bytes) option" where
  "rsplit_once c bs = map_option (\<lambda>(a, b). (rev b, rev a)) (split_once c (rev bs))"

fun authority :: "destination \<Rightarrow> bytes" where
  "authority (DestIp address) = socket_str address"
| "authority (DestDomain host port) = host @ 58 # radix_str 10 (unat port)"

definition from_authority :: "bytes \<Rightarrow> io_error + destination" where
  "from_authority a =
     (if a = [] \<or> 512 < length a \<or> list_ex (\<lambda>b. b \<in> set (str ''/@#?'')) a then Inl InvalidInput
      else
        (case parse_socket_addr a of
           Some address \<Rightarrow> if socket_port address = 0 then Inl InvalidInput else Inr (DestIp address)
         | None \<Rightarrow>
             and_then (ok_or InvalidInput (rsplit_once 58 a)) (\<lambda>(host, port).
             if 58 \<in> set host then Inl InvalidInput
             else and_then (ok_or InvalidInput (parse_uint 65535 port)) (\<lambda>port.
               destination_domain host (of_nat port)))))"

section \<open>Numbers read back\<close>

definition radix_ok :: "nat \<Rightarrow> bool" where
  "radix_ok r \<longleftrightarrow> 2 \<le> r \<and> r \<le> 16"

lemma radix_ok_simps [simp]: "radix_ok 10" "radix_ok 16"
  by (simp_all add: radix_ok_def)

lemma to_digit_char: "n < r \<Longrightarrow> r \<le> 16 \<Longrightarrow> to_digit r (digit_char n) = Some n"
proof -
  assume n: "n < r" "r \<le> 16"
  then consider "n < 10" | "10 \<le> n" "n < 16"
    by linarith
  then show ?thesis
  proof cases
    case 1
    then have "unat (digit_char n) = 48 + n"
      by (simp add: digit_char_def unat_of_nat del: of_nat_add)
    with 1 n show ?thesis
      by (auto simp: to_digit_def digit_value_def is_ascii_digit_def word_le_nat_alt)
  next
    case 2
    then have "unat (digit_char n) = 87 + n"
      by (simp add: digit_char_def unat_of_nat del: of_nat_add)
    with 2 n show ?thesis
      by (auto simp: to_digit_def digit_value_def is_ascii_digit_def word_le_nat_alt)
  qed
qed

lemma radix_value_snoc: "radix_value r (ds @ [d]) = radix_value r ds * r + the (to_digit r d)"
  by (simp add: radix_value_def)

lemma radix_str_step:
  "radix_ok r \<Longrightarrow> r \<le> n \<Longrightarrow> radix_str r n = radix_str r (n div r) @ [digit_char (n mod r)]"
  by (subst radix_str.simps) (auto simp: radix_ok_def)

lemma radix_str_small: "n < r \<Longrightarrow> radix_str r n = [digit_char n]"
  by (subst radix_str.simps) simp

lemma radix_str_digits:
  assumes r: "radix_ok r"
  shows "radix_str r n \<noteq> [] \<and> list_all (is_digit_of r) (radix_str r n) \<and> radix_value r (radix_str r n) = n"
proof (induction n rule: less_induct)
  case (less n)
  note r' = r [unfolded radix_ok_def]
  show ?case
  proof (cases "n < r")
    case True
    then show ?thesis
      using r' by (simp add: radix_str_small is_digit_of_def to_digit_char radix_value_def)
  next
    case False
    then have "n div r < n"
      using r' by simp
    then show ?thesis
      using False r' less.IH [of "n div r"]
      by (simp add: radix_str_step [OF r] is_digit_of_def to_digit_char radix_value_snoc)
  qed
qed

lemma radix_str_length: "radix_ok r \<Longrightarrow> n < r ^ Suc k \<Longrightarrow> length (radix_str r n) \<le> Suc k"
proof (induction k arbitrary: n)
  case 0
  then show ?case by (simp add: radix_str_small)
next
  case (Suc k)
  show ?case
  proof (cases "n < r")
    case False
    have "n div r < r ^ Suc k"
      using Suc.prems(2) by (simp add: less_mult_imp_div_less mult.commute)
    with Suc False show ?thesis
      by (simp add: radix_str_step)
  qed (simp add: radix_str_small)
qed

lemma radix_value_bound: "radix_ok r \<Longrightarrow> list_all (is_digit_of r) ds \<Longrightarrow> radix_value r ds < r ^ length ds"
proof (induction ds rule: rev_induct)
  case (snoc d ds)
  then have "the (to_digit r d) < r" "radix_value r ds + 1 \<le> r ^ length ds"
    by (auto simp: is_digit_of_def to_digit_def split: if_splits)
  then have "radix_value r ds * r + the (to_digit r d) < (radix_value r ds + 1) * r"
    by simp
  also have "\<dots> \<le> r ^ length ds * r"
    using \<open>radix_value r ds + 1 \<le> r ^ length ds\<close> by (rule mult_le_mono1)
  finally show ?case
    by (simp add: radix_value_snoc mult.commute)
qed (simp add: radix_value_def)

lemma radix_str_min_length: "radix_ok r \<Longrightarrow> r ^ k \<le> n \<Longrightarrow> k < length (radix_str r n)"
proof (rule ccontr)
  assume r: "radix_ok r" "r ^ k \<le> n" "\<not> k < length (radix_str r n)"
  have "n < r ^ length (radix_str r n)"
    using radix_value_bound [OF r(1)] radix_str_digits [OF r(1), of n] by metis
  also have "\<dots> \<le> r ^ k"
    using r by (intro power_increasing) (auto simp: radix_ok_def)
  finally show False
    using r(2) by simp
qed

lemma radix_str_zero:
  "radix_ok r \<Longrightarrow> hd (radix_str r n) = 48 \<Longrightarrow> length (radix_str r n) = 1"
proof (induction n rule: less_induct)
  case (less n)
  have r: "2 \<le> r" "r \<le> 16"
    using less.prems by (auto simp: radix_ok_def)
  show ?case
  proof (cases "n < r")
    case False
    then have step: "radix_str r n = radix_str r (n div r) @ [digit_char (n mod r)]"
      and small: "n div r < n"
      using r less.prems by (auto simp: radix_str_step)
    then have "hd (radix_str r (n div r)) = 48"
      using less.prems radix_str_digits [of r "n div r"] by (simp add: hd_append)
    then have "length (radix_str r (n div r)) = 1"
      using less.IH [OF small] less.prems by simp
    with \<open>hd (radix_str r (n div r)) = 48\<close> have "radix_str r (n div r) = [48]"
      by (cases "radix_str r (n div r)") auto
    then have "n div r = 0"
      using radix_str_digits [OF less.prems(1), of "n div r"]
      by (simp add: radix_value_def to_digit_def digit_value_def is_ascii_digit_def split: if_splits)
    then show ?thesis
      using False r by (simp add: div_eq_0_iff)
  qed (simp add: radix_str_small)
qed

text \<open>What is left does not continue the number.\<close>

definition stops :: "nat \<Rightarrow> bytes \<Rightarrow> bool" where
  "stops r rest \<longleftrightarrow> (case rest of [] \<Rightarrow> True | b # _ \<Rightarrow> \<not> is_digit_of r b)"

lemma stops_simps [simp]: "stops r []" "stops r (b # bs) \<longleftrightarrow> \<not> is_digit_of r b"
  by (simp_all add: stops_def)

lemma takeWhile_digits:
  "list_all (is_digit_of r) ds \<Longrightarrow> stops r rest \<Longrightarrow> takeWhile (is_digit_of r) (ds @ rest) = ds"
  by (cases rest) (auto simp: takeWhile_append list_all_iff)

lemma read_number_radix_str:
  assumes "radix_ok r" "n \<le> bound" "stops r rest" "\<And>m. max_digits = Some m \<Longrightarrow> 0 < m \<and> n < r ^ m"
  shows "read_number r max_digits allow bound (radix_str r n @ rest) = Some (n, rest)"
proof -
  have ds: "takeWhile (is_digit_of r) (radix_str r n @ rest) = radix_str r n"
    using radix_str_digits [OF assms(1)] assms(3) by (intro takeWhile_digits) auto
  have "length (radix_str r n) \<le> m" if "max_digits = Some m" for m
    using assms(4) [OF that] radix_str_length [OF assms(1), of n "m - 1"] by (cases m) auto
  moreover have "\<not> (hd (radix_str r n) = 48 \<and> 1 < length (radix_str r n))"
    using radix_str_zero [OF assms(1)] by fastforce
  ultimately show ?thesis
    using radix_str_digits [OF assms(1), of n] assms(2)
    by (auto simp: read_number_def ds Let_def split: option.splits)
qed

section \<open>Addresses read back\<close>

lemma be32_bytes:
  obtains a b c d where "be32 ip = [a, b, c, d]"
  using that by (simp add: be32_def to_be_4 to_be_2)

lemma not_digit_simps [simp]:
  "\<not> is_digit_of 10 46" "\<not> is_digit_of 10 58" "\<not> is_digit_of 10 93" "\<not> is_digit_of 10 37"
  "\<not> is_digit_of 16 46" "\<not> is_digit_of 16 58" "\<not> is_digit_of 16 93" "\<not> is_digit_of 16 37"
  by (simp_all add: is_digit_of_def to_digit_def digit_value_def is_ascii_digit_def)

lemma is_digit_of_mono: "r \<le> s \<Longrightarrow> is_digit_of r b \<Longrightarrow> is_digit_of s b"
  by (simp add: is_digit_of_def to_digit_def split: if_splits)

lemmas decimal_is_hex = is_digit_of_mono [of 10 16, simplified]

lemma stops_hex_decimal: "stops 16 rest \<Longrightarrow> stops 10 rest"
  by (cases rest) (auto dest: decimal_is_hex)

lemma read_octet_str:
  "stops 10 rest \<Longrightarrow> read_octet 0 (radix_str 10 (unat (b :: u8)) @ rest) = Some (unat b, rest)"
  "0 < i \<Longrightarrow> stops 10 rest \<Longrightarrow> read_octet i (46 # radix_str 10 (unat (b :: u8)) @ rest) = Some (unat b, rest)"
  by (auto simp: read_octet_def read_separator_def read_given_char_def
      intro!: read_number_radix_str le_less_trans [OF unat_u8_le])

lemma read_ipv4_addr_str:
  assumes "stops 10 rest"
  shows "read_ipv4_addr (ipv4_str ip @ rest) = Some (ip, rest)"
proof -
  obtain a b c d where ip: "be32 ip = [a, b, c, d]"
    by (rule be32_bytes)
  have "u32_of [a, b, c, d] = ip"
    by (simp flip: ip)
  then show ?thesis
    using assms by (simp add: read_ipv4_addr_def ipv4_str_def ip read_octet_str)
qed

text \<open>A hexadecimal group that is not followed by a dot is not the start of an IPv4 address.\<close>

lemma read_ipv4_addr_group:
  assumes h: "list_all (is_digit_of 16) h" and rest: "stops 16 rest" "rest = [] \<or> hd rest \<noteq> 46"
  shows "read_ipv4_addr (h @ rest) = None"
proof -
  have "read_octet 1 (dropWhile (is_digit_of 10) (h @ rest)) = None"
  proof (cases "dropWhile (is_digit_of 10) (h @ rest)")
    case (Cons b bs)
    have "b \<noteq> 46"
    proof (cases "list_all (is_digit_of 10) h")
      case True
      then have "dropWhile (is_digit_of 10) (h @ rest) = rest"
        using stops_hex_decimal [OF rest(1)] by (cases rest) (auto simp: list_all_iff dropWhile_append)
      with Cons rest(2) show ?thesis by auto
    next
      case False
      then obtain x where x: "x \<in> set h" "\<not> is_digit_of 10 x"
        by (auto simp: list_all_iff)
      then have d: "dropWhile (is_digit_of 10) (h @ rest) = dropWhile (is_digit_of 10) h @ rest"
        and ne: "dropWhile (is_digit_of 10) h \<noteq> []"
        by (auto simp: dropWhile_append)
      then have "b \<in> set (dropWhile (is_digit_of 10) h)"
        using Cons by (cases "dropWhile (is_digit_of 10) h") auto
      then have "is_digit_of 16 b"
        using h by (auto simp: list_all_iff dest: set_dropWhileD)
      then show ?thesis by auto
    qed
    then show ?thesis
      using Cons by (simp add: read_octet_def read_separator_def read_given_char_def)
  qed (simp only:, simp add: read_octet_def read_separator_def read_given_char_def)
  moreover have "p1 = dropWhile (is_digit_of 10) (h @ rest)" if "read_octet 0 (h @ rest) = Some (a, p1)" for a p1
    using that by (auto simp: read_octet_def read_separator_def read_number_def Let_def dropWhile_eq_drop
        split: if_splits)
  ultimately show ?thesis
    unfolding read_ipv4_addr_def
    by (cases "read_octet 0 (h @ rest)") (simp, metis (no_types, lifting) One_nat_def bind.bind_lunit
        bind.bind_lzero case_prod_conv old.prod.exhaust)
qed

lemma read_group_str:
  "stops 16 rest \<Longrightarrow>
   read_group i ((if 0 < i then [58] else []) @ radix_str 16 (unat (g :: u16)) @ rest) = Some (unat g, rest)"
  by (auto simp: read_group_def read_separator_def read_given_char_def
      intro!: read_number_radix_str le_less_trans [OF unat_u16_le])

fun groups_text :: "nat \<Rightarrow> u16 list \<Rightarrow> bytes" where
  "groups_text i [] = []"
| "groups_text i (g # gs) = (if 0 < i then [58] else []) @ radix_str 16 (unat g) @ groups_text (Suc i) gs"

lemma fmt_subslice_text: "fmt_subslice gs = groups_text 0 gs"
proof -
  have *: "groups_text (Suc i) gs = (if gs = [] then [] else 58 # fmt_subslice gs)" for i gs
    by (induction gs arbitrary: i) (auto simp: fmt_subslice_def join_Cons)
  show ?thesis
    by (cases gs) (auto simp: * fmt_subslice_def join_Cons)
qed

text \<open>What may follow the groups: nothing that another group or a dot could start.\<close>

definition groups_end :: "nat \<Rightarrow> bytes \<Rightarrow> bool" where
  "groups_end i rest \<longleftrightarrow> stops 16 rest \<and> (rest = [] \<or> hd rest \<noteq> 46) \<and>
     (0 < i \<longrightarrow> (case rest of b # bs \<Rightarrow> b = 58 \<longrightarrow> stops 16 bs | [] \<Rightarrow> True))"

lemma read_group_None: "groups_end i rest \<Longrightarrow> read_group i rest = None"
  by (cases rest)
    (auto simp: groups_end_def read_group_def read_separator_def read_given_char_def read_number_def
      stops_def takeWhile_eq_Nil_iff split: list.splits)

lemma read_separator_ipv4_None:
  "groups_end i rest \<Longrightarrow> read_separator 58 i read_ipv4_addr rest = None"
proof -
  assume e: "groups_end i rest"
  have no: "read_ipv4_addr bs = None" if "stops 16 bs" for bs
    using stops_hex_decimal [OF that]
    by (cases bs) (auto simp: read_ipv4_addr_def read_octet_def read_separator_def read_number_def)
  show ?thesis
    using e by (cases rest) (auto simp: groups_end_def read_separator_def read_given_char_def no)
qed

lemma groups_text_stops:
  "stops 16 rest \<Longrightarrow> rest = [] \<or> hd rest \<noteq> 46 \<Longrightarrow>
   stops 16 (groups_text (Suc i) gs @ rest) \<and> (groups_text (Suc i) gs @ rest = [] \<or> hd (groups_text (Suc i) gs @ rest) \<noteq> 46)"
  by (cases gs) auto

lemma read_groups_text:
  assumes "length gs \<le> n" "length gs < n \<longrightarrow> groups_end (i + length gs) rest"
    and "stops 16 rest" "rest = [] \<or> hd rest \<noteq> 46"
  shows "read_groups n i (groups_text i gs @ rest) = (gs, False, rest)"
  using assms(1,2)
proof (induction gs arbitrary: i n)
  case Nil
  then show ?case
    by (cases n) (auto simp: read_group_None read_separator_ipv4_None)
next
  case (Cons g gs)
  then obtain m where n: "n = Suc m"
    by (cases n) auto
  let ?more = "groups_text (Suc i) gs @ rest"
  have more: "stops 16 ?more" "?more = [] \<or> hd ?more \<noteq> 46"
    using groups_text_stops [OF assms(3,4)] by blast+
  have "list_all (is_digit_of 16) (radix_str 16 (unat g))"
    using radix_str_digits [of 16] by simp
  from read_ipv4_addr_group [OF this more]
  have "read_separator 58 i read_ipv4_addr (groups_text i (g # gs) @ rest) = None"
    by (cases i) (simp_all add: read_separator_def read_given_char_def)
  moreover have "read_group i (groups_text i (g # gs) @ rest) = Some (unat g, ?more)"
    using read_group_str [OF more(1), of i g] by simp
  moreover have "read_groups m (Suc i) ?more = (gs, False, rest)"
    using Cons.IH [of m "Suc i"] Cons.prems n by simp
  ultimately show ?case
    by (cases m) (simp_all add: n)
qed

text \<open>The longest run found by the scan lies in the list and is zero.\<close>

definition zero_run :: "u16 list \<Rightarrow> nat \<times> nat \<Rightarrow> bool" where
  "zero_run gs r \<longleftrightarrow> fst r + snd r \<le> length gs \<and> (\<forall>k. fst r \<le> k \<and> k < fst r + snd r \<longrightarrow> gs ! k = 0)"

lemma zero_run_append: "zero_run gs r \<Longrightarrow> zero_run (gs @ hs) r"
  by (auto simp: zero_run_def nth_append)

lemma zero_run_extend:
  "zero_run gs r \<Longrightarrow> snd r = 0 \<or> fst r + snd r = length gs \<Longrightarrow>
   zero_run (gs @ [0]) (if snd r = 0 then length gs else fst r, snd r + 1)"
  by (auto simp: zero_run_def nth_append)

lemma zero_span_run:
  assumes "zero_run pre longest" "zero_run pre current" "snd current = 0 \<or> fst current + snd current = length pre"
  shows "zero_run (pre @ gs) (zero_span gs (length pre) longest current)"
  using assms
proof (induction gs arbitrary: pre longest current)
  case (Cons g gs)
  let ?c = "(if snd current = 0 then length pre else fst current, snd current + 1)"
  show ?case
  proof (cases "g = 0")
    case True
    then have "zero_run (pre @ [g]) ?c"
      using zero_run_extend Cons.prems(2,3) by simp
    then show ?thesis
      using Cons.IH [of "pre @ [g]" "if snd longest < snd ?c then ?c else longest" ?c] True Cons.prems
      by (auto simp: Let_def zero_run_append)
  next
    case False
    then show ?thesis
      using Cons.IH [of "pre @ [g]" longest "(0, 0)"] Cons.prems
      by (simp add: zero_run_append zero_run_def [of _ "(0, 0)"])
  qed
qed simp

lemma zero_run_split:
  "zero_run gs (s, l) \<Longrightarrow> take s gs @ replicate l 0 @ drop (s + l) gs = gs"
proof -
  assume z: "zero_run gs (s, l)"
  then have "subslice gs s (s + l) = replicate l 0"
    by (intro nth_equalityI) (auto simp: zero_run_def subslice_def)
  then show ?thesis
    using take_slice [of s "s + l" gs] append_take_drop_id [of "s + l" gs] by simp
qed

lemma segments_zero_span:
  "zero_span gs 0 (0, 0) (0, 0) = (s, l) \<Longrightarrow> zero_run gs (s, l)"
  using zero_span_run [of "[]" "(0, 0)" "(0, 0)" gs] by (simp add: zero_run_def)

lemma length_segments [simp]: "length (segments ip) = 8"
  by (simp add: segments_def)

lemma concat_pairs: "concat (map (\<lambda>i. subslice xs (2 * i) (2 * i + 2)) [0..<n]) = take (2 * n) xs"
proof (induction n)
  case (Suc n)
  then show ?case
    using take_slice [of "2 * n" "2 * n + 2" xs] by simp
qed simp

lemma segments_bytes: "concat (map be16 (segments ip)) = be128 ip"
proof -
  have "map be16 (segments ip) = map (\<lambda>i. subslice (be128 ip) (2 * i) (2 * i + 2)) [0..<8]"
    by (auto simp: segments_def)
  then show ?thesis
    using concat_pairs [of "be128 ip" 8] by simp
qed

lemma u128_of_segments_id: "u128_of_segments (segments ip) = ip"
  by (simp add: u128_of_segments_def segments_bytes)

lemma length_two: "length xs = 2 \<Longrightarrow> \<exists>a b. xs = [a, b]"
  by (cases xs; cases "tl xs") auto

definition closes :: "bytes \<Rightarrow> bool" where
  "closes rest \<longleftrightarrow> (case rest of [] \<Rightarrow> True | b # _ \<Rightarrow> b = 93 \<or> b = 37)"

lemma closes_end: "closes rest \<Longrightarrow> groups_end i rest \<and> stops 16 rest \<and> (rest = [] \<or> hd rest \<noteq> 46)"
  by (cases rest) (auto simp: closes_def groups_end_def)

lemma colons_end: "groups_end i (58 # 58 # rest)"
  by (simp add: groups_end_def)

lemma read_compressed:
  assumes "length hs + length ts < 8" "closes rest"
  shows "read_ipv6_addr (groups_text 0 hs @ 58 # 58 # groups_text 0 ts @ rest) =
         Some (u128_of_segments (hs @ replicate (8 - length hs - length ts) 0 @ ts), rest)"
proof -
  have "read_groups 8 0 (groups_text 0 hs @ 58 # 58 # groups_text 0 ts @ rest) =
        (hs, False, 58 # 58 # groups_text 0 ts @ rest)"
    using assms colons_end by (intro read_groups_text) auto
  moreover have "read_groups (7 - length hs) 0 (groups_text 0 ts @ rest) = (ts, False, rest)"
    using assms closes_end by (intro read_groups_text) auto
  ultimately show ?thesis
    using assms(1) by (simp add: read_ipv6_addr_def read_given_char_def)
qed

lemma read_full:
  assumes "length gs = 8" "closes rest"
  shows "read_ipv6_addr (groups_text 0 gs @ rest) = Some (u128_of_segments gs, rest)"
proof -
  have "read_groups 8 0 (groups_text 0 gs @ rest) = (gs, False, rest)"
    using assms closes_end by (intro read_groups_text) auto
  then show ?thesis
    using assms(1) by (simp add: read_ipv6_addr_def)
qed

lemma be128_segments_drop: "drop 12 (be128 ip) = concat (map be16 (drop 6 (segments ip)))"
proof -
  have "be128 ip = concat (map be16 (take 6 (segments ip))) @ concat (map be16 (drop 6 (segments ip)))"
    by (simp flip: segments_bytes concat_append map_append)
  moreover have "length (concat (map be16 (take 6 (segments ip)))) = 12"
    by (simp add: length_concat sum_list_triv comp_def)
  ultimately show ?thesis
    by simp
qed

lemma five_zeros: "replicate 5 (0 :: u16) = [0, 0, 0, 0, 0]"
  by (simp add: numeral_eq_Suc)

lemma read_mapped:
  assumes "length v = 4" "closes rest"
  shows "read_ipv6_addr (str ''::ffff:'' @ ipv4_str (u32_of v) @ rest) =
         Some (u128_of_segments ([0, 0, 0, 0, 0, 0xFFFF, u16_of (take 2 v), u16_of (drop 2 v)]), rest)"
proof -
  let ?v4 = "ipv4_str (u32_of v) @ rest"
  have "stops 10 rest"
    using closes_end [OF assms(2)] stops_hex_decimal by blast
  then have "read_groups 6 1 (58 # ?v4) = ([u16_of (take 2 v), u16_of (drop 2 v)], True, rest)"
    using assms(1) read_groups.simps(2) [of 5 1]
    by (simp add: read_separator_def read_given_char_def read_ipv4_addr_str)
  moreover have "read_ipv4_addr (radix_str 16 65535 @ 58 # ?v4) = None"
    using radix_str_digits [of 16] by (intro read_ipv4_addr_group) auto
  moreover have "read_group 0 (radix_str 16 65535 @ 58 # ?v4) = Some (65535, 58 # ?v4)"
    using read_group_str [of "58 # ?v4" 0 "0xFFFF"] by simp
  ultimately have tail: "read_groups 7 0 (radix_str 16 65535 @ 58 # ?v4) =
      ([0xFFFF, u16_of (take 2 v), u16_of (drop 2 v)], True, rest)"
    using read_groups.simps(2) [of 6 0] by (simp add: read_separator_def)
  have "str ''::ffff:'' = 58 # 58 # radix_str 16 65535 @ [58]"
    by (simp add: str_def radix_str.simps digit_char_def)
  moreover have "read_groups 8 0 (groups_text 0 [] @ 58 # 58 # radix_str 16 65535 @ 58 # ?v4) =
      ([], False, 58 # 58 # radix_str 16 65535 @ 58 # ?v4)"
    using colons_end by (intro read_groups_text) auto
  ultimately show ?thesis
    using tail by (simp add: read_ipv6_addr_def read_given_char_def five_zeros)
qed

lemma read_ipv6_addr_str:
  assumes "closes rest"
  shows "read_ipv6_addr (ipv6_str ip @ rest) = Some (ip, rest)"
proof (cases "take 6 (segments ip) = [0, 0, 0, 0, 0, 0xFFFF]")
  case True
  obtain hi lo where gs: "segments ip = [0, 0, 0, 0, 0, 0xFFFF, hi, lo]"
  proof -
    obtain hi lo where "drop 6 (segments ip) = [hi, lo]"
      using length_two [of "drop 6 (segments ip)"] by auto
    then show ?thesis
      using append_take_drop_id [of 6 "segments ip"] True by (intro that [of hi lo]) simp
  qed
  have v: "drop 12 (be128 ip) = be16 hi @ be16 lo"
    by (simp add: be128_segments_drop gs)
  show ?thesis
    using read_mapped [of "drop 12 (be128 ip)" rest] assms u128_of_segments_id [of ip] True
    by (simp add: ipv6_str_def v gs)
next
  case False
  obtain s l where z: "zero_span (segments ip) 0 (0, 0) (0, 0) = (s, l)"
    by (cases "zero_span (segments ip) 0 (0, 0) (0, 0)")
  then have split: "take s (segments ip) @ replicate l 0 @ drop (s + l) (segments ip) = segments ip"
    and in_range: "s + l \<le> 8"
    using segments_zero_span [OF z] zero_run_split by (auto simp: zero_run_def)
  show ?thesis
  proof (cases "1 < l")
    case True
    then have "read_ipv6_addr (ipv6_str ip @ rest) = Some (u128_of_segments (segments ip), rest)"
      using read_compressed [of "take s (segments ip)" "drop (s + l) (segments ip)" rest] assms False in_range split
      by (simp add: ipv6_str_def z fmt_subslice_text str_def Let_def)
    then show ?thesis
      by (simp add: u128_of_segments_id)
  next
    case short: False
    then show ?thesis
      using read_full [of "segments ip" rest] False assms
      by (simp add: ipv6_str_def z fmt_subslice_text u128_of_segments_id)
  qed
qed

lemma read_port_str:
  "read_port (58 # radix_str 10 (unat (port :: u16))) = Some (unat port, [])"
  using read_number_radix_str [of 10 "unat port" 65535 "[]" None True]
  by (simp add: read_port_def read_given_char_def)

lemma read_scope_id_str:
  "stops 10 rest \<Longrightarrow> read_scope_id (37 # radix_str 10 (unat (scope :: u32)) @ rest) = Some (unat scope, rest)"
  using read_number_radix_str [of 10 "unat scope" "2 ^ 32 - 1" rest None True] unsigned_less [of scope, where 'a = nat]
  by (simp add: read_scope_id_def read_given_char_def)

lemma parse_socket_addr_str:
  assumes "case address of SocketV4 ip port \<Rightarrow> True | SocketV6 ip port flow scope \<Rightarrow> flow = 0"
  shows "parse_socket_addr (socket_str address) = Some address"
proof (cases address)
  case (SocketV4 ip port)
  then show ?thesis
    using read_ipv4_addr_str [of "58 # radix_str 10 (unat port)" ip]
    by (simp add: parse_socket_addr_def parse_with_def read_socket_addr_def read_socket_addr_v4_def read_port_str)
next
  case (SocketV6 ip port flow scope)
  let ?port = "93 # 58 # radix_str 10 (unat port)"
  let ?rest = "(if scope = 0 then [] else 37 # radix_str 10 (unat scope)) @ ?port"
  have no_v4: "read_socket_addr_v4 (91 # bs) = None" for bs
    by (simp add: read_socket_addr_v4_def read_ipv4_addr_def read_octet_def read_separator_def read_number_def
        is_digit_of_def to_digit_def digit_value_def is_ascii_digit_def)
  have "read_ipv6_addr (ipv6_str ip @ ?rest) = Some (ip, ?rest)"
    by (rule read_ipv6_addr_str) (simp add: closes_def)
  moreover have "(case read_scope_id ?rest of Some r \<Rightarrow> r | None \<Rightarrow> (0, ?rest)) = (unat scope, ?port)"
    using read_scope_id_str [of ?port scope] by (simp add: read_scope_id_def read_given_char_def)
  ultimately show ?thesis
    using SocketV6 assms
    by (simp add: parse_socket_addr_def parse_with_def read_socket_addr_def no_v4 read_socket_addr_v6_def
        read_given_char_def read_port_str del: append_assoc)
qed

section \<open>Authorities read back\<close>

text \<open>The characters an address is printed with, and how many.\<close>

definition address_char :: "u8 \<Rightarrow> bool" where
  "address_char b \<longleftrightarrow> is_digit_of 16 b \<or> b \<in> {37, 46, 58, 91, 93}"

lemma address_char_simps [simp]:
  "address_char 37" "address_char 46" "address_char 58" "address_char 91" "address_char 93" "address_char 102"
  by (simp_all add: address_char_def is_digit_of_def to_digit_def digit_value_def is_ascii_digit_def)

lemma radix_str_chars:
  "radix_ok r \<Longrightarrow> list_all address_char (radix_str r n)"
  using radix_str_digits [of r n] is_digit_of_mono [of r 16]
  by (auto simp: address_char_def list_all_iff radix_ok_def)

lemma groups_text_chars: "list_all address_char (groups_text i gs) \<and> length (groups_text i gs) \<le> 5 * length gs"
proof (induction gs arbitrary: i)
  case (Cons g gs)
  have "length (radix_str 16 (unat g)) \<le> Suc 3"
    by (rule radix_str_length) (auto intro: le_less_trans [OF unat_u16_le])
  moreover have "length (groups_text (Suc i) gs) \<le> 5 * length gs"
    using Cons.IH by blast
  moreover have "length (groups_text i (g # gs)) \<le> 1 + length (radix_str 16 (unat g)) + length (groups_text (Suc i) gs)"
    by simp
  ultimately have "length (groups_text i (g # gs)) \<le> 5 * length (g # gs)"
    by simp
  then show ?case
    using Cons.IH [of "Suc i"] by (simp add: radix_str_chars)
qed simp

lemma ipv4_str_chars: "list_all address_char (ipv4_str ip) \<and> length (ipv4_str ip) \<le> 15"
proof -
  obtain a b c d where ip: "be32 ip = [a, b, c, d]"
    by (rule be32_bytes)
  have "length (radix_str 10 (unat x)) \<le> 3" for x :: u8
    using radix_str_length [of 10 "unat x" 2] le_less_trans [OF unat_u8_le [of x], of 1000] by simp
  from this [of a] this [of b] this [of c] this [of d] show ?thesis
    by (simp add: ipv4_str_def ip radix_str_chars)
qed

lemma ipv6_str_chars: "list_all address_char (ipv6_str ip) \<and> length (ipv6_str ip) \<le> 42"
proof (cases "take 6 (segments ip) = [0, 0, 0, 0, 0, 0xFFFF]")
  case True
  then show ?thesis
    using ipv4_str_chars [of "u32_of (drop 12 (be128 ip))"]
    by (simp add: ipv6_str_def str_def)
next
  case False
  have fmt: "list_all address_char (fmt_subslice gs) \<and> length (fmt_subslice gs) \<le> 5 * length gs" for gs
    using groups_text_chars by (simp add: fmt_subslice_text)
  obtain s l where z: "zero_span (segments ip) 0 (0, 0) (0, 0) = (s, l)"
    by (cases "zero_span (segments ip) 0 (0, 0) (0, 0)")
  then have in_range: "s + l \<le> 8"
    using segments_zero_span [OF z] by (simp add: zero_run_def)
  show ?thesis
    using False in_range fmt [of "take s (segments ip)"] fmt [of "drop (s + l) (segments ip)"] fmt [of "segments ip"]
    by (auto simp: ipv6_str_def z Let_def str_def)
qed

lemma socket_str_chars: "list_all address_char (socket_str address) \<and> length (socket_str address) \<le> 512"
proof -
  have port: "length (radix_str 10 (unat (p :: u16))) \<le> 5" for p
    using radix_str_length [of 10 "unat p" 4] le_less_trans [OF unat_u16_le [of p], of 100000] by simp
  have scope: "length (radix_str 10 (unat (s :: u32))) \<le> 10" for s
    using radix_str_length [of 10 "unat s" 9] unsigned_less [of s, where 'a = nat] by simp
  show ?thesis
  proof (cases address)
    case (SocketV4 ip p)
    then show ?thesis
      using port [of p] ipv4_str_chars [of ip] by (simp add: radix_str_chars)
  next
    case (SocketV6 ip p flow s)
    then show ?thesis
      using port [of p] scope [of s] ipv6_str_chars [of ip] by (simp add: radix_str_chars)
  qed
qed

lemma address_char_plain: "list_all address_char bs \<Longrightarrow> \<not> list_ex (\<lambda>b. b \<in> set (str ''/@#?'')) bs"
  by (auto simp: list_all_iff list_ex_iff str_def address_char_def is_digit_of_def to_digit_def digit_value_def is_ascii_digit_def)

text \<open>Before a colon the IPv4 parser reads what it would read of the text in front of it.\<close>

lemma read_number_colon:
  "read_number 10 m z bound (h @ 58 # r) = map_option (\<lambda>(n, p). (n, p @ 58 # r)) (read_number 10 m z bound h)"
proof -
  have "takeWhile (is_digit_of 10) (h @ 58 # r) = takeWhile (is_digit_of 10) h"
    by (induction h) auto
  then show ?thesis
    using length_takeWhile_le [of "is_digit_of 10" h] by (simp add: read_number_def Let_def)
qed

lemma read_octet_colon:
  "read_octet i (h @ 58 # r) = map_option (\<lambda>(n, p). (n, p @ 58 # r)) (read_octet i h)"
  by (cases h) (simp_all add: read_octet_def read_separator_def read_given_char_def read_number_colon
      read_number_colon [of _ _ _ "[]", simplified] read_number_colon [of _ _ _ "_ # _", simplified])

lemma read_ipv4_addr_colon:
  "read_ipv4_addr (h @ 58 # r) = map_option (\<lambda>(n, p). (n, p @ 58 # r)) (read_ipv4_addr h)"
  by (simp add: read_ipv4_addr_def read_octet_colon split: Option.bind_split)

lemma read_octet_set: "read_octet i p = Some (n, q) \<Longrightarrow> set q \<subseteq> set p"
  by (auto simp: read_octet_def read_separator_def read_given_char_def read_number_def Let_def
      split: if_splits list.splits dest: in_set_dropD)

lemma read_ipv4_addr_set: "read_ipv4_addr p = Some (ip, q) \<Longrightarrow> set q \<subseteq> set p"
  by (force simp: read_ipv4_addr_def bind_eq_Some_conv dest!: read_octet_set)

lemma parse_socket_addr_name:
  assumes "58 \<notin> set host" "91 \<notin> set host" "parse_ip_addr host = None"
  shows "parse_socket_addr (host @ 58 # r) = None"
proof -
  have "read_socket_addr_v6 (host @ 58 # r) = None"
    using assms(2) by (cases host) (auto simp: read_socket_addr_v6_def read_given_char_def)
  moreover have "read_socket_addr_v4 (host @ 58 # r) = None"
  proof (cases "read_ipv4_addr host")
    case (Some v)
    obtain ip q where v: "v = (ip, q)"
      by (cases v)
    have "q \<noteq> []"
      using assms(3) Some v by (auto simp: parse_ip_addr_def parse_with_def read_ip_addr_def)
    moreover have "58 \<notin> set q"
      using read_ipv4_addr_set [of host ip q] Some v assms(1) by auto
    ultimately show ?thesis
      using Some v by (cases q) (auto simp: read_socket_addr_v4_def read_ipv4_addr_colon read_port_def read_given_char_def)
  qed (simp add: read_socket_addr_v4_def read_ipv4_addr_colon)
  ultimately show ?thesis
    by (simp add: parse_socket_addr_def parse_with_def read_socket_addr_def)
qed

lemma is_digit_of_10: "is_digit_of 10 b \<longleftrightarrow> is_ascii_digit b"
proof -
  have "unat b - 48 < 10" if "is_ascii_digit b"
    using that by (auto simp: is_ascii_digit_def word_le_nat_alt)
  moreover have "\<not> unat b - 87 < 10" if "97 \<le> b"
    using that by (simp add: word_le_nat_alt)
  moreover have "\<not> unat b - 55 < 10" if "65 \<le> b"
    using that by (simp add: word_le_nat_alt)
  ultimately show ?thesis
    by (auto simp: is_digit_of_def to_digit_def digit_value_def)
qed

lemma decimal_value_radix: "list_all is_ascii_digit ds \<Longrightarrow> decimal_value ds = radix_value 10 ds"
proof (induction ds rule: rev_induct)
  case (snoc d ds)
  then have "to_digit 10 d = Some (unat d - 48)"
    using is_digit_of_10 [of d] by (auto simp: is_digit_of_def to_digit_def digit_value_def split: if_splits)
  with snoc show ?case
    by (simp add: radix_value_snoc) (simp add: decimal_value_def)
qed (simp add: decimal_value_def radix_value_def)

lemma radix_str_10_digits: "radix_str 10 n \<noteq> []" "list_all is_ascii_digit (radix_str 10 n)"
  using radix_str_digits [of 10 n] by (simp_all add: is_digit_of_10 cong: list.pred_cong)

lemma parse_uint_radix_str: "n \<le> bound \<Longrightarrow> parse_uint bound (radix_str 10 n) = Some n"
  using radix_str_digits [of 10 n] radix_str_10_digits [of n] decimal_value_radix [of "radix_str 10 n"]
  by (cases "radix_str 10 n") (auto simp: parse_uint_def is_ascii_digit_def)

lemma rsplit_once_Some: "rsplit_once c bs = Some (a, b) \<longleftrightarrow> bs = a @ c # b \<and> c \<notin> set b"
  by (auto simp: rsplit_once_def split_once_Some rev_eq_append_conv)
    (metis append.assoc append_Cons append_Nil rev.simps(2) rev_append rev_rev_ident set_rev split_once_Some)

lemma from_authority_name:
  assumes "destination_domain host port = Inr d" "parse_ip_addr host = None"
    and "\<not> list_ex (\<lambda>b. b \<in> set (str ''/@#?:['')) host"
  shows "from_authority (authority (DestDomain host port)) = Inr d"
proof -
  let ?port = "radix_str 10 (unat port)"
  have host: "58 \<notin> set host" "91 \<notin> set host" "\<not> list_ex (\<lambda>b. b \<in> set (str ''/@#?'')) host"
    using assms(3) by (auto simp: list_ex_iff str_def)
  have digits: "list_all is_ascii_digit ?port"
    by (rule radix_str_10_digits)
  then have "rsplit_once 58 (host @ 58 # ?port) = Some (host, ?port)"
    by (auto simp: rsplit_once_Some list_all_iff is_ascii_digit_def)
  moreover have "\<not> list_ex (\<lambda>b. b \<in> set (str ''/@#?'')) ?port"
    using radix_str_chars [of 10 "unat port"] by (intro address_char_plain) simp
  moreover have "length ?port \<le> 5"
    using radix_str_length [of 10 "unat port" 4] le_less_trans [OF unat_u16_le [of port], of 100000] by simp
  moreover have "length host \<le> 255"
    using assms(1) by (simp add: destination_domain_Inr_iff)
  ultimately show ?thesis
    using host parse_socket_addr_name [OF host(1,2) assms(2)] assms(1) parse_uint_radix_str [of "unat port" 65535]
    by (simp add: from_authority_def str_def)
qed

lemma from_authority_ip:
  assumes "socket_port address \<noteq> 0" "case address of SocketV4 ip port \<Rightarrow> True | SocketV6 ip port flow scope \<Rightarrow> flow = 0"
  shows "from_authority (authority (DestIp address)) = Inr (DestIp address)"
proof -
  have "socket_str address \<noteq> []"
    by (cases address) auto
  moreover have "\<not> list_ex (\<lambda>b. b \<in> set (str ''/@#?'')) (socket_str address)" "length (socket_str address) \<le> 512"
    using socket_str_chars address_char_plain by blast+
  ultimately show ?thesis
    using assms parse_socket_addr_str [OF assms(2)] by (simp add: from_authority_def)
qed



end
