(* ===== verification/Http_Parser.thy ===== *)
theory Http_Parser
  imports Rust_Net Byte_Stream
begin

text \<open>
  \<^verbatim>\<open>src/inbound/http/parser.rs\<close>: the request head of the HTTP inbound. Header fields are pairs of
  byte strings in the order of the message. The \<^verbatim>\<open>url\<close> crate is the parameter \<^verbatim>\<open>url_parse\<close>, which
  returns the parts of a URL that the code asks for, None for an error.
\<close>

definition DEFAULT_HEADER_COUNT_LIMIT :: nat where "DEFAULT_HEADER_COUNT_LIMIT = 100"

type_synonym header = "bytes \<times> bytes"

record request_head =
  rq_method :: bytes
  rq_target :: bytes
  rq_version :: bytes
  rq_headers :: "header list"
  rq_buffered :: bytes

section \<open>Fields\<close>

definition is_token_byte :: "u8 \<Rightarrow> bool" where
  "is_token_byte b \<longleftrightarrow> is_ascii_alphanumeric b \<or> b \<in> set (str ''!#$%&*+-.^_`|~'') \<or> b = 39"

definition header_line :: "bytes \<Rightarrow> io_error + header" where
  "header_line line =
     (if line \<noteq> [] \<and> (hd line = 32 \<or> hd line = 9) then Inl InvalidInput
      else and_then (ok_or InvalidInput (split_once 58 line)) (\<lambda>(name, value).
        if name = [] \<or> \<not> list_all is_token_byte name then Inl InvalidInput
        else let value = trim_ows value in
          if list_ex (\<lambda>b. is_ascii_control b \<and> b \<noteq> 9) value then Inl InvalidInput
          else Inr (name, value)))"

fun parse_headers_from :: "header list \<Rightarrow> bytes list \<Rightarrow> io_error + header list" where
  "parse_headers_from headers [] = Inr headers"
| "parse_headers_from headers (line # lines) =
     and_then (header_line line) (\<lambda>h.
       let headers = headers @ [h] in
       if DEFAULT_HEADER_COUNT_LIMIT < length headers then Inl FileTooLarge
       else parse_headers_from headers lines)"

definition parse_headers :: "bytes list \<Rightarrow> io_error + header list" where
  "parse_headers = parse_headers_from []"

section \<open>The request head\<close>

definition http_version :: "bytes \<Rightarrow> bool" where
  "http_version v \<longleftrightarrow> v = str ''HTTP/1.0'' \<or> v = str ''HTTP/1.1''"

definition parse_request_head :: "bytes \<Rightarrow> bytes \<Rightarrow> io_error + request_head" where
  "parse_request_head input buffered =
     (if \<not> utf8_valid input then Inl InvalidInput
      else
        let lines = split_crlf input;
            parts = split_on 32 (hd lines);
            method = hd parts;
            target = unwrap_or (get_at parts 1) [];
            version = unwrap_or (get_at parts 2) [] in
        if 3 < length parts \<or> method = [] \<or> target = [] \<or>
           list_ex (\<lambda>b. b \<le> 32 \<or> b = 127) target \<or> \<not> http_version version \<or>
           \<not> list_all is_token_byte method
        then Inl InvalidInput
        else and_then (parse_headers (tl lines)) (\<lambda>headers.
          Inr \<lparr>rq_method = method, rq_target = target, rq_version = version,
               rq_headers = headers, rq_buffered = buffered\<rparr>))"

definition find_header_end :: "bytes \<Rightarrow> nat option" where
  "find_header_end input = windows_position [13, 10, 13, 10] input"

function read_until_head :: "nat \<Rightarrow> bytes \<Rightarrow> read_event list \<Rightarrow> io_error + nat \<times> bytes \<times> read_event list" where
  "read_until_head max_bytes input es =
     (case find_header_end input of
        Some pos \<Rightarrow> Inr (pos, input, es)
      | None \<Rightarrow>
          if max_bytes \<le> length input then Inl FileTooLarge
          else
            (let max_read = min (max_bytes - length input) 1024 in
             case es of
               [] \<Rightarrow> Inl IoTimedOut
             | ReadFailed e # _ \<Rightarrow> Inl e
             | Arrived bs # es' \<Rightarrow>
                 if bs = [] then Inl UnexpectedEof
                 else read_until_head max_bytes (input @ take max_read bs) (leftover max_read bs es')))"
  by pat_completeness auto
termination
  by (relation "measure (\<lambda>(m, input, es). event_bytes es)") (auto simp: leftover_def)

declare read_until_head.simps [simp del]

definition read_request_head :: "nat \<Rightarrow> read_event list \<Rightarrow> io_error + request_head \<times> read_event list" where
  "read_request_head max_bytes es =
     and_then (read_until_head max_bytes [] es) (\<lambda>(pos, input, es').
     and_then (parse_request_head (take pos input) (drop (pos + 4) input)) (\<lambda>head.
     Inr (head, es')))"

definition is_connect :: "request_head \<Rightarrow> bool" where
  "is_connect rq \<longleftrightarrow> rq_method rq = str ''CONNECT''"

definition connect_destination :: "request_head \<Rightarrow> io_error + destination" where
  "connect_destination rq = from_authority (rq_target rq)"

section \<open>The absolute form\<close>

datatype url_host = HostDomain bytes | HostIpv4 u32 | HostIpv6 u128

record parsed_url =
  url_scheme :: bytes
  url_username :: bytes
  url_password :: "bytes option"
  url_host :: "url_host option"
  url_port_or_known_default :: "u16 option"
  url_path :: bytes
  url_query :: "bytes option"
  url_fragment :: "bytes option"

fun url_destination :: "url_host \<Rightarrow> u16 \<Rightarrow> io_error + destination" where
  "url_destination (HostIpv4 address) port = Inr (DestIp (socket_new (IpV4 address) port))"
| "url_destination (HostIpv6 address) port = Inr (DestIp (socket_new (IpV6 address) port))"
| "url_destination (HostDomain domain) port = destination_domain domain port"

definition url_origin :: "parsed_url \<Rightarrow> bytes" where
  "url_origin url =
     (if url_path url = [] then [47] else url_path url) @
     (case url_query url of Some query \<Rightarrow> 63 # query | None \<Rightarrow> [])"

definition forward_target ::
  "(bytes \<Rightarrow> parsed_url option) \<Rightarrow> request_head \<Rightarrow> io_error + destination \<times> bytes" where
  "forward_target url_parse rq =
     (if 8 * 1024 < length (rq_target rq) then Inl InvalidInput
      else
        and_then (ok_or InvalidInput (split_once_str (str ''://'') (rq_target rq))) (\<lambda>(_, authority).
        if 92 \<in> set (rq_target rq) \<or>
           64 \<in> set (takeWhile (\<lambda>b. b \<notin> set (str ''/?#'')) authority)
        then Inl InvalidInput
        else
          and_then (ok_or InvalidInput (url_parse (rq_target rq))) (\<lambda>url.
          if url_scheme url \<noteq> str ''http'' \<or> url_username url \<noteq> [] \<or> url_password url \<noteq> None \<or>
             url_fragment url \<noteq> None
          then Inl InvalidInput
          else
            and_then (ok_or InvalidInput (url_host url)) (\<lambda>host.
            and_then (ok_or InvalidInput (url_port_or_known_default url)) (\<lambda>port.
            if port = 0 then Inl InvalidInput
            else and_then (url_destination host port) (\<lambda>destination.
              Inr (destination, url_origin url)))))))"

section \<open>What is accepted is read back from what is written\<close>

text \<open>A field as the parser returns it: a token, and a trimmed value with no control character.\<close>

definition good_value :: "bytes \<Rightarrow> bool" where
  "good_value v \<longleftrightarrow> trim_ows v = v \<and> \<not> list_ex (\<lambda>b. is_ascii_control b \<and> b \<noteq> 9) v"

definition good_name :: "bytes \<Rightarrow> bool" where
  "good_name n \<longleftrightarrow> n \<noteq> [] \<and> list_all is_token_byte n"

definition good_header :: "header \<Rightarrow> bool" where
  "good_header h \<longleftrightarrow> good_name (fst h) \<and> good_value (snd h) \<and> utf8_valid (snd h)"

definition header_text :: "header \<Rightarrow> bytes" where
  "header_text h = fst h @ 58 # 32 # snd h"

lemma token_byte_facts:
  "is_token_byte b \<Longrightarrow> b \<noteq> 58 \<and> b \<noteq> 13 \<and> b \<noteq> 10 \<and> b \<noteq> 32 \<and> b \<noteq> 9 \<and> b \<noteq> 44 \<and> b < 0x80"
  by (auto simp: is_token_byte_def is_ascii_alphanumeric_def is_ascii_digit_def is_ascii_uppercase_def
      is_ascii_lowercase_def str_def word_le_nat_alt word_less_nat_alt)

lemma good_name_facts:
  "good_name n \<Longrightarrow> n \<noteq> [] \<and> 58 \<notin> set n \<and> 13 \<notin> set n \<and> 10 \<notin> set n \<and> hd n \<noteq> 32 \<and> hd n \<noteq> 9 \<and> is_ascii n"
  using token_byte_facts by (cases n) (auto simp: good_name_def is_ascii_def list_all_iff)

lemma good_value_facts: "good_value v \<Longrightarrow> 13 \<notin> set v \<and> 10 \<notin> set v"
  by (auto simp: good_value_def list_ex_iff is_ascii_control_def)

definition trimmed :: "bytes \<Rightarrow> bool" where
  "trimmed v \<longleftrightarrow> v = [] \<or> \<not> is_ows (hd v) \<and> \<not> is_ows (last v)"

lemma trim_ows_trimmed: "trimmed v \<Longrightarrow> trim_ows v = v"
proof -
  assume "trimmed v"
  then have "dropWhile is_ows v = v" "dropWhile is_ows (rev v) = rev v"
    by (auto simp: trimmed_def dropWhile_eq_self_iff hd_rev)
  then show ?thesis
    by (simp add: trim_ows_def)
qed

lemma trimmed_trim_ows: "trimmed (trim_ows bs)"
proof (cases "trim_ows bs = []")
  case False
  let ?xs = "dropWhile is_ows bs"
  let ?ys = "dropWhile is_ows (rev ?xs)"
  have "?ys \<noteq> []"
    using False by (simp only: trim_ows_def rev_is_Nil_conv not_False_eq_True)
  moreover have xs: "?xs = rev ?ys @ rev (takeWhile is_ows (rev ?xs))"
    by (metis rev_append rev_rev_ident takeWhile_dropWhile_id)
  ultimately have "hd ?xs = hd (rev ?ys)" "?xs \<noteq> []"
    by (metis hd_append2 rev_is_Nil_conv) (use \<open>?ys \<noteq> []\<close> in \<open>metis dropWhile.simps(1) rev.simps(1)\<close>)
  then have "\<not> is_ows (hd (rev ?ys))" "\<not> is_ows (last (rev ?ys))"
    using hd_dropWhile [of is_ows bs] hd_dropWhile [OF \<open>?ys \<noteq> []\<close>] \<open>?ys \<noteq> []\<close>
    by (simp_all only: last_rev not_False_eq_True)
  then show ?thesis
    by (simp only: trimmed_def trim_ows_def simp_thms)
qed (simp add: trimmed_def)

lemma trim_ows_idem [simp]: "trim_ows (trim_ows bs) = trim_ows bs"
  by (rule trim_ows_trimmed [OF trimmed_trim_ows])

lemma trim_ows_space [simp]: "trim_ows (32 # v) = trim_ows v"
  by (simp add: trim_ows_def is_ows_def)

lemma header_line_good: "header_line l = Inr h \<Longrightarrow> utf8_valid l \<Longrightarrow> good_header h"
proof -
  assume l: "header_line l = Inr h" "utf8_valid l"
  then obtain n v where h: "split_once 58 l = Some (n, v)" "n \<noteq> []" "list_all is_token_byte n" "h = (n, trim_ows v)"
      "\<not> list_ex (\<lambda>b. is_ascii_control b \<and> b \<noteq> 9) (trim_ows v)"
    by (auto simp: header_line_def Let_def res_simps split: if_splits)
  then have "utf8_valid v"
    using l(2) by (auto simp: split_once_Some utf8_valid_ascii_split)
  then show ?thesis
    using h by (simp add: good_header_def good_name_def good_value_def utf8_valid_trim_ows)
qed

lemma header_line_text: "good_header h \<Longrightarrow> header_line (header_text h) = Inr h"
proof -
  assume h: "good_header h"
  then have "split_once 58 (header_text h) = Some (fst h, 32 # snd h)"
    using good_name_facts [of "fst h"] by (auto simp: good_header_def header_text_def split_once_Some)
  moreover have "hd (header_text h) = hd (fst h)" "header_text h \<noteq> []"
    using h good_name_facts [of "fst h"] by (auto simp: good_header_def header_text_def)
  ultimately show ?thesis
    using h good_name_facts [of "fst h"]
    by (auto simp: header_line_def good_header_def good_name_def good_value_def)
qed

lemma parse_headers_from_text:
  assumes "\<forall>h \<in> set hs. good_header h" "length pre + length hs \<le> DEFAULT_HEADER_COUNT_LIMIT"
  shows "parse_headers_from pre (map header_text hs) = Inr (pre @ hs)"
  using assms by (induction hs arbitrary: pre) (auto simp: header_line_text Let_def)

lemma parse_headers_from_good:
  assumes "parse_headers_from pre ls = Inr hs" "\<forall>h \<in> set pre. good_header h" "list_all utf8_valid ls"
    and "length pre \<le> DEFAULT_HEADER_COUNT_LIMIT"
  shows "(\<forall>h \<in> set hs. good_header h) \<and> length hs \<le> DEFAULT_HEADER_COUNT_LIMIT"
  using assms
proof (induction ls arbitrary: pre)
  case (Cons l ls)
  from Cons.prems(1) obtain h where h: "header_line l = Inr h" "\<not> DEFAULT_HEADER_COUNT_LIMIT < length (pre @ [h])"
      "parse_headers_from (pre @ [h]) ls = Inr hs"
    by (simp only: parse_headers_from.simps and_then_Inr_iff Let_def if_Inl_Inr_iff) blast
  have "utf8_valid l"
    using Cons.prems(3) by simp
  from header_line_good [OF h(1) this] show ?case
    using Cons.prems(2,3) h(2) by (intro Cons.IH [OF h(3)]) simp_all
qed simp

lemma parse_headers_good:
  "parse_headers ls = Inr hs \<Longrightarrow> list_all utf8_valid ls \<Longrightarrow>
   (\<forall>h \<in> set hs. good_header h) \<and> length hs \<le> DEFAULT_HEADER_COUNT_LIMIT"
  using parse_headers_from_good [of "[]"] by (simp add: parse_headers_def)

text \<open>The head of a request, without the empty line that ends it.\<close>

definition request_text :: "bytes \<Rightarrow> bytes \<Rightarrow> bytes \<Rightarrow> header list \<Rightarrow> bytes list" where
  "request_text method target version hs = (method @ 32 # target @ 32 # version) # map header_text hs"

definition good_request_line :: "bytes \<Rightarrow> bytes \<Rightarrow> bytes \<Rightarrow> bool" where
  "good_request_line method target version \<longleftrightarrow>
     good_name method \<and> target \<noteq> [] \<and> utf8_valid target \<and> \<not> list_ex (\<lambda>b. b \<le> 32 \<or> b = 127) target \<and>
     http_version version"

definition join_crlf :: "bytes list \<Rightarrow> bytes" where
  "join_crlf ls = crlf_lines (butlast ls) @ last ls"

lemma header_text_facts:
  "good_header h \<Longrightarrow> 13 \<notin> set (header_text h) \<and> 10 \<notin> set (header_text h) \<and> utf8_valid (header_text h)"
proof -
  assume h: "good_header h"
  then have "is_ascii (fst h)"
    using good_name_facts by (auto simp: good_header_def)
  then have "utf8_valid (fst h @ 58 # 32 # snd h)"
    using h utf8_valid_append [of "fst h" "58 # 32 # snd h"] by (auto simp: good_header_def ascii_utf8_valid)
  then show ?thesis
    using h good_name_facts [of "fst h"] good_value_facts [of "snd h"] by (auto simp: good_header_def header_text_def)
qed

lemma split_join_crlf: "ls \<noteq> [] \<Longrightarrow> \<forall>l \<in> set ls. 13 \<notin> set l \<Longrightarrow> split_crlf (join_crlf ls) = ls"
  using split_crlf_lines [of "butlast ls" "last ls"] by (auto simp: join_crlf_def dest: in_set_butlastD)

lemma utf8_join_crlf: "ls \<noteq> [] \<Longrightarrow> utf8_valid (join_crlf ls) \<longleftrightarrow> list_all utf8_valid ls"
  by (simp add: join_crlf_def utf8_valid_crlf_lines list_all_butlast_last)

lemma parse_request_head_text:
  assumes line: "good_request_line method target version" and hs: "\<forall>h \<in> set hs. good_header h"
    and count: "length hs \<le> DEFAULT_HEADER_COUNT_LIMIT"
  shows "parse_request_head (join_crlf (request_text method target version hs)) buffered =
    Inr \<lparr>rq_method = method, rq_target = target, rq_version = version, rq_headers = hs, rq_buffered = buffered\<rparr>"
proof -
  let ?line = "method @ 32 # target @ 32 # version"
  have v: "version \<in> {str ''HTTP/1.0'', str ''HTTP/1.1''}" "32 \<notin> set version" "13 \<notin> set version" "is_ascii version"
    using line by (auto simp: good_request_line_def http_version_def str_def is_ascii_def)
  have m: "32 \<notin> set method" "is_ascii method" "13 \<notin> set method" "list_all is_token_byte method" "method \<noteq> []"
    using line token_byte_facts by (auto simp: good_request_line_def good_name_def list_all_iff is_ascii_def)
  have t: "32 \<notin> set target" "13 \<notin> set target" "utf8_valid target"
    using line by (auto simp: good_request_line_def list_ex_iff)
  have "utf8_valid ?line"
    using m t v utf8_valid_append [of "method"] utf8_valid_ascii_split [of 32 target version]
    by (simp add: ascii_utf8_valid)
  then have utf8: "utf8_valid (join_crlf (request_text method target version hs))"
    using hs header_text_facts by (auto simp: utf8_join_crlf request_text_def list_all_iff)
  have split: "split_crlf (join_crlf (request_text method target version hs)) = ?line # map header_text hs"
    using m t v hs header_text_facts by (subst split_join_crlf) (auto simp: request_text_def)
  have "split_on 32 ?line = [method, target, version]"
    using m t v by (simp add: split_on_append split_on_single)
  moreover have "parse_headers (map header_text hs) = Inr hs"
    using parse_headers_from_text [of hs "[]"] hs count by (simp add: parse_headers_def)
  ultimately show ?thesis
    using line utf8 split m
    by (simp add: parse_request_head_def good_request_line_def get_at_def)
qed

text \<open>An accepted head satisfies what the text above needs.\<close>

definition good_request :: "request_head \<Rightarrow> bool" where
  "good_request rq \<longleftrightarrow>
     good_request_line (rq_method rq) (rq_target rq) (rq_version rq) \<and>
     (\<forall>h \<in> set (rq_headers rq). good_header h) \<and> length (rq_headers rq) \<le> DEFAULT_HEADER_COUNT_LIMIT"

lemma utf8_valid_split_on: "utf8_valid bs \<Longrightarrow> c < 0x80 \<Longrightarrow> w \<in> set (split_on c bs) \<Longrightarrow> utf8_valid w"
proof -
  have "list_all utf8_valid ws" if "utf8_valid (join c ws)" "c < 0x80" for ws
    using that by (induction c ws rule: join.induct) (auto simp: utf8_valid_ascii_split)
  from this [of "split_on c bs"] show "utf8_valid bs \<Longrightarrow> c < 0x80 \<Longrightarrow> w \<in> set (split_on c bs) \<Longrightarrow> utf8_valid w"
    by (simp add: list_all_iff)
qed

lemma parse_request_head_good:
  assumes "parse_request_head input buffered = Inr rq"
  shows "good_request rq \<and> rq_buffered rq = buffered"
proof -
  let ?lines = "split_crlf input"
  let ?parts = "split_on 32 (hd ?lines)"
  from assms have utf8: "utf8_valid input"
    and line: "hd ?parts \<noteq> []" "rq_target rq \<noteq> []" "\<not> list_ex (\<lambda>b. b \<le> 32 \<or> b = 127) (rq_target rq)"
      "http_version (rq_version rq)" "list_all is_token_byte (hd ?parts)" "rq_method rq = hd ?parts"
      "rq_target rq = unwrap_or (get_at ?parts 1) []" "rq_buffered rq = buffered"
    and hs: "parse_headers (tl ?lines) = Inr (rq_headers rq)"
    by (auto simp: parse_request_head_def Let_def and_then_Inr_iff split: if_splits)
  have lines: "utf8_valid (hd ?lines)" "list_all utf8_valid (tl ?lines)"
    using utf8_valid_split_crlf [OF utf8] split_crlf_not_Nil [of input] by (cases ?lines; simp)+
  have "rq_target rq \<in> set ?parts"
    using line(2,7) by (auto simp: get_at_def unwrap_or_def split: if_splits)
  then have "utf8_valid (rq_target rq)"
    by (intro utf8_valid_split_on [OF lines(1), of 32]) simp_all
  then show ?thesis
    using line parse_headers_good [OF hs lines(2)]
    by (simp add: good_request_def good_request_line_def good_name_def)
qed

text \<open>Reading a head keeps every byte and stays within the limit.\<close>

lemma read_until_head_bytes:
  "read_until_head max_bytes input es = Inr (pos, out, es') \<Longrightarrow>
   find_header_end out = Some pos \<and> length out \<le> max max_bytes (length input) \<and>
   out @ fst (flat es') = input @ fst (flat es) \<and> snd (flat es') = snd (flat es)"
proof (induction max_bytes input es rule: read_until_head.induct)
  case (1 max_bytes input es)
  show ?case
  proof (cases "find_header_end input")
    case None
    then obtain bs rest where es: "es = Arrived bs # rest" "bs \<noteq> []" and room: "length input < max_bytes"
      using 1(2) by (subst (asm) read_until_head.simps) (auto simp: Let_def split: if_splits list.splits read_event.splits)
    let ?n = "min (max_bytes - length input) 1024"
    have "read_until_head max_bytes (input @ take ?n bs) (leftover ?n bs rest) = Inr (pos, out, es')"
      using 1(2) None es room by (subst (asm) read_until_head.simps) (simp add: Let_def not_le)
    from 1(1) [OF None _ refl es(1) refl es(2) this] show ?thesis
      using es room by (simp add: flat_leftover max_def split: if_splits)
  next
    case (Some p)
    then show ?thesis
      using 1(2) by (subst (asm) read_until_head.simps) simp
  qed
qed

end
