(* ===== verification/Http_Framing.thy ===== *)
theory Http_Framing
  imports Http_Parser
begin

text \<open>
  \<^verbatim>\<open>src/inbound/http/framing.rs\<close>, the heads: how a message's length is decided, the plan of a
  forwarded request, response heads, and the reader of one head. The sets of connection tokens are
  only asked for membership. A message length is a number below \<open>2 ^ 64\<close>.
\<close>

section \<open>Framing\<close>

datatype http_body = BodyEmpty | BodyLength nat | BodyChunked | BodyUntilEof

record framing =
  fr_body :: "http_body option"
  fr_connection :: "bytes set"
  fr_trailers :: "bytes list"

definition header_values :: "header list \<Rightarrow> bytes \<Rightarrow> bytes list" where
  "header_values headers name = map snd (filter (\<lambda>h. eq_ignore_ascii_case (fst h) name) headers)"

definition framing_body :: "header list \<Rightarrow> io_error + http_body option" where
  "framing_body headers =
     (let lengths = header_values headers (str ''content-length'');
          transfers = header_values headers (str ''transfer-encoding'') in
      if 1 < length lengths \<or> 1 < length transfers \<or> (lengths \<noteq> [] \<and> transfers \<noteq> []) then Inl InvalidData
      else
        (case lengths of
           len # _ \<Rightarrow>
             if len = [] \<or> \<not> list_all is_ascii_digit len then Inl InvalidData
             else and_then (ok_or InvalidData (parse_uint (2 ^ 64 - 1) len)) (\<lambda>n. Inr (Some (BodyLength n)))
         | [] \<Rightarrow>
             (case transfers of
                transfer # _ \<Rightarrow>
                  if \<not> eq_ignore_ascii_case transfer (str ''chunked'') then Inl InvalidData
                  else Inr (Some BodyChunked)
              | [] \<Rightarrow> Inr None)))"

definition routing_fields :: "bytes list" where
  "routing_fields = map str [''content-length'', ''transfer-encoding'', ''host'', ''trailer'', ''expect'']"

fun connection_tokens :: "bytes list \<Rightarrow> bytes set \<Rightarrow> io_error + bytes set" where
  "connection_tokens [] connection = Inr connection"
| "connection_tokens (raw # tokens) connection =
     (let token = trim_ows raw in
      if token = [] \<or> \<not> list_all is_token_byte token then Inl InvalidData
      else if ascii_lowercase token \<in> set routing_fields then Inl InvalidData
      else connection_tokens tokens (insert (ascii_lowercase token) connection))"

definition hop_fields :: "bytes list" where
  "hop_fields = map str [''connection'', ''proxy-connection'', ''proxy-authorization'', ''proxy-authenticate'',
     ''keep-alive'', ''te'', ''trailer'', ''upgrade'', ''host'', ''content-length'', ''transfer-encoding'']"

definition stripped :: "bytes \<Rightarrow> bytes set \<Rightarrow> bool" where
  "stripped name connection \<longleftrightarrow>
     (let name = ascii_lowercase name in
      name \<in> set hop_fields \<or> starts_with (str ''x-vole-'') name \<or> name \<in> connection)"

definition forbidden_trailer :: "bytes \<Rightarrow> bytes set \<Rightarrow> bool" where
  "forbidden_trailer name connection \<longleftrightarrow>
     stripped name connection \<or>
     list_ex (eq_ignore_ascii_case name)
       (map str [''authorization'', ''expect'', ''content-type'', ''content-encoding'', ''content-range''])"

fun trailer_names :: "bytes set \<Rightarrow> bytes list \<Rightarrow> io_error + bytes list" where
  "trailer_names connection [] = Inr []"
| "trailer_names connection (raw # names) =
     (let name = trim_ows raw in
      if name = [] \<or> \<not> list_all is_token_byte name \<or> forbidden_trailer name connection then Inl InvalidData
      else and_then (trailer_names connection names) (\<lambda>rest. Inr (name # rest)))"

definition framing_parse :: "header list \<Rightarrow> io_error + framing" where
  "framing_parse headers =
     and_then (framing_body headers) (\<lambda>body.
     and_then
       (connection_tokens
         (concat (map (split_on 44)
           (header_values headers (str ''connection'') @ header_values headers (str ''proxy-connection'')))) {})
       (\<lambda>connection.
     if header_values headers (str ''trailer'') \<noteq> [] \<and> body \<noteq> Some BodyChunked then Inl InvalidData
     else
       and_then (trailer_names connection (concat (map (split_on 44) (header_values headers (str ''trailer''))))) (\<lambda>trailers.
       Inr \<lparr>fr_body = body, fr_connection = connection, fr_trailers = trailers\<rparr>)))"

definition upgrade_protocol :: "bytes \<Rightarrow> io_error + bytes" where
  "upgrade_protocol raw =
     (let protocol = trim_ows raw; parts = split_on 47 protocol in
      if 2 < length parts \<or> list_ex (\<lambda>part. part = [] \<or> \<not> list_all is_token_byte part) parts then Inl InvalidData
      else Inr protocol)"

definition upgrade_protocols :: "header list \<Rightarrow> bytes set \<Rightarrow> io_error + bytes list" where
  "upgrade_protocols headers connection =
     (let upgrades = header_values headers (str ''upgrade'') in
      if 1 < length upgrades \<or> (upgrades = []) \<noteq> (str ''upgrade'' \<notin> connection) then Inl InvalidData
      else
        (case upgrades of
           [] \<Rightarrow> Inr []
         | up # _ \<Rightarrow> collect_results upgrade_protocol (split_on 44 up)))"

definition validate_connect :: "request_head \<Rightarrow> io_error + unit" where
  "validate_connect rq =
     and_then (framing_parse (rq_headers rq)) (\<lambda>framing.
       let hosts = length (header_values (rq_headers rq) (str ''host'')) in
       if fr_body framing \<notin> {None, Some (BodyLength 0)} \<or>
          header_values (rq_headers rq) (str ''upgrade'') \<noteq> [] \<or>
          str ''upgrade'' \<in> fr_connection framing \<or>
          header_values (rq_headers rq) (str ''expect'') \<noteq> [] \<or>
          1 < hosts \<or> (rq_version rq = str ''HTTP/1.1'' \<and> hosts \<noteq> 1)
       then Inl InvalidData else Inr ())"

section \<open>The forwarded request\<close>

definition append_field :: "bytes \<Rightarrow> bytes \<Rightarrow> bytes" where
  "append_field name value = name @ str '': '' @ value @ [13, 10]"

definition append_headers :: "header list \<Rightarrow> bytes set \<Rightarrow> bytes" where
  "append_headers headers connection =
     concat (map (\<lambda>(name, value). if stripped name connection then [] else append_field name value) headers)"

text \<open>\<^verbatim>\<open>join(", ")\<close>.\<close>

fun join_list :: "bytes list \<Rightarrow> bytes" where
  "join_list [] = []"
| "join_list [w] = w"
| "join_list (w # v # ws) = w @ str '', '' @ join_list (v # ws)"

definition append_framing :: "framing \<Rightarrow> bytes" where
  "append_framing framing =
     (case fr_body framing of
        Some (BodyLength n) \<Rightarrow> append_field (str ''Content-Length'') (radix_str 10 n)
      | Some BodyChunked \<Rightarrow>
          append_field (str ''Transfer-Encoding'') (str ''chunked'') @
          (if fr_trailers framing \<noteq> [] then append_field (str ''Trailer'') (join_list (fr_trailers framing)) else [])
      | _ \<Rightarrow> [])"

record request_plan =
  rp_destination :: destination
  rp_head :: bytes
  rp_body :: http_body
  rp_keep_alive :: bool
  rp_upgrade :: "bytes list"
  rp_trailer_blocklist :: "bytes set"

definition plan_head :: "request_head \<Rightarrow> bytes \<Rightarrow> destination \<Rightarrow> framing \<Rightarrow> bytes list \<Rightarrow> bytes" where
  "plan_head rq origin destination framing upgrade =
     rq_method rq @ 32 # origin @ str '' HTTP/1.1'' @ [13, 10] @
     append_headers (rq_headers rq) (fr_connection framing) @
     append_field (str ''Host'') (authority destination) @
     append_framing framing @
     (if upgrade = [] then append_field (str ''Connection'') (str ''close'')
      else append_field (str ''Connection'') (str ''Upgrade'') @
           append_field (str ''Upgrade'') (join_list upgrade)) @
     [13, 10]"

definition plan_new :: "(bytes \<Rightarrow> parsed_url option) \<Rightarrow> request_head \<Rightarrow> io_error + request_plan" where
  "plan_new url_parse rq =
     and_then (framing_parse (rq_headers rq)) (\<lambda>framing.
     let body = unwrap_or (fr_body framing) BodyEmpty in
     if rq_version rq = str ''HTTP/1.0'' \<and> body = BodyChunked then Inl InvalidData
     else
       let hosts = length (header_values (rq_headers rq) (str ''host'')) in
       if 1 < hosts \<or> (rq_version rq = str ''HTTP/1.1'' \<and> hosts \<noteq> 1) then Inl InvalidData
       else
         and_then (upgrade_protocols (rq_headers rq) (fr_connection framing)) (\<lambda>upgrade.
         if upgrade \<noteq> [] \<and> (body \<notin> {BodyEmpty, BodyLength 0} \<or> rq_version rq \<noteq> str ''HTTP/1.1'')
         then Inl InvalidData
         else
           let expectations = header_values (rq_headers rq) (str ''expect'') in
           if 1 < length expectations \<or>
              (expectations \<noteq> [] \<and> \<not> eq_ignore_ascii_case (hd expectations) (str ''100-continue''))
           then Inl InvalidData
           else
             and_then (forward_target url_parse rq) (\<lambda>(destination, origin).
             Inr \<lparr>rp_destination = destination,
                  rp_head = plan_head rq origin destination framing upgrade,
                  rp_body = body,
                  rp_keep_alive =
                    (str ''close'' \<notin> fr_connection framing \<and>
                     (rq_version rq = str ''HTTP/1.1'' \<or> str ''keep-alive'' \<in> fr_connection framing)),
                  rp_upgrade = upgrade,
                  rp_trailer_blocklist = fr_connection framing\<rparr>)))"

section \<open>Responses\<close>

record response_head =
  rs_status :: nat
  rs_line :: bytes
  rs_headers :: "header list"
  rs_framing :: framing

text \<open>\<^verbatim>\<open>splitn(3, ' ')\<close>: at most three parts.\<close>

definition splitn3 :: "bytes \<Rightarrow> bytes \<times> bytes \<times> bytes option" where
  "splitn3 bs =
     (case split_once 32 bs of
        None \<Rightarrow> (bs, [], None)
      | Some (a, rest) \<Rightarrow>
          (case split_once 32 rest of
             None \<Rightarrow> (a, rest, None)
           | Some (b, c) \<Rightarrow> (a, b, Some c)))"

definition response_line :: "nat \<Rightarrow> bytes \<Rightarrow> bytes" where
  "response_line status reason = str ''HTTP/1.1 '' @ radix_str 10 status @ 32 # reason"

definition response_parse :: "bytes \<Rightarrow> io_error + response_head" where
  "response_parse input =
     (if \<not> utf8_valid input then Inl InvalidData
      else
        (case splitn3 (hd (split_crlf input)) of
           (version, status, None) \<Rightarrow> Inl InvalidData
         | (version, status, Some reason) \<Rightarrow>
             if \<not> http_version version \<or> length status \<noteq> 3 \<or> \<not> list_all is_ascii_digit status \<or>
                list_ex (\<lambda>b. is_ascii_control b \<and> b \<noteq> 9) reason
             then Inl InvalidData
             else
               and_then (ok_or InvalidData (parse_uint 65535 status)) (\<lambda>code.
               if \<not> (100 \<le> code \<and> code \<le> 599) then Inl InvalidData
               else
                 and_then (parse_headers (tl (split_crlf input))) (\<lambda>headers.
                 and_then (framing_parse headers) (\<lambda>framing.
                 if version = str ''HTTP/1.0'' \<and> fr_body framing = Some BodyChunked then Inl InvalidData
                 else if (code < 200 \<or> code = 204) \<and> fr_body framing \<noteq> None then Inl InvalidData
                 else Inr \<lparr>rs_status = code, rs_line = response_line code reason, rs_headers = headers,
                           rs_framing = framing\<rparr>)))))"

definition response_body :: "response_head \<Rightarrow> bytes \<Rightarrow> http_body" where
  "response_body rs method =
     (if method = str ''HEAD'' \<or> rs_status rs < 200 \<or> rs_status rs \<in> {204, 304} then BodyEmpty
      else unwrap_or (fr_body (rs_framing rs)) BodyUntilEof)"

definition valid_upgrade :: "response_head \<Rightarrow> bytes list \<Rightarrow> io_error + bool" where
  "valid_upgrade rs requested =
     and_then (upgrade_protocols (rs_headers rs) (fr_connection (rs_framing rs))) (\<lambda>protocols.
     Inr (rs_status rs = 101 \<and> requested \<noteq> [] \<and> protocols \<noteq> [] \<and>
          list_all (\<lambda>protocol. protocol \<in> set requested) protocols))"

text \<open>\<^verbatim>\<open>replacen(from, to, 1)\<close>.\<close>

definition replace_first :: "bytes \<Rightarrow> bytes \<Rightarrow> bytes \<Rightarrow> bytes" where
  "replace_first from to s =
     (case split_once_str from s of None \<Rightarrow> s | Some (a, b) \<Rightarrow> a @ to @ b)"

definition response_encode :: "response_head \<Rightarrow> bool \<Rightarrow> bool \<Rightarrow> bool \<Rightarrow> bytes" where
  "response_encode rs keep_alive upgraded legacy =
     (if legacy then replace_first (str ''HTTP/1.1'') (str ''HTTP/1.0'') (rs_line rs) else rs_line rs) @ [13, 10] @
     append_headers (rs_headers rs) (fr_connection (rs_framing rs)) @
     (if \<not> legacy \<or> fr_body (rs_framing rs) \<noteq> Some BodyChunked then append_framing (rs_framing rs) else []) @
     (if upgraded then
        append_field (str ''Connection'') (str ''Upgrade'') @
        (case header_values (rs_headers rs) (str ''upgrade'') of
           protocol # _ \<Rightarrow> append_field (str ''Upgrade'') protocol
         | [] \<Rightarrow> [])
      else if 200 \<le> rs_status rs
      then append_field (str ''Connection'') (if keep_alive then str ''keep-alive'' else str ''close'')
      else []) @
     [13, 10]"

section \<open>Reading one head\<close>

fun read_line_from :: "nat \<Rightarrow> bytes \<Rightarrow> read_event list \<Rightarrow> io_error + bytes \<times> read_event list" where
  "read_line_from maximum line [] = Inl IoTimedOut"
| "read_line_from maximum line (ReadFailed e # es) = Inl e"
| "read_line_from maximum line (Arrived buffer # es) =
     (if buffer = [] then Inl UnexpectedEof
      else
        let newline = position (\<lambda>b. b = 10) buffer;
            len = (case newline of Some i \<Rightarrow> i + 1 | None \<Rightarrow> length buffer);
            line' = line @ take len buffer in
        if maximum < length line + len then Inl FileTooLarge
        else if newline \<noteq> None then
          (if length line' < 2 \<or> drop (length line' - 2) line' \<noteq> [13, 10] then Inl InvalidData
           else Inr (line', leftover len buffer es))
        else read_line_from maximum line' es)"

definition read_line :: "nat \<Rightarrow> read_event list \<Rightarrow> io_error + bytes \<times> read_event list" where
  "read_line maximum es = read_line_from maximum [] es"

text \<open>
  The exact meaning of the line reader on what the stream delivers, however it is cut into
  buffers.
\<close>

definition flat_line :: "nat \<Rightarrow> bytes \<Rightarrow> bytes \<times> stream_end \<Rightarrow> io_error + bytes \<times> bytes \<times> stream_end" where
  "flat_line maximum line s =
     (case position (\<lambda>b. b = 10) (fst s) of
        Some i \<Rightarrow>
          (let line' = line @ take (i + 1) (fst s) in
           if maximum < length line' then Inl FileTooLarge
           else if length line' < 2 \<or> drop (length line' - 2) line' \<noteq> [13, 10] then Inl InvalidData
           else Inr (line', drop (i + 1) (fst s), snd s))
      | None \<Rightarrow>
          if maximum < length line + length (fst s) then Inl FileTooLarge else Inl (end_error (snd s)))"

lemma position_append:
  "position p (xs @ ys) = (case position p xs of Some i \<Rightarrow> Some i | None \<Rightarrow> map_option (\<lambda>i. length xs + i) (position p ys))"
  by (cases "position p ys"; induction xs) (auto split: option.splits)

lemma read_line_flat:
  assumes "length line \<le> maximum"
  shows "flat_line maximum line (flat es) =
         and_then (read_line_from maximum line es) (\<lambda>(l, es'). Inr (l, flat es'))"
  using assms
proof (induction maximum line es rule: read_line_from.induct)
  case (3 maximum line buffer es)
  show ?case
  proof (cases "buffer = []")
    case False
    show ?thesis
    proof (cases "position (\<lambda>b. b = 10) buffer")
      case None
      show ?thesis
      proof (cases "maximum < length line + length buffer")
        case True
        then show ?thesis
          using False None
          by (auto simp: flat_line_def position_append Let_def split: option.splits)
      next
        case fits: False
        then have "flat_line maximum (line @ buffer) (flat es) =
            and_then (read_line_from maximum (line @ buffer) es) (\<lambda>(l, es'). Inr (l, flat es'))"
          using 3(1) False None by simp
        moreover have "flat_line maximum line (flat (Arrived buffer # es)) = flat_line maximum (line @ buffer) (flat es)"
          using False None by (auto simp: flat_line_def position_append Let_def split: option.splits)
        ultimately show ?thesis
          using False None fits by simp
      qed
    next
      case (Some i)
      then have "i < length buffer"
        by (auto dest: position_Some)
      then show ?thesis
        using Some False by (auto simp: flat_line_def position_append Let_def flat_leftover)
    qed
  qed (use 3 in \<open>simp add: flat_line_def\<close>)
qed (auto simp: flat_line_def)

lemma position_newline: "10 \<notin> set w \<Longrightarrow> position (\<lambda>b. b = 10) (w @ 10 # r) = Some (length w)"
  by (induction w) auto

lemma read_line_line:
  assumes "fst (flat es) = w @ 13 # 10 # r" "10 \<notin> set w" "length w + 2 \<le> maximum"
  shows "\<exists>es'. read_line maximum es = Inr (w @ [13, 10], es') \<and> flat es' = (r, snd (flat es))"
proof -
  have "flat_line maximum [] (flat es) = Inr (w @ [13, 10], r, snd (flat es))"
    using assms position_newline [of "w @ [13]" r] by (simp add: flat_line_def Let_def)
  then show ?thesis
    using read_line_flat [of "[]" maximum es] by (auto simp: read_line_def and_then_Inr_iff)
qed

lemma read_line_Inr:
  assumes "read_line maximum es = Inr (l, es')"
  obtains w where "l = w @ [13, 10]" "10 \<notin> set w" "length l \<le> maximum"
    "fst (flat es) = l @ fst (flat es')" "snd (flat es') = snd (flat es)"
proof -
  have *: "flat_line maximum [] (flat es) = Inr (l, flat es')"
    using read_line_flat [of "[]" maximum es] assms by (simp add: read_line_def)
  then obtain i where i: "position (\<lambda>b. b = 10) (fst (flat es)) = Some i"
    by (auto simp: flat_line_def split: option.splits if_splits)
  with * have l: "l = take (i + 1) (fst (flat es))" "length l \<le> maximum" "2 \<le> length l"
      "drop (length l - 2) l = [13, 10]" "flat es' = (drop (i + 1) (fst (flat es)), snd (flat es))"
    by (auto simp: flat_line_def Let_def split: if_splits)
  define w where "w = take (length l - 2) l"
  have lw: "l = w @ [13, 10]"
    using append_take_drop_id [of "length l - 2" l] l(4) by (simp add: w_def)
  have "10 \<notin> set w"
  proof
    assume "10 \<in> set w"
    then obtain j where j: "j < length w" "w ! j = 10"
      by (auto simp: in_set_conv_nth)
    have len: "i < length (fst (flat es))" "\<forall>j < i. fst (flat es) ! j \<noteq> 10"
      using position_Some [OF i] by auto
    have "length l = i + 1"
      using l(1) len(1) by simp
    then have "j < i"
      using j(1) lw by simp
    moreover have "fst (flat es) ! j = 10"
      using j lw l(1) \<open>j < i\<close> by (metis less_SucI Suc_eq_plus1 nth_append nth_take)
    ultimately show False
      using len(2) by blast
  qed
  moreover have "fst (flat es) = l @ fst (flat es')" "snd (flat es') = snd (flat es)"
    by (simp_all only: l(1,5) fst_conv snd_conv append_take_drop_id)
  ultimately show ?thesis
    using that [OF lw] l(2) by blast
qed

lemma read_line_from_bytes:
  "read_line_from maximum line es = Inr (l, es') \<Longrightarrow>
   length l + event_bytes es' = length line + event_bytes es \<and> length line < length l"
proof (induction maximum line es rule: read_line_from.induct)
  case (3 maximum line buffer es)
  show ?case
  proof (cases "position (\<lambda>b. b = 10) buffer")
    case None
    then have "buffer \<noteq> []" "\<not> maximum < length line + length buffer"
        "read_line_from maximum (line @ buffer) es = Inr (l, es')"
      using 3(2) by (auto simp: Let_def split: if_splits)
    then show ?thesis
      using 3(1) [of None "length buffer" "line @ buffer"] None by simp
  next
    case (Some i)
    then have "i < length buffer"
      by (auto dest: position_Some)
    then show ?thesis
      using 3(2) Some event_bytes_leftover [of "i + 1" buffer es] by (auto simp: Let_def split: if_splits)
  qed
qed auto

lemma read_line_bytes: "read_line maximum es = Inr (l, es') \<Longrightarrow> event_bytes es' < event_bytes es"
  using read_line_from_bytes [of maximum "[]" es l es'] by (cases l) (simp_all add: read_line_def)

function read_head_from :: "nat \<Rightarrow> bytes \<Rightarrow> read_event list \<Rightarrow> io_error + bytes \<times> read_event list" where
  "read_head_from maximum head es =
     (case read_line (maximum - length head) es of
        Inl e \<Rightarrow> Inl e
      | Inr (line, es') \<Rightarrow>
          if line = [13, 10] then
            (if length head < 2 then Inl InvalidData else Inr (take (length head - 2) head, es'))
          else read_head_from maximum (head @ line) es')"
  by pat_completeness auto
termination
  by (relation "measure (\<lambda>(maximum, head, es). event_bytes es)") (auto dest: read_line_bytes)

declare read_head_from.simps [simp del]

definition read_head :: "nat \<Rightarrow> read_event list \<Rightarrow> io_error + bytes \<times> read_event list" where
  "read_head maximum es = read_head_from maximum [] es"

text \<open>
  Reading a head consumes exactly its lines and the empty line, whatever buffers the stream is cut
  into.
\<close>

lemma crlf_lines_join: "ls \<noteq> [] \<Longrightarrow> crlf_lines ls = join_crlf ls @ [13, 10]"
proof (induction ls rule: rev_induct)
  case (snoc l ls)
  then show ?case
    by (simp add: join_crlf_def)
qed simp

lemma read_head_from_lines:
  assumes "fst (flat es) = crlf_lines ls @ 13 # 10 # r" "\<forall>l \<in> set ls. l \<noteq> [] \<and> 10 \<notin> set l"
    and "length head + length (crlf_lines ls) + 2 \<le> maximum" "head @ crlf_lines ls = text @ [13, 10]"
  shows "\<exists>es'. read_head_from maximum head es = Inr (text, es') \<and> flat es' = (r, snd (flat es))"
  using assms
proof (induction ls arbitrary: es head)
  case Nil
  then have "fst (flat es) = [] @ 13 # 10 # r" "length ([] :: bytes) + 2 \<le> maximum - length head"
    by simp_all
  then obtain es' where "read_line (maximum - length head) es = Inr ([13, 10], es')" "flat es' = (r, snd (flat es))"
    using read_line_line [of es "[]" r "maximum - length head"] by auto
  then show ?case
    using Nil by (subst read_head_from.simps) simp
next
  case (Cons l ls)
  then have "fst (flat es) = l @ 13 # 10 # crlf_lines ls @ 13 # 10 # r" "10 \<notin> set l" "length l + 2 \<le> maximum - length head"
    by simp_all
  from read_line_line [OF this] obtain es1 where es1: "read_line (maximum - length head) es = Inr (l @ [13, 10], es1)"
      "flat es1 = (crlf_lines ls @ 13 # 10 # r, snd (flat es))"
    by blast
  moreover have "l @ [13, 10] \<noteq> [13, 10]"
    using Cons.prems(2) by simp
  moreover obtain es' where "read_head_from maximum (head @ l @ [13, 10]) es1 = Inr (text, es')" "flat es' = (r, snd (flat es1))"
    using Cons.IH [of es1 "head @ l @ [13, 10]"] Cons.prems es1(2) by auto
  ultimately show ?case
    by (subst read_head_from.simps) simp
qed

lemma read_head_lines:
  assumes "fst (flat es) = crlf_lines ls @ 13 # 10 # r" "\<forall>l \<in> set ls. l \<noteq> [] \<and> 10 \<notin> set l" "ls \<noteq> []"
    and "length (crlf_lines ls) + 2 \<le> maximum"
  shows "\<exists>es'. read_head maximum es = Inr (join_crlf ls, es') \<and> flat es' = (r, snd (flat es))"
  using read_head_from_lines [OF assms(1,2), of "[]" maximum "join_crlf ls"] assms(3,4)
  by (simp add: read_head_def crlf_lines_join)

lemma read_head_from_Inr:
  "read_head_from maximum head es = Inr (text, es') \<Longrightarrow> head = [] \<or> (\<exists>h. head = h @ [13, 10]) \<Longrightarrow>
   head @ fst (flat es) = text @ 13 # 10 # 13 # 10 # fst (flat es') \<and> snd (flat es') = snd (flat es)"
proof (induction maximum head es rule: read_head_from.induct)
  case (1 maximum head es)
  from 1(2) obtain line es1 where line: "read_line (maximum - length head) es = Inr (line, es1)"
    by (subst (asm) read_head_from.simps) (auto split: sum.splits)
  then obtain w where w: "line = w @ [13, 10]" "fst (flat es) = line @ fst (flat es1)" "snd (flat es1) = snd (flat es)"
    by (rule read_line_Inr)
  show ?case
  proof (cases "line = [13, 10]")
    case True
    then show ?thesis
      using 1(2,3) line w by (subst (asm) read_head_from.simps) (auto split: if_splits)
  next
    case False
    then have "read_head_from maximum (head @ line) es1 = Inr (text, es')"
      using 1(2) line by (subst (asm) read_head_from.simps) simp
    from 1(1) [OF line refl False this] show ?thesis
      using w by auto
  qed
qed

lemmas read_head_Inr = read_head_from_Inr [of _ "[]", simplified, folded read_head_def]

end
