(* ===== verification/Http_Forward.thy ===== *)
theory Http_Forward
  imports Http_Framing
begin

text \<open>
  What the next hop sees of a forwarded message. The head that the inbound writes for a request or a
  response is read by the rules of the inbound's own parser, as a server with the same grammar
  would: it is one head, its fields are the ones meant, and it frames the body as the inbound does.
\<close>

section \<open>The fields of a forwarded head\<close>

definition kept_fields :: "header list \<Rightarrow> bytes set \<Rightarrow> header list" where
  "kept_fields headers connection = filter (\<lambda>h. \<not> stripped (fst h) connection) headers"

definition framing_fields :: "framing \<Rightarrow> header list" where
  "framing_fields framing =
     (case fr_body framing of
        Some (BodyLength n) \<Rightarrow> [(str ''Content-Length'', radix_str 10 n)]
      | Some BodyChunked \<Rightarrow>
          (str ''Transfer-Encoding'', str ''chunked'') #
          (if fr_trailers framing \<noteq> [] then [(str ''Trailer'', join_list (fr_trailers framing))] else [])
      | _ \<Rightarrow> [])"

definition upgrade_fields :: "bytes list \<Rightarrow> header list" where
  "upgrade_fields upgrade =
     (if upgrade = [] then [(str ''Connection'', str ''close'')]
      else [(str ''Connection'', str ''Upgrade''), (str ''Upgrade'', join_list upgrade)])"

definition plan_fields :: "request_head \<Rightarrow> destination \<Rightarrow> framing \<Rightarrow> bytes list \<Rightarrow> header list" where
  "plan_fields rq destination framing upgrade =
     kept_fields (rq_headers rq) (fr_connection framing) @ [(str ''Host'', authority destination)] @
     framing_fields framing @ upgrade_fields upgrade"

lemma append_field_text: "append_field name value = header_text (name, value) @ [13, 10]"
  by (simp add: append_field_def header_text_def str_def)

lemma append_headers_text:
  "append_headers headers connection = crlf_lines (map header_text (kept_fields headers connection))"
  by (induction headers) (auto simp: append_headers_def kept_fields_def append_field_text)

lemma append_framing_text: "append_framing framing = crlf_lines (map header_text (framing_fields framing))"
  by (auto simp: append_framing_def framing_fields_def append_field_text split: option.splits http_body.splits)

lemma plan_head_text:
  "plan_head rq origin destination framing upgrade =
     crlf_lines (request_text (rq_method rq) origin (str ''HTTP/1.1'') (plan_fields rq destination framing upgrade)) @ [13, 10]"
  by (simp add: plan_head_def request_text_def plan_fields_def append_headers_text append_framing_text append_field_text
      upgrade_fields_def str_def)

section \<open>Every field is well formed\<close>

text \<open>Printable text that neither starts nor ends with white space.\<close>

definition printable :: "u8 \<Rightarrow> bool" where
  "printable b \<longleftrightarrow> 0x21 \<le> b \<and> b \<le> 0x7E"

definition plain_text :: "bytes \<Rightarrow> bool" where
  "plain_text v \<longleftrightarrow> v \<noteq> [] \<and> printable (hd v) \<and> printable (last v) \<and> list_all (\<lambda>b. printable b \<or> b = 32) v"

lemma printable_facts: "printable b \<Longrightarrow> \<not> is_ascii_control b \<and> \<not> is_ows b \<and> b < 0x80 \<and> \<not> b \<le> 32 \<and> b \<noteq> 127"
  by (auto simp: printable_def is_ascii_control_def is_ows_def word_le_nat_alt word_less_nat_alt)

lemma plain_text_good: "plain_text v \<Longrightarrow> good_value v \<and> utf8_valid v"
proof -
  have chars: "b < 0x80 \<and> \<not> is_ascii_control b" if "printable b \<or> b = 32" for b
    using that printable_facts [of b] by (auto simp: is_ascii_control_def)
  assume v: "plain_text v"
  then have "trimmed v"
    using printable_facts by (auto simp: plain_text_def trimmed_def)
  moreover have "is_ascii v" "\<not> list_ex (\<lambda>b. is_ascii_control b \<and> b \<noteq> 9) v"
    using v chars by (auto simp: plain_text_def is_ascii_def list_all_iff list_ex_iff)
  ultimately show ?thesis
    by (simp add: good_value_def trim_ows_trimmed ascii_utf8_valid)
qed

lemma printable_text: "v \<noteq> [] \<Longrightarrow> list_all printable v \<Longrightarrow> plain_text v"
  by (auto simp: plain_text_def list_all_iff)

lemma plain_text_join: "ws \<noteq> [] \<Longrightarrow> \<forall>w \<in> set ws. plain_text w \<Longrightarrow> plain_text (join_list ws)"
proof (induction ws rule: join_list.induct)
  case (3 w v ws)
  then have "plain_text w" "plain_text (join_list (v # ws))"
    by auto
  then show ?case
    by (auto simp: plain_text_def str_def printable_def)
qed auto

lemma token_printable: "is_token_byte b \<Longrightarrow> printable b"
  by (auto simp: is_token_byte_def is_ascii_alphanumeric_def is_ascii_digit_def is_ascii_uppercase_def
      is_ascii_lowercase_def str_def printable_def word_le_nat_alt)

lemma address_char_printable: "address_char b \<Longrightarrow> printable b"
proof -
  have "is_digit_of 16 b \<Longrightarrow> printable b"
    by (auto simp: is_digit_of_def to_digit_def digit_value_def is_ascii_digit_def printable_def word_le_nat_alt
        split: if_splits)
  then show "address_char b \<Longrightarrow> printable b"
    by (auto simp: address_char_def printable_def)
qed

lemma authority_plain:
  assumes "case d of DestIp address \<Rightarrow> True | DestDomain host port \<Rightarrow> list_all printable host"
  shows "plain_text (authority d)"
proof -
  have "list_all printable (radix_str 10 n)" "radix_str 10 n \<noteq> []" for n
    using radix_str_chars [of 10 n] radix_str_10_digits [of n] address_char_printable by (auto simp: list_all_iff)
  moreover have "list_all printable (socket_str address)" "socket_str address \<noteq> []" for address
    using socket_str_chars [of address] address_char_printable by (auto simp: list_all_iff) (cases address; simp)
  ultimately show ?thesis
    using assms by (cases d) (auto intro!: printable_text simp: printable_def)
qed

lemma trailer_names_plain:
  "trailer_names connection raws = Inr names \<Longrightarrow> \<forall>n \<in> set names. plain_text n"
proof (induction raws arbitrary: names)
  case (Cons raw raws)
  then obtain rest where "names = trim_ows raw # rest" "trailer_names connection raws = Inr rest"
      "trim_ows raw \<noteq> []" "list_all is_token_byte (trim_ows raw)"
    by (auto simp: Let_def and_then_Inr_iff split: if_splits)
  then show ?case
    using Cons.IH [of rest] printable_text [of "trim_ows raw"] token_printable by (auto simp: list_all_iff)
qed simp

lemma list_all_join: "P c \<Longrightarrow> \<forall>w \<in> set ws. list_all P w \<Longrightarrow> list_all P (join c ws)"
  by (induction c ws rule: join.induct) auto

lemma upgrade_protocol_plain: "upgrade_protocol raw = Inr p \<Longrightarrow> plain_text p"
proof -
  assume "upgrade_protocol raw = Inr p"
  then have parts: "\<forall>w \<in> set (split_on 47 p). w \<noteq> [] \<and> list_all is_token_byte w"
    by (auto simp: upgrade_protocol_def Let_def list_ex_iff split: if_splits)
  then have "\<forall>w \<in> set (split_on 47 p). list_all printable w"
    using token_printable by (auto simp: list_all_iff)
  from list_all_join [where c = 47, OF _ this] have "list_all printable p"
    by (simp add: printable_def)
  moreover have "p \<noteq> []"
    using parts by (cases p) auto
  ultimately show ?thesis
    by (intro printable_text)
qed

lemma collect_results_all:
  "collect_results f xs = Inr ys \<Longrightarrow> \<forall>y \<in> set ys. \<exists>x \<in> set xs. f x = Inr y"
  by (induction xs arbitrary: ys) (fastforce simp: and_then_Inr_iff)+

lemma upgrade_protocols_plain:
  "upgrade_protocols headers connection = Inr ps \<Longrightarrow> \<forall>p \<in> set ps. plain_text p"
  using collect_results_all upgrade_protocol_plain
  by (fastforce simp: upgrade_protocols_def Let_def split: if_splits list.splits)

lemma framing_parse_names:
  "framing_parse headers = Inr framing \<Longrightarrow>
   trailer_names (fr_connection framing) (concat (map (split_on 44) (header_values headers (str ''trailer'')))) =
     Inr (fr_trailers framing)"
  by (auto simp: framing_parse_def and_then_Inr_iff split: if_splits)

lemma framing_parse_trailers: "framing_parse headers = Inr framing \<Longrightarrow> \<forall>n \<in> set (fr_trailers framing). plain_text n"
  using trailer_names_plain by (auto simp: framing_parse_def and_then_Inr_iff split: if_splits)

lemmas name_eval = str_def eq_ignore_ascii_case_def ascii_lowercase_def to_ascii_lowercase_def is_ascii_uppercase_def

lemma good_header_plain: "good_name n \<Longrightarrow> plain_text v \<Longrightarrow> good_header (n, v)"
  using plain_text_good [of v] by (simp add: good_header_def)

lemma generated_names [simp]:
  "good_name (str ''Host'')" "good_name (str ''Content-Length'')" "good_name (str ''Transfer-Encoding'')"
  "good_name (str ''Trailer'')" "good_name (str ''Connection'')" "good_name (str ''Upgrade'')"
  by (simp_all add: good_name_def str_def is_token_byte_def is_ascii_alphanumeric_def is_ascii_digit_def
      is_ascii_uppercase_def is_ascii_lowercase_def)

lemma generated_values [simp]:
  "plain_text (str ''close'')" "plain_text (str ''Upgrade'')" "plain_text (str ''chunked'')"
  "plain_text (str ''keep-alive'')" "plain_text (radix_str 10 n)"
proof -
  show "plain_text (radix_str 10 n)"
    using radix_str_chars [of 10 n] radix_str_10_digits [of n] address_char_printable
    by (intro printable_text) (auto simp: list_all_iff)
qed (simp_all add: plain_text_def str_def printable_def)

lemma framing_fields_good:
  "\<forall>n \<in> set (fr_trailers framing). plain_text n \<Longrightarrow> \<forall>h \<in> set (framing_fields framing). good_header h"
  by (cases "fr_body framing"; cases "the (fr_body framing)")
    (auto simp: framing_fields_def intro!: good_header_plain plain_text_join)

lemma plan_fields_good:
  assumes "\<forall>h \<in> set (rq_headers rq). good_header h" "plain_text (authority destination)"
    and "\<forall>n \<in> set (fr_trailers framing). plain_text n" "\<forall>p \<in> set upgrade. plain_text p"
  shows "\<forall>h \<in> set (plan_fields rq destination framing upgrade). good_header h"
proof -
  have "\<forall>h \<in> set ((str ''Host'', authority destination) # upgrade_fields upgrade). good_header h"
    using assms(2,4) by (auto simp: upgrade_fields_def intro!: good_header_plain plain_text_join)
  then show ?thesis
    using assms(1) framing_fields_good [OF assms(3)] by (auto simp: plan_fields_def kept_fields_def)
qed

lemma plan_fields_length:
  "length (plan_fields rq destination framing upgrade) \<le> length (rq_headers rq) + 5"
proof -
  have "length (kept_fields (rq_headers rq) (fr_connection framing)) \<le> length (rq_headers rq)"
    by (simp add: kept_fields_def)
  then show ?thesis
    by (cases "fr_body framing"; cases "the (fr_body framing)")
      (simp_all add: plan_fields_def framing_fields_def upgrade_fields_def)
qed

section \<open>The fields that decide\<close>

text \<open>No field of the client under a hop-by-hop name is forwarded.\<close>

lemma header_values_append [simp]: "header_values (xs @ ys) n = header_values xs n @ header_values ys n"
  by (simp add: header_values_def)

lemma kept_fields_hop: "n \<in> set hop_fields \<Longrightarrow> header_values (kept_fields headers connection) n = []"
proof -
  have lower: "ascii_lowercase n = n" if "n \<in> set hop_fields" for n
    using that by (auto simp: hop_fields_def name_eval)
  assume n: "n \<in> set hop_fields"
  have "filter (\<lambda>h. eq_ignore_ascii_case (fst h) n) (kept_fields headers connection) = []"
    using n lower [OF n] by (auto simp: kept_fields_def stripped_def eq_ignore_ascii_case_def filter_empty_conv)
  then show ?thesis
    by (simp add: header_values_def)
qed

lemma generated_stripped:
  "\<forall>h \<in> set ((str ''Host'', a) # framing_fields framing @ upgrade_fields upgrade). stripped (fst h) {}"
  by (cases "fr_body framing"; cases "the (fr_body framing)")
    (simp_all add: framing_fields_def upgrade_fields_def stripped_def hop_fields_def name_eval)

lemma plan_fields_kept:
  "filter (\<lambda>h. \<not> stripped (fst h) {}) (plan_fields rq destination framing upgrade) =
   kept_fields (rq_headers rq) (fr_connection framing)"
proof -
  have "filter (\<lambda>h. \<not> stripped (fst h) {}) (kept_fields (rq_headers rq) (fr_connection framing)) =
      kept_fields (rq_headers rq) (fr_connection framing)"
    by (intro filter_True) (auto simp: kept_fields_def stripped_def Let_def)
  moreover have "filter (\<lambda>h. \<not> stripped (fst h) {})
      ((str ''Host'', authority destination) # framing_fields framing @ upgrade_fields upgrade) = []"
    using generated_stripped [of "authority destination" framing upgrade] by (auto simp: filter_empty_conv)
  ultimately show ?thesis
    by (simp add: plan_fields_def)
qed

lemma framing_fields_values:
  "header_values (framing_fields framing) (str ''host'') = []"
  "header_values (framing_fields framing) (str ''content-length'') =
     (case fr_body framing of Some (BodyLength n) \<Rightarrow> [radix_str 10 n] | _ \<Rightarrow> [])"
  "header_values (framing_fields framing) (str ''transfer-encoding'') =
     (case fr_body framing of Some BodyChunked \<Rightarrow> [str ''chunked''] | _ \<Rightarrow> [])"
  by (auto simp: framing_fields_def header_values_def name_eval split: option.splits http_body.splits)

lemma host_field_values:
  "header_values ((str ''Host'', a) # fs) (str ''host'') = a # header_values fs (str ''host'')"
  "header_values ((str ''Host'', a) # fs) (str ''content-length'') = header_values fs (str ''content-length'')"
  "header_values ((str ''Host'', a) # fs) (str ''transfer-encoding'') = header_values fs (str ''transfer-encoding'')"
  by (simp_all add: header_values_def name_eval)

lemma upgrade_fields_values:
  "n \<in> {str ''host'', str ''content-length'', str ''transfer-encoding''} \<Longrightarrow> header_values (upgrade_fields upgrade) n = []"
  by (auto simp: upgrade_fields_def header_values_def name_eval)

lemma framing_body_shape:
  "framing_body headers = Inr body \<Longrightarrow>
   body = None \<or> body = Some BodyChunked \<or> (\<exists>n. body = Some (BodyLength n) \<and> n \<le> 2 ^ 64 - 1)"
  by (auto simp: framing_body_def Let_def and_then_Inr_iff ok_or_Inr_iff split: if_splits list.splits dest: parse_uint_le)

lemma framing_body_fields:
  assumes body: "framing_body headers = Inr (fr_body framing)"
    and vals: "header_values fs (str ''content-length'') = header_values (framing_fields framing) (str ''content-length'')"
      "header_values fs (str ''transfer-encoding'') = header_values (framing_fields framing) (str ''transfer-encoding'')"
  shows "framing_body fs = Inr (fr_body framing)"
proof -
  consider "fr_body framing = None" | "fr_body framing = Some BodyChunked"
    | n where "fr_body framing = Some (BodyLength n)" "n \<le> 2 ^ 64 - 1"
    using framing_body_shape [OF body] by metis
  then show ?thesis
  proof cases
    case (3 n)
    then have "parse_uint (2 ^ 64 - 1) (radix_str 10 n) = Some n"
      by (intro parse_uint_radix_str)
    then show ?thesis
      using 3(1) radix_str_10_digits [of n] by (simp add: framing_body_def vals framing_fields_values)
  qed (simp_all add: framing_body_def vals framing_fields_values)
qed

section \<open>Forwarded requests\<close>

text \<open>
  What the \<^verbatim>\<open>url\<close> crate documents: the serialised path, query and domain of a URL are printable ASCII,
  everything else being percent-encoded or rejected.
\<close>

definition url_printable :: "(bytes \<Rightarrow> parsed_url option) \<Rightarrow> bool" where
  "url_printable url_parse \<longleftrightarrow>
     (\<forall>target url. url_parse target = Some url \<longrightarrow>
        list_all printable (url_path url) \<and>
        (\<forall>query. url_query url = Some query \<longrightarrow> list_all printable query) \<and>
        (\<forall>domain. url_host url = Some (HostDomain domain) \<longrightarrow> list_all printable domain))"

lemma forward_target_printable:
  assumes "forward_target url_parse rq = Inr (destination, origin)" "url_printable url_parse"
  shows "plain_text (authority destination)" "origin \<noteq> []" "list_all printable origin"
proof -
  from assms(1) obtain url host port where url: "url_parse (rq_target rq) = Some url" "url_host url = Some host"
      "url_destination host port = Inr destination" "origin = url_origin url"
    by (auto simp: forward_target_def and_then_Inr_iff ok_or_Inr_iff split: if_splits)
  have p: "list_all printable (url_path url)" "\<forall>query. url_query url = Some query \<longrightarrow> list_all printable query"
      "\<forall>domain. host = HostDomain domain \<longrightarrow> list_all printable domain"
    using assms(2) url(1,2) by (auto simp: url_printable_def)
  show "plain_text (authority destination)"
    using p(3) url(3) by (intro authority_plain) (cases host; auto simp: destination_domain_Inr_iff)
  show "origin \<noteq> []" "list_all printable origin"
    using p(1,2) by (auto simp: url(4) url_origin_def printable_def split: option.splits)
qed

lemma plan_new_parts:
  assumes "plan_new url_parse rq = Inr plan"
  obtains framing upgrade destination origin where
    "framing_parse (rq_headers rq) = Inr framing" "upgrade_protocols (rq_headers rq) (fr_connection framing) = Inr upgrade"
    "forward_target url_parse rq = Inr (destination, origin)"
    "rp_destination plan = destination" "rp_head plan = plan_head rq origin destination framing upgrade"
    "rp_body plan = unwrap_or (fr_body framing) BodyEmpty" "rp_trailer_blocklist plan = fr_connection framing"
  using assms by (auto simp: plan_new_def Let_def and_then_Inr_iff split: if_splits intro: that)

lemma framing_parse_body: "framing_parse headers = Inr framing \<Longrightarrow> framing_body headers = Inr (fr_body framing)"
  by (auto simp: framing_parse_def and_then_Inr_iff split: if_splits)

text \<open>One head with good fields, read and parsed back from a stream.\<close>

lemma read_request_text:
  assumes "fst (flat es) = crlf_lines (request_text method target version hs) @ 13 # 10 # rest"
    and "good_request_line method target version" "\<forall>h \<in> set hs. good_header h" "length hs \<le> DEFAULT_HEADER_COUNT_LIMIT"
    and "length (crlf_lines (request_text method target version hs)) + 2 \<le> maximum"
  shows "\<exists>head es'. read_head maximum es = Inr (head, es') \<and> flat es' = (rest, snd (flat es)) \<and>
    parse_request_head head [] =
      Inr \<lparr>rq_method = method, rq_target = target, rq_version = version, rq_headers = hs, rq_buffered = []\<rparr>"
proof -
  have "10 \<notin> set method" "10 \<notin> set target" "10 \<notin> set version"
    using assms(2) good_name_facts [of "method"]
    by (auto simp: good_request_line_def http_version_def list_ex_iff str_def)
  then have "\<forall>l \<in> set (request_text method target version hs). l \<noteq> [] \<and> 10 \<notin> set l"
    using assms(3) header_text_facts by (auto simp: request_text_def header_text_def)
  then obtain es' where "read_head maximum es = Inr (join_crlf (request_text method target version hs), es')"
      "flat es' = (rest, snd (flat es))"
    using read_head_lines [OF assms(1) _ _ assms(5)] by (auto simp: request_text_def)
  then show ?thesis
    using parse_request_head_text [OF assms(2-4)] by blast
qed


definition sample_request :: request_head where
  "sample_request = \<lparr>rq_method = str ''GET'', rq_target = str ''http://a.b/c'', rq_version = str ''HTTP/1.1'',
     rq_headers = [(str ''Host'', str ''a.b''), (str ''Content-Length'', str ''2''), (str ''TE'', str ''x'')], rq_buffered = []\<rparr>"

definition sample_url :: parsed_url where
  "sample_url = \<lparr>url_scheme = str ''http'', url_username = [], url_password = None, url_host = Some (HostDomain (str ''a.b'')),
     url_port_or_known_default = Some 80, url_path = str ''/c'', url_query = None, url_fragment = None\<rparr>"

definition sample_url_parse :: "bytes \<Rightarrow> parsed_url option" where
  "sample_url_parse target = (if target = str ''http://a.b/c'' then Some sample_url else None)"

lemma sample_request_parsed:
  "parse_request_head (join_crlf (request_text (rq_method sample_request) (rq_target sample_request) (rq_version sample_request)
     (rq_headers sample_request))) [] = Inr sample_request"
proof -
  have "good_request_line (rq_method sample_request) (rq_target sample_request) (rq_version sample_request)"
    by (simp add: sample_request_def good_request_line_def good_name_def http_version_def str_def is_token_byte_def
        is_ascii_alphanumeric_def is_ascii_digit_def is_ascii_uppercase_def is_ascii_lowercase_def)
  moreover have "\<forall>h \<in> set (rq_headers sample_request). good_header h"
    by (auto simp: sample_request_def str_def plain_text_def printable_def good_name_def is_token_byte_def
        is_ascii_alphanumeric_def is_ascii_digit_def is_ascii_uppercase_def is_ascii_lowercase_def intro!: good_header_plain)
  ultimately show ?thesis
    by (subst parse_request_head_text) (simp_all add: sample_request_def DEFAULT_HEADER_COUNT_LIMIT_def)
qed

definition sample_framing :: framing where
  "sample_framing = \<lparr>fr_body = Some (BodyLength 2), fr_connection = {}, fr_trailers = []\<rparr>"

definition sample_plan :: request_plan where
  "sample_plan = \<lparr>rp_destination = DestDomain (str ''a.b'') 80,
     rp_head = plan_head sample_request (str ''/c'') (DestDomain (str ''a.b'') 80) sample_framing [],
     rp_body = BodyLength 2, rp_keep_alive = True, rp_upgrade = [], rp_trailer_blocklist = {}\<rparr>"

lemma sample_plan_new: "plan_new sample_url_parse sample_request = Inr sample_plan"
proof -
  have "framing_parse (rq_headers sample_request) = Inr sample_framing"
    by (simp add: framing_parse_def framing_body_def header_values_def sample_request_def name_eval sample_framing_def
        parse_uint_def decimal_value_def is_ascii_digit_def)
  moreover have "forward_target sample_url_parse sample_request = Inr (DestDomain (str ''a.b'') 80, str ''/c'')"
    by (simp add: forward_target_def sample_request_def sample_url_parse_def sample_url_def split_once_str_def str_def
        destination_domain_def is_ascii_control_def url_origin_def)
  moreover have "header_values (rq_headers sample_request) (str ''host'') = [str ''a.b'']"
    "header_values (rq_headers sample_request) (str ''upgrade'') = []"
    "header_values (rq_headers sample_request) (str ''expect'') = []"
    by (simp_all add: header_values_def sample_request_def name_eval)
  moreover have "rq_version sample_request = str ''HTTP/1.1''" "str ''HTTP/1.1'' \<noteq> str ''HTTP/1.0''"
    by (simp_all add: sample_request_def str_def)
  ultimately show ?thesis
    by (simp add: plan_new_def upgrade_protocols_def sample_framing_def sample_plan_def)
qed

lemma sample_plan_length: "length (rp_head sample_plan) \<le> 8192"
  by (simp add: sample_plan_def plan_head_def append_headers_def sample_request_def sample_framing_def append_framing_def
      append_field_def stripped_def hop_fields_def name_eval radix_str.simps)


section \<open>Forwarded responses\<close>

definition status_fields :: "response_head \<Rightarrow> bool \<Rightarrow> header list" where
  "status_fields rs keep_alive =
     (if 200 \<le> rs_status rs then [(str ''Connection'', if keep_alive then str ''keep-alive'' else str ''close'')] else [])"

definition response_framing :: "response_head \<Rightarrow> bool \<Rightarrow> framing" where
  "response_framing rs legacy =
     (if legacy \<and> fr_body (rs_framing rs) = Some BodyChunked
      then (rs_framing rs)\<lparr>fr_body := None, fr_trailers := []\<rparr> else rs_framing rs)"

definition response_fields :: "response_head \<Rightarrow> bool \<Rightarrow> bool \<Rightarrow> header list" where
  "response_fields rs keep_alive legacy =
     kept_fields (rs_headers rs) (fr_connection (rs_framing rs)) @ framing_fields (response_framing rs legacy) @
     status_fields rs keep_alive"

definition status_line :: "bool \<Rightarrow> nat \<Rightarrow> bytes \<Rightarrow> bytes" where
  "status_line legacy status reason =
     (if legacy then str ''HTTP/1.0'' else str ''HTTP/1.1'') @ 32 # radix_str 10 status @ 32 # reason"

lemma response_encode_text:
  assumes "rs_line rs = response_line (rs_status rs) reason"
  shows "response_encode rs keep_alive False legacy =
    crlf_lines (status_line legacy (rs_status rs) reason # map header_text (response_fields rs keep_alive legacy)) @ [13, 10]"
proof -
  have "(if legacy then replace_first (str ''HTTP/1.1'') (str ''HTTP/1.0'') (rs_line rs) else rs_line rs) =
      status_line legacy (rs_status rs) reason"
    by (simp add: assms replace_first_def split_once_str_def response_line_def status_line_def str_def)
  moreover have "(if \<not> legacy \<or> fr_body (rs_framing rs) \<noteq> Some BodyChunked then append_framing (rs_framing rs) else []) =
      crlf_lines (map header_text (framing_fields (response_framing rs legacy)))"
    by (simp add: response_framing_def append_framing_text) (simp add: framing_fields_def)
  ultimately show ?thesis
    by (simp add: response_encode_def response_fields_def append_headers_text append_field_text status_fields_def)
qed

lemma response_parse_parts:
  assumes "response_parse input = Inr rs"
  obtains reason where "rs_line rs = response_line (rs_status rs) reason" "100 \<le> rs_status rs" "rs_status rs \<le> 599"
    "utf8_valid reason" "\<not> list_ex (\<lambda>b. is_ascii_control b \<and> b \<noteq> 9) reason"
    "framing_parse (rs_headers rs) = Inr (rs_framing rs)" "\<forall>h \<in> set (rs_headers rs). good_header h"
    "rs_status rs < 200 \<or> rs_status rs = 204 \<longrightarrow> fr_body (rs_framing rs) = None"
proof -
  let ?lines = "split_crlf input"
  from assms have utf8: "utf8_valid input"
    by (auto simp: response_parse_def split: if_splits)
  have lines: "utf8_valid (hd ?lines)" "list_all utf8_valid (tl ?lines)"
    using utf8_valid_split_crlf [OF utf8] split_crlf_not_Nil [of input] by (cases ?lines; simp)+
  obtain version status reason where parts: "splitn3 (hd ?lines) = (version, status, Some reason)"
    using assms utf8 by (cases "splitn3 (hd ?lines)") (auto simp: response_parse_def split: option.splits)
  from assms have hs: "parse_headers (tl ?lines) = Inr (rs_headers rs)"
    and rs: "rs_line rs = response_line (rs_status rs) reason" "100 \<le> rs_status rs" "rs_status rs \<le> 599"
      "\<not> list_ex (\<lambda>b. is_ascii_control b \<and> b \<noteq> 9) reason" "framing_parse (rs_headers rs) = Inr (rs_framing rs)"
      "rs_status rs < 200 \<or> rs_status rs = 204 \<longrightarrow> fr_body (rs_framing rs) = None"
    by (auto simp: response_parse_def utf8 parts and_then_Inr_iff split: if_splits)
  have "hd ?lines = version @ 32 # status @ 32 # reason"
    using parts by (auto simp: splitn3_def split_once_Some split: option.splits)
  then have "utf8_valid reason"
    using lines(1) by (simp add: utf8_valid_ascii_split)
  then show ?thesis
    using that rs parse_headers_good [OF hs lines(2)] by blast
qed

lemma status_line_splits:
  assumes "100 \<le> status" "status \<le> 599"
  shows "splitn3 (status_line legacy status reason) =
      (if legacy then str ''HTTP/1.0'' else str ''HTTP/1.1'', radix_str 10 status, Some reason)"
    and "length (radix_str 10 status) = 3" "parse_uint 65535 (radix_str 10 status) = Some status"
proof -
  have digits: "32 \<notin> set (radix_str 10 status)"
    using radix_str_10_digits(2) [of status] by (auto simp: list_all_iff is_ascii_digit_def)
  show "splitn3 (status_line legacy status reason) =
      (if legacy then str ''HTTP/1.0'' else str ''HTTP/1.1'', radix_str 10 status, Some reason)"
    using digits split_once_Some [of 32 "radix_str 10 status @ 32 # reason"]
    by (simp add: splitn3_def status_line_def split_once_def str_def takeWhile_append dropWhile_append)
  show "length (radix_str 10 status) = 3"
    using radix_str_length [of 10 status 2] radix_str_min_length [of 10 2 status] assms by simp
  show "parse_uint 65535 (radix_str 10 status) = Some status"
    using assms by (intro parse_uint_radix_str) simp
qed

text \<open>The framing of a written response is accepted, and frames the body as the response is relayed.\<close>

lemma trailer_names_intro:
  "\<forall>n \<in> set (map trim_ows raws). n \<noteq> [] \<and> list_all is_token_byte n \<and> \<not> forbidden_trailer n connection \<Longrightarrow>
   trailer_names connection raws = Inr (map trim_ows raws)"
  by (induction raws) (auto simp: Let_def)

lemma trailer_names_Inr:
  "trailer_names connection raws = Inr names \<Longrightarrow>
   \<forall>n \<in> set names. trim_ows n = n \<and> n \<noteq> [] \<and> list_all is_token_byte n \<and> \<not> forbidden_trailer n connection"
  by (induction raws arbitrary: names) (auto simp: Let_def and_then_Inr_iff split: if_splits)

lemma split_join_list:
  "ws \<noteq> [] \<Longrightarrow> \<forall>w \<in> set ws. 44 \<notin> set w \<and> trim_ows w = w \<Longrightarrow> map trim_ows (split_on 44 (join_list ws)) = ws"
proof (induction ws rule: join_list.induct)
  case (3 w v ws)
  obtain s ss where s: "split_on 44 (join_list (v # ws)) = s # ss"
    by (cases "split_on 44 (join_list (v # ws))") auto
  then have "map trim_ows (split_on 44 (32 # join_list (v # ws))) = map trim_ows (split_on 44 (join_list (v # ws)))"
    by (simp only: split_on.simps) simp
  then show ?case
    using 3 by (simp only: join_list.simps str_def list.map append_Cons append_Nil)
      (simp add: split_on_append del: join_list.simps split_on.simps)
qed (auto simp: split_on_single)

lemma connection_values:
  "header_values (framing_fields framing) (str ''connection'') = []"
  "header_values (framing_fields framing) (str ''proxy-connection'') = []"
  "header_values (framing_fields framing) (str ''trailer'') =
     (if fr_body framing = Some BodyChunked \<and> fr_trailers framing \<noteq> [] then [join_list (fr_trailers framing)] else [])"
  by (cases "fr_body framing"; cases "the (fr_body framing)"; simp add: framing_fields_def header_values_def name_eval)+

lemma status_values:
  "header_values (status_fields rs keep_alive) (str ''connection'') =
     (if 200 \<le> rs_status rs then [if keep_alive then str ''keep-alive'' else str ''close''] else [])"
  "n \<in> {str ''proxy-connection'', str ''trailer'', str ''content-length'', str ''transfer-encoding''} \<Longrightarrow>
   header_values (status_fields rs keep_alive) n = []"
  by (auto simp: status_fields_def header_values_def name_eval)

lemma status_tokens:
  "\<exists>connection \<subseteq> {str ''keep-alive'', str ''close''}.
     connection_tokens (concat (map (split_on 44) (header_values (status_fields rs keep_alive) (str ''connection'')))) {} =
       Inr connection"
proof -
  have t: "list_all is_token_byte (str ''keep-alive'')" "list_all is_token_byte (str ''close'')"
    by (simp_all add: str_def is_token_byte_def is_ascii_alphanumeric_def is_ascii_digit_def
      is_ascii_uppercase_def is_ascii_lowercase_def)
  have "split_on 44 (str ''keep-alive'') = [str ''keep-alive'']" "split_on 44 (str ''close'') = [str ''close'']"
    by (simp_all add: str_def)
  moreover have "trim_ows (str ''keep-alive'') = str ''keep-alive''" "trim_ows (str ''close'') = str ''close''"
    by (simp_all add: trim_ows_def is_ows_def str_def)
  moreover have "ascii_lowercase (str ''keep-alive'') = str ''keep-alive''" "ascii_lowercase (str ''close'') = str ''close''"
      "str ''keep-alive'' \<notin> set routing_fields" "str ''close'' \<notin> set routing_fields" "str ''keep-alive'' \<noteq> []" "str ''close'' \<noteq> []"
    by (simp_all add: name_eval routing_fields_def)
  ultimately show ?thesis
    using t by (auto simp: status_values)
qed

lemma forbidden_trailer_status:
  assumes "\<not> forbidden_trailer n connection" "connection' \<subseteq> {str ''keep-alive'', str ''close''}"
    and "ascii_lowercase n \<noteq> str ''close''"
  shows "\<not> forbidden_trailer n connection'"
  using assms by (auto simp: forbidden_trailer_def stripped_def Let_def hop_fields_def)

lemma response_fields_framing:
  assumes "framing_parse (rs_headers rs) = Inr (rs_framing rs)"
    and "\<forall>n \<in> set (fr_trailers (rs_framing rs)). ascii_lowercase n \<noteq> str ''close''"
  shows "\<exists>framing. framing_parse (response_fields rs keep_alive legacy) = Inr framing \<and>
    fr_body framing = fr_body (response_framing rs legacy)"
proof -
  let ?fs = "response_fields rs keep_alive legacy" and ?fr = "response_framing rs legacy"
  note vals = response_fields_def kept_fields_hop hop_fields_def connection_values status_values
  have "framing_body (rs_headers rs) = Inr (fr_body (rs_framing rs))"
    using assms(1) by (rule framing_parse_body)
  then have "framing_body (if legacy \<and> fr_body (rs_framing rs) = Some BodyChunked then [] else rs_headers rs) = Inr (fr_body ?fr)"
    by (simp add: response_framing_def) (simp add: framing_body_def header_values_def)
  then have body: "framing_body ?fs = Inr (fr_body ?fr)"
    by (rule framing_body_fields) (simp_all add: vals)
  obtain connection where conn: "connection \<subseteq> {str ''keep-alive'', str ''close''}"
    "connection_tokens (concat (map (split_on 44) (header_values ?fs (str ''connection'') @ header_values ?fs (str ''proxy-connection'')))) {} = Inr connection"
    using status_tokens [of rs keep_alive] by (auto simp: vals)
  note old = trailer_names_Inr [OF framing_parse_names [OF assms(1)]]
  have names: "\<forall>n \<in> set (fr_trailers ?fr). trim_ows n = n \<and> n \<noteq> [] \<and> list_all is_token_byte n \<and> \<not> forbidden_trailer n connection"
  proof
    fix n assume "n \<in> set (fr_trailers ?fr)"
    then have "n \<in> set (fr_trailers (rs_framing rs))"
      by (simp add: response_framing_def split: if_splits)
    then show "trim_ows n = n \<and> n \<noteq> [] \<and> list_all is_token_byte n \<and> \<not> forbidden_trailer n connection"
      using old assms(2) forbidden_trailer_status [OF _ conn(1), of n] by blast
  qed
  then have "trailer_names connection (split_on 44 (join_list (fr_trailers ?fr))) = Inr (fr_trailers ?fr)" if "fr_trailers ?fr \<noteq> []"
  proof -
    have "map trim_ows (split_on 44 (join_list (fr_trailers ?fr))) = fr_trailers ?fr"
      using that names token_byte_facts by (intro split_join_list) (auto simp: list_all_iff)
    moreover from this names have "\<forall>n \<in> set (map trim_ows (split_on 44 (join_list (fr_trailers ?fr)))).
        n \<noteq> [] \<and> list_all is_token_byte n \<and> \<not> forbidden_trailer n connection"
      by simp
    ultimately show ?thesis
      using trailer_names_intro by metis
  qed
  then show ?thesis
    using body conn(2) by (auto simp: framing_parse_def vals)
qed

lemma status_line_chars:
  assumes "\<not> list_ex (\<lambda>b. is_ascii_control b \<and> b \<noteq> 9) reason" "utf8_valid reason"
  shows "13 \<notin> set (status_line legacy status reason) \<and> 10 \<notin> set (status_line legacy status reason) \<and>
    status_line legacy status reason \<noteq> [] \<and> utf8_valid (status_line legacy status reason)"
proof -
  have d: "\<forall>b \<in> set (radix_str 10 status). b \<noteq> 13 \<and> b \<noteq> 10 \<and> b < 0x80"
    using radix_str_10_digits(2) [of status] by (auto simp: list_all_iff is_ascii_digit_def word_le_nat_alt word_less_nat_alt)
  have v: "is_ascii (if legacy then str ''HTTP/1.0'' else str ''HTTP/1.1'')"
    by (simp add: is_ascii_def str_def)
  have "utf8_valid (radix_str 10 status)"
    using d by (intro ascii_utf8_valid) (simp add: is_ascii_def list_all_iff)
  then have "utf8_valid (status_line legacy status reason)"
    using assms(2) by (simp add: status_line_def utf8_valid_ascii_split ascii_utf8_valid [OF v] del: utf8_valid.simps split del: if_split)
  moreover have "13 \<notin> set reason" "10 \<notin> set reason"
    using assms(1) by (auto simp: list_ex_iff is_ascii_control_def)
  ultimately show ?thesis
    using d by (auto simp: status_line_def str_def)
qed

lemma response_parse_text:
  assumes status: "100 \<le> status" "status \<le> 599"
    and reason: "\<not> list_ex (\<lambda>b. is_ascii_control b \<and> b \<noteq> 9) reason" "utf8_valid reason"
    and fs: "\<forall>h \<in> set fs. good_header h" "length fs \<le> DEFAULT_HEADER_COUNT_LIMIT" "framing_parse fs = Inr framing"
    and body: "legacy \<longrightarrow> fr_body framing \<noteq> Some BodyChunked" "status < 200 \<or> status = 204 \<longrightarrow> fr_body framing = None"
  shows "response_parse (join_crlf (status_line legacy status reason # map header_text fs)) =
    Inr \<lparr>rs_status = status, rs_line = response_line status reason, rs_headers = fs, rs_framing = framing\<rparr>"
proof -
  let ?lines = "status_line legacy status reason # map header_text fs"
  note line = status_line_chars [OF reason, of legacy status]
  have "\<forall>l \<in> set ?lines. 13 \<notin> set l" "list_all utf8_valid ?lines"
    using line fs(1) header_text_facts by (auto simp: list_all_iff)
  then have "split_crlf (join_crlf ?lines) = ?lines" "utf8_valid (join_crlf ?lines)"
    using split_join_crlf [of ?lines] utf8_join_crlf [of ?lines] by simp_all
  moreover have "parse_headers (map header_text fs) = Inr fs"
    using parse_headers_from_text [of fs "[]"] fs by (simp add: parse_headers_def)
  moreover have "http_version (if legacy then str ''HTTP/1.0'' else str ''HTTP/1.1'')" "str ''HTTP/1.1'' \<noteq> str ''HTTP/1.0''"
    by (simp_all add: http_version_def str_def)
  ultimately show ?thesis
    using status status_line_splits [OF status] reason radix_str_10_digits [of status] fs(3) body
    by (auto simp: response_parse_def)
qed

lemma response_fields_good:
  assumes "\<forall>h \<in> set (rs_headers rs). good_header h" "framing_parse (rs_headers rs) = Inr (rs_framing rs)"
  shows "\<forall>h \<in> set (response_fields rs keep_alive legacy). good_header h"
    and "length (response_fields rs keep_alive legacy) \<le> length (rs_headers rs) + 3"
proof -
  have "\<forall>n \<in> set (fr_trailers (response_framing rs legacy)). plain_text n"
    using framing_parse_trailers [OF assms(2)] by (simp add: response_framing_def)
  then show "\<forall>h \<in> set (response_fields rs keep_alive legacy). good_header h"
    using assms(1) framing_fields_good [of "response_framing rs legacy"]
    by (auto simp: response_fields_def kept_fields_def status_fields_def intro!: good_header_plain [of "str ''Connection''"]
        split: if_splits)
  have "length (kept_fields (rs_headers rs) (fr_connection (rs_framing rs))) \<le> length (rs_headers rs)"
    by (simp add: kept_fields_def)
  then show "length (response_fields rs keep_alive legacy) \<le> length (rs_headers rs) + 3"
    by (cases "fr_body (response_framing rs legacy)"; cases "the (fr_body (response_framing rs legacy))")
      (simp_all add: response_fields_def framing_fields_def status_fields_def)
qed


definition sample_response :: response_head where
  "sample_response = \<lparr>rs_status = 200, rs_line = response_line 200 (str ''OK''),
     rs_headers = [(str ''Transfer-Encoding'', str ''chunked''), (str ''Server'', str ''x'')],
     rs_framing = \<lparr>fr_body = Some BodyChunked, fr_connection = {}, fr_trailers = []\<rparr>\<rparr>"

lemma sample_response_parsed:
  "response_parse (join_crlf (status_line False 200 (str ''OK'') # map header_text (rs_headers sample_response))) = Inr sample_response"
proof -
  have framing: "framing_parse (rs_headers sample_response) = Inr (rs_framing sample_response)"
    by (simp add: framing_parse_def framing_body_def header_values_def sample_response_def name_eval)
  have "\<forall>h \<in> set (rs_headers sample_response). good_header h"
    by (auto simp: sample_response_def good_name_def str_def is_token_byte_def is_ascii_alphanumeric_def is_ascii_digit_def
        is_ascii_uppercase_def is_ascii_lowercase_def plain_text_def printable_def intro!: good_header_plain)
  from response_parse_text [OF _ _ _ _ this _ framing, of 200 "str ''OK''" False] show ?thesis
    by (simp add: sample_response_def str_def is_ascii_control_def DEFAULT_HEADER_COUNT_LIMIT_def)
qed


end
