(* ===== verification/Http_Transfer.thy ===== *)
theory Http_Transfer
  imports Http_Framing
begin

text \<open>
  \<^verbatim>\<open>src/inbound/http/framing.rs\<close>, the bodies: copying a body of a known length or until the end of
  the stream, and the chunked coding, which is parsed and written again. A step returns what it has
  written; a read that finds nothing within the idle time is the error \<open>IoTimedOut\<close>. Writes
  succeed: a failed write ends the transfer.
\<close>

definition COPY_BUFFER :: nat where "COPY_BUFFER = 8 * 1024"
definition MAX_CHUNK_LINE :: nat where "MAX_CHUNK_LINE = 1024"
definition MAX_TRAILERS :: nat where "MAX_TRAILERS = 8 * 1024"

section \<open>Copying\<close>

function copy_length :: "nat option \<Rightarrow> read_event list \<Rightarrow> read_event list io" where
  "copy_length remaining es =
     (if remaining = Some 0 then quiet (Inr es)
      else
        (let maximum = (case remaining of None \<Rightarrow> COPY_BUFFER | Some n \<Rightarrow> min n COPY_BUFFER) in
         case es of
           [] \<Rightarrow> quiet (Inl IoTimedOut)
         | ReadFailed e # _ \<Rightarrow> quiet (Inl e)
         | Arrived bs # es' \<Rightarrow>
             if bs = [] then (if remaining = None then quiet (Inr es) else quiet (Inl UnexpectedEof))
             else
               (let read = min maximum (length bs) in
                io_bind (emit (take read bs)) (\<lambda>_.
                copy_length (map_option (\<lambda>n. n - read) remaining) (leftover read bs es')))))"
  by pat_completeness auto
termination
  by (relation "measure (\<lambda>(remaining, es). event_bytes es)")
    (auto simp: leftover_def COPY_BUFFER_def Let_def split: option.splits)

declare copy_length.simps [simp del]

text \<open>\<^verbatim>\<open>read_exact\<close> of a buffer.\<close>

fun stream_exact :: "nat \<Rightarrow> read_event list \<Rightarrow> io_error + bytes \<times> read_event list" where
  "stream_exact n [] = (if n = 0 then Inr ([], []) else Inl IoTimedOut)"
| "stream_exact n (ReadFailed e # es) = (if n = 0 then Inr ([], ReadFailed e # es) else Inl e)"
| "stream_exact n (Arrived bs # es) =
     (if n = 0 then Inr ([], Arrived bs # es)
      else if bs = [] then Inl UnexpectedEof
      else if n \<le> length bs then Inr (take n bs, leftover n bs es)
      else and_then (stream_exact (n - length bs) es) (\<lambda>(w, rest). Inr (bs @ w, rest)))"

section \<open>Chunk lines\<close>

definition trim_bws :: "bytes \<Rightarrow> bytes" where
  "trim_bws bs = dropWhile (\<lambda>b. b = 32 \<or> b = 9) bs"

definition bad_quoted :: "u8 \<Rightarrow> bool" where
  "bad_quoted b \<longleftrightarrow> b \<noteq> 9 \<and> \<not> (32 \<le> b \<and> b \<le> 126) \<and> b < 128"

fun quoted_value :: "bytes \<Rightarrow> io_error + bytes" where
  "quoted_value [] = Inl InvalidData"
| "quoted_value [b] = (if b = 34 then Inr [] else Inl InvalidData)"
| "quoted_value (b # c # rest) =
     (if b = 34 then Inr (c # rest)
      else if b = 92 then (if bad_quoted c then Inl InvalidData else quoted_value rest)
      else if bad_quoted b then Inl InvalidData
      else quoted_value (c # rest))"

lemma quoted_value_shorter: "quoted_value bs = Inr rest \<Longrightarrow> length rest < length bs"
  by (induction bs rule: quoted_value.induct) (auto split: if_splits)

lemma trim_bws_le: "length (trim_bws bs) \<le> length bs"
  by (simp add: trim_bws_def length_dropWhile_le)

text \<open>One extension: a semicolon, a name, and an optional token or quoted value.\<close>

definition chunk_extension :: "bytes \<Rightarrow> io_error + bytes" where
  "chunk_extension rest0 =
     (case trim_bws rest0 of
        b # rest1 \<Rightarrow>
          if b \<noteq> 59 then Inl InvalidData
          else
            let rest2 = trim_bws rest1;
                token = takeWhile is_token_byte rest2;
                rest3 = drop (length token) rest2 in
            if token = [] then Inl InvalidData
            else
              (case trim_bws rest3 of
                 c # value \<Rightarrow>
                   if c = 61 then
                     (case trim_bws value of
                        q # quoted \<Rightarrow>
                          if q = 34 then quoted_value quoted
                          else
                            let token' = takeWhile is_token_byte (q # quoted) in
                            if token' = [] then Inl InvalidData else Inr (drop (length token') (q # quoted))
                      | [] \<Rightarrow> Inl InvalidData)
                   else Inr rest3
               | [] \<Rightarrow> Inr rest3)
      | [] \<Rightarrow> Inl InvalidData)"

lemma chunk_extension_shorter: "chunk_extension bs = Inr rest \<Longrightarrow> length rest < length bs"
proof -
  assume ext: "chunk_extension bs = Inr rest"
  then obtain rest1 where r1: "trim_bws bs = 59 # rest1"
    by (auto simp: chunk_extension_def split: list.splits if_splits)
  define rest3 where "rest3 = drop (length (takeWhile is_token_byte (trim_bws rest1))) (trim_bws rest1)"
  have "length rest1 < length bs"
    using trim_bws_le [of bs] by (simp add: r1)
  moreover have "length rest3 \<le> length rest1"
    using trim_bws_le [of rest1] by (simp add: rest3_def le_diff_conv trans_le_add1)
  moreover have "length rest \<le> length rest3"
  proof (cases "trim_bws rest3")
    case (Cons c v)
    then have v: "length (trim_bws v) \<le> length v" "length v < length rest3"
      using trim_bws_le [of v] trim_bws_le [of rest3] by simp_all
    have "rest = rest3 \<or> (\<exists>q. trim_bws v = 34 # q \<and> quoted_value q = Inr rest) \<or>
        length rest \<le> length (trim_bws v)"
      using ext r1 Cons
      by (auto simp: chunk_extension_def Let_def rest3_def [symmetric] split: if_splits list.splits)
    then show ?thesis
      using v by (auto dest!: quoted_value_shorter)
  qed (use ext r1 in \<open>auto simp: chunk_extension_def Let_def rest3_def [symmetric] split: if_splits\<close>)
  ultimately show ?thesis
    by linarith
qed

function chunk_extensions :: "bytes \<Rightarrow> io_error + unit" where
  "chunk_extensions rest =
     (if rest = [] then Inr ()
      else (case chunk_extension rest of Inl e \<Rightarrow> Inl e | Inr rest' \<Rightarrow> chunk_extensions rest'))"
  by pat_completeness auto
termination
  by (relation "measure length") (auto dest: chunk_extension_shorter)

declare chunk_extensions.simps [simp del]

definition http_chunk_size :: "bytes \<Rightarrow> io_error + nat" where
  "http_chunk_size line =
     (if length line < 2 \<or> drop (length line - 2) line \<noteq> [13, 10] then Inl InvalidData
      else
        let text = take (length line - 2) line;
            digits = takeWhile (is_digit_of 16) text in
        if digits = [] \<or> 16 < length digits then Inl InvalidData
        else if 2 ^ 64 \<le> radix_value 16 digits then Inl InvalidData
        else and_then (chunk_extensions (drop (length digits) text)) (\<lambda>_. Inr (radix_value 16 digits)))"

section \<open>Bodies\<close>

definition emit_unless :: "bool \<Rightarrow> bytes \<Rightarrow> unit io" where
  "emit_unless dechunk bs = (if dechunk then quiet (Inr ()) else emit bs)"

definition trailer_line :: "bytes set \<Rightarrow> bytes \<Rightarrow> io_error + unit" where
  "trailer_line blocklist line =
     (let text = take (length line - 2) line in
      if \<not> utf8_valid text then Inl InvalidData
      else and_then (parse_headers [text]) (\<lambda>headers.
        if forbidden_trailer (fst (headers ! 0)) blocklist then Inl InvalidData else Inr ()))"

function read_trailers :: "bytes set \<Rightarrow> bool \<Rightarrow> nat \<Rightarrow> nat \<Rightarrow> read_event list \<Rightarrow> read_event list io" where
  "read_trailers blocklist dechunk bytes count es =
     (case read_line (MAX_TRAILERS - bytes) es of
        Inl e \<Rightarrow> quiet (Inl e)
      | Inr (line, es') \<Rightarrow>
          if line = [13, 10] then io_bind (emit_unless dechunk [13, 10]) (\<lambda>_. quiet (Inr es'))
          else if 100 < count + 1 then quiet (Inl InvalidData)
          else
            io_bind (quiet (trailer_line blocklist line)) (\<lambda>_.
            io_bind (emit_unless dechunk line) (\<lambda>_.
            read_trailers blocklist dechunk (bytes + length line) (count + 1) es')))"
  by pat_completeness auto
termination
  by (relation "measure (\<lambda>(blocklist, dechunk, bytes, count, es). event_bytes es)") (auto dest: read_line_bytes)

declare read_trailers.simps [simp del]

lemma copy_length_bytes: "copy_length remaining es = (w, Inr es') \<Longrightarrow> event_bytes es' \<le> event_bytes es"
proof (induction remaining es arbitrary: w rule: copy_length.induct)
  case (1 remaining es)
  show ?case
  proof (cases "remaining = Some 0 \<or> (\<exists>e r. es = ReadFailed e # r) \<or> es = [] \<or> (\<exists>r. es = Arrived [] # r)")
    case True
    then show ?thesis
      using 1(2) by (subst (asm) copy_length.simps) (auto simp: quiet_def split: if_splits)
  next
    case False
    then obtain bs r where es: "es = Arrived bs # r" "bs \<noteq> []" and more: "remaining \<noteq> Some 0"
      by (cases es rule: flat.cases) auto
    define n where "n = min (case remaining of None \<Rightarrow> COPY_BUFFER | Some n \<Rightarrow> min n COPY_BUFFER) (length bs)"
    obtain w' where "copy_length (map_option (\<lambda>k. k - n) remaining) (leftover n bs r) = (w', Inr es')"
      using 1(2) es more by (subst (asm) copy_length.simps) (auto simp: n_def Let_def prod_eq_iff)
    from 1(1) [OF more refl es(1) refl es(2) refl, folded n_def, OF _ this] show ?thesis
      using es event_bytes_leftover [of n bs r] by (simp add: n_def emit_def)
  qed
qed

lemma stream_exact_bytes: "stream_exact n es = Inr (w, es') \<Longrightarrow> event_bytes es' \<le> event_bytes es"
  by (induction n es arbitrary: w rule: stream_exact.induct)
    (auto simp: and_then_Inr_iff leftover_def split: if_splits)

function transfer_chunks :: "bytes set \<Rightarrow> bool \<Rightarrow> read_event list \<Rightarrow> read_event list io" where
  "transfer_chunks blocklist dechunk es =
     io_bind (quiet (read_line MAX_CHUNK_LINE es)) (\<lambda>(line, es1).
     io_bind (quiet (http_chunk_size line)) (\<lambda>size.
     io_bind (emit_unless dechunk (radix_str 16 size @ [13, 10])) (\<lambda>_.
     if size = 0 then read_trailers blocklist dechunk 0 0 es1
     else
       io_bind (copy_length (Some size) es1) (\<lambda>es2.
       io_bind (quiet (stream_exact 2 es2)) (\<lambda>(crlf, es3).
       if crlf \<noteq> [13, 10] then quiet (Inl InvalidData)
       else
         io_bind (emit_unless dechunk [13, 10]) (\<lambda>_.
         transfer_chunks blocklist dechunk es3))))))"
  by pat_completeness auto
termination
proof (relation "measure (\<lambda>(blocklist, dechunk, es). event_bytes es)", goal_cases)
  case (2 blocklist dechunk es a line es1 size u es2 b crlf es3 u2)
  have "event_bytes es1 < event_bytes es"
    using 2 by (auto simp: quiet_def dest: read_line_bytes)
  moreover have "event_bytes es2 \<le> event_bytes es1"
    using 2 copy_length_bytes by (metis prod.collapse)
  moreover have "event_bytes es3 \<le> event_bytes es2"
    using 2 by (auto simp: quiet_def dest: stream_exact_bytes)
  ultimately show ?case
    by simp
qed simp

declare transfer_chunks.simps [simp del]

definition transfer_body :: "read_event list \<Rightarrow> http_body \<Rightarrow> bytes set \<Rightarrow> bool \<Rightarrow> read_event list io" where
  "transfer_body es body blocklist dechunk =
     (case body of
        BodyEmpty \<Rightarrow> quiet (Inr es)
      | BodyLength n \<Rightarrow> copy_length (Some n) es
      | BodyUntilEof \<Rightarrow> copy_length None es
      | BodyChunked \<Rightarrow> transfer_chunks blocklist dechunk es)"

section \<open>The copies, on what the stream delivers\<close>

definition copy_step :: "nat option \<Rightarrow> bytes \<Rightarrow> nat" where
  "copy_step remaining bs = min (case remaining of None \<Rightarrow> COPY_BUFFER | Some n \<Rightarrow> min n COPY_BUFFER) (length bs)"

lemma copy_step_bounds:
  "remaining \<noteq> Some 0 \<Longrightarrow> bs \<noteq> [] \<Longrightarrow> 0 < copy_step remaining bs \<and> copy_step remaining bs \<le> length bs \<and>
   (\<forall>n. remaining = Some n \<longrightarrow> copy_step remaining bs \<le> n)"
  by (auto simp: copy_step_def COPY_BUFFER_def split: option.splits)

lemma copy_length_steps:
  "copy_length (Some 0) es = ([], Inr es)"
  "remaining \<noteq> Some 0 \<Longrightarrow> copy_length remaining [] = ([], Inl IoTimedOut)"
  "remaining \<noteq> Some 0 \<Longrightarrow> copy_length remaining (ReadFailed e # es) = ([], Inl e)"
  "copy_length None (Arrived [] # es) = ([], Inr (Arrived [] # es))"
  "n \<noteq> 0 \<Longrightarrow> copy_length (Some n) (Arrived [] # es) = ([], Inl UnexpectedEof)"
  "remaining \<noteq> Some 0 \<Longrightarrow> bs \<noteq> [] \<Longrightarrow> copy_length remaining (Arrived bs # es) =
     (let n = copy_step remaining bs; rest = copy_length (map_option (\<lambda>k. k - n) remaining) (leftover n bs es) in
      (take n bs @ fst rest, snd rest))"
  by (subst copy_length.simps; simp add: quiet_def copy_step_def Let_def)+

lemma copy_length_next:
  assumes "remaining \<noteq> Some 0" "bs \<noteq> []"
  obtains k r' where "0 < k" "k \<le> length bs" "\<forall>n. remaining = Some n \<longrightarrow> k \<le> n"
    "event_bytes r' < event_bytes (Arrived bs # r)"
    "flat (Arrived bs # r) = (take k bs @ fst (flat r'), snd (flat r'))"
    "copy_length remaining (Arrived bs # r) =
       (take k bs @ fst (copy_length (map_option (\<lambda>n. n - k) remaining) r'),
        snd (copy_length (map_option (\<lambda>n. n - k) remaining) r'))"
proof
  let ?k = "copy_step remaining bs"
  show k: "0 < ?k" "?k \<le> length bs" "\<forall>n. remaining = Some n \<longrightarrow> ?k \<le> n"
    using copy_step_bounds [OF assms] by auto
  show "event_bytes (leftover ?k bs r) < event_bytes (Arrived bs # r)"
    using event_bytes_leftover [of ?k bs r] k by simp
  show "flat (Arrived bs # r) = (take ?k bs @ fst (flat (leftover ?k bs r)), snd (flat (leftover ?k bs r)))"
    using assms(2) by (simp add: flat_leftover)
  show "copy_length remaining (Arrived bs # r) =
       (take ?k bs @ fst (copy_length (map_option (\<lambda>n. n - ?k) remaining) (leftover ?k bs r)),
        snd (copy_length (map_option (\<lambda>n. n - ?k) remaining) (leftover ?k bs r)))"
    using assms by (simp add: copy_length_steps(6) Let_def)
qed

lemma copy_length_enough:
  assumes "n \<le> length (fst (flat es))"
  shows "\<exists>es'. copy_length (Some n) es = (take n (fst (flat es)), Inr es') \<and> flat es' = (drop n (fst (flat es)), snd (flat es))"
  using assms
proof (induction "event_bytes es" arbitrary: n es rule: less_induct)
  case less
  show ?case
  proof (cases "n = 0")
    case False
    then obtain bs r where es: "es = Arrived bs # r" "bs \<noteq> []"
      using less.prems by (cases es rule: flat.cases) (auto split: if_splits)
    from False have "Some n \<noteq> Some 0"
      by simp
    then obtain k r' where "0 < k" and k: "k \<le> length bs" "\<forall>m. Some n = Some m \<longrightarrow> k \<le> m"
        "event_bytes r' < event_bytes (Arrived bs # r)"
        "flat (Arrived bs # r) = (take k bs @ fst (flat r'), snd (flat r'))"
        "copy_length (Some n) (Arrived bs # r) =
          (take k bs @ fst (copy_length (map_option (\<lambda>n. n - k) (Some n)) r'),
           snd (copy_length (map_option (\<lambda>n. n - k) (Some n)) r'))"
      by (rule copy_length_next [OF _ es(2)])
    have "n - k \<le> length (fst (flat r'))"
      using less.prems k(1,2,4) es(1) by (simp del: flat.simps)
    from less.hyps [OF k(3) [folded es(1)] this] show ?thesis
      using k(1,2,4,5) by (auto simp: es(1) simp del: flat.simps)
  qed (simp add: copy_length_steps)
qed

lemma copy_length_short:
  assumes "length (fst (flat es)) < n"
  shows "copy_length (Some n) es = (fst (flat es), Inl (end_error (snd (flat es))))"
  using assms
proof (induction "event_bytes es" arbitrary: n es rule: less_induct)
  case less
  show ?case
  proof (cases es rule: flat.cases)
    case (3 bs r)
    show ?thesis
    proof (cases "bs = []")
      case False
      have "Some n \<noteq> Some 0"
        using less.prems by simp
      then obtain k r' where "0 < k" and k: "k \<le> length bs" "\<forall>m. Some n = Some m \<longrightarrow> k \<le> m"
        "event_bytes r' < event_bytes (Arrived bs # r)"
        "flat (Arrived bs # r) = (take k bs @ fst (flat r'), snd (flat r'))"
        "copy_length (Some n) (Arrived bs # r) =
          (take k bs @ fst (copy_length (map_option (\<lambda>n. n - k) (Some n)) r'),
           snd (copy_length (map_option (\<lambda>n. n - k) (Some n)) r'))"
        by (rule copy_length_next [OF _ False])
      have "length (fst (flat r')) < n - k"
        using less.prems k(1,2,4) 3 by (simp del: flat.simps)
      from less.hyps [OF k(3) [folded 3] this] show ?thesis
        using k(4,5) by (simp add: 3 del: flat.simps)
    qed (use less.prems 3 in \<open>simp add: copy_length_steps\<close>)
  qed (use less.prems in \<open>simp_all add: copy_length_steps\<close>)
qed

lemma copy_length_none:
  "fst (copy_length None es) = fst (flat es) \<and>
   (if snd (flat es) = EndOfInput then \<exists>es'. snd (copy_length None es) = Inr es' \<and> flat es' = ([], EndOfInput)
    else snd (copy_length None es) = Inl (end_error (snd (flat es))))"
proof (induction "event_bytes es" arbitrary: es rule: less_induct)
  case less
  show ?case
  proof (cases es rule: flat.cases)
    case (3 bs r)
    show ?thesis
    proof (cases "bs = []")
      case False
      have "None \<noteq> Some (0 :: nat)"
        by simp
      then obtain k r' where "0 < k" and k: "k \<le> length bs" "\<forall>m. None = Some m \<longrightarrow> k \<le> m"
        "event_bytes r' < event_bytes (Arrived bs # r)"
        "flat (Arrived bs # r) = (take k bs @ fst (flat r'), snd (flat r'))"
        "copy_length (None) (Arrived bs # r) =
          (take k bs @ fst (copy_length (map_option (\<lambda>n. n - k) (None)) r'),
           snd (copy_length (map_option (\<lambda>n. n - k) (None)) r'))"
        by (rule copy_length_next [OF _ False])
      from less.hyps [OF k(3) [folded 3]] show ?thesis
        using k(4,5) by (simp add: 3 del: flat.simps)
    qed (use 3 in \<open>simp add: copy_length_steps\<close>)
  qed (simp_all add: copy_length_steps)
qed

lemma stream_exact_flat:
  "n \<le> length (fst (flat es)) \<Longrightarrow>
   \<exists>es'. stream_exact n es = Inr (take n (fst (flat es)), es') \<and> flat es' = (drop n (fst (flat es)), snd (flat es))"
  by (induction n es rule: stream_exact.induct) (auto simp: flat_leftover and_then_Inr_iff)

lemma stream_exact_short:
  "length (fst (flat es)) < n \<Longrightarrow> stream_exact n es = Inl (end_error (snd (flat es)))"
  by (induction n es rule: stream_exact.induct) (auto split: if_splits)

lemma stream_exact_Inr:
  assumes "stream_exact n es = Inr (w, es')"
  shows "length w = n \<and> flat es = (w @ fst (flat es'), snd (flat es'))"
proof (cases "n \<le> length (fst (flat es))")
  case True
  from stream_exact_flat [OF this] assms show ?thesis
    using True by (auto simp: prod_eq_iff)
next
  case False
  then show ?thesis
    using stream_exact_short [of es n] assms by simp
qed

lemma copy_length_Inr:
  assumes "copy_length (Some n) es = (w, Inr es')"
  shows "length w = n \<and> flat es = (w @ fst (flat es'), snd (flat es'))"
proof (cases "n \<le> length (fst (flat es))")
  case True
  from copy_length_enough [OF this] assms show ?thesis
    using True by (auto simp: prod_eq_iff)
next
  case False
  then show ?thesis
    using copy_length_short [of es n] assms by simp
qed

section \<open>Chunks read back\<close>

lemma http_chunk_size_bound: "http_chunk_size line = Inr n \<Longrightarrow> n < 2 ^ 64"
  by (auto simp: http_chunk_size_def Let_def and_then_Inr_iff split: if_splits)

lemma hex_line: "10 \<notin> set (radix_str 16 n)"
proof -
  have "\<not> is_digit_of 16 10"
    by (simp add: is_digit_of_def to_digit_def digit_value_def is_ascii_digit_def)
  then show ?thesis
    using radix_str_digits [of 16 n] by (auto simp: list_all_iff)
qed

lemma hex_length: "n < 2 ^ 64 \<Longrightarrow> length (radix_str 16 n) \<le> 16"
  using radix_str_length [of 16 n 15] by simp

lemma http_chunk_size_hex: "n < 2 ^ 64 \<Longrightarrow> http_chunk_size (radix_str 16 n @ [13, 10]) = Inr n"
proof -
  assume n: "n < 2 ^ 64"
  have digits: "takeWhile (is_digit_of 16) (radix_str 16 n) = radix_str 16 n"
    using takeWhile_digits [of 16 "radix_str 16 n" "[]"] radix_str_digits [of 16 n] by simp
  show ?thesis
    using n hex_length [OF n] radix_str_digits [of 16 n]
    by (simp add: http_chunk_size_def Let_def digits chunk_extensions.simps)
qed

text \<open>
  The bytes \<open>out\<close> are a chunked body for \<open>payload\<close>: whatever follows them, and however they are
  cut into buffers, a reader with the same rules gets \<open>payload\<close> and stops right after them.
\<close>

definition decodes :: "(read_event list \<Rightarrow> read_event list io) \<Rightarrow> bytes \<Rightarrow> bytes \<Rightarrow> bool" where
  "decodes reader out payload \<longleftrightarrow>
     (\<forall>fs rest. fst (flat fs) = out @ rest \<longrightarrow>
        (\<exists>fs'. reader fs = (payload, Inr fs') \<and> flat fs' = (rest, snd (flat fs))))"

lemma emit_unless_Inr: "emit_unless dechunk bs = ((if dechunk then [] else bs), Inr ())"
  by (simp add: emit_unless_def quiet_def emit_def)

lemma read_trailers_parts:
  assumes "read_trailers blocklist dechunk bytes count es = (out, Inr es')"
  obtains line es1 where "read_line (MAX_TRAILERS - bytes) es = Inr (line, es1)"
    "(line = [13, 10] \<and> es' = es1 \<and> out = (if dechunk then [] else [13, 10])) \<or>
     (\<exists>out'. line \<noteq> [13, 10] \<and> count < 100 \<and> trailer_line blocklist line = Inr () \<and>
       out = (if dechunk then [] else line) @ out' \<and>
       read_trailers blocklist dechunk (bytes + length line) (count + 1) es1 = (out', Inr es'))"
proof -
  from assms obtain line es1 where line: "read_line (MAX_TRAILERS - bytes) es = Inr (line, es1)"
    by (subst (asm) read_trailers.simps) (auto simp: quiet_def split: sum.splits)
  from assms [unfolded read_trailers.simps [of blocklist dechunk bytes count es] line] show ?thesis
    by (intro that [OF line]) (auto simp: io_bind_Inr_iff emit_unless_Inr quiet_Inr_iff simp del: io_bind_simps split: if_splits)
qed

lemma read_trailers_end:
  "read_line (MAX_TRAILERS - bytes) es = Inr ([13, 10], es1) \<Longrightarrow>
   read_trailers blocklist True bytes count es = ([], Inr es1)"
  by (subst read_trailers.simps) (simp add: emit_unless_Inr quiet_def)

lemma read_trailers_more:
  "read_line (MAX_TRAILERS - bytes) es = Inr (line, es1) \<Longrightarrow> line \<noteq> [13, 10] \<Longrightarrow> count < 100 \<Longrightarrow>
   trailer_line blocklist line = Inr () \<Longrightarrow>
   read_trailers blocklist True bytes count es = read_trailers blocklist True (bytes + length line) (count + 1) es1"
  by (subst read_trailers.simps) (simp add: emit_unless_Inr quiet_def)

lemma read_trailers_again:
  assumes "read_trailers blocklist False bytes count es = (out, Inr es')"
  shows "read_trailers blocklist True bytes count es = ([], Inr es') \<and>
    decodes (read_trailers blocklist True bytes count) out []"
  using assms
proof (induction blocklist "False" bytes count es arbitrary: out rule: read_trailers.induct)
  case (1 blocklist bytes count es)
  from 1(2) obtain line es1 where line: "read_line (MAX_TRAILERS - bytes) es = Inr (line, es1)"
    and alt: "(line = [13, 10] \<and> es' = es1 \<and> out = [13, 10]) \<or>
      (\<exists>out'. line \<noteq> [13, 10] \<and> count < 100 \<and> trailer_line blocklist line = Inr () \<and> out = line @ out' \<and>
       read_trailers blocklist False (bytes + length line) (count + 1) es1 = (out', Inr es'))"
    by (rule read_trailers_parts) auto
  from line obtain w where w: "line = w @ [13, 10]" "10 \<notin> set w" "length line \<le> MAX_TRAILERS - bytes"
    by (rule read_line_Inr)
  have again: "\<exists>fs'. read_line (MAX_TRAILERS - bytes) fs = Inr (line, fs') \<and> flat fs' = (rest, snd (flat fs))"
    if "fst (flat fs) = line @ rest" for fs rest
    using read_line_line [of fs w rest "MAX_TRAILERS - bytes"] that w by simp
  from alt show ?case
  proof (elim disjE exE conjE)
    assume "line = [13, 10]" "es' = es1" "out = [13, 10]"
    then show ?thesis
      using read_trailers_end line again by (simp add: decodes_def) metis
  next
    fix out' assume more: "line \<noteq> [13, 10]" "count < 100" "trailer_line blocklist line = Inr ()" "out = line @ out'"
      "read_trailers blocklist False (bytes + length line) (count + 1) es1 = (out', Inr es')"
    have IH: "read_trailers blocklist True (bytes + length line) (count + 1) es1 = ([], Inr es') \<and>
        decodes (read_trailers blocklist True (bytes + length line) (count + 1)) out' []"
      using 1(1) [OF line refl more(1) _ _ _ more(5)] more by (simp add: quiet_def emit_unless_Inr)
    have "\<exists>fs'. read_trailers blocklist True bytes count fs = ([], Inr fs') \<and> flat fs' = (rest, snd (flat fs))"
      if fs: "fst (flat fs) = out @ rest" for fs rest
    proof -
      obtain f1 where f1: "read_line (MAX_TRAILERS - bytes) fs = Inr (line, f1)" "flat f1 = (out' @ rest, snd (flat fs))"
        using again [of fs "out' @ rest"] fs more(4) by auto
      then obtain fs' where "read_trailers blocklist True (bytes + length line) (count + 1) f1 = ([], Inr fs')" "flat fs' = (rest, snd (flat fs))"
        using IH [THEN conjunct2, unfolded decodes_def, rule_format, of f1 rest] by auto
      then show ?thesis
        using read_trailers_more [OF f1(1) more(1-3)] by auto
    qed
    then show ?thesis
      using read_trailers_more [OF line more(1-3)] IH by (simp add: decodes_def)
  qed
qed

lemma transfer_chunks_parts:
  assumes "transfer_chunks blocklist dechunk es = (out, Inr es')"
  obtains line es1 sz out1 where "read_line MAX_CHUNK_LINE es = Inr (line, es1)" "http_chunk_size line = Inr sz"
    "out = (if dechunk then [] else radix_str 16 sz @ [13, 10]) @ out1"
    "(sz = 0 \<and> read_trailers blocklist dechunk 0 0 es1 = (out1, Inr es')) \<or>
     (\<exists>w es2 es3 out2. sz \<noteq> 0 \<and> copy_length (Some sz) es1 = (w, Inr es2) \<and> stream_exact 2 es2 = Inr ([13, 10], es3) \<and>
       out1 = w @ (if dechunk then [] else [13, 10]) @ out2 \<and> transfer_chunks blocklist dechunk es3 = (out2, Inr es'))"
proof -
  note steps = transfer_chunks.simps [of blocklist dechunk es]
  from assms [unfolded steps] obtain line es1 where line: "read_line MAX_CHUNK_LINE es = Inr (line, es1)"
    by (auto simp: io_bind_Inr_iff quiet_Inr_iff)
  from assms [unfolded steps line] obtain sz where sz: "http_chunk_size line = Inr sz"
    by (auto simp: io_bind_Inr_iff quiet_Inr_iff)
  show ?thesis
  proof (cases "sz = 0")
    case True
    with assms [unfolded steps line] sz show ?thesis
      by (auto simp: io_bind_Inr_iff emit_unless_Inr quiet_Inr_iff simp del: io_bind_simps intro: that [OF line sz])
  next
    case False
    with assms [unfolded steps line] sz show ?thesis
      by (auto simp: io_bind_Inr_iff emit_unless_Inr quiet_Inr_iff simp del: io_bind_simps intro!: that [OF line sz] split: if_splits)
  qed
qed

lemma transfer_chunks_last:
  "read_line MAX_CHUNK_LINE es = Inr (line, es1) \<Longrightarrow> http_chunk_size line = Inr 0 \<Longrightarrow>
   transfer_chunks blocklist True es = read_trailers blocklist True 0 0 es1"
  by (subst transfer_chunks.simps) (simp add: emit_unless_Inr)

lemma transfer_chunks_more:
  "read_line MAX_CHUNK_LINE es = Inr (line, es1) \<Longrightarrow> http_chunk_size line = Inr sz \<Longrightarrow> sz \<noteq> 0 \<Longrightarrow>
   copy_length (Some sz) es1 = (w, Inr es2) \<Longrightarrow> stream_exact 2 es2 = Inr ([13, 10], es3) \<Longrightarrow>
   transfer_chunks blocklist True es3 = (out, Inr es') \<Longrightarrow> transfer_chunks blocklist True es = (w @ out, Inr es')"
  by (subst transfer_chunks.simps) (simp add: emit_unless_Inr)

text \<open>One chunk and what follows it.\<close>

lemma decodes_chunk:
  assumes "0 < sz" "sz < 2 ^ 64" "length w = sz" "decodes (transfer_chunks blocklist True) out payload"
  shows "decodes (transfer_chunks blocklist True) (radix_str 16 sz @ 13 # 10 # w @ 13 # 10 # out) (w @ payload)"
  unfolding decodes_def
proof (intro allI impI)
  fix fs rest assume fs: "fst (flat fs) = (radix_str 16 sz @ 13 # 10 # w @ 13 # 10 # out) @ rest"
  have "length (radix_str 16 sz) + 2 \<le> MAX_CHUNK_LINE"
    using hex_length [OF assms(2)] by (simp add: MAX_CHUNK_LINE_def)
  then obtain f1 where f1: "read_line MAX_CHUNK_LINE fs = Inr (radix_str 16 sz @ [13, 10], f1)"
      "flat f1 = (w @ 13 # 10 # out @ rest, snd (flat fs))"
    using read_line_line [of fs "radix_str 16 sz" "w @ 13 # 10 # out @ rest" MAX_CHUNK_LINE] fs hex_line by auto
  then obtain f2 where f2: "copy_length (Some sz) f1 = (w, Inr f2)" "flat f2 = (13 # 10 # out @ rest, snd (flat fs))"
    using copy_length_enough [of sz f1] assms(3) by auto
  then obtain f3 where f3: "stream_exact 2 f2 = Inr ([13, 10], f3)" "flat f3 = (out @ rest, snd (flat fs))"
    using stream_exact_flat [of 2 f2] by auto
  obtain fs' where "transfer_chunks blocklist True f3 = (payload, Inr fs')" "flat fs' = (rest, snd (flat fs))"
    using assms(4) [unfolded decodes_def, rule_format, of f3 rest] f3(2) by auto
  then show "\<exists>fs'. transfer_chunks blocklist True fs = (w @ payload, Inr fs') \<and> flat fs' = (rest, snd (flat fs))"
    using transfer_chunks_more [OF f1(1) http_chunk_size_hex [OF assms(2)] _ f2(1) f3(1)] assms(1) by auto
qed

lemma decodes_last:
  assumes "decodes (read_trailers blocklist True 0 0) out []"
  shows "decodes (transfer_chunks blocklist True) (radix_str 16 0 @ 13 # 10 # out) []"
  unfolding decodes_def
proof (intro allI impI)
  fix fs rest assume fs: "fst (flat fs) = (radix_str 16 0 @ 13 # 10 # out) @ rest"
  have "length (radix_str 16 0) + 2 \<le> MAX_CHUNK_LINE"
    using hex_length [of 0] by (simp add: MAX_CHUNK_LINE_def)
  then obtain f1 where f1: "read_line MAX_CHUNK_LINE fs = Inr (radix_str 16 0 @ [13, 10], f1)"
      "flat f1 = (out @ rest, snd (flat fs))"
    using read_line_line [of fs "radix_str 16 0" "out @ rest" MAX_CHUNK_LINE] fs hex_line by auto
  obtain fs' where "read_trailers blocklist True 0 0 f1 = ([], Inr fs')" "flat fs' = (rest, snd (flat fs))"
    using assms [unfolded decodes_def, rule_format, of f1 rest] f1(2) by auto
  then show "\<exists>fs'. transfer_chunks blocklist True fs = ([], Inr fs') \<and> flat fs' = (rest, snd (flat fs))"
    using transfer_chunks_last [OF f1(1) http_chunk_size_hex] by auto
qed

lemma transfer_chunks_again:
  assumes "transfer_chunks blocklist False es = (out, Inr es')"
  shows "\<exists>payload. transfer_chunks blocklist True es = (payload, Inr es') \<and>
    decodes (transfer_chunks blocklist True) out payload"
  using assms
proof (induction "event_bytes es" arbitrary: es out rule: less_induct)
  case less
  from less.prems obtain line es1 sz out1 where line: "read_line MAX_CHUNK_LINE es = Inr (line, es1)"
    and sz: "http_chunk_size line = Inr sz" and out: "out = radix_str 16 sz @ [13, 10] @ out1"
    and alt: "(sz = 0 \<and> read_trailers blocklist False 0 0 es1 = (out1, Inr es')) \<or>
      (\<exists>w es2 es3 out2. sz \<noteq> 0 \<and> copy_length (Some sz) es1 = (w, Inr es2) \<and> stream_exact 2 es2 = Inr ([13, 10], es3) \<and>
       out1 = w @ [13, 10] @ out2 \<and> transfer_chunks blocklist False es3 = (out2, Inr es'))"
    by (rule transfer_chunks_parts) auto
  from alt show ?case
  proof (elim disjE exE conjE)
    assume last: "sz = 0" "read_trailers blocklist False 0 0 es1 = (out1, Inr es')"
    note again = read_trailers_again [OF last(2)]
    have "transfer_chunks blocklist True es = ([], Inr es')"
      using transfer_chunks_last [OF line] sz last(1) again by simp
    moreover have "decodes (transfer_chunks blocklist True) out []"
      using decodes_last [OF again [THEN conjunct2]] out last(1) by simp
    ultimately show ?thesis
      by blast
  next
    fix w es2 es3 out2
    assume more: "sz \<noteq> 0" "copy_length (Some sz) es1 = (w, Inr es2)" "stream_exact 2 es2 = Inr ([13, 10], es3)"
      "out1 = w @ [13, 10] @ out2" "transfer_chunks blocklist False es3 = (out2, Inr es')"
    have "event_bytes es3 < event_bytes es"
      using read_line_bytes [OF line] copy_length_bytes [OF more(2)] stream_exact_bytes [OF more(3)] by simp
    from less.hyps [OF this more(5)] obtain payload where p: "transfer_chunks blocklist True es3 = (payload, Inr es')"
        "decodes (transfer_chunks blocklist True) out2 payload"
      by blast
    have "transfer_chunks blocklist True es = (w @ payload, Inr es')"
      by (rule transfer_chunks_more [OF line sz more(1-3) p(1)])
    moreover have "decodes (transfer_chunks blocklist True) out (w @ payload)"
      using decodes_chunk [OF _ http_chunk_size_bound [OF sz] _ p(2), of w] copy_length_Inr [OF more(2)] more(1,4) out by simp
    ultimately show ?thesis
      by blast
  qed
qed

section \<open>Every framing\<close>

text \<open>The chunks of a body as a sender writes them are decoded to its bytes.\<close>

definition chunk_text :: "bytes list \<Rightarrow> bytes" where
  "chunk_text chunks =
     concat (map (\<lambda>w. radix_str 16 (length w) @ 13 # 10 # w @ [13, 10]) chunks) @ radix_str 16 0 @ [13, 10, 13, 10]"

lemma decodes_chunk_text:
  assumes "\<forall>w \<in> set chunks. w \<noteq> [] \<and> length w < 2 ^ 64"
  shows "decodes (transfer_chunks blocklist True) (chunk_text chunks) (concat chunks)"
  using assms
proof (induction chunks)
  case Nil
  have "decodes (read_trailers blocklist True 0 0) [13, 10] []"
    unfolding decodes_def
  proof (intro allI impI)
    fix fs rest assume "fst (flat fs) = [13, 10] @ rest"
    then obtain f1 where "read_line (MAX_TRAILERS - 0) fs = Inr ([13, 10], f1)" "flat f1 = (rest, snd (flat fs))"
      using read_line_line [of fs "[]" rest "MAX_TRAILERS - 0"] by (auto simp: MAX_TRAILERS_def)
    then show "\<exists>fs'. read_trailers blocklist True 0 0 fs = ([], Inr fs') \<and> flat fs' = (rest, snd (flat fs))"
      using read_trailers_end by blast
  qed
  from decodes_last [OF this] show ?case
    by (simp add: chunk_text_def)
next
  case (Cons w chunks)
  then have "decodes (transfer_chunks blocklist True) (chunk_text chunks) (concat chunks)"
    by simp
  from decodes_chunk [OF _ _ refl this, of w] show ?case
    using Cons.prems by (simp add: chunk_text_def)
qed



end
