(* ===== verification/Proxy_Auth.thy ===== *)
theory Proxy_Auth
  imports Http_Framing
begin

text \<open>
  \<^verbatim>\<open>src/config/credentials.rs\<close>: the credentials of the client-facing proxies, their constant-time
  comparison and the check of an HTTP \<^verbatim>\<open>Proxy-Authorization\<close> field. The engine of the \<^verbatim>\<open>base64\<close>
  crate is the parameters \<^verbatim>\<open>encode\<close> and \<^verbatim>\<open>decode\<close>, None for an error.
\<close>

unbundle bit_operations_syntax

record proxy_credentials =
  pc_username :: bytes
  pc_password :: bytes

definition credentials_new :: "bytes \<Rightarrow> bytes \<Rightarrow> io_error + proxy_credentials" where
  "credentials_new username password =
     (if \<not> (1 \<le> length username \<and> length username \<le> 255) \<or> \<not> (1 \<le> length password \<and> length password \<le> 255)
      then Inl InvalidInput
      else if 58 \<in> set username then Inl InvalidInput
      else Inr \<lparr>pc_username = username, pc_password = password\<rparr>)"

definition slot :: "bytes \<Rightarrow> nat \<Rightarrow> u8" where
  "slot bs i = unwrap_or (get_at bs i) 0"

definition difference_step :: "proxy_credentials \<Rightarrow> bytes \<Rightarrow> bytes \<Rightarrow> nat \<Rightarrow> u64 \<Rightarrow> u64" where
  "difference_step c username password i difference =
     difference OR ucast (slot username i XOR slot (pc_username c) i)
       OR ucast (slot password i XOR slot (pc_password c) i)"

definition credentials_match :: "proxy_credentials \<Rightarrow> bytes \<Rightarrow> bytes \<Rightarrow> bool" where
  "credentials_match c username password \<longleftrightarrow>
     (let difference =
        (of_nat (length username) XOR of_nat (length (pc_username c)) :: u64)
          OR (of_nat (length password) XOR of_nat (length (pc_password c))) in
      fold (difference_step c username password) [0..<255] difference = 0)"

definition authorization_header_value :: "(bytes \<Rightarrow> bytes) \<Rightarrow> proxy_credentials \<Rightarrow> bytes" where
  "authorization_header_value encode c = str ''Basic '' @ encode (pc_username c @ 58 # pc_password c)"

definition is_ascii_whitespace :: "u8 \<Rightarrow> bool" where
  "is_ascii_whitespace b \<longleftrightarrow> b = 32 \<or> b = 9 \<or> b = 10 \<or> b = 12 \<or> b = 13"

text \<open>\<^verbatim>\<open>split_ascii_whitespace\<close>: the maximal runs of other bytes.\<close>

fun whitespace_fields :: "bytes \<Rightarrow> bytes list" where
  "whitespace_fields [] = [[]]"
| "whitespace_fields (b # bs) =
     (if is_ascii_whitespace b then [] # whitespace_fields bs
      else (case whitespace_fields bs of w # ws \<Rightarrow> (b # w) # ws | [] \<Rightarrow> [[b]]))"

definition split_ascii_whitespace :: "bytes \<Rightarrow> bytes list" where
  "split_ascii_whitespace bs = filter (\<lambda>w. w \<noteq> []) (whitespace_fields bs)"

definition credentials_verify :: "(bytes \<Rightarrow> bytes option) \<Rightarrow> proxy_credentials \<Rightarrow> header list \<Rightarrow> bool" where
  "credentials_verify decode c headers =
     (case header_values headers (str ''proxy-authorization'') of
        [field] \<Rightarrow>
          (case split_ascii_whitespace field of
             [scheme, encoded] \<Rightarrow>
               if \<not> eq_ignore_ascii_case scheme (str ''basic'') \<or> 684 < length encoded then False
               else
                 (case decode encoded of
                    None \<Rightarrow> False
                  | Some decoded \<Rightarrow>
                      (case position (\<lambda>b. b = 58) decoded of
                         None \<Rightarrow> False
                       | Some i \<Rightarrow> credentials_match c (take i decoded) (drop (i + 1) decoded)))
           | _ \<Rightarrow> False)
      | _ \<Rightarrow> False)"

section \<open>The comparison is equality\<close>

lemma xor_zero: "(a :: 'w :: len word) XOR b = 0 \<longleftrightarrow> a = b"
  by (metis xor.assoc xor.right_neutral xor_self_eq)

lemma ucast_zero: "(ucast (x :: u8) :: u64) = 0 \<longleftrightarrow> x = 0"
proof
  assume "(ucast x :: u64) = 0"
  then have "bit (ucast x :: u64) n = False" for n
    by simp
  then show "x = 0"
    by (intro bit_word_eqI) (auto simp: bit_simps)
qed simp

lemma fold_difference:
  "fold (difference_step c username password) is d = 0 \<longleftrightarrow>
   d = 0 \<and> (\<forall>i \<in> set is. slot username i = slot (pc_username c) i \<and> slot password i = slot (pc_password c) i)"
  by (induction "is" arbitrary: d) (auto simp: difference_step_def or_eq_0_iff ucast_zero xor_zero)

lemma slots_equal:
  assumes "length a = length b" "length b \<le> 255" "\<forall>i \<in> {0..<255}. slot a i = slot b i"
  shows "a = b"
proof (rule nth_equalityI [OF assms(1)])
  fix i assume "i < length a"
  then show "a ! i = b ! i"
    using assms by (auto simp: slot_def get_at_def dest!: bspec [of _ _ i])
qed

lemma length_word:
  assumes "length a \<le> usize_max" "length b \<le> 255"
  shows "(of_nat (length a) :: u64) = of_nat (length b) \<longleftrightarrow> length a = length b"
proof -
  have "unat (of_nat (length a) :: u64) = length a" "unat (of_nat (length b) :: u64) = length b"
    using assms by (simp_all add: unsigned_of_nat take_bit_nat_eq_self usize_max_def)
  then show ?thesis
    by metis
qed

lemma credentials_match_iff:
  assumes "credentials_new user pass = Inr c" "length username \<le> usize_max" "length password \<le> usize_max"
  shows "credentials_match c username password \<longleftrightarrow> username = user \<and> password = pass"
proof -
  have c: "pc_username c = user" "pc_password c = pass" "length user \<le> 255" "length pass \<le> 255"
    using assms(1) by (auto simp: credentials_new_def split: if_splits)
  then show ?thesis
    using length_word [OF assms(2), of user] length_word [OF assms(3), of pass]
      slots_equal [of username user] slots_equal [of password pass]
    by (auto simp: credentials_match_def Let_def fold_difference or_eq_0_iff xor_zero)
qed

lemma split_unique: "(c :: u8) \<notin> set a \<Longrightarrow> c \<notin> set a' \<Longrightarrow> a @ c # b = a' @ c # b' \<longleftrightarrow> a = a' \<and> b = b'"
  using split_once_Some [of c "a @ c # b" a b] split_once_Some [of c "a @ c # b" a' b'] by auto

lemma credentials_split:
  assumes "credentials_new user pass = Inr c" "length bs \<le> 684"
  shows "(case position (\<lambda>b. b = 58) bs of None \<Rightarrow> False
      | Some i \<Rightarrow> credentials_match c (take i bs) (drop (i + 1) bs)) \<longleftrightarrow> bs = user @ 58 # pass"
proof (cases "position (\<lambda>b. b = 58) bs")
  case None
  then have "58 \<notin> set bs"
    using position_None [of "\<lambda>b. b = 58" bs] by blast
  then show ?thesis
    using None by auto
next
  case (Some i)
  have user: "58 \<notin> set user"
    using assms(1) by (auto simp: credentials_new_def split: if_splits)
  have i: "i < length bs" "bs ! i = 58" "\<forall>j < i. bs ! j \<noteq> 58"
    using position_Some [OF Some] by auto
  then have "bs = take i bs @ 58 # drop (i + 1) bs"
    using id_take_nth_drop [of i bs] by simp
  moreover have "58 \<notin> set (take i bs)"
    using i by (auto simp: in_set_conv_nth)
  ultimately have "bs = user @ 58 # pass \<longleftrightarrow> take i bs = user \<and> drop (i + 1) bs = pass"
    using user split_unique by metis
  moreover have "length (take i bs) \<le> usize_max" "length (drop (i + 1) bs) \<le> usize_max"
    using assms(2) by (simp_all add: usize_max_def)
  ultimately show ?thesis
    using Some credentials_match_iff [OF assms(1), of "take i bs" "drop (i + 1) bs"] by simp
qed

lemma credentials_verify_iff:
  assumes "credentials_new user pass = Inr c"
    and "\<And>text bs. decode text = Some bs \<Longrightarrow> length bs \<le> length text"
  shows "credentials_verify decode c headers \<longleftrightarrow>
      (\<exists>field scheme encoded. header_values headers (str ''proxy-authorization'') = [field] \<and>
         split_ascii_whitespace field = [scheme, encoded] \<and> eq_ignore_ascii_case scheme (str ''basic'') \<and>
         length encoded \<le> 684 \<and> decode encoded = Some (user @ 58 # pass))"
proof -
  have decoded: "(case decode e of None \<Rightarrow> False | Some bs \<Rightarrow> (case position (\<lambda>b. b = 58) bs of None \<Rightarrow> False
      | Some i \<Rightarrow> credentials_match c (take i bs) (drop (i + 1) bs))) \<longleftrightarrow> decode e = Some (user @ 58 # pass)"
    if "length e \<le> 684" for e
  proof (cases "decode e")
    case (Some bs)
    then have "length bs \<le> 684"
      using assms(2) [OF Some] that by simp
    then show ?thesis
      using credentials_split [OF assms(1)] Some by simp
  qed simp
  have step: "(if \<not> eq_ignore_ascii_case s (str ''basic'') \<or> 684 < length e then False
      else case decode e of None \<Rightarrow> False | Some bs \<Rightarrow> (case position (\<lambda>b. b = 58) bs of None \<Rightarrow> False
        | Some i \<Rightarrow> credentials_match c (take i bs) (drop (i + 1) bs))) \<longleftrightarrow>
      eq_ignore_ascii_case s (str ''basic'') \<and> length e \<le> 684 \<and> decode e = Some (user @ 58 # pass)" for s e
    using decoded [of e] by (auto simp: not_less)
  show ?thesis
    unfolding credentials_verify_def step by (auto split: list.splits)
qed

text \<open>
  Claim C19. An HTTP client is let in exactly with the configured credentials. The constant-time
  comparison over 255 slots and the two lengths is equality; and a request is accepted exactly
  when it has one Proxy-Authorization field, of the two parts Basic and an encoding of at most 684
  bytes that decodes to the user, a colon and the password.
\<close>

theorem proxy_authorization_exact:
  assumes "credentials_new user pass = Inr c"
    and "\<And>text bs. decode text = Some bs \<Longrightarrow> length bs \<le> length text"
    and "length username \<le> usize_max" "length password \<le> usize_max"
  shows "(credentials_match c username password \<longleftrightarrow> username = user \<and> password = pass) \<and>
    (credentials_verify decode c headers \<longleftrightarrow>
      (\<exists>field scheme encoded. header_values headers (str ''proxy-authorization'') = [field] \<and>
         split_ascii_whitespace field = [scheme, encoded] \<and> eq_ignore_ascii_case scheme (str ''basic'') \<and>
         length encoded \<le> 684 \<and> decode encoded = Some (user @ 58 # pass)))"
  using credentials_match_iff [OF assms(1,3,4)] credentials_verify_iff [OF assms(1,2)] by blast

text \<open>A decoder that knows one encoding.\<close>

definition sample_decode :: "bytes \<Rightarrow> bytes option" where
  "sample_decode t = (if t = str ''dTpw'' then Some (str ''u:p'') else None)"

theorem proxy_authorization_exact_witness:
  "credentials_match \<lparr>pc_username = str ''u'', pc_password = str ''p''\<rparr> (str ''u'') (str ''p'') \<and>
   credentials_verify sample_decode \<lparr>pc_username = str ''u'', pc_password = str ''p''\<rparr>
     [(str ''Proxy-Authorization'', str ''bAsIc dTpw'')] \<and>
   \<not> credentials_verify sample_decode \<lparr>pc_username = str ''u'', pc_password = str ''p''\<rparr>
     [(str ''Proxy-Authorization'', str ''Basic dTpw''), (str ''Proxy-Authorization'', str ''Basic dTpw'')]"
proof -
  have new: "credentials_new (str ''u'') (str ''p'') = Inr \<lparr>pc_username = str ''u'', pc_password = str ''p''\<rparr>"
    by (simp add: credentials_new_def str_def)
  have short: "length bs \<le> length t" if "sample_decode t = Some bs" for t bs
    using that by (auto simp: sample_decode_def str_def split: if_splits)
  have sizes: "length (str ''u'') \<le> usize_max" "length (str ''p'') \<le> usize_max"
    by (simp_all add: usize_max_def)
  note exact = proxy_authorization_exact [OF new short sizes]
  have "header_values [(str ''Proxy-Authorization'', str ''bAsIc dTpw'')] (str ''proxy-authorization'') = [str ''bAsIc dTpw'']"
      "split_ascii_whitespace (str ''bAsIc dTpw'') = [str ''bAsIc'', str ''dTpw'']"
      "eq_ignore_ascii_case (str ''bAsIc'') (str ''basic'')" "length (str ''dTpw'') \<le> 684"
      "sample_decode (str ''dTpw'') = Some (str ''u'' @ 58 # str ''p'')"
    by (simp_all add: header_values_def eq_ignore_ascii_case_def ascii_lowercase_def to_ascii_lowercase_def
        is_ascii_uppercase_def str_def split_ascii_whitespace_def is_ascii_whitespace_def sample_decode_def)
  moreover have "header_values [(str ''Proxy-Authorization'', v), (str ''Proxy-Authorization'', v)] (str ''proxy-authorization'') = [v, v]" for v
    by (simp add: header_values_def eq_ignore_ascii_case_def ascii_lowercase_def to_ascii_lowercase_def
        is_ascii_uppercase_def str_def)
  ultimately show ?thesis
    using exact by auto
qed

section \<open>The field the core sends\<close>

lemma whitespace_fields_run:
  "\<forall>b \<in> set w. \<not> is_ascii_whitespace b \<Longrightarrow> whitespace_fields w = [w]"
  "\<forall>b \<in> set w. \<not> is_ascii_whitespace b \<Longrightarrow> is_ascii_whitespace s \<Longrightarrow>
   whitespace_fields (w @ s # bs) = w # whitespace_fields bs"
  by (induction w) auto

text \<open>
  The field \<^const>\<open>authorization_header_value\<close> builds is accepted by \<^const>\<open>credentials_verify\<close>: the limit
  of 684 bytes is the encoding of 255 + 1 + 255 bytes. Of the encoder it is used that the decoder
  undoes it, that it writes four bytes for every three, and no white space.
\<close>

lemma authorization_header_accepted:
  assumes "credentials_new user pass = Inr c"
    and decode: "\<And>text bs. decode text = Some bs \<Longrightarrow> length bs \<le> length text"
    and inverse: "\<And>bs. decode (encode bs) = Some bs"
    and width: "\<And>bs. length (encode bs) = 4 * ((length bs + 2) div 3)"
    and alphabet: "\<And>bs b. b \<in> set (encode bs) \<Longrightarrow> \<not> is_ascii_whitespace b"
  shows "credentials_verify decode c [(str ''Proxy-Authorization'', authorization_header_value encode c)]"
proof -
  have c: "c = \<lparr>pc_username = user, pc_password = pass\<rparr>" "length user \<le> 255" "length pass \<le> 255"
    using assms(1) by (auto simp: credentials_new_def split: if_splits)
  define e where "e = encode (user @ 58 # pass)"
  have e: "length e \<le> 684" "e \<noteq> []" "\<forall>b \<in> set e. \<not> is_ascii_whitespace b" "decode e = Some (user @ 58 # pass)"
    using c width [of "user @ 58 # pass"] alphabet inverse by (auto simp: e_def)
  have "authorization_header_value encode c = str ''Basic'' @ 32 # e"
    by (simp add: authorization_header_value_def c(1) e_def str_def)
  moreover have "split_ascii_whitespace (str ''Basic'' @ 32 # e) = [str ''Basic'', e]"
    unfolding split_ascii_whitespace_def using e(2,3)
    by (subst whitespace_fields_run(2)) (auto simp: whitespace_fields_run(1) str_def is_ascii_whitespace_def)
  moreover have "header_values [(str ''Proxy-Authorization'', v)] (str ''proxy-authorization'') = [v]"
      "eq_ignore_ascii_case (str ''Basic'') (str ''basic'')" for v
    by (simp_all add: header_values_def eq_ignore_ascii_case_def ascii_lowercase_def to_ascii_lowercase_def
        is_ascii_uppercase_def str_def)
  ultimately show ?thesis
    using credentials_verify_iff [OF assms(1) decode] e(1,4) by simp
qed

end
