(* ===== verification/Socks5_Handshake.thy ===== *)
theory Socks5_Handshake
  imports Socks5_Codec Proxy_Auth Datagram_Transport
begin

text \<open>
  \<^verbatim>\<open>src/inbound/socks5/handshake.rs\<close>: the SOCKS5 handshake of a client connection. The input is what
  the client sends before it closes its side; a step returns what it has written and the input that
  is left, which belongs to the application. Writes succeed: a failed write ends the connection.
\<close>

definition SOCKS_VERSION :: u8 where "SOCKS_VERSION = 5"
definition COMMAND_CONNECT :: u8 where "COMMAND_CONNECT = 1"
definition COMMAND_UDP_ASSOCIATE :: u8 where "COMMAND_UDP_ASSOCIATE = 3"

lemmas socks_constants = SOCKS_VERSION_def COMMAND_CONNECT_def COMMAND_UDP_ASSOCIATE_def

definition socks5_reply :: "u8 \<Rightarrow> socket_addr option \<Rightarrow> unit io" where
  "socks5_reply status bound =
     io_bind (quiet (encode_address (DestIp (unwrap_or bound (SocketV4 0 0))) [SOCKS_VERSION, status, 0])) emit"

definition authenticate :: "proxy_credentials option \<Rightarrow> bytes \<Rightarrow> bytes io" where
  "authenticate auth input =
     (case auth of
        None \<Rightarrow> quiet (Inr input)
      | Some c \<Rightarrow>
          io_bind (quiet (read_u8 input)) (\<lambda>(version, input).
          io_bind (quiet (read_u8 input)) (\<lambda>(user_length, input).
          io_bind (quiet (read_exact (unat user_length) input)) (\<lambda>(user, input).
          io_bind (quiet (read_u8 input)) (\<lambda>(password_length, input).
          io_bind (quiet (read_exact (unat password_length) input)) (\<lambda>(password, input).
          let valid = (version = 1 \<and> credentials_match c user password) in
          io_bind (emit [1, if valid then 0 else 1]) (\<lambda>_.
          quiet (if valid then Inr input else Inl IoPermissionDenied))))))))"

definition negotiate :: "proxy_credentials option \<Rightarrow> bytes \<Rightarrow> (u8 \<times> destination \<times> bytes) io" where
  "negotiate auth input =
     io_bind (quiet (read_u8 input)) (\<lambda>(version, input).
     if version \<noteq> SOCKS_VERSION then quiet (Inl InvalidData)
     else
       io_bind (quiet (read_u8 input)) (\<lambda>(count, input).
       io_bind (quiet (read_exact (unat count) input)) (\<lambda>(methods, input).
       let offer = (if auth \<noteq> None then 2 else 0) in
       if offer \<notin> set methods then io_bind (emit [SOCKS_VERSION, 0xff]) (\<lambda>_. quiet (Inl InvalidData))
       else
         io_bind (emit [SOCKS_VERSION, offer]) (\<lambda>_.
         io_bind (authenticate auth input) (\<lambda>input.
         io_bind (quiet (read_exact 3 input)) (\<lambda>(header, input).
         if header ! 0 \<noteq> SOCKS_VERSION \<or> header ! 2 \<noteq> 0 then
           io_bind (socks5_reply 1 None) (\<lambda>_. quiet (Inl InvalidData))
         else if header ! 1 \<notin> {COMMAND_CONNECT, COMMAND_UDP_ASSOCIATE} then
           io_bind (socks5_reply 7 None) (\<lambda>_. quiet (Inl InvalidData))
         else
           (case read_destination input (header ! 1 = COMMAND_UDP_ASSOCIATE) of
              Inr (destination, rest) \<Rightarrow> quiet (Inr (header ! 1, destination, rest))
            | Inl e \<Rightarrow> io_bind (socks5_reply 8 None) (\<lambda>_. quiet (Inl e)))))))))"

fun dispatch_status :: "dispatch_error \<Rightarrow> u8" where
  "dispatch_status NotAllowed = 2"
| "dispatch_status NetworkUnreachable = 3"
| "dispatch_status HostUnreachable = 4"
| "dispatch_status DispatchRefused = 5"
| "dispatch_status TimedOut = 6"
| "dispatch_status (DispatchOther m) = 1"

section \<open>What a client sends\<close>

text \<open>The destinations of a request: a UDP association may leave the port open.\<close>

fun request_destination :: "bool \<Rightarrow> destination \<Rightarrow> bool" where
  "request_destination allow_zero_port (DestIp address) =
     (plain_socket address \<and> (socket_port address = 0 \<longrightarrow> allow_zero_port))"
| "request_destination allow_zero_port (DestDomain host port) =
     (if port = 0 then allow_zero_port \<and> utf8_valid host else wire_destination (DestDomain host port))"

lemma read_destination_Inr_iff:
  "read_destination bs allow = Inr (d, rest) \<longleftrightarrow>
   (\<exists>w. encode_address d [] = Inr w \<and> bs = w @ rest \<and> request_destination allow d)"
proof
  assume "read_destination bs allow = Inr (d, rest)"
  then show "\<exists>w. encode_address d [] = Inr w \<and> bs = w @ rest \<and> request_destination allow d"
    by (auto simp: read_destination_def res_simps address_types unsigned_eq_0_iff split: if_splits prod.splits)
next
  assume "\<exists>w. encode_address d [] = Inr w \<and> bs = w @ rest \<and> request_destination allow d"
  then show "read_destination bs allow = Inr (d, rest)"
    by (cases "(d, [] :: bytes)" rule: encode_address.cases)
      (auto simp: read_destination_def address_types destination_domain_def split: if_splits)
qed

fun login_bytes :: "proxy_credentials option \<Rightarrow> bytes" where
  "login_bytes None = []"
| "login_bytes (Some c) =
     1 # of_nat (length (pc_username c)) # pc_username c @ of_nat (length (pc_password c)) # pc_password c"

text \<open>Credentials that \<^const>\<open>credentials_new\<close> made.\<close>

definition credentials_ok :: "proxy_credentials \<Rightarrow> bool" where
  "credentials_ok c \<longleftrightarrow> credentials_new (pc_username c) (pc_password c) = Inr c"

lemma unat_byte: "unat (n :: u8) \<le> 255"
  using unsigned_less [of n] by simp

lemma credentials_ok_match:
  assumes "credentials_ok c" "length user \<le> 255" "length pass \<le> 255"
  shows "credentials_match c user pass \<longleftrightarrow> user = pc_username c \<and> pass = pc_password c"
  using assms credentials_match_iff [of "pc_username c" "pc_password c" c user pass]
  by (auto simp: credentials_ok_def usize_max_def)

lemma credentials_ok_lengths:
  "credentials_ok c \<Longrightarrow> length (pc_username c) \<le> 255 \<and> length (pc_password c) \<le> 255"
  by (auto simp: credentials_ok_def credentials_new_def split: if_splits)

lemma unat_length: "length w \<le> 255 \<Longrightarrow> unat (of_nat (length w) :: u8) = length w"
  by (simp add: unsigned_of_nat take_bit_nat_eq_self)

lemma length_of_nat: "length w = unat (n :: u8) \<Longrightarrow> of_nat (length w) = n"
  by simp

lemma authenticate_Inr_iff:
  assumes "\<forall>c. auth = Some c \<longrightarrow> credentials_ok c"
  shows "authenticate auth input = (w, Inr rest) \<longleftrightarrow>
     input = login_bytes auth @ rest \<and> w = (if auth = None then [] else [1, 0])"
proof (cases auth)
  case (Some c)
  have ok: "credentials_ok c"
    using assms Some by blast
  show ?thesis
  proof
    assume "authenticate auth input = (w, Inr rest)"
    then obtain ulen user plen pass where
      "input = 1 # ulen # user @ plen # pass @ rest" "length user = unat ulen" "length pass = unat plen"
      "credentials_match c user pass" "w = [1, 0]"
      using Some
      by (auto simp: authenticate_def Let_def io_bind_Inr_iff quiet_Inr_iff emit_Inr_iff res_simps
          simp del: io_bind_simps split: if_splits)
    moreover have "length user \<le> 255" "length pass \<le> 255"
      using unat_byte [of ulen] unat_byte [of plen] calculation by simp_all
    ultimately show "input = login_bytes auth @ rest \<and> w = (if auth = None then [] else [1, 0])"
      using credentials_ok_match [OF ok] Some length_of_nat by auto
  next
    assume "input = login_bytes auth @ rest \<and> w = (if auth = None then [] else [1, 0])"
    then show "authenticate auth input = (w, Inr rest)"
      using credentials_ok_lengths [OF ok] credentials_ok_match [OF ok] Some
      by (auto simp: authenticate_def Let_def io_bind_Inr_iff quiet_Inr_iff emit_Inr_iff res_simps unat_length
          simp del: io_bind_simps)
  qed
qed (auto simp: authenticate_def quiet_Inr_iff)

lemma three_elements: "length xs = 3 \<Longrightarrow> xs = [xs ! 0, xs ! 1, xs ! 2]"
  by (auto simp: numeral_3_eq_3 numeral_2_eq_2 length_Suc_conv)

lemma negotiate_steps:
  "negotiate auth input = (out, Inr (cmd, destination, rest)) \<longleftrightarrow>
   (\<exists>count methods login w body.
      input = 5 # count # methods @ login \<and> length methods = unat count \<and>
      (if auth = None then 0 else 2) \<in> set methods \<and> authenticate auth login = (w, Inr ([5, cmd, 0] @ body)) \<and>
      cmd \<in> {1, 3} \<and> read_destination body (cmd = 3) = Inr (destination, rest) \<and>
      out = 5 # (if auth = None then 0 else 2) # w)" (is "_ \<longleftrightarrow> ?steps")
proof
  assume run: "negotiate auth input = (out, Inr (cmd, destination, rest))"
  define offer :: u8 where "offer = (if auth \<noteq> None then 2 else 0)"
  from run obtain count methods login w header body where
    "input = 5 # count # methods @ login" "length methods = unat count" "offer \<in> set methods"
    "authenticate auth login = (w, Inr (header @ body))"
    and header: "length header = 3" "header ! 0 = 5" "header ! 2 = 0" "header ! 1 = cmd" and
    "cmd \<in> {1, 3}" "read_destination body (cmd = 3) = Inr (destination, rest)" "out = 5 # offer # w"
    unfolding negotiate_def offer_def [symmetric] Let_def
    by (auto simp: io_bind_Inr_iff quiet_Inr_iff emit_Inr_iff res_simps socks_constants
        simp del: io_bind_simps split: if_split_asm sum.split_asm)
  moreover have "header = [5, cmd, 0]"
    using three_elements [OF header(1)] by (simp only: header)
  moreover have offer: "(if auth = None then 0 else 2) = offer"
    by (simp add: offer_def)
  ultimately show ?steps
    unfolding offer
    by - (rule exI [of _ count], rule exI [of _ methods], rule exI [of _ login], rule exI [of _ w],
        rule exI [of _ body], simp)
next
  assume ?steps
  then show "negotiate auth input = (out, Inr (cmd, destination, rest))"
    by (auto simp: negotiate_def Let_def read_u8_def read_exact_def socks_constants quiet_def)
qed

lemma authenticate_refused:
  assumes "credentials_ok c" "length user \<le> 255" "length pass \<le> 255" "(user, pass) \<noteq> (pc_username c, pc_password c)"
  shows "authenticate (Some c) ([1, of_nat (length user)] @ user @ of_nat (length pass) # pass @ input) =
     ([1, 1], Inl IoPermissionDenied)"
  using assms credentials_ok_match [OF assms(1-3)]
  by (auto simp: authenticate_def read_u8_def read_exact_def unat_length Let_def emit_def quiet_def)

text \<open>
  Claim C15. The SOCKS5 handshake succeeds exactly on a well-formed conversation. It accepts an
  input exactly when this is a greeting that offers the required method, then, when credentials are
  configured, a login with exactly these, then a request with a supported command and a
  well-formed destination; it answers with the method and the login status, and every byte after the
  request is left for the application. A login with anything else is answered with a failure status
  and ends the connection with a permission error.
\<close>

theorem socks5_handshake_exact:
  assumes auth: "\<forall>c. auth = Some c \<longrightarrow> credentials_ok c"
  shows "(negotiate auth input = (out, Inr (cmd, destination, rest)) \<longleftrightarrow>
      (\<exists>methods address.
         input = [5, of_nat (length methods)] @ methods @ login_bytes auth @ [5, cmd, 0] @ address @ rest \<and>
         length methods \<le> 255 \<and> (if auth = None then 0 else 2) \<in> set methods \<and> cmd \<in> {1, 3} \<and>
         encode_address destination [] = Inr address \<and> request_destination (cmd = 3) destination \<and>
         out = (if auth = None then [5, 0] else [5, 2, 1, 0]))) \<and>
    (auth = Some c \<and> length methods \<le> 255 \<and> 2 \<in> set methods \<and> length user \<le> 255 \<and> length pass \<le> 255 \<and>
     (user, pass) \<noteq> (pc_username c, pc_password c) \<longrightarrow>
       negotiate auth ([5, of_nat (length methods)] @ methods @
         [1, of_nat (length user)] @ user @ of_nat (length pass) # pass @ input) = ([5, 2, 1, 1], Inl IoPermissionDenied))"
proof (intro conjI impI iffI)
  assume "negotiate auth input = (out, Inr (cmd, destination, rest))"
  then obtain count methods address where
    "input = 5 # count # methods @ login_bytes auth @ [5, cmd, 0] @ address @ rest" "length methods = unat count"
    "(if auth = None then 0 else 2) \<in> set methods" "cmd \<in> {1, 3}" "encode_address destination [] = Inr address"
    "request_destination (cmd = 3) destination" "out = (if auth = None then [5, 0] else [5, 2, 1, 0])"
    unfolding negotiate_steps authenticate_Inr_iff [OF auth] read_destination_Inr_iff by (cases "auth = None") auto
  then show "\<exists>methods address.
      input = [5, of_nat (length methods)] @ methods @ login_bytes auth @ [5, cmd, 0] @ address @ rest \<and>
      length methods \<le> 255 \<and> (if auth = None then 0 else 2) \<in> set methods \<and> cmd \<in> {1, 3} \<and>
      encode_address destination [] = Inr address \<and> request_destination (cmd = 3) destination \<and>
      out = (if auth = None then [5, 0] else [5, 2, 1, 0])"
    using unat_byte [of count] length_of_nat [of methods count] by (intro exI [of _ methods] exI [of _ address]) simp
next
  assume "\<exists>methods address.
      input = [5, of_nat (length methods)] @ methods @ login_bytes auth @ [5, cmd, 0] @ address @ rest \<and>
      length methods \<le> 255 \<and> (if auth = None then 0 else 2) \<in> set methods \<and> cmd \<in> {1, 3} \<and>
      encode_address destination [] = Inr address \<and> request_destination (cmd = 3) destination \<and>
      out = (if auth = None then [5, 0] else [5, 2, 1, 0])"
  then obtain methods address where
    "input = 5 # of_nat (length methods) # methods @ login_bytes auth @ [5, cmd, 0] @ address @ rest"
    "length methods = unat (of_nat (length methods) :: u8)" "(if auth = None then 0 else 2) \<in> set methods"
    "cmd \<in> {1, 3}" "read_destination (address @ rest) (cmd = 3) = Inr (destination, rest)"
    "out = 5 # (if auth = None then 0 else 2) # (if auth = None then [] else [1, 0])"
    using unat_length read_destination_Inr_iff by (cases "auth = None") force+
  moreover have "authenticate auth (login_bytes auth @ [5, cmd, 0] @ address @ rest) =
      (if auth = None then [] else [1, 0], Inr ([5, cmd, 0] @ address @ rest))"
    by (simp add: authenticate_Inr_iff [OF auth])
  ultimately show "negotiate auth input = (out, Inr (cmd, destination, rest))"
    unfolding negotiate_steps by blast
next
  assume "auth = Some c \<and> length methods \<le> 255 \<and> 2 \<in> set methods \<and> length user \<le> 255 \<and> length pass \<le> 255 \<and>
     (user, pass) \<noteq> (pc_username c, pc_password c)"
  then show "negotiate auth ([5, of_nat (length methods)] @ methods @
         [1, of_nat (length user)] @ user @ of_nat (length pass) # pass @ input) = ([5, 2, 1, 1], Inl IoPermissionDenied)"
    using auth authenticate_refused [of c user pass input]
    by (simp add: negotiate_def read_u8_def read_exact_def unat_length Let_def socks_constants)
qed

definition sample_credentials :: proxy_credentials where
  "sample_credentials = \<lparr>pc_username = str ''u'', pc_password = str ''p''\<rparr>"

theorem socks5_handshake_exact_witness:
  "negotiate (Some sample_credentials) ([5, 1, 2, 1, 1, 117, 1, 112, 5, 1, 0, 1, 10, 0, 0, 1, 0, 80] @ str ''GET'') =
     ([5, 2, 1, 0], Inr (1, DestIp (SocketV4 0x0A000001 80), str ''GET'')) \<and>
   negotiate (Some sample_credentials) [5, 1, 2, 1, 1, 117, 1, 113, 5, 1, 0] = ([5, 2, 1, 1], Inl IoPermissionDenied)"
proof -
  have ok: "\<forall>c. Some sample_credentials = Some c \<longrightarrow> credentials_ok c"
    by (simp add: credentials_ok_def credentials_new_def sample_credentials_def str_def)
  have "negotiate (Some sample_credentials) ([5, 1, 2, 1, 1, 117, 1, 112, 5, 1, 0, 1, 10, 0, 0, 1, 0, 80] @ str ''GET'') =
      ([5, 2, 1, 0], Inr (1, DestIp (SocketV4 0x0A000001 80), str ''GET''))"
    by (rule socks5_handshake_exact [OF ok, THEN conjunct1, THEN iffD2], rule exI [of _ "[2]"],
        rule exI [of _ "[1, 10, 0, 0, 1, 0, 80]"])
      (simp add: sample_credentials_def str_def address_types be32_def be16_def to_be_4 to_be_2)
  moreover have "negotiate (Some sample_credentials) [5, 1, 2, 1, 1, 117, 1, 113, 5, 1, 0] =
      ([5, 2, 1, 1], Inl IoPermissionDenied)"
    using socks5_handshake_exact [OF ok, THEN conjunct2, of sample_credentials "[2]" "[117]" "[113]" "[5, 1, 0]"]
    by (simp add: sample_credentials_def str_def)
  ultimately show ?thesis
    by blast
qed

end
