(* ===== verification/Socks5_Server.thy ===== *)
theory Socks5_Server
  imports Socks5_Handshake Routing_Dispatch "HOL-Library.AList"
begin

text \<open>
  \<^verbatim>\<open>src/inbound/socks5/association.rs\<close> and the connection handler of \<^verbatim>\<open>src/inbound/socks5/server.rs\<close>: the
  registry that ties UDP sources to negotiated control connections. A registration creates a source
  cell, a cancellation token and a bounded channel, which its entry and its lease share; they are kept
  by the number of the registration, its generation, so that the identity of the cell is the
  equality of generations. The hash map is an association list with distinct keys. Times and the
  results of the dispatcher and of the socket are arguments.
\<close>

section \<open>The registry\<close>

definition QUEUE_CAPACITY :: nat where "QUEUE_CAPACITY = 16"
definition IDLE_TIMEOUT :: instant where "IDLE_TIMEOUT = 30 * 1000000000"

record assoc_entry =
  ae_generation :: nat
  ae_last_activity :: instant

record associations =
  as_entries :: "(socket_addr \<times> assoc_entry) list"
  as_sources :: "nat \<Rightarrow> socket_addr"
  as_cancelled :: "nat set"
  as_queues :: "nat \<Rightarrow> datagram list"
  as_closed :: "nat set"
  as_next :: nat
  as_parent_cancelled :: bool

definition associations_default :: associations where
  "associations_default =
     \<lparr>as_entries = [], as_sources = (\<lambda>_. SocketV4 0 0), as_cancelled = {}, as_queues = (\<lambda>_. []), as_closed = {},
      as_next = 0, as_parent_cancelled = False\<rparr>"

fun set_port :: "socket_addr \<Rightarrow> u16 \<Rightarrow> socket_addr" where
  "set_port (SocketV4 ip _) port = SocketV4 ip port"
| "set_port (SocketV6 ip _ flow scope) port = SocketV6 ip port flow scope"

definition entry_expired :: "associations \<Rightarrow> instant \<Rightarrow> assoc_entry \<Rightarrow> bool" where
  "entry_expired s now e \<longleftrightarrow>
     as_parent_cancelled s \<or> ae_generation e \<in> as_cancelled s \<or> ae_generation e \<in> as_closed s \<or>
     IDLE_TIMEOUT \<le> now - ae_last_activity e"

text \<open>Cancelling the token of an entry and removing it.\<close>

definition cancel_entry :: "socket_addr \<Rightarrow> assoc_entry \<Rightarrow> associations \<Rightarrow> associations" where
  "cancel_entry key e s =
     s\<lparr>as_cancelled := insert (ae_generation e) (as_cancelled s), as_entries := AList.delete key (as_entries s)\<rparr>"

definition insert_entry :: "socket_addr \<Rightarrow> instant \<Rightarrow> associations \<Rightarrow> associations" where
  "insert_entry source now s =
     (let g = as_next s in
      s\<lparr>as_entries := AList.update source \<lparr>ae_generation = g, ae_last_activity = now\<rparr> (as_entries s),
        as_sources := (as_sources s)(g := source), as_queues := (as_queues s)(g := []), as_next := g + 1\<rparr>)"

definition assoc_register ::
  "associations \<Rightarrow> socket_addr \<Rightarrow> u16 \<Rightarrow> instant \<Rightarrow> associations \<times> (io_error + nat)" where
  "assoc_register s peer port now =
     (let source = set_port peer port in
      case map_of (as_entries s) source of
        Some e \<Rightarrow>
          if \<not> entry_expired s now e then (s, Inl IoPermissionDenied)
          else (insert_entry source now (cancel_entry source e s), Inr (as_next s))
      | None \<Rightarrow> (insert_entry source now s, Inr (as_next s)))"

definition assoc_enqueue :: "associations \<Rightarrow> socket_addr \<Rightarrow> bytes \<Rightarrow> instant \<Rightarrow> associations" where
  "assoc_enqueue s source packet now =
     (case decode_udp_packet packet SOCKS5_UDP_PACKET_LIMIT of
        Inl _ \<Rightarrow> s
      | Inr (remote, payload) \<Rightarrow>
          let key = (if map_of (as_entries s) source \<noteq> None then source else set_port source 0) in
          case map_of (as_entries s) key of
            None \<Rightarrow> s
          | Some e \<Rightarrow>
              if entry_expired s now e then cancel_entry key e s
              else if QUEUE_CAPACITY \<le> length (as_queues s (ae_generation e)) then s
              else
                let g = ae_generation e;
                    datagram = \<lparr>dg_remote = remote, dg_payload = payload, dg_sniffed_domain = None\<rparr>;
                    e = e\<lparr>ae_last_activity := now\<rparr> in
                s\<lparr>as_sources := (as_sources s)(g := source),
                  as_queues := (as_queues s)(g := as_queues s g @ [datagram]),
                  as_entries := AList.update source e
                    (if key \<noteq> source then AList.delete key (as_entries s) else as_entries s)\<rparr>)"

definition assoc_cleanup :: "associations \<Rightarrow> instant \<Rightarrow> associations" where
  "assoc_cleanup s now =
     (let expired = filter (\<lambda>(_, e). entry_expired s now e) (as_entries s) in
      s\<lparr>as_entries := filter (\<lambda>(_, e). \<not> entry_expired s now e) (as_entries s),
        as_cancelled := as_cancelled s \<union> set (map (ae_generation \<circ> snd) expired)\<rparr>)"

text \<open>The second component is the address the packet was given to the socket for.\<close>

definition assoc_try_reply ::
  "associations \<Rightarrow> nat \<Rightarrow> bytes \<Rightarrow> instant \<Rightarrow> io_error + nat \<Rightarrow>
   associations \<times> socket_addr option \<times> (io_error + unit)" where
  "assoc_try_reply s lease packet now sent =
     (let source = as_sources s lease in
      case map_of (as_entries s) source of
        None \<Rightarrow> (s, None, Inl NotConnected)
      | Some e \<Rightarrow>
          if ae_generation e \<noteq> lease \<or> entry_expired s now e then (s, None, Inl NotConnected)
          else if socket_port source = 0 then (s, None, Inl NotConnected)
          else
            (case sent of
               Inl err \<Rightarrow> (s, Some source, Inl err)
             | Inr written \<Rightarrow>
                 if written \<noteq> length packet then (s, Some source, Inl WriteZero)
                 else (s\<lparr>as_entries := AList.update source (e\<lparr>ae_last_activity := now\<rparr>) (as_entries s)\<rparr>,
                       Some source, Inr ())))"

definition lease_drop :: "associations \<Rightarrow> nat \<Rightarrow> associations" where
  "lease_drop s lease =
     (let source = as_sources s lease;
          mine = (case map_of (as_entries s) source of Some e \<Rightarrow> ae_generation e = lease | None \<Rightarrow> False) in
      s\<lparr>as_entries := (if mine then AList.delete source (as_entries s) else as_entries s),
        as_cancelled := insert lease (as_cancelled s)\<rparr>)"

text \<open>The receiving end of the channel: a receive takes the oldest datagram; dropping it closes the channel.\<close>

definition assoc_receive :: "associations \<Rightarrow> nat \<Rightarrow> associations \<times> datagram option" where
  "assoc_receive s lease =
     (case as_queues s lease of
        [] \<Rightarrow> (s, None)
      | dg # rest \<Rightarrow> (s\<lparr>as_queues := (as_queues s)(lease := rest)\<rparr>, Some dg))"

definition receiver_close :: "associations \<Rightarrow> nat \<Rightarrow> associations" where
  "receiver_close s lease = s\<lparr>as_closed := insert lease (as_closed s)\<rparr>"

section \<open>A connection\<close>

record socks5_config =
  sc_auth :: "proxy_credentials option"
  sc_ipv6 :: bool

text \<open>
  How the handler goes on after the handshake: a relayed stream, an association of a
  generation, or an answered and finished connection. The bytes are input it has not read.
\<close>

datatype connection_outcome = Relayed stream_session bytes | Associated nat bytes | Answered

definition answer :: "associations \<Rightarrow> u8 \<Rightarrow> socket_addr option \<Rightarrow> connection_outcome \<Rightarrow> associations \<times> connection_outcome io" where
  "answer s status bound outcome = (s, io_bind (socks5_reply status bound) (\<lambda>_. quiet (Inr outcome)))"

definition requested_source :: "destination \<Rightarrow> socket_addr \<Rightarrow> socket_addr option" where
  "requested_source destination peer =
     (case destination of
        DestIp address \<Rightarrow>
          if ip_unspecified (socket_ip address) \<or> socket_ip address = socket_ip peer then Some address else None
      | DestDomain _ _ \<Rightarrow> None)"

definition handle_request ::
  "socks5_config \<Rightarrow> (stream_session \<Rightarrow> dispatch_error + unit) \<Rightarrow> associations \<Rightarrow> socket_addr \<Rightarrow> socket_addr \<Rightarrow> bool \<Rightarrow>
   instant \<Rightarrow> u8 \<Rightarrow> destination \<Rightarrow> bytes \<Rightarrow> associations \<times> connection_outcome io" where
  "handle_request config connect s peer relay socket now cmd destination rest =
     (if \<not> sc_ipv6 config \<and> dest_is_ipv6 destination then answer s 8 None Answered
      else if cmd = COMMAND_CONNECT then
        (let session = \<lparr>ss_inbound = Socks5, ss_source = peer, ss_destination = destination, ss_sniffed_domain = None\<rparr> in
         case connect session of
           Inr _ \<Rightarrow> answer s 0 None (Relayed session rest)
         | Inl e \<Rightarrow> answer s (dispatch_status e) None Answered)
      else if \<not> socket then answer s 7 None Answered
      else
        (case requested_source destination peer of
           None \<Rightarrow> answer s 2 None Answered
         | Some requested \<Rightarrow>
             (case assoc_register s peer (socket_port requested) now of
                (s', Inl _) \<Rightarrow> answer s' 2 None Answered
              | (s', Inr lease) \<Rightarrow> answer s' 0 (Some relay) (Associated lease rest))))"

definition handle_connection ::
  "socks5_config \<Rightarrow> (stream_session \<Rightarrow> dispatch_error + unit) \<Rightarrow> associations \<Rightarrow> socket_addr \<Rightarrow> socket_addr \<Rightarrow> bool \<Rightarrow>
   instant \<Rightarrow> bytes \<Rightarrow> associations \<times> connection_outcome io" where
  "handle_connection config connect s peer relay socket now input =
     (case negotiate (sc_auth config) input of
        (out, Inl e) \<Rightarrow> (s, out, Inl e)
      | (out, Inr (cmd, destination, rest)) \<Rightarrow>
          (case handle_request config connect s peer relay socket now cmd destination rest of
             (s', out', r) \<Rightarrow> (s', out @ out', r)))"

text \<open>What the relay task makes of a response: oversized and unencodable ones are skipped.\<close>

definition relay_packet :: "socket_addr \<Rightarrow> datagram \<Rightarrow> bytes option" where
  "relay_packet source response =
     (if unat (ds_max_response_payload_size (datagram_session_new Socks5 source)) < length (dg_payload response) then None
      else
        (case encode_udp_packet (dg_remote response) (dg_payload response) SOCKS5_UDP_PACKET_LIMIT of
           Inl _ \<Rightarrow> None
         | Inr packet \<Rightarrow> Some packet))"

section \<open>Runs of the inbound\<close>

text \<open>
  What can be seen of a run: a client's input opened an association of a generation for its
  peer address, a packet was given to the socket for an address, a lease was dropped.
\<close>

datatype socks5_effect =
  Opened nat socket_addr bytes | Sent nat socket_addr bytes | Revoked nat

fun opened_effects :: "socket_addr \<Rightarrow> bytes \<Rightarrow> connection_outcome io \<Rightarrow> socks5_effect list" where
  "opened_effects peer input (out, Inr (Associated g rest)) = [Opened g peer input]"
| "opened_effects peer input _ = []"

definition sent_effects :: "nat \<Rightarrow> bytes \<Rightarrow> socket_addr option \<Rightarrow> socks5_effect list" where
  "sent_effects g packet target = (case target of Some address \<Rightarrow> [Sent g address packet] | None \<Rightarrow> [])"

inductive socks5_run :: "socks5_config \<Rightarrow> associations \<Rightarrow> socks5_effect list \<Rightarrow> bool" for config where
  run_start: "socks5_run config associations_default []"
| run_connect: "socks5_run config s log \<Longrightarrow>
     handle_connection config connect s peer relay socket now input = (s', result) \<Longrightarrow>
     socks5_run config s' (log @ opened_effects peer input result)"
| run_packet: "socks5_run config s log \<Longrightarrow> socks5_run config (assoc_enqueue s source packet now) log"
| run_reply: "socks5_run config s log \<Longrightarrow> g < as_next s \<Longrightarrow> relay_packet source response = Some packet \<Longrightarrow>
     assoc_try_reply s g packet now sent = (s', target, result) \<Longrightarrow>
     socks5_run config s' (log @ sent_effects g packet target)"
| run_receive: "socks5_run config s log \<Longrightarrow> socks5_run config (fst (assoc_receive s g)) log"
| run_close: "socks5_run config s log \<Longrightarrow> g < as_next s \<Longrightarrow> socks5_run config (receiver_close s g) log"
| run_cleanup: "socks5_run config s log \<Longrightarrow> socks5_run config (assoc_cleanup s now) log"
| run_drop: "socks5_run config s log \<Longrightarrow> g < as_next s \<Longrightarrow> socks5_run config (lease_drop s g) (log @ [Revoked g])"
| run_shutdown: "socks5_run config s log \<Longrightarrow> socks5_run config (s\<lparr>as_parent_cancelled := True\<rparr>) log"

text \<open>
  The registry: keys are distinct, an entry is at the address in its cell, generations are
  numbered upwards, and a channel holds at most its capacity.
\<close>

definition registry_inv :: "associations \<Rightarrow> bool" where
  "registry_inv s \<longleftrightarrow>
     distinct (map fst (as_entries s)) \<and>
     (\<forall>(k, e) \<in> set (as_entries s). ae_generation e < as_next s \<and> as_sources s (ae_generation e) = k) \<and>
     (\<forall>g. length (as_queues s g) \<le> QUEUE_CAPACITY)"

text \<open>
  The address in the cell of a generation is one that the handshake of its control connection
  allows: the peer's, and with the requested port unless that was left open.
\<close>

definition allowed_source :: "socks5_config \<Rightarrow> socket_addr \<Rightarrow> bytes \<Rightarrow> socket_addr \<Rightarrow> bool" where
  "allowed_source config peer input address \<longleftrightarrow>
     (\<exists>out destination requested rest.
        negotiate (sc_auth config) input = (out, Inr (COMMAND_UDP_ASSOCIATE, destination, rest)) \<and>
        requested_source destination peer = Some requested \<and>
        address = set_port peer (socket_port address) \<and>
        (socket_port requested = 0 \<or> socket_port address = socket_port requested))"

text \<open>The generations that have an entry.\<close>

definition live :: "associations \<Rightarrow> nat set" where
  "live s = (ae_generation \<circ> snd) ` set (as_entries s)"

definition log_inv :: "socks5_config \<Rightarrow> associations \<Rightarrow> socks5_effect list \<Rightarrow> bool" where
  "log_inv config s log \<longleftrightarrow>
     (\<forall>g < as_next s. \<exists>peer input. Opened g peer input \<in> set log \<and> allowed_source config peer input (as_sources s g)) \<and>
     (\<forall>g. Revoked g \<in> set log \<longrightarrow> g < as_next s \<and> g \<notin> live s)"

lemma set_port_simps [simp]:
  "socket_port (set_port a p) = p" "set_port (set_port a p) q = set_port a q" "set_port a (socket_port a) = a"
  "socket_ip (set_port a p) = socket_ip a"
  by (cases a; simp)+

lemma set_delete: "(k', e) \<in> set (AList.delete k es) \<longleftrightarrow> k' \<noteq> k \<and> (k', e) \<in> set es"
  by (auto simp: AList.delete_eq)

lemma set_update:
  "distinct (map fst es) \<Longrightarrow> (k', e') \<in> set (AList.update k e es) \<longleftrightarrow> (if k' = k then e' = e else (k', e') \<in> set es)"
  using map_of_eq_Some_iff [of "AList.update k e es" k' e'] map_of_eq_Some_iff [of es k' e']
  by (auto simp: distinct_update update_conv)

lemmas registry_simps = set_delete set_update distinct_update distinct_delete

lemma inv_entry:
  "registry_inv s \<Longrightarrow> map_of (as_entries s) k = Some e \<Longrightarrow> ae_generation e < as_next s \<and> as_sources s (ae_generation e) = k"
  by (auto simp: registry_inv_def dest!: map_of_SomeD)

lemma inv_member: "registry_inv s \<Longrightarrow> (k, e) \<in> set (as_entries s) \<Longrightarrow> ae_generation e < as_next s \<and> as_sources s (ae_generation e) = k"
  by (auto simp: registry_inv_def)

lemma inv_distinct: "registry_inv s \<Longrightarrow> distinct (map fst (as_entries s))"
  by (simp add: registry_inv_def)

lemma registryI:
  assumes "distinct (map fst (as_entries s))"
    and "\<And>k e. (k, e) \<in> set (as_entries s) \<Longrightarrow> ae_generation e < as_next s \<and> as_sources s (ae_generation e) = k"
    and "\<And>g. length (as_queues s g) \<le> QUEUE_CAPACITY"
  shows "registry_inv s"
  using assms by (auto simp: registry_inv_def)

lemma queue_bound: "registry_inv s \<Longrightarrow> length (as_queues s g) \<le> QUEUE_CAPACITY"
  by (simp add: registry_inv_def)

lemma cancel_entry_inv: "registry_inv s \<Longrightarrow> registry_inv (cancel_entry k e s)"
  by (rule registryI) (auto simp: cancel_entry_def registry_simps inv_member queue_bound inv_distinct)

lemma insert_entry_inv: "registry_inv s \<Longrightarrow> registry_inv (insert_entry source now s)"
  by (rule registryI)
    (auto simp: insert_entry_def Let_def registry_simps queue_bound inv_distinct less_Suc_eq
      split: if_splits dest: inv_member)

lemma register_inv: "registry_inv s \<Longrightarrow> registry_inv (fst (assoc_register s peer port now))"
  by (auto simp: assoc_register_def Let_def insert_entry_inv cancel_entry_inv split: option.splits)

lemma cleanup_inv: "registry_inv s \<Longrightarrow> registry_inv (assoc_cleanup s now)"
  by (rule registryI)
    (auto simp: assoc_cleanup_def Let_def queue_bound intro: distinct_map_filter inv_distinct dest: inv_member)

lemma drop_inv: "registry_inv s \<Longrightarrow> registry_inv (lease_drop s g)"
  by (rule registryI) (auto simp: lease_drop_def Let_def registry_simps inv_member queue_bound inv_distinct split: if_splits)

lemma touch_inv:
  assumes "registry_inv s" "map_of (as_entries s) k = Some e" "ae_generation e' = ae_generation e"
  shows "registry_inv (s\<lparr>as_entries := AList.update k e' (as_entries s)\<rparr>)"
proof (rule registryI)
  fix k2 e2
  assume "(k2, e2) \<in> set (as_entries (s\<lparr>as_entries := AList.update k e' (as_entries s)\<rparr>))"
  then show "ae_generation e2 < as_next (s\<lparr>as_entries := AList.update k e' (as_entries s)\<rparr>) \<and>
      as_sources (s\<lparr>as_entries := AList.update k e' (as_entries s)\<rparr>) (ae_generation e2) = k2"
    using assms(3) inv_entry [OF assms(1,2)] inv_member [OF assms(1)]
    by (simp add: set_update [OF inv_distinct [OF assms(1)]] split: if_splits)
qed (simp_all add: assms(1) queue_bound inv_distinct distinct_update)

text \<open>A reply leaves the registry as it is, or refreshes the entry of its lease.\<close>

lemma reply_cases:
  assumes "assoc_try_reply s g packet now sent = (s', target, r)"
  shows "(s' = s \<or> (\<exists>e. map_of (as_entries s) (as_sources s g) = Some e \<and>
       s' = s\<lparr>as_entries := AList.update (as_sources s g) (e\<lparr>ae_last_activity := now\<rparr>) (as_entries s)\<rparr>)) \<and>
     (\<forall>address. target = Some address \<longrightarrow> address = as_sources s g \<and> socket_port address \<noteq> 0 \<and>
       (\<exists>e. map_of (as_entries s) address = Some e \<and> ae_generation e = g \<and> \<not> entry_expired s now e))"
proof (cases "map_of (as_entries s) (as_sources s g)")
  case (Some e)
  then show ?thesis
    using assms by (cases sent) (simp_all add: assoc_try_reply_def Let_def split: if_splits, blast+)
qed (use assms in \<open>simp add: assoc_try_reply_def\<close>)

lemma reply_inv:
  assumes "registry_inv s" "assoc_try_reply s g packet now sent = (s', target, r)"
  shows "registry_inv s'"
  using reply_cases [OF assms(2)] assms(1) touch_inv [OF assms(1)] by fastforce

lemma receive_inv: "registry_inv s \<Longrightarrow> registry_inv (fst (assoc_receive s g))"
  using queue_bound [of s g]
  by (cases "as_queues s g"; intro registryI) (auto simp: assoc_receive_def inv_member queue_bound inv_distinct)

text \<open>What an accepted packet does: the entry moves to its source, with the datagram in its queue.\<close>

lemma enqueue_cases:
  obtains "assoc_enqueue s source packet now = s"
  | k e where "map_of (as_entries s) k = Some e" "assoc_enqueue s source packet now = cancel_entry k e s"
  | k e dg where "map_of (as_entries s) k = Some e" "k = source \<or> k = set_port source 0 \<and> map_of (as_entries s) source = None"
      "length (as_queues s (ae_generation e)) < QUEUE_CAPACITY"
      "assoc_enqueue s source packet now =
         s\<lparr>as_sources := (as_sources s)(ae_generation e := source),
           as_queues := (as_queues s)(ae_generation e := as_queues s (ae_generation e) @ [dg]),
           as_entries := AList.update source (e\<lparr>ae_last_activity := now\<rparr>)
             (if k \<noteq> source then AList.delete k (as_entries s) else as_entries s)\<rparr>"
proof (cases "decode_udp_packet packet SOCKS5_UDP_PACKET_LIMIT")
  case (Inr r)
  define k where "k = (if map_of (as_entries s) source \<noteq> None then source else set_port source 0)"
  have k: "k = source \<or> k = set_port source 0 \<and> map_of (as_entries s) source = None"
    by (simp add: k_def)
  obtain remote payload where r: "r = (remote, payload)"
    by fastforce
  let ?dg = "\<lparr>dg_remote = remote, dg_payload = payload, dg_sniffed_domain = None\<rparr>"
  have enqueue: "assoc_enqueue s source packet now =
      (case map_of (as_entries s) k of
         None \<Rightarrow> s
       | Some e \<Rightarrow>
           if entry_expired s now e then cancel_entry k e s
           else if QUEUE_CAPACITY \<le> length (as_queues s (ae_generation e)) then s
           else s\<lparr>as_sources := (as_sources s)(ae_generation e := source),
                  as_queues := (as_queues s)(ae_generation e := as_queues s (ae_generation e) @ [?dg]),
                  as_entries := AList.update source (e\<lparr>ae_last_activity := now\<rparr>)
                    (if k \<noteq> source then AList.delete k (as_entries s) else as_entries s)\<rparr>)"
    unfolding assoc_enqueue_def Inr r k_def by (simp only: sum.case prod.case Let_def)
  show ?thesis
  proof (cases "map_of (as_entries s) k")
    case None
    then show ?thesis
      using that(1) by (simp add: enqueue)
  next
    case (Some e)
    consider "entry_expired s now e" | "\<not> entry_expired s now e" "QUEUE_CAPACITY \<le> length (as_queues s (ae_generation e))"
      | "\<not> entry_expired s now e" "length (as_queues s (ae_generation e)) < QUEUE_CAPACITY"
      by linarith
    then show ?thesis
    proof cases
      case 1
      then show ?thesis
        using that(2) [OF Some] Some by (simp add: enqueue)
    next
      case 2
      then show ?thesis
        using that(1) Some by (simp add: enqueue)
    next
      case 3
      then show ?thesis
        using that(3) [OF Some k, of ?dg] Some by (simp add: enqueue)
    qed
  qed
qed (use that(1) in \<open>simp add: assoc_enqueue_def\<close>)

lemma moved_member:
  assumes "registry_inv s"
  shows "(k2, e2) \<in> set (AList.update source e' (if k \<noteq> source then AList.delete k (as_entries s) else as_entries s)) \<longleftrightarrow>
    (if k2 = source then e2 = e' else k2 \<noteq> k \<and> (k2, e2) \<in> set (as_entries s))"
  using inv_distinct [OF assms] by (auto simp: set_update set_delete distinct_delete)

lemma enqueue_inv:
  assumes "registry_inv s"
  shows "registry_inv (assoc_enqueue s source packet now)"
proof (cases rule: enqueue_cases [of s source packet now])
  case (3 k e dg)
  note e = inv_entry [OF assms 3(1)]
  show ?thesis
    unfolding 3(4)
  proof (rule registryI, goal_cases)
    case 1
    then show ?case
      using inv_distinct [OF assms] by (simp add: distinct_update distinct_delete)
  next
    case (2 k2 e2)
    then show ?case
      using e inv_member [OF assms, of k2 e2] by (auto simp: moved_member [OF assms] split: if_splits)
  next
    case (3 g)
    then show ?case
      using \<open>length (as_queues s (ae_generation e)) < QUEUE_CAPACITY\<close> queue_bound [OF assms, of g] by simp
  qed
qed (simp_all add: assms cancel_entry_inv)

section \<open>The history of a registry\<close>

lemma log_inv_frame:
  assumes "log_inv config s log" "as_next s' = as_next s" "as_sources s' = as_sources s" "live s' \<subseteq> live s"
    and "set log \<subseteq> set log'" "\<And>g. Revoked g \<in> set log' \<Longrightarrow> Revoked g \<in> set log"
  shows "log_inv config s' log'"
  using assms unfolding log_inv_def by (metis subset_iff)

lemma live_touch:
  "registry_inv s \<Longrightarrow> map_of (as_entries s) k = Some e \<Longrightarrow> ae_generation e' = ae_generation e \<Longrightarrow>
   live (s\<lparr>as_entries := AList.update k e' (as_entries s)\<rparr>) \<subseteq> live s"
  by (force simp: live_def set_update [OF inv_distinct] split: if_splits dest: map_of_SomeD)

lemma live_smaller:
  "live (cancel_entry k e s) \<subseteq> live s" "live (assoc_cleanup s now) \<subseteq> live s" "live (lease_drop s g) \<subseteq> live s"
  "live (receiver_close s g) = live s" "live (fst (assoc_receive s g)) = live s"
  by (auto simp: live_def cancel_entry_def assoc_cleanup_def lease_drop_def receiver_close_def assoc_receive_def Let_def
      set_delete image_iff split: list.splits if_splits)

lemma not_live_drop:
  assumes "registry_inv s"
  shows "g \<notin> live (lease_drop s g)"
proof
  assume "g \<in> live (lease_drop s g)"
  then obtain k e where e: "(k, e) \<in> set (as_entries (lease_drop s g))" "ae_generation e = g"
    by (auto simp: live_def)
  then have member: "(k, e) \<in> set (as_entries s)"
    by (auto simp: lease_drop_def Let_def set_delete split: if_splits)
  then have "map_of (as_entries s) (as_sources s g) = Some e" "as_sources s g = k"
    using inv_member [OF assms member] inv_distinct [OF assms] e(2) by auto
  then show False
    using e by (simp add: lease_drop_def Let_def set_delete)
qed

lemma frame_simps:
  "as_next (cancel_entry k e s) = as_next s" "as_sources (cancel_entry k e s) = as_sources s"
  "as_next (assoc_cleanup s now) = as_next s" "as_sources (assoc_cleanup s now) = as_sources s"
  "as_next (lease_drop s g) = as_next s" "as_sources (lease_drop s g) = as_sources s"
  "as_next (receiver_close s g) = as_next s" "as_sources (receiver_close s g) = as_sources s"
  "as_next (fst (assoc_receive s g)) = as_next s" "as_sources (fst (assoc_receive s g)) = as_sources s"
  by (simp_all add: cancel_entry_def assoc_cleanup_def lease_drop_def receiver_close_def assoc_receive_def Let_def
      split: list.split)

text \<open>An open port may be learned from a packet.\<close>

lemma allowed_source_learned:
  assumes "allowed_source config peer input k" "k = source \<or> k = set_port source 0"
  shows "allowed_source config peer input source"
  using assms(2)
proof
  assume k: "k = set_port source 0"
  have "set_port source 0 = set_port peer 0"
    using assms(1) k by (auto simp: allowed_source_def)
  then have "source = set_port peer (socket_port source)"
    by (metis set_port_simps(2,3))
  then show ?thesis
    using assms(1) k unfolding allowed_source_def by (metis set_port_simps(1))
qed (use assms(1) in simp)

lemma enqueue_log:
  assumes "registry_inv s" "log_inv config s log"
  shows "log_inv config (assoc_enqueue s source packet now) log"
proof (cases rule: enqueue_cases [of s source packet now])
  case (3 k e dg)
  let ?s = "assoc_enqueue s source packet now"
  have moved: "as_sources ?s = (as_sources s)(ae_generation e := source)" "as_next ?s = as_next s"
    by (simp_all add: 3(4))
  have smaller: "live ?s \<subseteq> live s"
  proof
    fix g assume "g \<in> live ?s"
    then obtain k2 e2 where "(k2, e2) \<in> set (as_entries ?s)" "ae_generation e2 = g"
      by (auto simp: live_def)
    then have "g = ae_generation e \<or> (k2, e2) \<in> set (as_entries s)"
      by (auto simp: 3(4) moved_member [OF assms(1)] split: if_splits)
    then show "g \<in> live s"
      using map_of_SomeD [OF 3(1)] \<open>ae_generation e2 = g\<close> by (force simp: live_def)
  qed
  have "allowed_source config peer input source" if "allowed_source config peer input k" for peer input
    by (rule allowed_source_learned [OF that]) (use 3(2) in blast)
  then have "allowed_source config peer input (as_sources ?s g)" if "allowed_source config peer input (as_sources s g)" for g peer input
    using that inv_entry [OF assms(1) 3(1)] by (auto simp: moved(1))
  then show ?thesis
    using assms(2) moved(2) smaller unfolding log_inv_def by (metis subset_iff)
qed (use assms log_inv_frame [OF assms(2)] in \<open>simp_all add: frame_simps live_smaller\<close>)

lemma register_Inr:
  assumes "assoc_register s peer port now = (s', Inr g)"
  obtains s0 where "s0 = s \<or> (\<exists>e. s0 = cancel_entry (set_port peer port) e s)"
    "s' = insert_entry (set_port peer port) now s0" "g = as_next s"
  using assms by (auto simp: assoc_register_def Let_def split: option.splits if_splits)

lemma register_Inl: "assoc_register s peer port now = (s', Inl e) \<Longrightarrow> s' = s"
  by (auto simp: assoc_register_def Let_def split: option.splits if_splits)

text \<open>A connection changes the registry only by a registration that its handshake asked for.\<close>

lemma answer_effects:
  assumes "answer s status bound outcome = (s', result)"
  shows "s' = s" "opened_effects peer input (out @ fst result, snd result) =
     (case outcome of Associated g rest \<Rightarrow> [Opened g peer input] | _ \<Rightarrow> [])"
  using assms
  by (cases outcome; cases "unwrap_or bound (SocketV4 0 0)"; auto simp: answer_def socks5_reply_def quiet_def emit_def)+

lemma handle_request_cases:
  assumes "handle_request config connect s peer relay socket now cmd destination rest = (s', result)" "cmd \<in> {1, 3}"
  shows "(s' = s \<and> opened_effects peer input (out @ fst result, snd result) = []) \<or>
    (\<exists>requested g. cmd = COMMAND_UDP_ASSOCIATE \<and> requested_source destination peer = Some requested \<and>
       assoc_register s peer (socket_port requested) now = (s', Inr g) \<and>
       opened_effects peer input (out @ fst result, snd result) = [Opened g peer input])"
proof -
  have plain: ?thesis if "answer s status bound outcome = (s', result)" "\<And>g rest. outcome \<noteq> Associated g rest" for status bound outcome
    using that(2) answer_effects(1) [OF that(1)] answer_effects(2) [OF that(1), of peer input out] by (cases outcome) auto
  show ?thesis
  proof (cases "(\<not> sc_ipv6 config \<and> dest_is_ipv6 destination) \<or> cmd = COMMAND_CONNECT \<or> \<not> socket \<or> requested_source destination peer = None")
    case True
    then show ?thesis
      using assms(1) plain by (auto simp: handle_request_def Let_def split: if_splits sum.splits)
  next
    case False
    then obtain requested where requested: "requested_source destination peer = Some requested"
      by auto
    have cmd: "cmd = COMMAND_UDP_ASSOCIATE"
      using False assms(2) by (auto simp: socks_constants)
    obtain s1 r where reg: "assoc_register s peer (socket_port requested) now = (s1, r)"
      by fastforce
    show ?thesis
    proof (cases r)
      case (Inl e)
      have "s1 = s"
        using register_Inl reg Inl by blast
      then have "answer s 2 None Answered = (s', result)"
        using False assms(1) requested reg Inl by (auto simp: handle_request_def)
      then show ?thesis
        by (rule plain) simp
    next
      case (Inr g)
      then have "answer s1 0 (Some relay) (Associated g rest) = (s', result)"
        using False assms(1) requested reg by (auto simp: handle_request_def)
      from answer_effects(1) [OF this] answer_effects(2) [OF this, of peer input out] show ?thesis
        using cmd requested reg Inr by simp
    qed
  qed
qed

lemma handle_connection_cases:
  assumes "handle_connection config connect s peer relay socket now input = (s', result)"
  obtains "s' = s" "opened_effects peer input result = []"
  | out destination requested rest g where
      "negotiate (sc_auth config) input = (out, Inr (COMMAND_UDP_ASSOCIATE, destination, rest))"
      "requested_source destination peer = Some requested"
      "assoc_register s peer (socket_port requested) now = (s', Inr g)" "opened_effects peer input result = [Opened g peer input]"
proof (cases "negotiate (sc_auth config) input")
  case (Pair out r)
  show ?thesis
  proof (cases r)
    case (Inl e)
    then show ?thesis
      using that(1) assms Pair by (auto simp: handle_connection_def)
  next
    case (Inr y)
    obtain cmd destination rest where y: "y = (cmd, destination, rest)"
      by (cases y)
    obtain s1 res where req: "handle_request config connect s peer relay socket now cmd destination rest = (s1, res)"
      by (cases "handle_request config connect s peer relay socket now cmd destination rest")
    have "s1 = s'" "result = (out @ fst res, snd res)"
      using assms Pair Inr y req by (auto simp: handle_connection_def split: prod.splits)
    moreover have "cmd \<in> {1, 3}"
      using Pair Inr y negotiate_steps [of "sc_auth config" input out cmd destination rest] by blast
    ultimately show ?thesis
      using handle_request_cases [OF req, of input out] that Pair Inr y by auto
  qed
qed

lemma connect_log:
  assumes "registry_inv s" "log_inv config s log"
    and "handle_connection config connect s peer relay socket now input = (s', result)"
  shows "registry_inv s' \<and> log_inv config s' (log @ opened_effects peer input result)"
  using assms(3)
proof (cases rule: handle_connection_cases)
  case (2 out destination requested rest g)
  let ?source = "set_port peer (socket_port requested)"
  obtain s0 where s0: "s0 = s \<or> (\<exists>e. s0 = cancel_entry ?source e s)" "s' = insert_entry ?source now s0" "g = as_next s"
    using 2(3) by (rule register_Inr)
  have old: "registry_inv s0" "as_next s0 = as_next s" "as_sources s0 = as_sources s"
    using s0(1) assms(1) cancel_entry_inv by (auto simp: frame_simps)
  have "live s0 \<subseteq> live s"
    using s0(1) live_smaller(1) by blast
  moreover have "live s' \<subseteq> insert g (live s0)"
  proof
    fix h assume "h \<in> live s'"
    then obtain k e where "(k, e) \<in> set (as_entries s')" "ae_generation e = h"
      by (auto simp: live_def)
    then show "h \<in> insert g (live s0)"
      using old(2) s0(3)
      by (force simp: s0(2) insert_entry_def Let_def live_def set_update [OF inv_distinct [OF old(1)]] split: if_splits)
  qed
  ultimately have live: "live s' \<subseteq> insert g (live s)"
    by blast
  have new: "as_next s' = Suc g" "as_sources s' = (as_sources s)(g := ?source)"
    using old(2,3) by (simp_all add: s0(2,3) insert_entry_def Let_def)
  have "allowed_source config peer input ?source"
    using 2(1,2) by (auto simp: allowed_source_def)
  then have opened: "\<exists>peer' input'. Opened h peer' input' \<in> set (log @ [Opened g peer input]) \<and>
      allowed_source config peer' input' (as_sources s' h)" if "h < as_next s'" for h
    using that assms(2) s0(3) by (cases "h = g") (auto simp: new log_inv_def less_Suc_eq)
  have "h < as_next s' \<and> h \<notin> live s'" if "Revoked h \<in> set log" for h
    using that assms(2) live s0(3) by (auto simp: new log_inv_def)
  then show ?thesis
    using opened insert_entry_inv [OF old(1)] s0(2) by (simp add: log_inv_def 2(4))
qed (use assms in simp_all)

lemma reply_log:
  assumes "registry_inv s" "log_inv config s log" "assoc_try_reply s g packet now sent = (s', target, r)"
  shows "log_inv config s' (log @ sent_effects g packet target)"
proof (rule log_inv_frame [OF assms(2)])
  show "live s' \<subseteq> live s"
    using reply_cases [OF assms(3), THEN conjunct1]
  proof
    assume "\<exists>e. map_of (as_entries s) (as_sources s g) = Some e \<and>
      s' = s\<lparr>as_entries := AList.update (as_sources s g) (e\<lparr>ae_last_activity := now\<rparr>) (as_entries s)\<rparr>"
    then obtain e where e: "map_of (as_entries s) (as_sources s g) = Some e"
      "s' = s\<lparr>as_entries := AList.update (as_sources s g) (e\<lparr>ae_last_activity := now\<rparr>) (as_entries s)\<rparr>"
      by blast
    show ?thesis
      unfolding e(2) by (rule live_touch [OF assms(1) e(1)]) simp
  qed simp
qed (use reply_cases [OF assms(3)] in \<open>auto simp: sent_effects_def split: option.splits\<close>)

lemma drop_log:
  assumes "registry_inv s" "log_inv config s log" "g < as_next s"
  shows "log_inv config (lease_drop s g) (log @ [Revoked g])"
  using assms not_live_drop [OF assms(1), of g] live_smaller(3) [of s g] unfolding log_inv_def frame_simps
  by (auto simp: subset_iff)

text \<open>
  Every packet given to the socket was allowed when it was sent: the association had been
  opened for the address, and its lease had not been dropped.
\<close>

fun effect_allowed :: "socks5_config \<Rightarrow> socks5_effect list \<Rightarrow> socks5_effect \<Rightarrow> bool" where
  "effect_allowed config before (Sent g address packet) \<longleftrightarrow>
     Revoked g \<notin> set before \<and> socket_port address \<noteq> 0 \<and>
     (\<exists>peer input. Opened g peer input \<in> set before \<and> allowed_source config peer input address)"
| "effect_allowed config before _ \<longleftrightarrow> True"

definition sends_allowed :: "socks5_config \<Rightarrow> socks5_effect list \<Rightarrow> bool" where
  "sends_allowed config log \<longleftrightarrow> (\<forall>before x after. log = before @ x # after \<longrightarrow> effect_allowed config before x)"

lemma sends_allowed_snoc: "sends_allowed config (log @ [y]) \<longleftrightarrow> sends_allowed config log \<and> effect_allowed config log y"
proof -
  have "log @ [y] = before @ x # after \<longleftrightarrow>
      (after = [] \<and> before = log \<and> x = y) \<or> (\<exists>after'. after = after' @ [y] \<and> log = before @ x # after')" for before x after
    by (cases after rule: rev_cases) auto
  then show ?thesis
    unfolding sends_allowed_def by metis
qed

lemma live_entry: "map_of (as_entries s) k = Some e \<Longrightarrow> ae_generation e \<in> live s"
  by (force simp: live_def dest: map_of_SomeD)

lemma run_invariant:
  "socks5_run config s log \<Longrightarrow> registry_inv s \<and> log_inv config s log \<and> sends_allowed config log"
proof (induction rule: socks5_run.induct)
  case run_start
  show ?case
    by (simp add: registry_inv_def log_inv_def sends_allowed_def associations_default_def)
next
  case (run_connect s log connect peer relay socket now input s' result)
  have "sends_allowed config (log @ opened_effects peer input result)"
    using run_connect.IH
    by (cases "(peer, input, result)" rule: opened_effects.cases) (simp_all add: sends_allowed_snoc)
  then show ?case
    using run_connect connect_log by blast
next
  case (run_packet s log source packet now)
  then show ?case
    using enqueue_inv enqueue_log by blast
next
  case (run_reply s log g source response packet now sent s' target result)
  have "sends_allowed config (log @ sent_effects g packet target)"
  proof (cases target)
    case (Some address)
    then have address: "address = as_sources s g" "socket_port address \<noteq> 0" "g \<in> live s"
      using reply_cases [OF run_reply.hyps(4)] live_entry by auto
    then show ?thesis
      using run_reply.IH run_reply.hyps(2) by (simp add: Some sent_effects_def sends_allowed_snoc log_inv_def) blast
  qed (use run_reply.IH in \<open>simp add: sent_effects_def\<close>)
  then show ?case
    using run_reply reply_inv reply_log by blast
next
  case (run_receive s log g)
  then show ?case
    using receive_inv log_inv_frame [of config s log "fst (assoc_receive s g)" log] by (simp add: frame_simps live_smaller)
next
  case (run_close s log g)
  then have "registry_inv (receiver_close s g)"
    by (simp add: registry_inv_def receiver_close_def)
  then show ?case
    using run_close log_inv_frame [of config s log "receiver_close s g" log] by (simp add: frame_simps live_smaller)
next
  case (run_cleanup s log now)
  then show ?case
    using cleanup_inv log_inv_frame [of config s log "assoc_cleanup s now" log] by (simp add: frame_simps live_smaller)
next
  case (run_drop s log g)
  then show ?case
    using drop_inv drop_log by (simp add: sends_allowed_snoc)
next
  case (run_shutdown s log)
  then show ?case
    using log_inv_frame [of config s log "s\<lparr>as_parent_cancelled := True\<rparr>" log]
    by (simp add: registry_inv_def live_def)
qed

section \<open>The path of a datagram\<close>

lemma enqueue_accepted:
  assumes "map_of (as_entries s) k = Some e" "\<not> entry_expired s now e"
    and "length (as_queues s (ae_generation e)) < QUEUE_CAPACITY"
    and "k = source \<or> (k = set_port source 0 \<and> map_of (as_entries s) source = None)"
    and "decode_udp_packet packet SOCKS5_UDP_PACKET_LIMIT = Inr (remote, payload)"
  shows "assoc_enqueue s source packet now =
    s\<lparr>as_sources := (as_sources s)(ae_generation e := source),
      as_queues := (as_queues s)(ae_generation e := as_queues s (ae_generation e) @
        [\<lparr>dg_remote = remote, dg_payload = payload, dg_sniffed_domain = None\<rparr>]),
      as_entries := AList.update source (e\<lparr>ae_last_activity := now\<rparr>)
        (if k \<noteq> source then AList.delete k (as_entries s) else as_entries s)\<rparr>"
proof -
  have "(if map_of (as_entries s) source \<noteq> None then source else set_port source 0) = k"
    using assms(1,4) by auto
  then show ?thesis
    using assms(1-3,5) unfolding assoc_enqueue_def by (simp add: Let_def)
qed

text \<open>
  Claim C16. In every run of the SOCKS5 inbound, whatever clients and the network do, a datagram is
  sent back only to an authorised address. Each packet given to the socket belongs to an association
  whose lease has not been dropped before, opened by a client whose input is a complete handshake
  for a UDP association; the address is that client's, scope included, with the port it asked for
  unless it left the port open. The queues of the associations stay within their capacity, and no
  two of them share an address.
\<close>

theorem socks5_replies_authorised:
  assumes "socks5_run config s log"
  shows "(\<forall>before g address packet after. log = before @ Sent g address packet # after \<longrightarrow>
      Revoked g \<notin> set before \<and> socket_port address \<noteq> 0 \<and>
      (\<exists>peer input out destination requested rest.
         Opened g peer input \<in> set before \<and>
         negotiate (sc_auth config) input = (out, Inr (COMMAND_UDP_ASSOCIATE, destination, rest)) \<and>
         requested_source destination peer = Some requested \<and>
         address = set_port peer (socket_port address) \<and>
         (socket_port requested = 0 \<or> socket_port address = socket_port requested))) \<and>
    (\<forall>g. length (as_queues s g) \<le> QUEUE_CAPACITY) \<and> distinct (map fst (as_entries s)) \<and>
    (\<forall>(k, e) \<in> set (as_entries s). as_sources s (ae_generation e) = k)"
proof -
  have inv: "registry_inv s" "sends_allowed config log"
    using run_invariant [OF assms] by blast+
  have "effect_allowed config before (Sent g address packet)" if "log = before @ Sent g address packet # after"
    for before g address packet after
    using inv(2) that unfolding sends_allowed_def by blast
  then show ?thesis
    using inv(1) unfolding registry_inv_def effect_allowed.simps allowed_source_def by blast
qed

text \<open>A run of one client that asks for an association with an open port.\<close>

definition sample_config :: socks5_config where
  "sample_config = \<lparr>sc_auth = None, sc_ipv6 = True\<rparr>"

definition sample_input :: bytes where
  "sample_input = [5, 1, 0, 5, 3, 0, 1, 0, 0, 0, 0, 0, 0]"

definition sample_peer :: socket_addr where
  "sample_peer = SocketV4 0x7F000001 40000"

definition sample_source :: socket_addr where
  "sample_source = SocketV4 0x7F000001 10000"

definition sample_packet :: bytes where
  "sample_packet = [0, 0, 0, 1, 8, 8, 8, 8, 0, 53, 7]"

definition sample_registry :: associations where
  "sample_registry = fst (handle_connection sample_config (\<lambda>_. Inl NotAllowed) associations_default sample_peer
     (SocketV4 0x7F000001 1080) True 5 sample_input)"

lemma sample_handshake:
  "negotiate None sample_input = ([5, 0], Inr (3, DestIp (SocketV4 0 0), []))"
  by (simp add: negotiate_def sample_input_def read_u8_def read_exact_def read_u16_def authenticate_def read_destination_def Let_def
      socks_constants address_types u32_of_def u16_of_def from_be_def quiet_def)

lemma sample_opens:
  "\<exists>result. handle_connection sample_config (\<lambda>_. Inl NotAllowed) associations_default sample_peer
       (SocketV4 0x7F000001 1080) True 5 sample_input = (sample_registry, result) \<and>
     opened_effects sample_peer sample_input result = [Opened 0 sample_peer sample_input]"
  "sample_registry = insert_entry (SocketV4 0x7F000001 0) 5 associations_default"
  by (simp_all add: sample_registry_def handle_connection_def sample_config_def sample_handshake handle_request_def
      requested_source_def socks_constants assoc_register_def associations_default_def sample_peer_def answer_def socks5_reply_def
      quiet_def emit_def)

lemma sample_decodes:
  "decode_udp_packet sample_packet SOCKS5_UDP_PACKET_LIMIT = Inr (DestIp (SocketV4 0x08080808 53), [7])"
  by (simp add: decode_udp_packet_def sample_packet_def decode_address_def SOCKS5_UDP_PACKET_LIMIT_def subslice_def get_at_def
      address_types u16_of_def u32_of_def from_be_def Let_def)

lemma sample_entry:
  "map_of (as_entries sample_registry) (SocketV4 0x7F000001 0) = Some \<lparr>ae_generation = 0, ae_last_activity = 5\<rparr>"
  "\<not> entry_expired sample_registry 6 \<lparr>ae_generation = 0, ae_last_activity = 5\<rparr>"
  "as_queues sample_registry g = []" "length (as_queues sample_registry g) < QUEUE_CAPACITY"
  "SocketV4 0x7F000001 0 = sample_source \<or>
     SocketV4 0x7F000001 0 = set_port sample_source 0 \<and> map_of (as_entries sample_registry) sample_source = None"
  "socket_port sample_source \<noteq> 0"
  by (simp_all add: sample_opens(2) insert_entry_def associations_default_def sample_source_def entry_expired_def
      IDLE_TIMEOUT_def QUEUE_CAPACITY_def)

theorem socks5_replies_authorised_witness:
  "\<exists>s. socks5_run sample_config s [Opened 0 sample_peer sample_input, Sent 0 sample_source sample_packet] \<and>
     (\<exists>peer. set_port peer 10000 = sample_source) \<and> length (as_queues s 0) \<le> QUEUE_CAPACITY"
proof -
  let ?s = "assoc_enqueue sample_registry sample_source sample_packet 6"
  let ?dg = "\<lparr>dg_remote = DestIp (SocketV4 0x08080808 53), dg_payload = [7], dg_sniffed_domain = None\<rparr>"
  have "socks5_run sample_config sample_registry ([] @ [Opened 0 sample_peer sample_input])"
    using sample_opens(1) run_connect [OF run_start] by metis
  then have run: "socks5_run sample_config ?s [Opened 0 sample_peer sample_input]"
    using run_packet by simp
  have s: "as_sources ?s 0 = sample_source" "map_of (as_entries ?s) sample_source = Some \<lparr>ae_generation = 0, ae_last_activity = 6\<rparr>"
      "as_next ?s = 1" "as_cancelled ?s = {}" "as_closed ?s = {}" "\<not> as_parent_cancelled ?s"
    unfolding enqueue_accepted [OF sample_entry(1,2,4,5) sample_decodes]
    by (simp_all add: sample_opens(2) insert_entry_def associations_default_def update_conv')
  obtain s' r where reply: "assoc_try_reply ?s 0 sample_packet 7 (Inr (length sample_packet)) = (s', Some sample_source, r)"
    using s sample_entry(6) by (simp add: assoc_try_reply_def entry_expired_def IDLE_TIMEOUT_def Let_def)
  have "relay_packet sample_source ?dg = Some sample_packet"
    by (simp add: relay_packet_def datagram_session_new_def SOCKS5_UDP_PACKET_LIMIT_def encode_udp_packet_def checked_add_def
        usize_max_def sample_packet_def address_types be32_def be16_def to_be_4 to_be_2)
  from run_reply [OF run _ this reply] have
    final: "socks5_run sample_config s' [Opened 0 sample_peer sample_input, Sent 0 sample_source sample_packet]"
    using s(3) by (simp add: sent_effects_def)
  from socks5_replies_authorised [OF this] have
    "(\<exists>peer. set_port peer (socket_port sample_source) = sample_source) \<and> length (as_queues s' 0) \<le> QUEUE_CAPACITY"
    by (metis append_Cons append_Nil)
  then show ?thesis
    using final by (auto simp: sample_source_def)
qed



end
