(* ===== verification/Spec2Isabelle.thy ===== *)
theory Spec2Isabelle
  imports Socks5_Codec Address_Codec AnyTLS_Padding Packet_Window Routing_Dispatch Dns_Opaque_Cache
    Tuic_Association Xudp Geo_Index
    Http_Forward Http_Transfer Socks5_Server
begin

text \<open>
  \<^bold>\<open>A verification development for the Vole proxy core.\<close>

  \<^bold>\<open>The program.\<close> Vole is a proxy engine written in Rust. An inbound (a TUN device, an HTTP or a
  SOCKS5 listener) accepts a connection or a datagram and describes it by a session with a
  destination. The routing dispatcher decides by a list of rules, by DNS and by GeoData assets whether
  the session is rejected, sent directly, or sent through a proxy or a group of proxies. An outbound
  then speaks the wire protocol of its proxy. The development models the deterministic core of these
  parts: codecs, parsers, caches, tables, decision procedures and the state machines of datagram
  transports. Tasks, sockets, timers and cryptography stay outside, as arguments or as events.

  \<^bold>\<open>Conventions.\<close> A machine integer is a word of its width; \<^verbatim>\<open>usize\<close> is a natural number, with the
  64-bit ceiling written out where the code checks for it. Bytes and strings are lists of bytes. A
  \<^verbatim>\<open>Result\<close> is a sum with the error on the left, of an I/O error the kind is kept. A panic (an index
  out of range, an \<^verbatim>\<open>unwrap\<close> of nothing, a subtraction below zero) is None where a proof shows that it
  cannot happen. A future that is dropped is the value \<open>Pending\<close> with the state it leaves. A byte
  stream is the list of what its reads find (\<^verbatim>\<open>Byte_Stream\<close>); a step that writes returns what it has
  written. Code outside the sources is a parameter, and what is used of it is a hypothesis of the
  theorem, with an instance in its witness. A loop is a total function, by structural recursion or
  with a termination proof. Two receive loops, of the bounding wrapper and of XUDP, are partial
  functions, and are shown to return in every good state. No definition takes fuel.

  \<^bold>\<open>Shared theories.\<close>
  \<^item> \<^verbatim>\<open>Wire_Prelude\<close>: words, byte strings, big-endian conversion, results, UTF-8, readers.
  \<^item> \<^verbatim>\<open>Wire_Codec\<close>: the locale \<^verbatim>\<open>prefix_codec\<close> of self-delimiting codecs; it is interpreted by the SOCKS5,
    port-first, packetaddr and TUIC address codecs.
  \<^item> \<^verbatim>\<open>Rust_Str\<close>, \<^verbatim>\<open>Rust_Net\<close>, \<^verbatim>\<open>Rust_Search\<close>: what the code uses of Rust's standard library, the string
    functions, the text form of numbers and addresses, the binary search.
  \<^item> \<^verbatim>\<open>Byte_Stream\<close>: streams cut into reads of any size, and what a reader may depend on.
  \<^item> \<^verbatim>\<open>Session_Model\<close>: \<^verbatim>\<open>src/session.rs\<close>, destinations, sessions and datagrams; \<^verbatim>\<open>Rust_Net\<close> has its
    authority form, shown to parse back (C20).

  \<^bold>\<open>Inbounds.\<close>
  \<^item> \<^verbatim>\<open>Socks5_Codec\<close> (\<^verbatim>\<open>src/socks5.rs\<close>): addresses and UDP packets; decoding is exactly the inverse of
    encoding (C10).
  \<^item> \<^verbatim>\<open>Socks5_Handshake\<close> (\<^verbatim>\<open>src/inbound/socks5/handshake.rs\<close>): the conversation before a connection is
    relayed, accepted exactly when well formed and with the configured credentials
    (C15).
  \<^item> \<^verbatim>\<open>Socks5_Server\<close> (\<^verbatim>\<open>src/inbound/socks5/association.rs\<close>, \<^verbatim>\<open>server.rs\<close>): the registry of UDP associations and the
    connection handler, composed in a transition system of clients, packets, replies, timeouts and
    dropped leases; replies go only to authorised addresses of live leases
    (C16) and datagrams find their way
    (C17).
  \<^item> \<^verbatim>\<open>Proxy_Auth\<close> (\<^verbatim>\<open>src/config/credentials.rs\<close>): constant-time comparison and the HTTP field (C19).
  \<^item> \<^verbatim>\<open>Http_Parser\<close> (\<^verbatim>\<open>src/inbound/http/parser.rs\<close>) and \<^verbatim>\<open>Http_Framing\<close> (\<^verbatim>\<open>framing.rs\<close>): request and
    response heads, message length, the plan of a forwarded request. \<^verbatim>\<open>Http_Forward\<close> shows that what is
    forwarded has one meaning for the next hop (C13, C18), \<^verbatim>\<open>Http_Transfer\<close> that bodies arrive unchanged
    through chunking and any cut into reads (C14).

  \<^bold>\<open>Routing.\<close>
  \<^item> \<^verbatim>\<open>Routing_Rules\<close> (\<^verbatim>\<open>src/routing/mod.rs\<close>): compilation and the two evaluators; at most one resolution
    is asked for and the answer agrees with plain evaluation (C11); a compiled list always decides.
  \<^item> \<^verbatim>\<open>Proxy_Graph\<close> (\<^verbatim>\<open>src/config/mod.rs\<close>): group declarations and the construction order, sound and
    complete for acyclic graphs (C4, C27). \<^verbatim>\<open>Proxy_Groups\<close> (\<^verbatim>\<open>src/routing/proxy_group.rs\<close>): selections in
    shared cells (C12) and resolution to a leaf (C28).
  \<^item> \<^verbatim>\<open>Routing_Dispatch\<close> (\<^verbatim>\<open>src/routing/dispatcher.rs\<close>): the decision (C5), the TCP plan (C29), UDP
    associations with lazily opened transports and pinned flows (C30, C31).
  \<^item> \<^verbatim>\<open>Geo_Selectors\<close>, \<^verbatim>\<open>Geo_Proto\<close>, \<^verbatim>\<open>Geo_Ip\<close>, \<^verbatim>\<open>Geo_Site\<close>, \<^verbatim>\<open>Geo_Site_Match\<close>, \<^verbatim>\<open>Geo_Index\<close> (\<^verbatim>\<open>src/geodata\<close>): the
    selectors, the protobuf reader, both category parsers, the compact indexes and the loader. A
    selector matches exactly when a record of the asset does (C1, C9); the first pass finds exactly the
    requested categories (C22); the chunked UTF-8 check is the definition of UTF-8 (C23).

  \<^bold>\<open>DNS.\<close> \<^verbatim>\<open>Dns_Message\<close>, \<^verbatim>\<open>Dns_Cache\<close> and \<^verbatim>\<open>Dns_Opaque_Cache\<close> (\<^verbatim>\<open>src/dns/mod.rs\<close>): wire format (C32,
  C33), and three bounded caches. The locales \<^verbatim>\<open>expiring_cache\<close> and \<^verbatim>\<open>keyed_table\<close> state what a client
  relies on; the typed cache and the reverse hints are shown to implement the table of latest values
  (C3, C34, C35), the opaque cache to keep its limits and to rewrite a hit correctly (C21, C36).

  \<^bold>\<open>Outbounds and datagram transports.\<close>
  \<^item> \<^verbatim>\<open>Datagram_Transport\<close> (\<^verbatim>\<open>src/dispatch.rs\<close>, \<^verbatim>\<open>src/dispatch/datagram.rs\<close>): the contract of a transport as the
    locales \<^verbatim>\<open>datagram_transport\<close> and \<^verbatim>\<open>resumable_transport\<close>, and the bounding wrapper, which keeps it (C39).
  \<^item> \<^verbatim>\<open>Xudp\<close> (\<^verbatim>\<open>src/xudp.rs\<close>): an interpretation of that contract; a dropped receive loses nothing (C8),
    frames arrive however they are cut (C40).
  \<^item> \<^verbatim>\<open>Tuic_Wire\<close>, \<^verbatim>\<open>Tuic_Datagram\<close>, \<^verbatim>\<open>Tuic_Association\<close> (\<^verbatim>\<open>src/outbound/tuic\<close>): commands, reassembly in any
    order (C7), and the associations of a connection, which also interpret the contract (C37, C38).
  \<^item> \<^verbatim>\<open>AnyTLS_Frame\<close>, \<^verbatim>\<open>AnyTLS_Padding\<close> (\<^verbatim>\<open>src/outbound/anytls\<close>): frames and the padded writer, transparent to
    the reader (C6) and total on parsed schemes (C25, C26).
  \<^item> \<^verbatim>\<open>Address_Codec\<close> (\<^verbatim>\<open>src/outbound/address.rs\<close>): two address formats, which reject every truncation
    (C24). \<^verbatim>\<open>Packet_Window\<close> (\<^verbatim>\<open>src/outbound/shadowsocks/packet_window.rs\<close>): the replay ring implements the
    set of accepted ids (C2).

  \<^bold>\<open>Bounds.\<close> The limits are those of the code: the ring, queue, cache, header and packet limits are constants of the model under their source names. Theorems about lengths assume at
  most that a byte string is addressable.

  \<^bold>\<open>Not modelled.\<close> Accept loops, relays, task supervision and lifecycle (\<^verbatim>\<open>src/runtime.rs\<close>,
  \<^verbatim>\<open>src/inbound/*/server.rs\<close>, \<^verbatim>\<open>src/tun_runtime.rs\<close>, \<^verbatim>\<open>src/dns/runtime.rs\<close>): their content is the order in
  which the operating system and the async runtime complete operations. The user-space network stack
  and the stream transports (\<^verbatim>\<open>crates/vole-netstack\<close>, \<^verbatim>\<open>src/transport\<close>): adapters around smoltcp, h2,
  h3 and quinn. TLS and the encrypted outbounds (\<^verbatim>\<open>src/security\<close>, VLESS, VMess, Trojan, Hysteria2,
  Shadowsocks streams): they rest on cryptography crates, and a model with an arbitrary cipher would
  say little. The sniffers, the per-protocol configuration and the GeoData manager are deterministic in
  part and are left for later. Platform layers, the foreign-function interface and the command line are
  system calls and serialisation.
\<close>

end
